(* ===== verification/OS_Prelude.thy ===== *)
theory OS_Prelude
  imports Main "HOL-Library.Word" "HOL-Library.Monad_Syntax" "HOL-Library.Multiset"
begin

text \<open>
  Shared prelude of the development: the C integer types of the simulator, the
  conversions the compiler inserts between them, the host allocator as an oracle, the
  array-shifting loop that several functions repeat, and the generic lemmas the component
  theories rest on.
\<close>

unbundle bit_operations_syntax

named_theorems frame_simps \<open>which parts of the state an operation leaves alone\<close>
named_theorems inv_intros \<open>operations that keep a well-formedness invariant\<close>
named_theorems c_defs \<open>definitions of conversions and constants, for evaluation\<close>

section \<open>C types and conversions\<close>

type_synonym addr = "64 word"      \<comment> \<open>addr_t and arg_t, uint64_t under MM64\<close>
type_synonym byte = "8 word"       \<comment> \<open>BYTE, a (signed) char\<close>
type_synonym uint32 = "32 word"
type_synonym pptr = nat            \<comment> \<open>struct pcb_t pointer\<close>

text \<open>The null process pointer; every other number is the address of a PCB.\<close>

definition NULL :: pptr where [c_defs]: "NULL = 0"

text \<open>
  A C \<open>int\<close> is a HOL \<open>int\<close> kept in the 32-bit signed range. \<open>int32\<close> is
  two's complement wrap-around, \<open>addr_of_int\<close> is the conversion of an \<open>int\<close> to
  \<open>addr_t\<close> (sign extension), \<open>int_of_addr\<close> the narrowing conversion back, and
  \<open>addr_of_byte\<close> the integer promotion of a \<open>char\<close> assigned to an \<open>addr_t\<close>.
\<close>

definition int32 :: "int \<Rightarrow> int" where [c_defs]:
  "int32 i = sint (word_of_int i :: 32 word)"

definition addr_of_int :: "int \<Rightarrow> addr" where [c_defs]:
  "addr_of_int i = word_of_int i"

definition int_of_addr :: "addr \<Rightarrow> int" where [c_defs]:
  "int_of_addr a = sint (ucast a :: 32 word)"

definition addr_of_byte :: "byte \<Rightarrow> addr" where [c_defs]:
  "addr_of_byte b = scast b"

lemma int32_id: "-(2 ^ 31) \<le> i \<Longrightarrow> i < 2 ^ 31 \<Longrightarrow> int32 i = i"
  by (simp add: int32_def signed_take_bit_int_eq_self_iff sint_sbintrunc' signed_take_bit_int_eq_self)

lemma int_of_addr_small: "unat a < 2 ^ 31 \<Longrightarrow> int_of_addr a = int (unat a)"
proof -
  assume "unat a < 2 ^ 31"
  then have "int (unat a) < int (2 ^ 31)" by (simp only: of_nat_less_iff)
  then have a: "uint a < 2 ^ 31" by (simp only: uint_nat of_nat_power of_nat_numeral)
  then have "uint (ucast a :: 32 word) = uint a"
    by (simp add: unsigned_ucast_eq take_bit_int_eq_self)
  with a show ?thesis
    by (simp add: int_of_addr_def sint_uint signed_take_bit_int_eq_self_iff
        order_trans [OF _ unsigned_greater_eq])
qed

lemma uint_addr_of_int: "0 \<le> i \<Longrightarrow> i < 2 ^ 64 \<Longrightarrow> uint (addr_of_int i) = i"
  unfolding addr_of_int_def by (subst uint_word_of_int) simp

lemma uint_add_small: "uint a + uint b < 2 ^ 64 \<Longrightarrow> uint (a + b :: addr) = uint a + uint b"
  by (simp add: uint_word_ariths)

lemma uint_of_nat_small:
  assumes "j < 2 ^ 64"
  shows "uint (of_nat j :: addr) = int j"
  using assms by (simp add: unsigned_of_nat take_bit_nat_eq_self)

lemma unat_less_nat_iff: "unat a < nat m \<longleftrightarrow> uint a < m"
  unfolding unat_eq_nat_uint by (rule nat_less_eq_zless) (rule unsigned_greater_eq)

section \<open>The host allocator\<close>

text \<open>
  \<open>malloc\<close> and \<open>calloc\<close> of the host may fail. The outcome of the coming calls is an
  oracle, one boolean per call; \<open>host_ok\<close> says that the host never runs out of memory.
\<close>

type_synonym host = "nat \<Rightarrow> bool"

definition halloc :: "host \<Rightarrow> bool \<times> host" where
  "halloc h = (h 0, \<lambda>n. h (Suc n))"

definition host_ok :: "host \<Rightarrow> bool" where
  "host_ok h \<longleftrightarrow> (\<forall>n. h n)"

lemma halloc_ok: "host_ok h \<Longrightarrow> halloc h = (b, h') \<Longrightarrow> b \<and> host_ok h'"
  by (auto simp: halloc_def host_ok_def)

lemma halloc_host_ok [simp]: "host_ok h \<Longrightarrow> fst (halloc h)" "host_ok h \<Longrightarrow> host_ok (snd (halloc h))"
  by (auto simp: halloc_def host_ok_def)

lemma host_ok_True [simp]: "host_ok (\<lambda>_. True)"
  by (simp add: host_ok_def)

section \<open>Shifting an array to the left\<close>

text \<open>
  The loop \<open>for (j = i; j < n; j++) a[j] = a[j + 1]\<close>, which \<open>dequeue\<close>,
  \<open>purgequeue\<close> and \<open>finish_proc\<close> run.
\<close>

function shift_left :: "'a list \<Rightarrow> nat \<Rightarrow> nat \<Rightarrow> 'a list" where
  "shift_left xs i n = (if i < n then shift_left (xs[i := xs ! (i + 1)]) (i + 1) n else xs)"
  by pat_completeness auto
termination
  by (relation "measure (\<lambda>(xs, i, n). n - i)") auto

declare shift_left.simps [simp del]

lemma length_shift_left [simp]: "length (shift_left xs i n) = length xs"
  by (induction xs i n rule: shift_left.induct) (simp add: shift_left.simps)

lemma nth_shift_left:
  "n < length xs \<Longrightarrow> k < length xs \<Longrightarrow>
   shift_left xs i n ! k = (if i \<le> k \<and> k < n then xs ! (k + 1) else xs ! k)"
proof (induction xs i n rule: shift_left.induct)
  case (1 xs i n)
  show ?case
  proof (cases "i < n")
    case True
    with 1 show ?thesis
      by (subst shift_left.simps) (auto simp: nth_list_update)
  next
    case False
    then show ?thesis by (subst shift_left.simps) auto
  qed
qed

lemma take_shift_left:
  "i \<le> n \<Longrightarrow> n < length xs \<Longrightarrow>
   take n (shift_left xs i n) = take i xs @ take (n - i) (drop (Suc i) xs)"
  by (rule nth_equalityI) (auto simp: nth_shift_left nth_append min_def)

section \<open>Lists\<close>

lemma take_Suc_update [simp]: "n < length xs \<Longrightarrow> take (Suc n) (xs[n := x]) = take n xs @ [x]"
  by (simp add: take_Suc_conv_app_nth)

lemma remove1_split: "x \<notin> set us \<Longrightarrow> remove1 x (us @ x # vs) = us @ vs"
  by (induction us) auto

lemma in_set_tlD: "x \<in> set (tl xs) \<Longrightarrow> x \<in> set xs"
  by (cases xs) auto

lemma sum_list_update_int:
  "k < length xs \<Longrightarrow> sum_list (xs[k := x]) = sum_list xs + x - (xs ! k :: int)"
  by (induction xs arbitrary: k) (auto split: nat.split)

lemma count_list_replicate [simp]: "count_list (replicate n x) x = n"
  by (induction n) auto

lemma find_snoc: "find Q xs = None \<Longrightarrow> Q x \<Longrightarrow> find Q (xs @ [x]) = Some x"
  by (induction xs) (auto split: if_splits)

end
