(* ===== verification/Proc_Queue.thy ===== *)
theory Proc_Queue
  imports OS_Prelude
begin

text \<open>
  The process queue of src/queue.c and include/queue.h: a fixed array of
  \<open>MAX_QUEUE_SIZE\<close> PCB pointers and a fill count. The contract of a bounded FIFO is
  the locale \<open>bounded_fifo\<close>; it is interpreted on the array code below, so that the
  scheduler's lemmas rest on the contract and not on array shifting.
\<close>

section \<open>The structure and its operations\<close>

definition MAX_QUEUE_SIZE :: nat where [c_defs]: "MAX_QUEUE_SIZE = 50"

text \<open>
  \<open>struct queue_t\<close>. The count is a C \<open>int\<close> that starts at 0 and is decremented only
  when it is positive, so a \<open>nat\<close> holds it.
\<close>

record queue_t =
  qproc :: "pptr list"
  qsize :: nat

text \<open>
  Each function has the body for a queue that exists and, with the suffix \<open>_ptr\<close>, the
  function on a possibly null queue pointer (\<open>None\<close>).
\<close>

definition empty :: "queue_t \<Rightarrow> bool" where
  "empty q \<longleftrightarrow> qsize q = 0"

definition empty_ptr :: "queue_t option \<Rightarrow> bool" where
  "empty_ptr qp = (case qp of None \<Rightarrow> True | Some q \<Rightarrow> empty q)"

definition enqueue :: "queue_t \<Rightarrow> pptr \<Rightarrow> int \<times> queue_t" where
  "enqueue q p =
     (if MAX_QUEUE_SIZE \<le> qsize q then (-1, q)
      else (0, q\<lparr>qproc := (qproc q)[qsize q := p], qsize := qsize q + 1\<rparr>))"

definition enqueue_ptr :: "queue_t option \<Rightarrow> pptr \<Rightarrow> int \<times> queue_t option" where
  "enqueue_ptr qp p =
     (case qp of None \<Rightarrow> (-1, None) | Some q \<Rightarrow> map_prod id Some (enqueue q p))"

definition dequeue :: "queue_t \<Rightarrow> pptr \<times> queue_t" where
  "dequeue q =
     (if qsize q = 0 then (NULL, q)
      else (qproc q ! 0,
            q\<lparr>qproc := shift_left (qproc q) 0 (qsize q - 1), qsize := qsize q - 1\<rparr>))"

definition dequeue_ptr :: "queue_t option \<Rightarrow> pptr \<times> queue_t option" where
  "dequeue_ptr qp =
     (case qp of None \<Rightarrow> (NULL, None) | Some q \<Rightarrow> map_prod id Some (dequeue q))"

text \<open>The search loop of \<open>purgequeue\<close> and of \<open>finish_proc\<close>, from index \<open>i\<close>.\<close>

function find_index :: "pptr list \<Rightarrow> pptr \<Rightarrow> nat \<Rightarrow> nat \<Rightarrow> nat option" where
  "find_index xs p i n =
     (if i < n then if xs ! i = p then Some i else find_index xs p (i + 1) n else None)"
  by pat_completeness auto
termination
  by (relation "measure (\<lambda>(xs, p, i, n). n - i)") auto

declare find_index.simps [simp del]

definition purgequeue :: "queue_t \<Rightarrow> pptr \<Rightarrow> pptr \<times> queue_t" where
  "purgequeue q p =
     (if p = NULL then (NULL, q)
      else case find_index (qproc q) p 0 (qsize q) of
        None \<Rightarrow> (NULL, q)
      | Some i \<Rightarrow> (qproc q ! i,
          q\<lparr>qproc := shift_left (qproc q) i (qsize q - 1), qsize := qsize q - 1\<rparr>))"

definition purgequeue_ptr :: "queue_t option \<Rightarrow> pptr \<Rightarrow> pptr \<times> queue_t option" where
  "purgequeue_ptr qp p =
     (case qp of None \<Rightarrow> (NULL, None) | Some q \<Rightarrow> map_prod id Some (purgequeue q p))"

section \<open>The contract of a bounded FIFO\<close>

text \<open>Dequeue \<open>n\<close> times, collecting what comes out; enqueue a whole list.\<close>

fun drain :: "('q \<Rightarrow> 'a \<times> 'q) \<Rightarrow> nat \<Rightarrow> 'q \<Rightarrow> 'a list \<times> 'q" where
  "drain deq 0 q = ([], q)"
| "drain deq (Suc n) q = (let (x, q') = deq q; (xs, q'') = drain deq n q' in (x # xs, q''))"

fun feed :: "('q \<Rightarrow> 'a \<Rightarrow> int \<times> 'q) \<Rightarrow> 'a list \<Rightarrow> 'q \<Rightarrow> 'q" where
  "feed enq [] q = q"
| "feed enq (x # xs) q = feed enq xs (snd (enq q x))"

locale bounded_fifo =
  fixes enq :: "'q \<Rightarrow> 'a \<Rightarrow> int \<times> 'q"
    and deq :: "'q \<Rightarrow> 'a \<times> 'q"
    and is_empty :: "'q \<Rightarrow> bool"
    and items :: "'q \<Rightarrow> 'a list"
    and wf :: "'q \<Rightarrow> bool"
    and cap :: nat
    and null :: 'a
  assumes within_cap: "wf q \<Longrightarrow> length (items q) \<le> cap"
    and enq_room: "wf q \<Longrightarrow> length (items q) < cap \<Longrightarrow>
      \<exists>q'. enq q x = (0, q') \<and> wf q' \<and> items q' = items q @ [x]"
    and enq_full: "wf q \<Longrightarrow> length (items q) = cap \<Longrightarrow> enq q x = (-1, q)"
    and deq_none: "wf q \<Longrightarrow> items q = [] \<Longrightarrow> deq q = (null, q)"
    and deq_some: "wf q \<Longrightarrow> items q = x # xs \<Longrightarrow>
      \<exists>q'. deq q = (x, q') \<and> wf q' \<and> items q' = xs"
    and empty_iff: "wf q \<Longrightarrow> is_empty q \<longleftrightarrow> items q = []"
begin

lemma enq_wf: "wf q \<Longrightarrow> wf (snd (enq q x))"
  using enq_room [of q x] enq_full [of q x] within_cap [of q]
  by (cases "length (items q) < cap") auto

lemma enq_items:
  "wf q \<Longrightarrow> items (snd (enq q x)) = (if fst (enq q x) = 0 then items q @ [x] else items q)"
  using enq_room [of q x] enq_full [of q x] within_cap [of q]
  by (cases "length (items q) < cap") auto

lemma enq_result: "wf q \<Longrightarrow> fst (enq q x) = (if length (items q) < cap then 0 else -1)"
  using enq_room [of q x] enq_full [of q x] within_cap [of q]
  by (cases "length (items q) < cap") auto

lemma deq_wf: "wf q \<Longrightarrow> wf (snd (deq q))"
  using deq_none [of q] deq_some [of q] by (cases "items q") auto

lemma deq_items: "wf q \<Longrightarrow> items (snd (deq q)) = tl (items q)"
  using deq_none [of q] deq_some [of q] by (cases "items q") auto

lemma deq_result: "wf q \<Longrightarrow> fst (deq q) = (if items q = [] then null else hd (items q))"
  using deq_none [of q] deq_some [of q] by (cases "items q") auto

lemma feed_items:
  "wf q \<Longrightarrow> length (items q) + length xs \<le> cap \<Longrightarrow>
   wf (feed enq xs q) \<and> items (feed enq xs q) = items q @ xs"
proof (induction xs arbitrary: q)
  case Nil
  then show ?case by simp
next
  case (Cons x xs)
  then obtain q' where "enq q x = (0, q')" "wf q'" "items q' = items q @ [x]"
    using enq_room [of q x] by auto
  with Cons.IH [of q'] Cons.prems show ?case by simp
qed

lemma drain_items:
  "wf q \<Longrightarrow> n \<le> length (items q) \<Longrightarrow>
   fst (drain deq n q) = take n (items q) \<and> wf (snd (drain deq n q)) \<and>
   items (snd (drain deq n q)) = drop n (items q)"
proof (induction n arbitrary: q)
  case 0
  then show ?case by simp
next
  case (Suc n)
  then obtain x xs where xs: "items q = x # xs" by (cases "items q") auto
  with Suc.prems obtain q' where "deq q = (x, q')" "wf q'" "items q' = xs"
    using deq_some by blast
  with Suc.IH [of q'] Suc.prems xs show ?case by (simp add: split_beta)
qed

theorem fifo_order:
  assumes "wf q" "items q = []" "length xs \<le> cap"
  shows "fst (drain deq (length xs) (feed enq xs q)) = xs"
  using feed_items [of q xs] drain_items [of "feed enq xs q" "length xs"] assms by simp

end

section \<open>The array code meets the contract\<close>

definition queue_wf :: "queue_t \<Rightarrow> bool" where
  "queue_wf q \<longleftrightarrow> length (qproc q) = MAX_QUEUE_SIZE \<and> qsize q \<le> MAX_QUEUE_SIZE"

definition queue_items :: "queue_t \<Rightarrow> pptr list" where
  "queue_items q = take (qsize q) (qproc q)"

text \<open>A queue as \<open>init_scheduler\<close> leaves it: the static array, all zero, and count 0.\<close>

definition new_queue :: queue_t where
  "new_queue = \<lparr>qproc = replicate MAX_QUEUE_SIZE NULL, qsize = 0\<rparr>"

lemma new_queue_wf [simp]: "queue_wf new_queue" and new_queue_items [simp]: "queue_items new_queue = []"
  by (simp_all add: new_queue_def queue_wf_def queue_items_def)

lemma length_queue_items [simp]: "queue_wf q \<Longrightarrow> length (queue_items q) = qsize q"
  by (simp add: queue_wf_def queue_items_def)

lemma queue_items_ConsD:
  assumes "queue_items q = x # xs"
  obtains ps n where "qproc q = x # ps" "qsize q = Suc n" "xs = take n ps"
  using assms by (cases "qproc q"; cases "qsize q") (auto simp: queue_items_def)

interpretation pq: bounded_fifo enqueue dequeue empty queue_items queue_wf MAX_QUEUE_SIZE NULL
proof (unfold_locales, goal_cases)
  case (1 q)
  then show ?case by (simp add: queue_wf_def)
next
  case (2 q x)
  then show ?case by (auto simp: enqueue_def queue_wf_def queue_items_def)
next
  case (3 q x)
  then show ?case by (auto simp: enqueue_def)
next
  case (4 q)
  then show ?case by (auto simp: dequeue_def queue_items_def queue_wf_def)
next
  case (5 q x xs)
  from \<open>queue_items q = x # xs\<close> obtain ps n
    where "qproc q = x # ps" "qsize q = Suc n" "xs = take n ps" by (rule queue_items_ConsD)
  with \<open>queue_wf q\<close> show ?case
    by (auto simp: dequeue_def queue_wf_def queue_items_def take_shift_left)
next
  case (6 q)
  then show ?case by (auto simp: empty_def queue_items_def queue_wf_def)
qed


section \<open>Removal from the middle\<close>

lemma find_index_Some:
  "find_index xs p i n = Some k \<Longrightarrow> i \<le> k \<and> k < n \<and> xs ! k = p \<and> (\<forall>j. i \<le> j \<and> j < k \<longrightarrow> xs ! j \<noteq> p)"
proof (induction xs p i n rule: find_index.induct)
  case (1 xs p i n)
  show ?case
  proof (cases "i < n \<and> xs ! i \<noteq> p")
    case True
    with 1 have "find_index xs p (i + 1) n = Some k" by (simp add: find_index.simps [of xs p i n])
    with 1 True have "i + 1 \<le> k \<and> k < n \<and> xs ! k = p \<and> (\<forall>j. i + 1 \<le> j \<and> j < k \<longrightarrow> xs ! j \<noteq> p)"
      by blast
    with True show ?thesis by (metis Suc_eq_plus1 Suc_le_eq le_neq_implies_less order_less_imp_le)
  next
    case False
    with 1 show ?thesis by (auto simp: find_index.simps [of xs p i n] split: if_splits)
  qed
qed

lemma find_index_None: "find_index xs p i n = None \<Longrightarrow> i \<le> j \<Longrightarrow> j < n \<Longrightarrow> xs ! j \<noteq> p"
proof (induction xs p i n rule: find_index.induct)
  case (1 xs p i n)
  from "1.prems" have "xs ! i \<noteq> p" "find_index xs p (i + 1) n = None"
    by (auto simp: find_index.simps [of xs p i n] split: if_splits)
  with 1 show ?case by (cases "i = j") auto
qed

lemma take_shift_remove1:
  assumes "find_index xs p 0 n = Some k" "n \<le> length xs"
  shows "take (n - 1) (shift_left xs k (n - 1)) = remove1 p (take n xs)"
proof -
  have k: "k < n" "xs ! k = p" and before: "\<forall>j < k. xs ! j \<noteq> p"
    using find_index_Some [OF assms(1)] by auto
  from k assms(2) have split: "take n xs = take k xs @ p # take (n - 1 - k) (drop (Suc k) xs)"
    using id_take_nth_drop [of k "take n xs"] by (simp add: drop_take min_def)
  have "p \<notin> set (take k xs)"
    using before k assms(2) by (auto simp: in_set_conv_nth)
  with split k assms(2) show ?thesis
    by (simp add: take_shift_left remove1_split)
qed

text \<open>Where \<open>p\<close> is found, the removal loop takes its first occurrence out of the queue.\<close>

lemma queue_remove_at:
  assumes "queue_wf q" "find_index (qproc q) p 0 (qsize q) = Some i"
  defines "q' \<equiv> q\<lparr>qproc := shift_left (qproc q) i (qsize q - 1), qsize := qsize q - 1\<rparr>"
  shows "queue_wf q' \<and> queue_items q' = remove1 p (queue_items q) \<and> qproc q ! i = p"
  using assms take_shift_remove1 [OF assms(2)] find_index_Some [OF assms(2)]
  by (auto simp: queue_wf_def queue_items_def)

lemma find_index_None_iff:
  "queue_wf q \<Longrightarrow> find_index (qproc q) p 0 (qsize q) = None \<longleftrightarrow> p \<notin> set (queue_items q)"
  using find_index_None [of "qproc q" p 0 "qsize q"] find_index_Some [of "qproc q" p 0 "qsize q"]
  by (cases "find_index (qproc q) p 0 (qsize q)")
     (fastforce simp: queue_items_def queue_wf_def in_set_conv_nth)+

section \<open>Properties\<close>

text \<open>
  FIFO order. What is put into a freshly initialised process queue with \<open>enqueue\<close>
  comes out of it with \<open>dequeue\<close> in the same order, up to the capacity of 50.
\<close>

theorem queue_fifo:
  assumes "length ps \<le> MAX_QUEUE_SIZE"
  shows "fst (drain dequeue (length ps) (feed enqueue ps new_queue)) = ps"
  using assms by (intro pq.fifo_order) simp_all

theorem queue_fifo_witness:
  "fst (drain dequeue (length [7 :: pptr, 3, 9]) (feed enqueue [7, 3, 9] new_queue)) = [7, 3, 9]"
  by (rule queue_fifo) (simp add: MAX_QUEUE_SIZE_def)

text \<open>
  Capacity. \<open>enqueue\<close> on a well-formed queue succeeds exactly when fewer than 50
  processes wait, appends at the back on success and changes nothing on failure, so no
  write ever leaves the array.
\<close>

theorem enqueue_spec:
  assumes "queue_wf q"
  shows "fst (enqueue q p) = (if qsize q < MAX_QUEUE_SIZE then 0 else -1) \<and>
    queue_wf (snd (enqueue q p)) \<and>
    queue_items (snd (enqueue q p)) =
      (if qsize q < MAX_QUEUE_SIZE then queue_items q @ [p] else queue_items q)"
  using pq.enq_result [OF assms, of p] pq.enq_wf [OF assms, of p] pq.enq_items [OF assms, of p] assms
  by simp

theorem enqueue_spec_witness:
  "queue_items (snd (enqueue new_queue 5)) = [5] \<and> fst (enqueue new_queue 5) = 0"
proof -
  have "qsize new_queue < MAX_QUEUE_SIZE" by (simp add: new_queue_def MAX_QUEUE_SIZE_def)
  with enqueue_spec [OF new_queue_wf, of 5] show ?thesis by simp
qed

text \<open>
  \<open>purgequeue\<close> takes the first occurrence of a process out of a queue, from any
  position and with the order of the others kept; a process that is not queued, or a null
  pointer, leaves the queue as it was and returns null.
\<close>

theorem purgequeue_spec:
  assumes "queue_wf q"
  shows "queue_wf (snd (purgequeue q p)) \<and>
    (if p \<noteq> NULL \<and> p \<in> set (queue_items q)
     then fst (purgequeue q p) = p \<and> queue_items (snd (purgequeue q p)) = remove1 p (queue_items q)
     else purgequeue q p = (NULL, q))"
  using assms queue_remove_at [OF assms, of p] find_index_None_iff [OF assms, of p]
  by (cases "find_index (qproc q) p 0 (qsize q)") (auto simp: purgequeue_def)

theorem purgequeue_spec_witness:
  "queue_items (snd (purgequeue (feed enqueue [7, 3, 9, 3] new_queue) 3)) = [7, 9, 3]"
proof -
  have q: "queue_wf (feed enqueue [7, 3, 9, 3] new_queue)"
    "queue_items (feed enqueue [7, 3, 9, 3] new_queue) = [7, 3, 9, 3]"
    using pq.feed_items [of new_queue "[7, 3, 9, 3]"] by (simp_all add: MAX_QUEUE_SIZE_def)
  with purgequeue_spec [OF q(1), of 3] show ?thesis by (simp add: NULL_def)
qed

end
