(* ===== verification/Os_Types.thy ===== *)
theory Os_Types
  imports Proc_Queue
begin

text \<open>
  The data structures of include/common.h and include/os-mm.h as records and datatypes.
  Singly linked lists of nodes that nothing else points to (free regions, frames, slots,
  slabs, memory areas, the FIFO of pages) are HOL lists, with \<open>[]\<close> for the null head.
  A page-table level is a table of 512 entries: a null entry is \<open>None\<close>.
\<close>

section \<open>Instructions and code segments\<close>

datatype ins_opcode_t =
  CALC | ALLOC | FREE | READ | WRITE | KMALLOC | KMEM_CACHE_CREATE | KMEM_CACHE_ALLOC
| COPY_FROM_USER | COPY_TO_USER | SYSCALL

record inst_t =
  opcode :: ins_opcode_t
  arg_0 :: addr
  arg_1 :: addr
  arg_2 :: addr
  arg_3 :: addr

record code_seg_t =
  code_text :: "inst_t list"
  code_size :: uint32

section \<open>Virtual memory regions and areas\<close>

text \<open>
  \<open>struct vm_rg_struct\<close>: free-list nodes use only the bounds; the entries of the symbol
  table also carry \<open>vmaid\<close>, so the record of the table extends the record of the node.
\<close>

record rg_node =
  rg_start :: addr
  rg_end :: addr

record vm_rg_struct = rg_node +
  vmaid :: int

record vm_area_struct =
  vm_id :: addr
  vm_start :: addr
  vm_end :: addr
  sbrk :: addr
  vm_freerg_list :: "rg_node list"

section \<open>Kernel cache pools\<close>

record kmem_cache_slab_struct =
  slab_start :: addr
  slot_size :: int
  slot_count :: int
  free_count :: int
  free_list :: "addr list"

record kcache_pool_struct =
  pool_size :: int
  pool_align :: int
  pool_slot_count :: int
  pool_storage :: addr
  pool_alloc_size :: addr
  pool_empty :: "kmem_cache_slab_struct list"
  pool_partial :: "kmem_cache_slab_struct list"
  pool_full :: "kmem_cache_slab_struct list"

section \<open>Page tables, address spaces, devices\<close>

datatype ptab = PT "addr \<Rightarrow> addr" | Dir "addr \<Rightarrow> ptab option"

definition PAGING_MAX_SYMTBL_SZ :: nat where [c_defs]: "PAGING_MAX_SYMTBL_SZ = 30"

text \<open>
  \<open>struct mm_struct\<close>. The fields \<open>p4d\<close>, \<open>pud\<close>, \<open>pmd\<close> and \<open>pt\<close>, which
  only remember the tables of the last walk and are never read, have no counterpart.
  \<open>kcpooltbl\<close> is the array of cache pools with its length for \<open>kcpooltbl_size\<close>.
\<close>

record mm_struct =
  mm_pgd :: "ptab option"
  mm_mmap :: "vm_area_struct list"
  symrgtbl :: "vm_rg_struct list"
  fifo_pgn :: "addr list"
  kcpooltbl :: "kcache_pool_struct list option"

text \<open>
  \<open>struct memphy_struct\<close>: \<open>storage\<close> is the content of the allocated bytes and
  \<open>storage_len\<close> how many were allocated (0 for a null pointer).
\<close>

record memphy_struct =
  storage :: "addr \<Rightarrow> byte"
  storage_len :: nat
  maxsz :: int
  rdmflg :: bool
  cursor :: int
  free_fp_list :: "addr list"
  used_fp_list :: "addr list"

section \<open>Kernel context and process control block\<close>

text \<open>
  \<open>struct krnl_t\<close>: the queue pointers are null or point to the scheduler's static
  queues (a boolean); device pointers are numbers of devices; the root of the kernel page
  table, which the contexts of all processes share, is the number of a root table.
\<close>

record krnl_t =
  k_ready_queue :: bool
  k_running_list :: bool
  k_mlq_ready_queue :: bool
  k_mm :: "mm_struct option"
  k_mram :: "nat option"
  k_active_mswp :: "nat option"
  k_active_mswp_id :: uint32
  krnl_pgd :: "nat option"

record pcb_t =
  pid :: uint32
  priority :: uint32
  code :: "code_seg_t option"
  regs :: "addr list"
  pc :: uint32
  prio :: uint32
  krnl :: "krnl_t option"
  bp :: uint32

type_synonym pcbs_t = "pptr \<Rightarrow> pcb_t option"

end
