(* ===== verification/Sched_Spec.thy ===== *)
theory Sched_Spec
  imports Os_Types
begin

text \<open>
  What the simulator relies on from its scheduler, whichever of the two builds of src/sched.c is chosen: the
  dispatcher hands out processes that wait, and a process that is put back or added waits. The interface is the
  locale \<open>ready_scheduler\<close>; \<open>fifo_scheduler\<close> extends it with the order of a single queue. Both are
  interpreted on the code, in the theories of the two schedulers.
\<close>

section \<open>Runs of scheduler operations\<close>

text \<open>
  What the CPU threads and the loader do to the scheduler, in the order in which they obtain the queue lock. The
  run collects what the dispatcher returned; it is \<open>None\<close> when one of the operations ends the simulator.
\<close>

datatype sched_op = Get | Put pptr | Add pptr | Finish pptr

fun sched_run :: "('s \<Rightarrow> pptr \<times> 's) \<Rightarrow> ('s \<Rightarrow> 'c \<Rightarrow> pptr \<Rightarrow> 'e + 's \<times> 'c) \<Rightarrow> ('s \<Rightarrow> 'c \<Rightarrow> pptr \<Rightarrow> 'e + 's \<times> 'c) \<Rightarrow>
    ('s \<Rightarrow> pptr \<Rightarrow> 's) \<Rightarrow> 's \<Rightarrow> 'c \<Rightarrow> sched_op list \<Rightarrow> (pptr list \<times> 's \<times> 'c) option" where
  "sched_run get put add fin s P [] = Some ([], s, P)"
| "sched_run get put add fin s P (Get # ops) =
     (let (p, s1) = get s in map_option (map_prod (Cons p) id) (sched_run get put add fin s1 P ops))"
| "sched_run get put add fin s P (Put p # ops) =
     (case put s P p of Inl e \<Rightarrow> None | Inr (s1, P1) \<Rightarrow> sched_run get put add fin s1 P1 ops)"
| "sched_run get put add fin s P (Add p # ops) =
     (case add s P p of Inl e \<Rightarrow> None | Inr (s1, P1) \<Rightarrow> sched_run get put add fin s1 P1 ops)"
| "sched_run get put add fin s P (Finish p # ops) = sched_run get put add fin (fin s p) P ops"

text \<open>The processes a sequence of operations makes wait, and the processes among the results of the dispatcher.\<close>

fun entered :: "sched_op list \<Rightarrow> pptr list" where
  "entered [] = []"
| "entered (Put p # ops) = (if p = NULL then entered ops else p # entered ops)"
| "entered (Add p # ops) = (if p = NULL then entered ops else p # entered ops)"
| "entered (op # ops) = entered ops"

definition dispatched :: "pptr list \<Rightarrow> pptr list" where
  "dispatched out = filter (\<lambda>p. p \<noteq> NULL) out"

lemma dispatched_simps [simp]:
  "dispatched [] = []" "dispatched (p # out) = (if p = NULL then dispatched out else p # dispatched out)"
  by (simp_all add: dispatched_def)

section \<open>The interface\<close>

locale ready_scheduler =
  fixes get :: "'s \<Rightarrow> pptr \<times> 's"
    and put :: "'s \<Rightarrow> 'c \<Rightarrow> pptr \<Rightarrow> 'e + 's \<times> 'c"
    and add :: "'s \<Rightarrow> 'c \<Rightarrow> pptr \<Rightarrow> 'e + 's \<times> 'c"
    and fin :: "'s \<Rightarrow> pptr \<Rightarrow> 's"
    and idle :: "'s \<Rightarrow> bool"
    and wf :: "'s \<Rightarrow> bool"
    and ready :: "'s \<Rightarrow> pptr list"
  assumes get_wf: "wf s \<Longrightarrow> wf (snd (get s))"
    and get_null: "wf s \<Longrightarrow> fst (get s) = NULL \<longleftrightarrow> ready s = []"
    and get_ready: "wf s \<Longrightarrow> mset (ready s) = mset (dispatched [fst (get s)]) + mset (ready (snd (get s)))"
    and idle_iff: "wf s \<Longrightarrow> idle s \<longleftrightarrow> ready s = []"
    and put_wf: "wf s \<Longrightarrow> put s P p = Inr (s', P') \<Longrightarrow> wf s'"
    and put_ready: "wf s \<Longrightarrow> put s P p = Inr (s', P') \<Longrightarrow> mset (ready s') = mset (ready s) + mset (entered [Put p])"
    and add_wf: "wf s \<Longrightarrow> add s P p = Inr (s', P') \<Longrightarrow> wf s'"
    and add_ready: "wf s \<Longrightarrow> add s P p = Inr (s', P') \<Longrightarrow> mset (ready s') = mset (ready s) + mset (entered [Add p])"
    and fin_wf: "wf s \<Longrightarrow> wf (fin s p)"
    and fin_ready: "wf s \<Longrightarrow> ready (fin s p) = ready s"
begin

abbreviation run :: "'s \<Rightarrow> 'c \<Rightarrow> sched_op list \<Rightarrow> (pptr list \<times> 's \<times> 'c) option" where
  "run \<equiv> sched_run get put add fin"

text \<open>The first step of a run.\<close>

lemma run_ConsE:
  assumes "run s P (op # ops) = Some (out, s', P')"
  obtains (get) out1 where "op = Get" "out = fst (get s) # out1" "run (snd (get s)) P ops = Some (out1, s', P')"
  | (put) p s1 P1 where "op = Put p" "put s P p = Inr (s1, P1)" "run s1 P1 ops = Some (out, s', P')"
  | (add) p s1 P1 where "op = Add p" "add s P p = Inr (s1, P1)" "run s1 P1 ops = Some (out, s', P')"
  | (fin) p where "op = Finish p" "run (fin s p) P ops = Some (out, s', P')"
  using assms by (cases op) (auto simp: split_beta split: sum.splits)

text \<open>No process is lost or invented: what was dispatched and what still waits is what waited and what entered.\<close>

lemma run_conserves:
  "run s P ops = Some (out, s', P') \<Longrightarrow> wf s \<Longrightarrow>
   wf s' \<and> mset (dispatched out) + mset (ready s') = mset (ready s) + mset (entered ops)"
proof (induction ops arbitrary: s P out)
  case (Cons op ops)
  from Cons.prems(1) show ?case
  proof (cases rule: run_ConsE)
    case (get out1)
    with Cons.IH [OF get(3)] Cons.prems(2) get_wf get_ready [of s] show ?thesis by (auto simp: ac_simps)
  next
    case (put p s1 P1)
    with Cons.IH [OF put(3)] Cons.prems(2) put_wf [OF _ put(2)] put_ready [OF _ put(2)] show ?thesis
      by (auto simp: ac_simps)
  next
    case (add p s1 P1)
    with Cons.IH [OF add(3)] Cons.prems(2) add_wf [OF _ add(2)] add_ready [OF _ add(2)] show ?thesis
      by (auto simp: ac_simps)
  next
    case (fin p)
    with Cons.IH [OF fin(2)] Cons.prems fin_wf fin_ready show ?thesis by auto
  qed
qed simp

text \<open>The dispatcher answers null exactly when the scheduler is idle.\<close>

lemma get_idle: "wf s \<Longrightarrow> fst (get s) = NULL \<longleftrightarrow> idle s"
  by (simp add: get_null idle_iff)

end

text \<open>A single queue: the front is dispatched, and what enters goes to the back.\<close>

locale fifo_scheduler = ready_scheduler +
  assumes get_front: "wf s \<Longrightarrow> ready s = p # ps \<Longrightarrow> fst (get s) = p \<and> ready (snd (get s)) = ps"
    and put_back: "wf s \<Longrightarrow> put s P p = Inr (s', P') \<Longrightarrow> ready s' = ready s @ entered [Put p]"
    and add_back: "wf s \<Longrightarrow> add s P p = Inr (s', P') \<Longrightarrow> ready s' = ready s @ entered [Add p]"
begin

lemma get_order: "wf s \<Longrightarrow> ready s = dispatched [fst (get s)] @ ready (snd (get s))"
  using get_front [of s] get_null [of s] get_ready [of s] by (cases "ready s") auto

lemma run_order:
  "run s P ops = Some (out, s', P') \<Longrightarrow> wf s \<Longrightarrow> dispatched out @ ready s' = ready s @ entered ops"
proof (induction ops arbitrary: s P out)
  case (Cons op ops)
  from Cons.prems(1) show ?case
  proof (cases rule: run_ConsE)
    case (get out1)
    with Cons.IH [OF get(3)] Cons.prems(2) get_wf get_order [of s] show ?thesis by auto
  next
    case (put p s1 P1)
    with Cons.IH [OF put(3)] Cons.prems(2) put_wf [OF _ put(2)] put_back [OF _ put(2)] show ?thesis by auto
  next
    case (add p s1 P1)
    with Cons.IH [OF add(3)] Cons.prems(2) add_wf [OF _ add(2)] add_back [OF _ add(2)] show ?thesis by auto
  next
    case (fin p)
    with Cons.IH [OF fin(2)] Cons.prems fin_wf fin_ready show ?thesis by auto
  qed
qed simp

text \<open>Whoever waits behind \<open>k\<close> others is the result of the dispatch number \<open>k + 1\<close>, whatever enters meanwhile.\<close>

lemma run_service:
  "run s P ops = Some (out, s', P') \<Longrightarrow> wf s \<Longrightarrow> k < length (ready s) \<Longrightarrow> k < count_list ops Get \<Longrightarrow>
   k < length out \<and> out ! k = ready s ! k"
proof (induction ops arbitrary: s P out k)
  case (Cons op ops)
  from Cons.prems(1) show ?case
  proof (cases rule: run_ConsE)
    case (get out1)
    from Cons.prems(3) obtain p ps where "ready s = p # ps" by (cases "ready s") auto
    with get Cons.IH [OF get(3), of "k - 1"] Cons.prems get_front get_wf [of s] show ?thesis by (cases k) auto
  next
    case (put p s1 P1)
    with Cons.IH [OF put(3), of k] Cons.prems put_wf [OF _ put(2)] put_back [OF _ put(2)] show ?thesis
      by (auto simp: nth_append)
  next
    case (add p s1 P1)
    with Cons.IH [OF add(3), of k] Cons.prems add_wf [OF _ add(2)] add_back [OF _ add(2)] show ?thesis
      by (auto simp: nth_append)
  next
    case (fin p)
    with Cons.IH [OF fin(2), of k] Cons.prems fin_wf fin_ready show ?thesis by auto
  qed
qed simp

end

end
