(* ===== verification/Mlq_Sched.thy ===== *)
theory Mlq_Sched
  imports Sched_Spec
begin

text \<open>
  The multi-level queue scheduler of src/sched.c (build option MLQ_SCHED): one ready
  queue per priority, a slot budget per priority and round, and the list of live
  processes. Every function takes the queue lock for its whole body, so each is one
  atomic operation on the record below.
\<close>

section \<open>State and operations\<close>

definition MAX_PRIO :: nat where [c_defs]: "MAX_PRIO = 140"

record sched =
  ready_queue :: queue_t
  run_queue :: queue_t
  running_list :: queue_t
  mlq_ready_queue :: "queue_t list"
  slot :: "int list"

text \<open>Where the code calls \<open>exit(EXIT_FAILURE)\<close> or follows a null pointer.\<close>

datatype sched_fault = Invalid_priority | Enqueue_failed string | Null_pointer

definition valid_mlq_prio :: "uint32 \<Rightarrow> bool" where
  "valid_mlq_prio p \<longleftrightarrow> unat p < MAX_PRIO"

definition fresh_slots :: "int list" where
  "fresh_slots = map (\<lambda>i. int MAX_PRIO - int i) [0..<MAX_PRIO]"

definition reset_queue :: "queue_t \<Rightarrow> queue_t" where
  "reset_queue q = q\<lparr>qsize := 0\<rparr>"

definition init_scheduler :: "sched \<Rightarrow> sched" where
  "init_scheduler s = s\<lparr>ready_queue := reset_queue (ready_queue s),
     run_queue := reset_queue (run_queue s), running_list := reset_queue (running_list s),
     mlq_ready_queue := map reset_queue (mlq_ready_queue s), slot := fresh_slots\<rparr>"

definition queue_empty :: "sched \<Rightarrow> bool" where
  "queue_empty s \<longleftrightarrow> (\<forall>q \<in> set (mlq_ready_queue s). empty q)"

text \<open>
  One scan of \<open>get_mlq_proc\<close> from priority \<open>i\<close>: take from the first queue that is not
  empty and still has budget.
\<close>

function scan_prio :: "sched \<Rightarrow> nat \<Rightarrow> pptr \<times> sched" where
  "scan_prio s i =
     (if i < MAX_PRIO then
        if \<not> empty (mlq_ready_queue s ! i) \<and> 0 < slot s ! i then
          let (p, q) = dequeue (mlq_ready_queue s ! i)
          in (p, s\<lparr>mlq_ready_queue := (mlq_ready_queue s)[i := q],
                   slot := (slot s)[i := slot s ! i - 1]\<rparr>)
        else scan_prio s (i + 1)
      else (NULL, s))"
  by pat_completeness auto
termination
  by (relation "measure (\<lambda>(s, i). MAX_PRIO - i)") auto

declare scan_prio.simps [simp del]

definition all_zero :: "sched \<Rightarrow> bool" where
  "all_zero s \<longleftrightarrow> (\<forall>b \<in> set (slot s). \<not> 0 < b)"

text \<open>The loop that starts a new round: every budget back to \<open>MAX_PRIO - prio\<close>.\<close>

definition reset_slots :: "sched \<Rightarrow> sched" where
  "reset_slots s = s\<lparr>slot := fresh_slots\<rparr>"

definition get_mlq_proc :: "sched \<Rightarrow> pptr \<times> sched" where
  "get_mlq_proc s =
     (let (p1, s1) = scan_prio s 0;
          (p2, s2) = (if p1 = NULL then scan_prio (reset_slots s1) 0 else (p1, s1))
      in (p2, if all_zero s2 then reset_slots s2 else s2))"

text \<open>Both \<open>put_mlq_proc\<close> and \<open>add_mlq_proc\<close> point the process at the scheduler's queues.\<close>

definition attach_queues :: "krnl_t \<Rightarrow> krnl_t" where
  "attach_queues k =
     k\<lparr>k_ready_queue := True, k_mlq_ready_queue := True, k_running_list := True\<rparr>"

definition put_mlq_proc :: "sched \<Rightarrow> pcbs_t \<Rightarrow> pptr \<Rightarrow> sched_fault + (sched \<times> pcbs_t)" where
  "put_mlq_proc s P p =
     (if p = NULL then Inr (s, P)
      else case P p of None \<Rightarrow> Inl Null_pointer
      | Some b \<Rightarrow>
          if \<not> valid_mlq_prio (prio b) then Inl Invalid_priority
          else case krnl b of None \<Rightarrow> Inl Null_pointer
          | Some k \<Rightarrow>
              let i = unat (prio b); (r, q) = enqueue (mlq_ready_queue s ! i) p
              in if r \<noteq> 0 then Inl (Enqueue_failed ''MLQ ready queue'')
                 else Inr (s\<lparr>mlq_ready_queue := (mlq_ready_queue s)[i := q]\<rparr>,
                           P(p \<mapsto> b\<lparr>krnl := Some (attach_queues k)\<rparr>)))"

definition add_mlq_proc :: "sched \<Rightarrow> pcbs_t \<Rightarrow> pptr \<Rightarrow> sched_fault + (sched \<times> pcbs_t)" where
  "add_mlq_proc s P p =
     (if p = NULL then Inr (s, P)
      else case P p of None \<Rightarrow> Inl Null_pointer
      | Some b \<Rightarrow>
          if \<not> valid_mlq_prio (prio b) then Inl Invalid_priority
          else case krnl b of None \<Rightarrow> Inl Null_pointer
          | Some k \<Rightarrow>
              let i = unat (prio b); (r, q) = enqueue (mlq_ready_queue s ! i) p
              in if r \<noteq> 0 then Inl (Enqueue_failed ''MLQ ready queue'')
                 else let (r', l) = enqueue (running_list s) p
                 in if r' \<noteq> 0 then Inl (Enqueue_failed ''running list'')
                    else Inr (s\<lparr>mlq_ready_queue := (mlq_ready_queue s)[i := q], running_list := l\<rparr>,
                              P(p \<mapsto> b\<lparr>krnl := Some (attach_queues k)\<rparr>)))"

text \<open>
  The search loop of \<open>find_proc\<close>. The running list holds live processes only (the theory of
  the simulation shows it of every reachable state), so an entry without a PCB, where the code would
  read freed memory, does not occur; it is passed over here.
\<close>

function find_pid :: "pcbs_t \<Rightarrow> pptr list \<Rightarrow> uint32 \<Rightarrow> nat \<Rightarrow> nat \<Rightarrow> pptr" where
  "find_pid P xs n i m =
     (if i < m then
        case (if xs ! i = NULL then None else P (xs ! i)) of
          Some b \<Rightarrow> if pid b = n then xs ! i else find_pid P xs n (i + 1) m
        | None \<Rightarrow> find_pid P xs n (i + 1) m
      else NULL)"
  by pat_completeness auto
termination
  by (relation "measure (\<lambda>(P, xs, n, i, m). m - i)") auto

declare find_pid.simps [simp del]

definition find_proc :: "sched \<Rightarrow> pcbs_t \<Rightarrow> uint32 \<Rightarrow> pptr" where
  "find_proc s P n = find_pid P (qproc (running_list s)) n 0 (qsize (running_list s))"

definition finish_proc :: "sched \<Rightarrow> pptr \<Rightarrow> sched" where
  "finish_proc s p =
     (let l = running_list s in
      case find_index (qproc l) p 0 (qsize l) of None \<Rightarrow> s
      | Some i \<Rightarrow> s\<lparr>running_list := l\<lparr>
          qproc := (shift_left (qproc l) i (qsize l - 1))[qsize l - 1 := NULL],
          qsize := qsize l - 1\<rparr>\<rparr>)"

definition get_proc :: "sched \<Rightarrow> pptr \<times> sched" where
  "get_proc = get_mlq_proc"

definition put_proc :: "sched \<Rightarrow> pcbs_t \<Rightarrow> pptr \<Rightarrow> sched_fault + (sched \<times> pcbs_t)" where
  "put_proc = put_mlq_proc"

definition add_proc :: "sched \<Rightarrow> pcbs_t \<Rightarrow> pptr \<Rightarrow> sched_fault + (sched \<times> pcbs_t)" where
  "add_proc = add_mlq_proc"


section \<open>Well-formed scheduler states\<close>

text \<open>What waits at a priority, and everything that waits.\<close>

definition waiting_at :: "sched \<Rightarrow> nat \<Rightarrow> pptr list" where
  "waiting_at s i = queue_items (mlq_ready_queue s ! i)"

definition waiting :: "sched \<Rightarrow> pptr list" where
  "waiting s = concat (map queue_items (mlq_ready_queue s))"

definition queues_wf :: "sched \<Rightarrow> bool" where
  "queues_wf s \<longleftrightarrow> length (mlq_ready_queue s) = MAX_PRIO \<and>
     (\<forall>q \<in> set (mlq_ready_queue s). queue_wf q \<and> NULL \<notin> set (queue_items q)) \<and>
     queue_wf (running_list s)"

definition slots_wf :: "int list \<Rightarrow> bool" where
  "slots_wf bs \<longleftrightarrow> length bs = MAX_PRIO \<and>
     (\<forall>i < MAX_PRIO. 0 \<le> bs ! i \<and> bs ! i \<le> int MAX_PRIO - int i) \<and> (\<exists>i < MAX_PRIO. 0 < bs ! i)"

definition sched_wf :: "sched \<Rightarrow> bool" where
  "sched_wf s \<longleftrightarrow> queues_wf s \<and> slots_wf (slot s)"

lemma MAX_PRIO_pos [simp]: "0 < MAX_PRIO"
  by (simp add: MAX_PRIO_def)

lemma length_fresh_slots [simp]: "length fresh_slots = MAX_PRIO"
  by (simp add: fresh_slots_def)

lemma nth_fresh_slots [simp]: "i < MAX_PRIO \<Longrightarrow> fresh_slots ! i = int MAX_PRIO - int i"
  by (simp add: fresh_slots_def)

lemma fresh_slots_pos: "i < MAX_PRIO \<Longrightarrow> 0 < fresh_slots ! i"
  by simp

lemma slots_wf_fresh [simp]: "slots_wf fresh_slots"
  using MAX_PRIO_pos by (auto simp: slots_wf_def simp del: MAX_PRIO_pos)

lemma queues_wf_nth:
  "queues_wf s \<Longrightarrow> i < MAX_PRIO \<Longrightarrow>
   queue_wf (mlq_ready_queue s ! i) \<and> NULL \<notin> set (waiting_at s i)"
  by (auto simp: queues_wf_def waiting_at_def)

lemma empty_waiting_at: "queues_wf s \<Longrightarrow> i < MAX_PRIO \<Longrightarrow> empty (mlq_ready_queue s ! i) \<longleftrightarrow> waiting_at s i = []"
  using queues_wf_nth [of s i] by (simp add: waiting_at_def pq.empty_iff)

lemma waiting_nil_iff: "queues_wf s \<Longrightarrow> waiting s = [] \<longleftrightarrow> (\<forall>i < MAX_PRIO. waiting_at s i = [])"
  by (auto simp: waiting_def waiting_at_def queues_wf_def in_set_conv_nth) (metis nth_mem)

section \<open>One scan\<close>

definition eligible :: "sched \<Rightarrow> nat \<Rightarrow> bool" where
  "eligible s i \<longleftrightarrow> i < MAX_PRIO \<and> waiting_at s i \<noteq> [] \<and> 0 < slot s ! i"

text \<open>Taking the front process of priority \<open>i\<close> and charging its budget.\<close>

definition dispatch :: "sched \<Rightarrow> nat \<Rightarrow> sched" where
  "dispatch s i = s\<lparr>mlq_ready_queue := (mlq_ready_queue s)[i := snd (dequeue (mlq_ready_queue s ! i))],
     slot := (slot s)[i := slot s ! i - 1]\<rparr>"

lemma eligible_code:
  "queues_wf s \<Longrightarrow> i < MAX_PRIO \<Longrightarrow>
   \<not> empty (mlq_ready_queue s ! i) \<and> 0 < slot s ! i \<longleftrightarrow> eligible s i"
  by (simp add: eligible_def empty_waiting_at)

lemma scan_prio_end: "\<not> i < MAX_PRIO \<Longrightarrow> scan_prio s i = (NULL, s)"
  by (simp add: scan_prio.simps)

lemma scan_prio_skip:
  assumes "queues_wf s" "i < MAX_PRIO" "\<not> eligible s i"
  shows "scan_prio s i = scan_prio s (Suc i)"
  using assms eligible_code [OF assms(1,2)] by (simp add: scan_prio.simps [of s i] del: de_Morgan_conj)

lemma scan_prio_hit:
  assumes "queues_wf s" "eligible s i"
  shows "scan_prio s i = (hd (waiting_at s i), dispatch s i)"
proof -
  have i: "i < MAX_PRIO" using assms(2) by (simp add: eligible_def)
  with assms have "\<not> empty (mlq_ready_queue s ! i)" "0 < slot s ! i"
    using eligible_code [OF assms(1) i] by auto
  moreover have "fst (dequeue (mlq_ready_queue s ! i)) = hd (waiting_at s i)"
    using assms queues_wf_nth [OF assms(1) i]
    by (simp add: pq.deq_result waiting_at_def eligible_def)
  ultimately show ?thesis
    using i by (subst scan_prio.simps) (simp add: dispatch_def split_beta)
qed

lemma scan_prio_none:
  "queues_wf s \<Longrightarrow> (\<And>j. i \<le> j \<Longrightarrow> \<not> eligible s j) \<Longrightarrow> scan_prio s i = (NULL, s)"
  by (induction "MAX_PRIO - i" arbitrary: i) (auto simp: scan_prio_end scan_prio_skip)

lemma scan_prio_some:
  "queues_wf s \<Longrightarrow> i \<le> j \<Longrightarrow> eligible s j \<Longrightarrow> (\<And>k. i \<le> k \<Longrightarrow> k < j \<Longrightarrow> \<not> eligible s k) \<Longrightarrow>
   scan_prio s i = (hd (waiting_at s j), dispatch s j)"
proof (induction "j - i" arbitrary: i)
  case 0
  then show ?case using scan_prio_hit by simp
next
  case (Suc n)
  then have "i < j" by simp
  with Suc.prems(3) have "i < MAX_PRIO" by (simp add: eligible_def)
  with Suc \<open>i < j\<close> show ?case by (simp add: scan_prio_skip)
qed

lemma scan_prio_cases:
  assumes "queues_wf s"
  obtains (none) "\<forall>j. \<not> eligible s j" "scan_prio s 0 = (NULL, s)"
  | (some) j where "eligible s j" "\<forall>k < j. \<not> eligible s k"
      "scan_prio s 0 = (hd (waiting_at s j), dispatch s j)"
proof (cases "\<exists>j. eligible s j")
  case True
  then obtain j where j: "eligible s j" "\<forall>k < j. \<not> eligible s k"
    using exists_least_iff [of "eligible s"] by blast
  moreover have "scan_prio s 0 = (hd (waiting_at s j), dispatch s j)"
    using assms j by (intro scan_prio_some) auto
  ultimately show ?thesis by (rule some)
next
  case False
  with assms show ?thesis using scan_prio_none [of s 0] by (intro none) auto
qed


lemma reset_slots_frame [simp]:
  "mlq_ready_queue (reset_slots s) = mlq_ready_queue s" "running_list (reset_slots s) = running_list s"
  "slot (reset_slots s) = fresh_slots" "waiting_at (reset_slots s) i = waiting_at s i"
  "waiting (reset_slots s) = waiting s" "queues_wf (reset_slots s) = queues_wf s"
  by (simp_all add: reset_slots_def waiting_at_def waiting_def queues_wf_def)

lemma dispatch_frame [simp]: "running_list (dispatch s i) = running_list s"
  by (simp add: dispatch_def)

lemma queues_wf_update:
  "queues_wf s \<Longrightarrow> queue_wf q \<Longrightarrow> NULL \<notin> set (queue_items q) \<Longrightarrow>
   queues_wf (s\<lparr>mlq_ready_queue := (mlq_ready_queue s)[i := q], slot := bs\<rparr>)"
  using set_update_subset_insert [of "mlq_ready_queue s" i q] by (auto simp: queues_wf_def)

lemma queues_wf_dispatch [inv_intros]:
  assumes "queues_wf s" "i < MAX_PRIO"
  shows "queues_wf (dispatch s i)"
  unfolding dispatch_def
  using assms queues_wf_nth [OF assms]
  by (intro queues_wf_update) (auto simp: pq.deq_wf pq.deq_items waiting_at_def dest: in_set_tlD)

lemma waiting_at_dispatch:
  assumes "queues_wf s" "i < MAX_PRIO"
  shows "waiting_at (dispatch s i) j = (if j = i then tl (waiting_at s i) else waiting_at s j)"
  using assms queues_wf_nth [OF assms]
  by (cases "j = i") (simp_all add: waiting_at_def dispatch_def pq.deq_items queues_wf_def)

lemma slot_dispatch:
  "length (slot s) = MAX_PRIO \<Longrightarrow> i < MAX_PRIO \<Longrightarrow>
   slot (dispatch s i) ! j = (if j = i then slot s ! i - 1 else slot s ! j)"
  by (simp add: dispatch_def)

lemma length_slot_dispatch [simp]: "length (slot (dispatch s i)) = length (slot s)"
  by (simp add: dispatch_def)

lemma mset_waiting_update:
  "i < length qs \<Longrightarrow>
   mset (concat (map queue_items (qs[i := q]))) + mset (queue_items (qs ! i)) =
   mset (concat (map queue_items qs)) + mset (queue_items q)"
  by (induction qs arbitrary: i) (auto simp: nth_Cons split: nat.splits)

lemma mset_waiting_dispatch:
  assumes "queues_wf s" "i < MAX_PRIO" "waiting_at s i \<noteq> []"
  shows "mset (waiting s) = add_mset (hd (waiting_at s i)) (mset (waiting (dispatch s i)))"
proof -
  have "mset (waiting (dispatch s i)) + mset (waiting_at s i) = mset (waiting s) + mset (tl (waiting_at s i))"
    using assms queues_wf_nth [OF assms(1,2)]
      mset_waiting_update [of i "mlq_ready_queue s" "snd (dequeue (mlq_ready_queue s ! i))"]
    by (simp add: waiting_def waiting_at_def dispatch_def queues_wf_def pq.deq_items)
  moreover have "mset (waiting_at s i) = add_mset (hd (waiting_at s i)) (mset (tl (waiting_at s i)))"
    using assms(3) by (cases "waiting_at s i") auto
  ultimately show ?thesis by simp
qed

section \<open>The dispatcher\<close>

definition settle :: "sched \<Rightarrow> sched" where
  "settle s = (if all_zero s then reset_slots s else s)"

lemma settle_frame [simp]:
  "mlq_ready_queue (settle s) = mlq_ready_queue s" "running_list (settle s) = running_list s"
  "waiting_at (settle s) i = waiting_at s i" "waiting (settle s) = waiting s"
  "queues_wf (settle s) = queues_wf s"
  by (simp_all add: settle_def)

lemma hd_waiting_not_NULL:
  "queues_wf s \<Longrightarrow> i < MAX_PRIO \<Longrightarrow> waiting_at s i \<noteq> [] \<Longrightarrow> hd (waiting_at s i) \<noteq> NULL"
  using queues_wf_nth [of s i] hd_in_set by metis

lemma eligible_reset: "eligible (reset_slots s) i \<longleftrightarrow> i < MAX_PRIO \<and> waiting_at s i \<noteq> []"
  by (auto simp: eligible_def)

text \<open>The three ways \<open>get_mlq_proc\<close> can go.\<close>

lemma get_mlq_proc_cases:
  assumes "sched_wf s"
  obtains (idle) "waiting s = []" "get_mlq_proc s = (NULL, reset_slots s)"
  | (budget) j where "eligible s j" "\<forall>k < j. \<not> eligible s k"
      "get_mlq_proc s = (hd (waiting_at s j), settle (dispatch s j))"
  | (round) j where "\<forall>k. \<not> eligible s k" "j < MAX_PRIO" "waiting_at s j \<noteq> []"
      "\<forall>k < j. waiting_at s k = []"
      "get_mlq_proc s = (hd (waiting_at s j), settle (dispatch (reset_slots s) j))"
proof -
  have q: "queues_wf s" using assms by (simp add: sched_wf_def)
  from q show ?thesis
  proof (cases rule: scan_prio_cases)
    case (some j)
    then have "hd (waiting_at s j) \<noteq> NULL"
      using hd_waiting_not_NULL [OF q] by (simp add: eligible_def)
    with some show ?thesis by (intro budget [of j]) (auto simp: get_mlq_proc_def settle_def)
  next
    case none
    from q have "queues_wf (reset_slots s)" by simp
    then show ?thesis
    proof (cases rule: scan_prio_cases)
      case none': none
      then have "waiting s = []" using waiting_nil_iff [OF q] eligible_reset by blast
      with none none' show ?thesis
        by (intro idle) (auto simp: get_mlq_proc_def settle_def reset_slots_def)
    next
      case (some j)
      with none show ?thesis
        by (intro round [of j]) (auto simp: get_mlq_proc_def settle_def eligible_reset order_less_trans)
    qed
  qed
qed


lemma not_all_zeroD: "\<not> all_zero s \<Longrightarrow> length (slot s) = MAX_PRIO \<Longrightarrow> \<exists>i < MAX_PRIO. 0 < slot s ! i"
  by (auto simp: all_zero_def in_set_conv_nth)

lemma slots_wf_settle_dispatch:
  assumes "slots_wf (slot s)" "j < MAX_PRIO" "0 < slot s ! j"
  shows "slots_wf (slot (settle (dispatch s j)))"
proof (cases "all_zero (dispatch s j)")
  case True
  then show ?thesis by (simp add: settle_def)
next
  case False
  have len: "length (slot s) = MAX_PRIO" using assms(1) by (simp add: slots_wf_def)
  with False not_all_zeroD [of "dispatch s j"] have "\<exists>i < MAX_PRIO. 0 < slot (dispatch s j) ! i" by simp
  with False assms len show ?thesis
    by (auto simp: settle_def slots_wf_def slot_dispatch)
qed

lemma sched_wf_get_mlq_proc [inv_intros]:
  assumes "sched_wf s"
  shows "sched_wf (snd (get_mlq_proc s))"
  using assms
proof (cases rule: get_mlq_proc_cases)
  case idle
  with assms show ?thesis by (simp add: sched_wf_def)
next
  case (budget j)
  with assms show ?thesis
    by (simp add: sched_wf_def eligible_def queues_wf_dispatch slots_wf_settle_dispatch)
next
  case (round j)
  with assms show ?thesis
    by (simp add: sched_wf_def queues_wf_dispatch slots_wf_settle_dispatch)
qed

section \<open>Processes entering and leaving\<close>

lemma enqueue_result: "queue_wf q \<Longrightarrow> enqueue q p = (r, q') \<Longrightarrow> r = 0 \<Longrightarrow>
   queue_wf q' \<and> queue_items q' = queue_items q @ [p]"
  using pq.enq_wf [of q p] pq.enq_items [of q p] by simp

lemma queues_wf_append:
  assumes "queues_wf s" "i < MAX_PRIO" "p \<noteq> NULL" "enqueue (mlq_ready_queue s ! i) p = (0, q)"
  defines "s' \<equiv> s\<lparr>mlq_ready_queue := (mlq_ready_queue s)[i := q]\<rparr>"
  shows "queues_wf s'" "waiting_at s' i = waiting_at s i @ [p]"
    and "mset (waiting s') = add_mset p (mset (waiting s))"
proof -
  have len: "length (mlq_ready_queue s) = MAX_PRIO" using assms(1) by (simp add: queues_wf_def)
  have q: "queue_wf q" "queue_items q = waiting_at s i @ [p]"
    using enqueue_result [OF _ assms(4)] queues_wf_nth [OF assms(1,2)] by (auto simp: waiting_at_def)
  show "queues_wf s'"
    using queues_wf_update [OF assms(1) q(1), where i = i and bs = "slot s"] queues_wf_nth [OF assms(1,2)] q assms(3)
    by (simp add: s'_def)
  show "waiting_at s' i = waiting_at s i @ [p]"
    using q len assms(2) by (simp add: waiting_at_def s'_def)
  have "mset (waiting s') + mset (waiting_at s i) = mset (waiting s) + mset (queue_items q)"
    using mset_waiting_update [of i "mlq_ready_queue s" q] len assms(2)
    by (simp add: waiting_def waiting_at_def s'_def)
  then show "mset (waiting s') = add_mset p (mset (waiting s))" by (simp add: q)
qed

lemma put_mlq_procD:
  assumes "put_mlq_proc s P p = Inr (s', P')"
  obtains (null) "p = NULL" "s' = s" "P' = P"
  | (queued) b k q where "p \<noteq> NULL" "P p = Some b" "krnl b = Some k" "unat (prio b) < MAX_PRIO"
      "enqueue (mlq_ready_queue s ! unat (prio b)) p = (0, q)"
      "s' = s\<lparr>mlq_ready_queue := (mlq_ready_queue s)[unat (prio b) := q]\<rparr>"
      "P' = P(p \<mapsto> b\<lparr>krnl := Some (attach_queues k)\<rparr>)"
  using assms
  by (cases "enqueue (mlq_ready_queue s ! unat (prio (the (P p)))) p")
     (auto simp: put_mlq_proc_def valid_mlq_prio_def Let_def split: if_splits option.splits)

lemma add_mlq_procD:
  assumes "add_mlq_proc s P p = Inr (s', P')"
  obtains (null) "p = NULL" "s' = s" "P' = P"
  | (queued) b k q l where "p \<noteq> NULL" "P p = Some b" "krnl b = Some k" "unat (prio b) < MAX_PRIO"
      "enqueue (mlq_ready_queue s ! unat (prio b)) p = (0, q)" "enqueue (running_list s) p = (0, l)"
      "s' = s\<lparr>mlq_ready_queue := (mlq_ready_queue s)[unat (prio b) := q], running_list := l\<rparr>"
      "P' = P(p \<mapsto> b\<lparr>krnl := Some (attach_queues k)\<rparr>)"
  using assms
  by (cases "enqueue (mlq_ready_queue s ! unat (prio (the (P p)))) p"; cases "enqueue (running_list s) p")
     (auto simp: add_mlq_proc_def valid_mlq_prio_def Let_def split: if_splits option.splits)

lemma queues_wf_running:
  "queues_wf s \<Longrightarrow> queue_wf l \<Longrightarrow> queues_wf (s\<lparr>running_list := l\<rparr>)"
  by (simp add: queues_wf_def)

lemma sched_wf_put_mlq_proc [inv_intros]:
  assumes "sched_wf s" "put_mlq_proc s P p = Inr (s', P')"
  shows "sched_wf s'"
  using assms(2)
proof (cases rule: put_mlq_procD)
  case (queued b k q)
  with assms(1) queues_wf_append(1) [of s "unat (prio b)" p q] show ?thesis by (simp add: sched_wf_def)
qed (use assms in simp)

lemma sched_wf_add_mlq_proc [inv_intros]:
  assumes "sched_wf s" "add_mlq_proc s P p = Inr (s', P')"
  shows "sched_wf s'"
  using assms(2)
proof (cases rule: add_mlq_procD)
  case (queued b k q l)
  have "queue_wf l" using enqueue_result [OF _ queued(6)] assms(1) by (simp add: sched_wf_def queues_wf_def)
  with queued assms(1) queues_wf_append(1) [of s "unat (prio b)" p q] show ?thesis
    using queues_wf_running [of _ l] by (fastforce simp: sched_wf_def)
qed (use assms in simp)

lemma finish_proc_running:
  assumes "sched_wf s"
  shows "sched_wf (finish_proc s p) \<and>
    queue_items (running_list (finish_proc s p)) = remove1 p (queue_items (running_list s)) \<and>
    mlq_ready_queue (finish_proc s p) = mlq_ready_queue s \<and> slot (finish_proc s p) = slot s"
proof (cases "find_index (qproc (running_list s)) p 0 (qsize (running_list s))")
  case None
  moreover have "p \<notin> set (queue_items (running_list s))"
    using None find_index_None_iff assms by (auto simp: sched_wf_def queues_wf_def)
  ultimately show ?thesis using assms by (simp add: finish_proc_def remove1_idem)
next
  case (Some i)
  have wf: "queue_wf (running_list s)" using assms by (simp add: sched_wf_def queues_wf_def)
  from queue_remove_at [OF wf Some] show ?thesis
    using Some assms
    by (simp add: finish_proc_def Let_def sched_wf_def queues_wf_def queue_wf_def queue_items_def)
qed


section \<open>Runs of scheduler operations\<close>

text \<open>A run of the operations above, step by step; it is the generic run of their interface.\<close>

fun run_ops :: "sched \<Rightarrow> pcbs_t \<Rightarrow> sched_op list \<Rightarrow> (pptr list \<times> sched \<times> pcbs_t) option" where
  "run_ops s P [] = Some ([], s, P)"
| "run_ops s P (Get # ops) =
     (let (p, s1) = get_proc s in map_option (map_prod (Cons p) id) (run_ops s1 P ops))"
| "run_ops s P (Put p # ops) =
     (case put_proc s P p of Inl e \<Rightarrow> None | Inr (s1, P1) \<Rightarrow> run_ops s1 P1 ops)"
| "run_ops s P (Add p # ops) =
     (case add_proc s P p of Inl e \<Rightarrow> None | Inr (s1, P1) \<Rightarrow> run_ops s1 P1 ops)"
| "run_ops s P (Finish p # ops) = run_ops (finish_proc s p) P ops"

lemma run_ops_gets: "\<exists>out s'. run_ops s P (replicate n Get) = Some (out, s', P)"
  by (induction n arbitrary: s) (auto simp: split_beta, metis)

text \<open>
  How many dispatches can go by before priority \<open>i\<close> is served: with budget left, at most
  the budget of the others; with none left, at most the rest of this round and the next.
\<close>

definition wait_potential :: "sched \<Rightarrow> nat \<Rightarrow> int" where
  "wait_potential s i =
     (if 0 < slot s ! i then sum_list (slot s) - slot s ! i
      else sum_list (slot s) + sum_list fresh_slots)"

definition wait_bound :: nat where
  "wait_bound = MAX_PRIO * (MAX_PRIO + 1)"

lemma sum_fresh_slots: "sum_list fresh_slots = 9870"
  unfolding fresh_slots_def MAX_PRIO_def by code_simp

lemma sum_slots_le: "slots_wf bs \<Longrightarrow> sum_list bs \<le> sum_list fresh_slots"
  by (rule sum_list_mono2) (auto simp: slots_wf_def)

lemma sum_slots_ge: "slots_wf bs \<Longrightarrow> i < MAX_PRIO \<Longrightarrow> bs ! i \<le> sum_list bs"
  by (rule member_le_sum_list) (auto simp: slots_wf_def in_set_conv_nth)

lemma wait_potential_bounds:
  assumes "slots_wf (slot s)" "i < MAX_PRIO"
  shows "0 \<le> wait_potential s i" "wait_potential s i \<le> int wait_bound"
proof -
  have "0 \<le> slot s ! i" using assms by (simp add: slots_wf_def)
  with sum_slots_le [OF assms(1)] sum_slots_ge [OF assms]
  show "0 \<le> wait_potential s i" "wait_potential s i \<le> int wait_bound"
    by (auto simp: wait_potential_def wait_bound_def MAX_PRIO_def sum_fresh_slots)
qed

lemma wait_potential_fresh: "i < MAX_PRIO \<Longrightarrow> slot s = fresh_slots \<Longrightarrow> wait_potential s i < sum_list fresh_slots"
  by (simp add: wait_potential_def)

lemma sum_slot_dispatch:
  "length (slot s) = MAX_PRIO \<Longrightarrow> j < MAX_PRIO \<Longrightarrow> sum_list (slot (dispatch s j)) = sum_list (slot s) - 1"
  by (simp add: dispatch_def sum_list_update_int)

lemma wait_potential_dispatch:
  assumes "length (slot s) = MAX_PRIO" "j < MAX_PRIO" "j \<noteq> i"
  shows "wait_potential (dispatch s j) i = wait_potential s i - 1"
  using assms sum_slot_dispatch [OF assms(1,2)] by (simp add: wait_potential_def slot_dispatch)

lemma wait_potential_settle:
  assumes "slots_wf (slot s)" "0 < slot s ! j" "j < MAX_PRIO" "j \<noteq> i" "i < MAX_PRIO"
  shows "wait_potential (settle (dispatch s j)) i < wait_potential s i"
proof (cases "all_zero (dispatch s j)")
  case False
  with assms show ?thesis by (simp add: settle_def wait_potential_dispatch slots_wf_def)
next
  case True
  have len: "length (slot s) = MAX_PRIO" using assms(1) by (simp add: slots_wf_def)
  then have "\<not> 0 < slot (dispatch s j) ! i" using True assms(5) by (auto simp: all_zero_def)
  then have "\<not> 0 < slot s ! i" using slot_dispatch [OF len assms(3), of i] assms(4) by simp
  moreover have "0 \<le> sum_list (slot s)" using sum_slots_ge [OF assms(1,3)] assms(2) by simp
  ultimately show ?thesis
    using True wait_potential_fresh [OF assms(5), of "settle (dispatch s j)"]
    by (simp add: settle_def wait_potential_def split: if_splits)
qed

text \<open>Each dispatch serves priority \<open>i\<close> or brings its turn strictly closer.\<close>

lemma get_progress:
  assumes "sched_wf s" "i < MAX_PRIO" "waiting_at s i \<noteq> []" "get_mlq_proc s = (p, s')"
  shows "p = hd (waiting_at s i) \<and> waiting_at s' i = tl (waiting_at s i) \<or>
    waiting_at s' i = waiting_at s i \<and> wait_potential s' i < wait_potential s i"
  using assms(1)
proof (cases rule: get_mlq_proc_cases)
  case idle
  with assms show ?thesis using waiting_nil_iff [of s] by (simp add: sched_wf_def)
next
  case (budget j)
  with assms wait_potential_settle [of s j i] waiting_at_dispatch [of s j i] show ?thesis
    by (cases "j = i") (auto simp: eligible_def sched_wf_def)
next
  case (round j)
  with assms have "slots_wf (slot s)" "slot s ! i = 0"
    by (force simp: eligible_def sched_wf_def slots_wf_def)+
  then have "wait_potential (reset_slots s) i < wait_potential s i"
    using wait_potential_fresh [OF assms(2), of "reset_slots s"] sum_slots_ge [of "slot s" i] assms(2)
    by (simp add: wait_potential_def split: if_splits)
  with round assms wait_potential_settle [of "reset_slots s" j i]
    waiting_at_dispatch [of "reset_slots s" j i] show ?thesis
    by (cases "j = i") (auto simp: sched_wf_def)
qed


lemma put_keeps_waiting:
  assumes "sched_wf s" "i < MAX_PRIO" "put_mlq_proc s P p = Inr (s', P')"
  shows "\<exists>new. waiting_at s' i = waiting_at s i @ new" "slot s' = slot s"
proof -
  from assms(3) show "\<exists>new. waiting_at s' i = waiting_at s i @ new"
  proof (cases rule: put_mlq_procD)
    case (queued b k q)
    with assms queues_wf_append(2) [of s "unat (prio b)" p q] show ?thesis
      by (cases "i = unat (prio b)") (auto simp: sched_wf_def waiting_at_def)
  qed simp
  from assms(3) show "slot s' = slot s" by (cases rule: put_mlq_procD) auto
qed

lemma add_keeps_waiting:
  assumes "sched_wf s" "i < MAX_PRIO" "add_mlq_proc s P p = Inr (s', P')"
  shows "\<exists>new. waiting_at s' i = waiting_at s i @ new" "slot s' = slot s"
proof -
  from assms(3) show "\<exists>new. waiting_at s' i = waiting_at s i @ new"
  proof (cases rule: add_mlq_procD)
    case (queued b k q l)
    with assms queues_wf_append(2) [of s "unat (prio b)" p q] show ?thesis
      by (cases "i = unat (prio b)") (auto simp: sched_wf_def waiting_at_def)
  qed simp
  from assms(3) show "slot s' = slot s" by (cases rule: add_mlq_procD) auto
qed

lemma wait_potential_cong: "slot s1 = slot s \<Longrightarrow> wait_potential s1 i = wait_potential s i"
  by (simp add: wait_potential_def)

lemma gets_before_service:
  assumes "sched_wf s" "i < MAX_PRIO" "run_ops s P ops = Some (out, s', P')"
    and "waiting_at s i = xs @ p # ys" "p \<notin> set out"
  shows "int (count_list ops Get) \<le> wait_potential s i + int (length xs) * (int wait_bound + 1)"
  using assms
proof (induction s P ops arbitrary: out xs ys rule: run_ops.induct)
  case (1 s P)
  then show ?case using wait_potential_bounds(1) [of s i] by (simp add: sched_wf_def)
next
  case (2 s P ops)
  obtain p1 s1 where g: "get_mlq_proc s = (p1, s1)" by (cases "get_mlq_proc s")
  with "2.prems"(3) obtain out1 where out: "out = p1 # out1" "run_ops s1 P ops = Some (out1, s', P')"
    by (auto simp: get_proc_def)
  have wf1: "sched_wf s1" using sched_wf_get_mlq_proc [OF "2.prems"(1)] g by simp
  have step: "int (count_list ops Get) \<le> wait_potential s1 i + int (length xs1) * (int wait_bound + 1)"
    if "waiting_at s1 i = xs1 @ p # ys1" for xs1 ys1
    using "2.IH" [of "(p1, s1)" p1 s1 out1] g wf1 out that "2.prems" by (simp add: get_proc_def)
  have "waiting_at s i \<noteq> []" using "2.prems"(4) by simp
  from get_progress [OF "2.prems"(1,2) this g] show ?case
  proof
    assume served: "p1 = hd (waiting_at s i) \<and> waiting_at s1 i = tl (waiting_at s i)"
    with "2.prems"(4,5) out obtain x xs1 where xs: "xs = x # xs1" by (cases xs) auto
    with served "2.prems"(4) have "waiting_at s1 i = xs1 @ p # ys" by simp
    from step [OF this] wait_potential_bounds(2) [of s1 i] wf1 "2.prems"(2)
    have "int (count_list ops Get) + 1 \<le> int (length xs) * (int wait_bound + 1)"
      by (simp add: sched_wf_def xs algebra_simps)
    then show ?thesis
      using wait_potential_bounds(1) [of s i] "2.prems"(1,2) by (simp add: sched_wf_def)
  next
    assume "waiting_at s1 i = waiting_at s i \<and> wait_potential s1 i < wait_potential s i"
    with step "2.prems"(4) show ?thesis by fastforce
  qed
next
  case (3 s P p1 ops)
  then obtain s1 P1 where r: "put_mlq_proc s P p1 = Inr (s1, P1)" "run_ops s1 P1 ops = Some (out, s', P')"
    by (auto simp: put_proc_def split: sum.splits prod.splits)
  obtain new where new: "waiting_at s1 i = xs @ p # ys @ new" "slot s1 = slot s"
    using put_keeps_waiting [OF "3.prems"(1,2) r(1)] "3.prems"(4) by auto
  with "3.IH" [of "(s1, P1)" s1 P1 out xs "ys @ new"] r sched_wf_put_mlq_proc [OF "3.prems"(1) r(1)] "3.prems"
    wait_potential_cong [OF new(2)] show ?case by (simp add: put_proc_def)
next
  case (4 s P p1 ops)
  then obtain s1 P1 where r: "add_mlq_proc s P p1 = Inr (s1, P1)" "run_ops s1 P1 ops = Some (out, s', P')"
    by (auto simp: add_proc_def split: sum.splits prod.splits)
  obtain new where new: "waiting_at s1 i = xs @ p # ys @ new" "slot s1 = slot s"
    using add_keeps_waiting [OF "4.prems"(1,2) r(1)] "4.prems"(4) by auto
  with "4.IH" [of "(s1, P1)" s1 P1 out xs "ys @ new"] r sched_wf_add_mlq_proc [OF "4.prems"(1) r(1)] "4.prems"
    wait_potential_cong [OF new(2)] show ?case by (simp add: add_proc_def)
next
  case (5 s P p1 ops)
  with finish_proc_running [OF "5.prems"(1), of p1] wait_potential_cong [of "finish_proc s p1" s i]
  show ?case by (simp add: waiting_at_def)
qed


section \<open>Looking processes up\<close>

definition has_pid :: "pcbs_t \<Rightarrow> uint32 \<Rightarrow> pptr \<Rightarrow> bool" where
  "has_pid P n x \<longleftrightarrow> x \<noteq> NULL \<and> (\<exists>b. P x = Some b \<and> pid b = n)"

lemma find_pid_step:
  "find_pid P xs n i m =
     (if i < m then if has_pid P n (xs ! i) then xs ! i else find_pid P xs n (Suc i) m else NULL)"
  by (simp add: find_pid.simps [of P xs n i m] has_pid_def split: option.split)

lemma find_pid_find:
  "m \<le> length xs \<Longrightarrow>
   find_pid P xs n i m = (case find (has_pid P n) (drop i (take m xs)) of None \<Rightarrow> NULL | Some x \<Rightarrow> x)"
proof (induction "m - i" arbitrary: i)
  case 0
  then show ?case by (simp add: find_pid_step [of P xs n i m])
next
  case (Suc k)
  then have "drop i (take m xs) = xs ! i # drop (Suc i) (take m xs)"
    by (subst Cons_nth_drop_Suc [symmetric]) auto
  moreover have "i < m" using Suc by simp
  ultimately show ?case using Suc by (simp add: find_pid_step [of P xs n i m])
qed

lemma find_proc_find:
  "queue_wf (running_list s) \<Longrightarrow>
   find_proc s P n =
     (case find (has_pid P n) (queue_items (running_list s)) of None \<Rightarrow> NULL | Some x \<Rightarrow> x)"
  by (simp add: find_proc_def find_pid_find queue_items_def queue_wf_def)

section \<open>Properties\<close>

text \<open>A scheduler right after \<open>init_scheduler\<close>, from the zero-initialised static data.\<close>

definition boot_sched :: sched where
  "boot_sched = init_scheduler \<lparr>ready_queue = new_queue, run_queue = new_queue,
     running_list = new_queue, mlq_ready_queue = replicate MAX_PRIO new_queue,
     slot = replicate MAX_PRIO 0\<rparr>"

lemma reset_new_queue [simp]: "reset_queue new_queue = new_queue"
  by (simp add: reset_queue_def new_queue_def)

lemma boot_sched_fields:
  "mlq_ready_queue boot_sched = replicate MAX_PRIO new_queue" "slot boot_sched = fresh_slots"
  "running_list boot_sched = new_queue"
  by (simp_all add: boot_sched_def init_scheduler_def)

lemma boot_sched_wf [simp]: "sched_wf boot_sched"
  by (simp add: sched_wf_def queues_wf_def boot_sched_fields)

text \<open>
  C10: Starvation freedom. A process that waits at position \<open>k\<close> of the ready queue of
  priority \<open>i\<close> is dispatched at the latest by the \<open>(k + 1) * 19741\<close>-th call of
  \<open>get_proc\<close>, whatever processes of whatever priority are put back, added and finished
  in between: the slot budgets bound how long higher priorities can hold it up.
\<close>

theorem mlq_no_starvation:
  assumes "sched_wf s" "i < MAX_PRIO" "k < length (waiting_at s i)" "waiting_at s i ! k = p"
    and "run_ops s P ops = Some (out, s', P')"
    and "(k + 1) * (wait_bound + 1) \<le> count_list ops Get"
  shows "p \<in> set out"
proof (rule ccontr)
  assume "p \<notin> set out"
  have "waiting_at s i = take k (waiting_at s i) @ p # drop (Suc k) (waiting_at s i)"
    using id_take_nth_drop [OF assms(3)] assms(4) by simp
  from gets_before_service [OF assms(1,2,5) this \<open>p \<notin> set out\<close>] assms(3)
  have "int (count_list ops Get) \<le> wait_potential s i + int k * (int wait_bound + 1)"
    by (simp add: min_def)
  also have "\<dots> < (int k + 1) * (int wait_bound + 1)"
    using wait_potential_bounds(2) [of s i] assms(1,2) by (simp add: sched_wf_def algebra_simps)
  finally have "int (count_list ops Get) < int ((k + 1) * (wait_bound + 1))" by (simp add: algebra_simps)
  with assms(6) show False by linarith
qed

text \<open>A process with pid 3 and priority 120, ready to be queued.\<close>

definition demo_krnl :: krnl_t where
  "demo_krnl = \<lparr>k_ready_queue = False, k_running_list = False, k_mlq_ready_queue = False, k_mm = None,
     k_mram = Some 0, k_active_mswp = Some 1, k_active_mswp_id = 0, krnl_pgd = Some 0\<rparr>"

definition demo_pcb :: pcb_t where
  "demo_pcb = \<lparr>pid = 3, priority = 1, code = None, regs = replicate 10 0, pc = 0, prio = 120,
     krnl = Some demo_krnl, bp = 1024\<rparr>"

lemma boot_sched_add:
  "\<exists>s P. add_mlq_proc boot_sched [7 \<mapsto> demo_pcb] 7 = Inr (s, P) \<and> sched_wf s \<and> waiting_at s 120 = [7] \<and>
     (\<forall>i < 120. waiting_at s i = []) \<and> queue_items (running_list s) = [7] \<and> P 7 \<noteq> None \<and>
     slot s = fresh_slots"
proof -
  obtain q where q: "enqueue new_queue 7 = (0, q)" "queue_items q = [7]"
    using pq.enq_room [of new_queue 7] by (auto simp: MAX_QUEUE_SIZE_def)
  define s where "s = boot_sched\<lparr>mlq_ready_queue := (mlq_ready_queue boot_sched)[120 := q], running_list := q\<rparr>"
  have r: "add_mlq_proc boot_sched [7 \<mapsto> demo_pcb] 7 =
      Inr (s, [7 \<mapsto> demo_pcb\<lparr>krnl := Some (attach_queues demo_krnl)\<rparr>])"
    by (simp add: add_mlq_proc_def NULL_def demo_pcb_def valid_mlq_prio_def MAX_PRIO_def
        boot_sched_fields q s_def)
  moreover from r have "sched_wf s" by (rule sched_wf_add_mlq_proc [OF boot_sched_wf])
  moreover have "waiting_at s 120 = [7] \<and> (\<forall>i < 120. waiting_at s i = []) \<and>
      queue_items (running_list s) = [7] \<and> slot s = fresh_slots"
    by (simp add: s_def waiting_at_def boot_sched_fields q MAX_PRIO_def)
  ultimately show ?thesis by auto
qed

theorem mlq_no_starvation_witness:
  "\<exists>s P out s' P'. add_proc boot_sched [7 \<mapsto> demo_pcb] 7 = Inr (s, P) \<and>
     run_ops s P (replicate 19741 Get) = Some (out, s', P') \<and> 7 \<in> set out"
proof -
  obtain s P where s: "add_mlq_proc boot_sched [7 \<mapsto> demo_pcb] 7 = Inr (s, P)" "sched_wf s"
    "waiting_at s 120 = [7]" using boot_sched_add by blast
  obtain out s' where out: "run_ops s P (replicate 19741 Get) = Some (out, s', P)"
    using run_ops_gets by blast
  have "count_list (replicate 19741 Get) Get = 19741" by simp
  then have "7 \<in> set out"
    by (intro mlq_no_starvation [OF s(2) _ _ _ out, of 120 0])
       (simp_all add: s(3) wait_bound_def MAX_PRIO_def)
  with s(1) out show ?thesis by (auto simp: add_proc_def)
qed


lemma slot_settle_dispatch:
  "slot (settle (dispatch s j)) =
   (let b = (slot s)[j := slot s ! j - 1] in if \<forall>x \<in> set b. \<not> 0 < x then fresh_slots else b)"
  by (simp add: settle_def dispatch_def all_zero_def reset_slots_def Let_def)

text \<open>
  C23: Priority order of the dispatcher, in both of its passes. With no process waiting,
  \<open>get_proc\<close> returns null and starts a new round. Otherwise the budgets \<open>B\<close> are those of the
  current round if some level with a waiting process has budget left, and those of a new round if
  none has: \<open>get_proc\<close> returns the front process of the best level that has a process and
  budget in \<open>B\<close>, takes it off its queue and no other, and charges exactly one slot to that
  level, except that budgets that are all used up by this are replaced by those of a new round.
\<close>

theorem get_proc_best_priority:
  assumes "sched_wf s"
  shows "if waiting s = [] then
      fst (get_proc s) = NULL \<and> waiting (snd (get_proc s)) = [] \<and> slot (snd (get_proc s)) = fresh_slots
    else \<exists>B j. B = (if \<exists>i < MAX_PRIO. waiting_at s i \<noteq> [] \<and> 0 < slot s ! i then slot s else fresh_slots) \<and>
      j < MAX_PRIO \<and> waiting_at s j \<noteq> [] \<and> 0 < B ! j \<and> (\<forall>k < j. waiting_at s k = [] \<or> \<not> 0 < B ! k) \<and>
      fst (get_proc s) = hd (waiting_at s j) \<and>
      (\<forall>k < MAX_PRIO. waiting_at (snd (get_proc s)) k = (if k = j then tl (waiting_at s j) else waiting_at s k)) \<and>
      slot (snd (get_proc s)) = (let b = B[j := B ! j - 1] in if \<forall>x \<in> set b. \<not> 0 < x then fresh_slots else b)"
  using assms
proof (cases rule: get_mlq_proc_cases)
  case idle
  then show ?thesis by (simp add: get_proc_def)
next
  case (budget j)
  then have j: "j < MAX_PRIO" "waiting_at s j \<noteq> []" "0 < slot s ! j" "\<And>k. k < j \<Longrightarrow> waiting_at s k = [] \<or> \<not> 0 < slot s ! k"
    by (auto simp: eligible_def)
  have q: "queues_wf s" using assms by (simp add: sched_wf_def)
  then have "waiting s \<noteq> []" using j(1,2) waiting_nil_iff by blast
  moreover have "(if \<exists>i < MAX_PRIO. waiting_at s i \<noteq> [] \<and> 0 < slot s ! i then slot s else fresh_slots) = slot s" using j by auto
  ultimately show ?thesis using budget(3) j q
    by (simp only: if_False) (intro exI [of _ "slot s"] exI [of _ j], simp add: get_proc_def waiting_at_dispatch slot_settle_dispatch)
next
  case (round j)
  have q: "queues_wf s" using assms by (simp add: sched_wf_def)
  then have "waiting s \<noteq> []" using round(2,3) waiting_nil_iff by blast
  moreover have "(if \<exists>i < MAX_PRIO. waiting_at s i \<noteq> [] \<and> 0 < slot s ! i then slot s else fresh_slots) = fresh_slots"
    using round(1) by (auto simp: eligible_def)
  ultimately show ?thesis using round(2-5) q waiting_at_dispatch [of "reset_slots s" j]
    by (simp only: if_False) (intro exI [of _ fresh_slots] exI [of _ j], simp add: get_proc_def slot_settle_dispatch)
qed

theorem get_proc_best_priority_witness:
  "\<exists>s P. add_proc boot_sched [7 \<mapsto> demo_pcb] 7 = Inr (s, P) \<and> fst (get_proc s) = 7"
proof -
  obtain s P where s: "add_mlq_proc boot_sched [7 \<mapsto> demo_pcb] 7 = Inr (s, P)" "sched_wf s"
    "waiting_at s 120 = [7]" "\<forall>i < 120. waiting_at s i = []" "slot s = fresh_slots"
    using boot_sched_add by blast
  have "waiting s \<noteq> []" using s(2,3) waiting_nil_iff [of s] by (auto simp: sched_wf_def MAX_PRIO_def)
  with get_proc_best_priority [OF s(2)] s(5) obtain j where
    j: "j < MAX_PRIO" "waiting_at s j \<noteq> []" "\<forall>k < j. waiting_at s k = [] \<or> \<not> 0 < fresh_slots ! k"
      "fst (get_proc s) = hd (waiting_at s j)" by (auto split: if_splits)
  have "j = 120" using j(1-3) s(3,4) fresh_slots_pos [of 120] by (cases j "120 :: nat" rule: linorder_cases) (auto simp: MAX_PRIO_def)
  with j(4) s(1,3) show ?thesis by (auto simp: add_proc_def)
qed

lemma waiting_nil_queue_empty: "queues_wf s \<Longrightarrow> queue_empty s \<longleftrightarrow> waiting s = []"
  by (auto simp: queue_empty_def waiting_def queues_wf_def pq.empty_iff)

text \<open>
  The dispatcher loses and invents no process: what waits after \<open>get_proc\<close> is what
  waited before, less the process returned, and it returns null exactly when every ready
  queue is empty. So a waiting process is always dispatched, even when its round's budget
  is used up.
\<close>

theorem get_proc_conserves:
  assumes "sched_wf s"
  shows "(fst (get_proc s) = NULL \<longleftrightarrow> queue_empty s) \<and>
    mset (waiting s) =
      (if queue_empty s then mset (waiting (snd (get_proc s)))
       else add_mset (fst (get_proc s)) (mset (waiting (snd (get_proc s)))))"
  using assms
proof (cases rule: get_mlq_proc_cases)
  case idle
  with assms show ?thesis by (simp add: get_proc_def waiting_nil_queue_empty sched_wf_def)
next
  case (budget j)
  with assms have w: "j < MAX_PRIO" "waiting_at s j \<noteq> []" "queues_wf s" "waiting s \<noteq> []"
    using waiting_nil_iff [of s] by (auto simp: sched_wf_def eligible_def)
  with budget show ?thesis
    by (simp add: get_proc_def waiting_nil_queue_empty hd_waiting_not_NULL mset_waiting_dispatch)
next
  case (round j)
  with assms have w: "queues_wf s" "waiting s \<noteq> []" "hd (waiting_at s j) \<noteq> NULL"
    using waiting_nil_iff [of s] hd_waiting_not_NULL by (auto simp: sched_wf_def)
  with round mset_waiting_dispatch [of "reset_slots s" j] show ?thesis
    by (simp add: get_proc_def waiting_nil_queue_empty)
qed

theorem get_proc_conserves_witness:
  "fst (get_proc boot_sched) = NULL \<and> queue_empty boot_sched"
proof -
  have "queue_empty boot_sched"
    by (simp add: queue_empty_def boot_sched_fields empty_def new_queue_def)
  with get_proc_conserves [OF boot_sched_wf] show ?thesis by simp
qed

section \<open>The interface of the scheduler\<close>

lemma put_mlq_proc_waiting:
  assumes "sched_wf s" "put_mlq_proc s P p = Inr (s', P')"
  shows "mset (waiting s') = mset (waiting s) + mset (entered [Put p])"
  using assms(2)
proof (cases rule: put_mlq_procD)
  case (queued b k q)
  with assms(1) queues_wf_append(3) [of s "unat (prio b)" p q] show ?thesis by (simp add: sched_wf_def)
qed simp

lemma add_mlq_proc_waiting:
  assumes "sched_wf s" "add_mlq_proc s P p = Inr (s', P')"
  shows "mset (waiting s') = mset (waiting s) + mset (entered [Add p])"
  using assms(2)
proof (cases rule: add_mlq_procD)
  case (queued b k q l)
  with assms(1) queues_wf_append(3) [of s "unat (prio b)" p q] show ?thesis
    by (simp add: sched_wf_def waiting_def)
qed simp

interpretation mlq: ready_scheduler get_proc put_proc add_proc finish_proc queue_empty sched_wf waiting
proof (unfold_locales, goal_cases)
  case (1 s)
  then show ?case by (simp add: get_proc_def sched_wf_get_mlq_proc)
next
  case (2 s)
  then show ?case using get_proc_conserves [of s] by (simp add: waiting_nil_queue_empty sched_wf_def)
next
  case (3 s)
  then show ?case using get_proc_conserves [of s] by (auto split: if_splits)
next
  case (4 s)
  then show ?case by (simp add: waiting_nil_queue_empty sched_wf_def)
next
  case (5 s P p s' P')
  then show ?case by (simp add: put_proc_def sched_wf_put_mlq_proc)
next
  case (6 s P p s' P')
  then show ?case by (simp add: put_proc_def put_mlq_proc_waiting)
next
  case (7 s P p s' P')
  then show ?case by (simp add: add_proc_def sched_wf_add_mlq_proc)
next
  case (8 s P p s' P')
  then show ?case by (simp add: add_proc_def add_mlq_proc_waiting)
next
  case (9 s p)
  then show ?case by (simp add: finish_proc_running)
next
  case (10 s p)
  then show ?case using finish_proc_running [of s p] by (simp add: waiting_def)
qed

lemma run_ops_sched_run: "run_ops s P ops = sched_run get_proc put_proc add_proc finish_proc s P ops"
proof (induction ops arbitrary: s P)
  case (Cons op ops)
  then show ?case by (cases op) (auto simp: split_beta split: sum.splits)
qed simp

text \<open>
  Scheduler invariant. Starting from the state \<open>init_scheduler\<close> leaves, every run of
  scheduler operations keeps 140 well-formed ready queues without null entries, a
  well-formed list of live processes, and slot budgets between 0 and \<open>MAX_PRIO - prio\<close>
  that are never all used up.
\<close>

theorem sched_invariant:
  assumes "run_ops boot_sched P ops = Some (out, s', P')"
  shows "sched_wf s'"
  using mlq.run_conserves [of boot_sched P ops out s' P'] assms by (simp add: run_ops_sched_run)

theorem sched_invariant_witness:
  "\<exists>out s' P'. run_ops boot_sched [7 \<mapsto> demo_pcb] [Get] = Some (out, s', P') \<and> sched_wf s'"
proof -
  obtain out s' where r: "run_ops boot_sched [7 \<mapsto> demo_pcb] (replicate 1 Get) = Some (out, s', [7 \<mapsto> demo_pcb])"
    using run_ops_gets by blast
  then have "run_ops boot_sched [7 \<mapsto> demo_pcb] [Get] = Some (out, s', [7 \<mapsto> demo_pcb])" by simp
  with sched_invariant [OF this] show ?thesis by blast
qed


text \<open>
  Process table. After \<open>add_proc\<close> accepts a process whose pid no live process has,
  \<open>find_proc\<close> returns it for that pid; after \<open>finish_proc\<close> it no longer does, and
  the other live processes stay.
\<close>

theorem process_table:
  assumes "sched_wf s" "P p = Some b" "p \<noteq> NULL" "add_proc s P p = Inr (s', P')"
    and "\<forall>x \<in> set (queue_items (running_list s)). x \<noteq> p \<and> \<not> has_pid P (pid b) x"
  shows "find_proc s' P' (pid b) = p \<and> find_proc (finish_proc s' p) P' (pid b) = NULL \<and>
    queue_items (running_list (finish_proc s' p)) = queue_items (running_list s)"
proof -
  from assms(4) have add: "add_mlq_proc s P p = Inr (s', P')" by (simp add: add_proc_def)
  then show ?thesis
  proof (cases rule: add_mlq_procD)
    case (queued b' k q l)
    have wf: "sched_wf s'" "sched_wf (finish_proc s' p)"
      using sched_wf_add_mlq_proc [OF assms(1) add] finish_proc_running by blast+
    then have rl: "queue_wf (running_list s')" "queue_wf (running_list (finish_proc s' p))"
      by (simp_all add: sched_wf_def queues_wf_def)
    have "queue_items (running_list s') = queue_items (running_list s) @ [p]"
      using enqueue_result [OF _ queued(6)] queued(7) assms(1) by (simp add: sched_wf_def queues_wf_def)
    note items = this
    moreover have "p \<notin> set (queue_items (running_list s))" using assms(5) by blast
    ultimately have fin: "queue_items (running_list (finish_proc s' p)) = queue_items (running_list s)"
      using finish_proc_running [OF wf(1), of p] by (simp add: remove1_split [of p _ "[]", simplified])
    have old: "find (has_pid P' (pid b)) (queue_items (running_list s)) = None"
      using assms(5) queued by (auto simp: find_None_iff has_pid_def)
    moreover have "has_pid P' (pid b) p" using queued assms(2,3) by (simp add: has_pid_def)
    ultimately have "find (has_pid P' (pid b)) (queue_items (running_list s')) = Some p"
      unfolding items by (rule find_snoc)
    with rl fin old show ?thesis by (simp add: find_proc_find)
  qed (use assms(3) in simp)
qed

theorem process_table_witness:
  "\<exists>s P. add_proc boot_sched [7 \<mapsto> demo_pcb] 7 = Inr (s, P) \<and> find_proc s P 3 = 7 \<and>
     find_proc (finish_proc s 7) P 3 = NULL"
proof -
  obtain s P where s: "add_mlq_proc boot_sched [7 \<mapsto> demo_pcb] 7 = Inr (s, P)"
    using boot_sched_add by blast
  then have "add_proc boot_sched [7 \<mapsto> demo_pcb] 7 = Inr (s, P)" by (simp add: add_proc_def)
  moreover from this have "find_proc s P (pid demo_pcb) = 7 \<and> find_proc (finish_proc s 7) P (pid demo_pcb) = NULL"
    using process_table [OF boot_sched_wf, of "[7 \<mapsto> demo_pcb]" 7 demo_pcb s P]
    by (simp add: NULL_def boot_sched_fields)
  ultimately show ?thesis by (simp add: demo_pcb_def)
qed

end
