(* ===== verification/Paging64.thy ===== *)
theory Paging64
  imports Os_Types
begin

text \<open>
  Bit layout of 64-bit addresses and page-table entries: the macros of include/mm64.h and
  include/bitops.h, and the functions of src/mm64.c that only compute on words
  (\<open>get_pd_from_address\<close>, \<open>get_pd_from_pagenum\<close>, \<open>is_kernel_address\<close>,
  \<open>validate_page_range\<close>, \<open>init_pte\<close>).
\<close>

section \<open>Masks, fields and page sizes\<close>

definition GENMASK64 :: "nat \<Rightarrow> nat \<Rightarrow> addr" where
  "GENMASK64 h l = push_bit l (-1) AND drop_bit (64 - h - 1) (-1)"

definition PAGING64_PAGESZ :: addr where [c_defs]: "PAGING64_PAGESZ = 4096"

definition PAGING64_PAGE_ALIGNSZ :: "addr \<Rightarrow> addr" where
  "PAGING64_PAGE_ALIGNSZ sz = ((sz + PAGING64_PAGESZ - 1) div PAGING64_PAGESZ) * PAGING64_PAGESZ"

definition PAGING64_ADDR_OFFST_MASK :: addr where "PAGING64_ADDR_OFFST_MASK = GENMASK64 11 0"
definition PAGING64_ADDR_PT_MASK :: addr where "PAGING64_ADDR_PT_MASK = GENMASK64 20 12"
definition PAGING64_ADDR_PMD_MASK :: addr where "PAGING64_ADDR_PMD_MASK = GENMASK64 29 21"
definition PAGING64_ADDR_PUD_MASK :: addr where "PAGING64_ADDR_PUD_MASK = GENMASK64 38 30"
definition PAGING64_ADDR_P4D_MASK :: addr where "PAGING64_ADDR_P4D_MASK = GENMASK64 47 39"
definition PAGING64_ADDR_PGD_MASK :: addr where "PAGING64_ADDR_PGD_MASK = GENMASK64 56 48"

lemmas addr_masks = PAGING64_ADDR_OFFST_MASK_def PAGING64_ADDR_PT_MASK_def PAGING64_ADDR_PMD_MASK_def
  PAGING64_ADDR_PUD_MASK_def PAGING64_ADDR_P4D_MASK_def PAGING64_ADDR_PGD_MASK_def

text \<open>The five indices of an address and whether it is canonical (0) or not (-1).\<close>

definition get_pd_from_address :: "addr \<Rightarrow> int \<times> addr \<times> addr \<times> addr \<times> addr \<times> addr" where
  "get_pd_from_address a =
     (let pgd = drop_bit 48 (a AND PAGING64_ADDR_PGD_MASK);
          p4d = drop_bit 39 (a AND PAGING64_ADDR_P4D_MASK);
          pud = drop_bit 30 (a AND PAGING64_ADDR_PUD_MASK);
          pmd = drop_bit 21 (a AND PAGING64_ADDR_PMD_MASK);
          pt = drop_bit 12 (a AND PAGING64_ADDR_PT_MASK);
          top_bits = drop_bit 57 a; bit56 = drop_bit 56 a AND 1
      in (if bit56 = 0 then (if top_bits \<noteq> 0 then -1 else 0)
          else (if top_bits \<noteq> 0x7F then -1 else 0), pgd, p4d, pud, pmd, pt))"

definition get_pd_from_pagenum :: "addr \<Rightarrow> int \<times> addr \<times> addr \<times> addr \<times> addr \<times> addr" where
  "get_pd_from_pagenum pgn =
     (if drop_bit 12 (NOT 0) < pgn then (-1, 0, 0, 0, 0, 0)
      else get_pd_from_address (push_bit 12 pgn))"

definition is_kernel_address :: "addr \<Rightarrow> bool" where
  "is_kernel_address a \<longleftrightarrow> drop_bit 56 a AND 1 \<noteq> 0"

definition validate_page_range :: "addr \<Rightarrow> int \<Rightarrow> int" where
  "validate_page_range a pgnum =
     (if a AND PAGING64_ADDR_OFFST_MASK \<noteq> 0 \<or> pgnum < 0 then -1
      else if pgnum = 0 then 0
      else let span = (addr_of_int pgnum - 1) * PAGING64_PAGESZ; last_addr = a + span
      in if last_addr < a then -1
         else if fst (get_pd_from_address a) \<noteq> 0 then -1
         else if fst (get_pd_from_address last_addr) \<noteq> 0 then -1
         else if is_kernel_address a \<noteq> is_kernel_address last_addr then -1
         else 0)"

section \<open>Page-table entries\<close>

definition PAGING64_PTE_PRESENT_MASK :: addr where [c_defs]: "PAGING64_PTE_PRESENT_MASK = push_bit 0 1"
definition PAGING64_PTE_SWAPPED_MASK :: addr where [c_defs]: "PAGING64_PTE_SWAPPED_MASK = push_bit 1 1"
definition PAGING64_PTE_DIRTY_MASK :: addr where [c_defs]: "PAGING64_PTE_DIRTY_MASK = push_bit 2 1"
definition PAGING64_PTE_SWPTYP_MASK :: addr where "PAGING64_PTE_SWPTYP_MASK = GENMASK64 7 3"
definition PAGING64_PTE_FPN_MASK :: addr where "PAGING64_PTE_FPN_MASK = GENMASK64 51 12"
definition PAGING64_PTE_SWPOFF_MASK :: addr where "PAGING64_PTE_SWPOFF_MASK = GENMASK64 51 12"
definition PAGING64_DUMMY_PTE :: addr where [c_defs]: "PAGING64_DUMMY_PTE = 0xdeadbee0"

lemmas pte_masks = PAGING64_PTE_PRESENT_MASK_def PAGING64_PTE_SWAPPED_MASK_def
  PAGING64_PTE_DIRTY_MASK_def PAGING64_PTE_SWPTYP_MASK_def PAGING64_PTE_FPN_MASK_def
  PAGING64_PTE_SWPOFF_MASK_def

definition SETBIT :: "addr \<Rightarrow> addr \<Rightarrow> addr" where "SETBIT v m = v OR m"
definition CLRBIT :: "addr \<Rightarrow> addr \<Rightarrow> addr" where "CLRBIT v m = v AND NOT m"

definition PAGING64_PAGE_PRESENT :: "addr \<Rightarrow> bool" where
  "PAGING64_PAGE_PRESENT pte \<longleftrightarrow> pte AND PAGING64_PTE_PRESENT_MASK \<noteq> 0"
definition PAGING64_PAGE_SWAPPED :: "addr \<Rightarrow> bool" where
  "PAGING64_PAGE_SWAPPED pte \<longleftrightarrow> pte AND PAGING64_PTE_SWAPPED_MASK \<noteq> 0"
definition PAGING64_PTE_FPN :: "addr \<Rightarrow> addr" where
  "PAGING64_PTE_FPN pte = drop_bit 12 (pte AND PAGING64_PTE_FPN_MASK)"
definition PAGING64_PTE_SWP :: "addr \<Rightarrow> addr" where
  "PAGING64_PTE_SWP pte = drop_bit 12 (pte AND PAGING64_PTE_SWPOFF_MASK)"
definition PAGING64_PTE_SET_FPN :: "addr \<Rightarrow> addr \<Rightarrow> addr" where
  "PAGING64_PTE_SET_FPN pte fpn =
     (pte AND NOT PAGING64_PTE_FPN_MASK) OR (push_bit 12 fpn AND PAGING64_PTE_FPN_MASK)"
definition PAGING64_PTE_SET_SWP :: "addr \<Rightarrow> addr \<Rightarrow> addr" where
  "PAGING64_PTE_SET_SWP pte swpoff =
     (pte AND NOT PAGING64_PTE_SWPOFF_MASK) OR (push_bit 12 swpoff AND PAGING64_PTE_SWPOFF_MASK)"
definition PAGING64_PTE_SET_SWPTYP :: "addr \<Rightarrow> int \<Rightarrow> addr" where
  "PAGING64_PTE_SET_SWPTYP pte swptyp =
     (pte AND NOT PAGING64_PTE_SWPTYP_MASK) OR (push_bit 3 (addr_of_int swptyp) AND PAGING64_PTE_SWPTYP_MASK)"

definition init_pte :: "addr \<Rightarrow> int \<Rightarrow> addr \<Rightarrow> int \<Rightarrow> int \<Rightarrow> int \<Rightarrow> addr \<Rightarrow> int \<times> addr" where
  "init_pte pte pre fpn drt swp swptyp swpoff =
     (if pre \<noteq> 0 then
        if swp = 0 then
          if fpn = 0 then (-1, pte)
          else (0, PAGING64_PTE_SET_FPN
            (CLRBIT (CLRBIT (SETBIT pte PAGING64_PTE_PRESENT_MASK) PAGING64_PTE_SWAPPED_MASK)
              PAGING64_PTE_DIRTY_MASK) fpn)
        else (0, PAGING64_PTE_SET_SWP (PAGING64_PTE_SET_SWPTYP
            (CLRBIT (SETBIT (CLRBIT pte PAGING64_PTE_PRESENT_MASK) PAGING64_PTE_SWAPPED_MASK)
              PAGING64_PTE_DIRTY_MASK) swptyp) swpoff)
      else (0, pte))"

text \<open>The entry \<open>pte_set_fpn\<close> writes for a resident page, and \<open>pte_set_swap\<close> for a swapped one.\<close>

definition pte_of_fpn :: "addr \<Rightarrow> addr" where
  "pte_of_fpn fpn = PAGING64_PTE_SET_FPN
     (CLRBIT (SETBIT 0 PAGING64_PTE_PRESENT_MASK) PAGING64_PTE_SWAPPED_MASK) fpn"

definition pte_of_swap :: "int \<Rightarrow> addr \<Rightarrow> addr" where
  "pte_of_swap swptyp swpoff = PAGING64_PTE_SET_SWP (PAGING64_PTE_SET_SWPTYP
     (SETBIT (CLRBIT 0 PAGING64_PTE_PRESENT_MASK) PAGING64_PTE_SWAPPED_MASK) swptyp) swpoff"

section \<open>Bits of masks and fields\<close>

lemma bit_GENMASK64: "h < 64 \<Longrightarrow> bit (GENMASK64 h l) n \<longleftrightarrow> l \<le> n \<and> n \<le> h"
  by (auto simp: GENMASK64_def bit_simps)

lemma mask_field:
  "h < 64 \<Longrightarrow> l \<le> h \<Longrightarrow> drop_bit l (a AND GENMASK64 h l) = take_bit (Suc h - l) (drop_bit l a)"
  by (rule bit_word_eqI) (auto simp: bit_simps bit_GENMASK64)

lemma offset_field: "a AND PAGING64_ADDR_OFFST_MASK = take_bit 12 a"
  using mask_field [of 11 0 a] by (simp add: addr_masks)

lemma get_pd_from_address_fields:
  "snd (get_pd_from_address a) =
     (take_bit 9 (drop_bit 48 a), take_bit 9 (drop_bit 39 a), take_bit 9 (drop_bit 30 a),
      take_bit 9 (drop_bit 21 a), take_bit 9 (drop_bit 12 a))"
  by (simp add: get_pd_from_address_def Let_def addr_masks mask_field del: drop_bit_and)

text \<open>Canonical addresses: bits 63 to 57 repeat bit 56.\<close>

definition canonical :: "addr \<Rightarrow> bool" where
  "canonical a \<longleftrightarrow> fst (get_pd_from_address a) = 0"

lemma and_1_zero_iff: "drop_bit n (a :: addr) AND 1 = 0 \<longleftrightarrow> \<not> bit a n"
  by (simp add: and_one_eq bit_iff_odd_drop_bit even_iff_mod_2_eq_zero)

lemma is_kernel_address_bit: "is_kernel_address a \<longleftrightarrow> bit a 56"
  by (simp add: is_kernel_address_def and_1_zero_iff)

lemma top_bits_iff:
  fixes a v :: addr
  assumes "n + m = 64"
  shows "drop_bit n a = v \<longleftrightarrow> (\<forall>k. bit v k \<longleftrightarrow> k < m \<and> bit a (n + k))"
proof
  assume v: "drop_bit n a = v"
  show "\<forall>k. bit v k \<longleftrightarrow> k < m \<and> bit a (n + k)"
    using bit_imp_le_length [of a] assms unfolding v [symmetric] bit_drop_bit_eq by fastforce
next
  assume v: "\<forall>k. bit v k \<longleftrightarrow> k < m \<and> bit a (n + k)"
  show "drop_bit n a = v"
  proof (rule bit_word_eqI)
    fix k :: nat
    have "bit a (n + k) \<Longrightarrow> k < m" using bit_imp_le_length [of a "n + k"] assms by simp
    with v show "bit (drop_bit n a) k = bit v k" by (auto simp: bit_drop_bit_eq)
  qed
qed

lemma bit_mask_addr: "bit (mask m :: addr) k \<longleftrightarrow> k < m \<and> k < 64"
  by (auto simp: bit_mask_iff)

lemma bit_0x7F: "bit (0x7F :: addr) k \<longleftrightarrow> k < 7"
  and bit_0xFF: "bit (0xFF :: addr) k \<longleftrightarrow> k < 8"
proof -
  have "(0x7F :: addr) = mask 7" "(0xFF :: addr) = mask 8" by (simp_all add: mask_eq_exp_minus_1)
  then show "bit (0x7F :: addr) k \<longleftrightarrow> k < 7" "bit (0xFF :: addr) k \<longleftrightarrow> k < 8"
    by (simp_all only: bit_mask_addr) auto
qed

lemma top_bits_zero: "n + m = 64 \<Longrightarrow> drop_bit n a = 0 \<longleftrightarrow> (\<forall>k < m. \<not> bit a (n + k))" for a :: addr
  by (subst top_bits_iff) auto

lemma top_bits_0x7F: "drop_bit 57 a = 0x7F \<longleftrightarrow> (\<forall>k < 7. bit a (57 + k))" for a :: addr
  by (subst top_bits_iff [of 57 7]) (simp, simp only: bit_0x7F, blast)

lemma top_bits_0xFF: "drop_bit 56 a = 0xFF \<longleftrightarrow> (\<forall>k < 8. bit a (56 + k))" for a :: addr
  by (subst top_bits_iff [of 56 8]) (simp, simp only: bit_0xFF, blast)

lemma canonical_bits: "canonical a \<longleftrightarrow> (\<forall>k < 7. bit a (57 + k) = bit a 56)"
proof -
  have "canonical a \<longleftrightarrow> (if bit a 56 then drop_bit 57 a = 0x7F else drop_bit 57 a = 0)"
    by (simp add: canonical_def get_pd_from_address_def and_1_zero_iff)
  also have "\<dots> \<longleftrightarrow> (\<forall>k < 7. bit a (57 + k) = bit a 56)"
    by (simp only: top_bits_0x7F top_bits_zero [of 57 7 a, simplified]) auto
  finally show ?thesis .
qed

lemma canonical_bit: "canonical a \<Longrightarrow> 56 \<le> n \<Longrightarrow> n < 64 \<Longrightarrow> bit a n = bit a 56"
  using canonical_bits [of a] by (cases "n = 56") (auto dest: spec [of _ "n - 57"])


section \<open>Addresses and page numbers\<close>

lemma bit_pagenum: "bit (drop_bit 12 (a :: addr)) n = bit a (12 + n)"
  by (simp add: bit_drop_bit_eq)

text \<open>The bits of one nine-bit index.\<close>

lemma index_bit:
  fixes a b :: addr
  assumes "take_bit 9 (drop_bit l a) = take_bit 9 (drop_bit l b)" "l \<le> m" "m < l + 9"
  shows "bit a m = bit b m"
proof -
  have "bit (take_bit 9 (drop_bit l a)) (m - l) = bit (take_bit 9 (drop_bit l b)) (m - l)"
    by (simp only: assms(1))
  with assms(2,3) show ?thesis by (simp add: bit_take_bit_iff bit_drop_bit_eq less_diff_conv2)
qed

lemma same_path_bits:
  assumes "canonical a" "canonical b" "snd (get_pd_from_address a) = snd (get_pd_from_address b)"
    and "12 \<le> n" "n < 64"
  shows "bit a n = bit b n"
proof -
  have low: "bit a m = bit b m" if "12 \<le> m" "m < 57" for m
  proof -
    note path = assms(3) [unfolded get_pd_from_address_fields prod.inject]
    from that consider "m < 21" | "21 \<le> m" "m < 30" | "30 \<le> m" "m < 39" | "39 \<le> m" "m < 48" | "48 \<le> m"
      by linarith
    then show ?thesis
      using that index_bit [of 12 a b m] index_bit [of 21 a b m] index_bit [of 30 a b m]
        index_bit [of 39 a b m] index_bit [of 48 a b m] path
      by cases simp_all
  qed
  show ?thesis
  proof (cases "n < 57")
    case True
    with low assms(4) show ?thesis by blast
  next
    case False
    with assms low [of 56] show ?thesis
      using canonical_bit [of a n] canonical_bit [of b n] by simp
  qed
qed


lemma same_path_same_page:
  assumes "canonical a" "canonical b" "snd (get_pd_from_address a) = snd (get_pd_from_address b)"
  shows "drop_bit 12 a = drop_bit 12 b"
proof (rule bit_word_eqI)
  fix n :: nat
  show "bit (drop_bit 12 a) n = bit (drop_bit 12 b) n"
    using same_path_bits [OF assms, of "12 + n"] bit_imp_le_length [of a "12 + n"]
      bit_imp_le_length [of b "12 + n"]
    unfolding bit_pagenum by fastforce
qed

lemma same_page_same_path:
  assumes "drop_bit 12 a = drop_bit 12 b"
  shows "get_pd_from_address a = get_pd_from_address b"
proof -
  have "bit a n = bit b n" if "12 \<le> n" for n
    using bit_pagenum [of a "n - 12"] bit_pagenum [of b "n - 12"] that assms by simp
  then have drop: "drop_bit l a = drop_bit l b" if "12 \<le> l" for l
    using that by (intro bit_word_eqI) (simp add: bit_drop_bit_eq)
  have "fst (get_pd_from_address a) = fst (get_pd_from_address b)"
    by (simp add: get_pd_from_address_def Let_def drop)
  moreover have "snd (get_pd_from_address a) = snd (get_pd_from_address b)"
    by (simp add: get_pd_from_address_fields drop)
  ultimately show ?thesis by (simp add: prod_eq_iff)
qed

section \<open>Bits of page-table entries\<close>

lemma page_present_bit: "PAGING64_PAGE_PRESENT pte \<longleftrightarrow> bit pte 0"
  by (simp add: PAGING64_PAGE_PRESENT_def PAGING64_PTE_PRESENT_MASK_def and_one_eq bit_0 even_iff_mod_2_eq_zero)

lemma and_push_1: "pte AND push_bit n 1 = 0 \<longleftrightarrow> \<not> bit pte n" for pte :: addr
  by (simp add: and_exp_eq_0_iff_not_bit push_bit_of_1)

lemma page_swapped_bit: "PAGING64_PAGE_SWAPPED pte \<longleftrightarrow> bit pte 1"
  using and_push_1 [where n = 1 and pte = pte] by (simp add: PAGING64_PAGE_SWAPPED_def PAGING64_PTE_SWAPPED_MASK_def)

lemma bit_flag_mask: "bit (push_bit n 1 :: addr) k \<longleftrightarrow> k = n \<and> n < 64"
  by (auto simp: bit_exp_iff)

lemmas pte_bits = bit_or_iff bit_and_iff bit_not_iff bit_push_bit_iff bit_drop_bit_eq bit_GENMASK64
  bit_flag_mask bit_take_bit_iff

lemma bit_PTE_SET_FPN:
  "bit (PAGING64_PTE_SET_FPN pte fpn) n \<longleftrightarrow>
     (if 12 \<le> n \<and> n \<le> 51 then bit fpn (n - 12) else bit pte n)"
  using bit_imp_le_length [of pte n] bit_imp_le_length [of fpn "n - 12"]
  by (auto simp: PAGING64_PTE_SET_FPN_def PAGING64_PTE_FPN_MASK_def pte_bits)

lemma bit_PTE_SET_SWP:
  "bit (PAGING64_PTE_SET_SWP pte off) n \<longleftrightarrow>
     (if 12 \<le> n \<and> n \<le> 51 then bit off (n - 12) else bit pte n)"
  using bit_PTE_SET_FPN [of pte off n]
  by (simp add: PAGING64_PTE_SET_FPN_def PAGING64_PTE_SET_SWP_def PAGING64_PTE_SWPOFF_MASK_def PAGING64_PTE_FPN_MASK_def)

lemma PTE_FPN_field: "PAGING64_PTE_FPN pte = take_bit 40 (drop_bit 12 pte)"
  by (simp add: PAGING64_PTE_FPN_def PAGING64_PTE_FPN_MASK_def mask_field del: drop_bit_and)

lemma PTE_SWP_field: "PAGING64_PTE_SWP pte = take_bit 40 (drop_bit 12 pte)"
  by (simp add: PAGING64_PTE_SWP_def PAGING64_PTE_SWPOFF_MASK_def mask_field del: drop_bit_and)

lemma PTE_FPN_SET_FPN: "PAGING64_PTE_FPN (PAGING64_PTE_SET_FPN pte fpn) = take_bit 40 fpn"
  unfolding PTE_FPN_field by (rule bit_word_eqI) (auto simp: bit_PTE_SET_FPN bit_take_bit_iff bit_drop_bit_eq)

lemma PTE_SWP_SET_SWP: "PAGING64_PTE_SWP (PAGING64_PTE_SET_SWP pte off) = take_bit 40 off"
  unfolding PTE_SWP_field by (rule bit_word_eqI) (auto simp: bit_PTE_SET_SWP bit_take_bit_iff bit_drop_bit_eq)


lemma take_bit_id: "a < 2 ^ n \<Longrightarrow> n < 64 \<Longrightarrow> take_bit n a = a" for a :: addr
  by (simp add: take_bit_eq_mod mod_word_less)

lemma bit_pte_of_fpn:
  "bit (pte_of_fpn fpn) n \<longleftrightarrow> (if 12 \<le> n \<and> n \<le> 51 then bit fpn (n - 12) else n = 0)"
  by (auto simp: pte_of_fpn_def bit_PTE_SET_FPN SETBIT_def CLRBIT_def pte_masks pte_bits bit_1_iff bit_exp_iff)

lemma bit_SET_SWPTYP_low: "n < 3 \<Longrightarrow> bit (PAGING64_PTE_SET_SWPTYP pte t) n \<longleftrightarrow> bit pte n"
  by (auto simp: PAGING64_PTE_SET_SWPTYP_def PAGING64_PTE_SWPTYP_MASK_def pte_bits)

lemma bit_pte_of_swap_low: "n < 3 \<Longrightarrow> bit (pte_of_swap t off) n \<longleftrightarrow> n = 1"
  using bit_flag_mask [of 1 n]
  by (auto simp: pte_of_swap_def bit_PTE_SET_SWP bit_SET_SWPTYP_low SETBIT_def CLRBIT_def pte_masks)

lemma pte_of_fpn_present [simp]: "PAGING64_PAGE_PRESENT (pte_of_fpn fpn)"
  and pte_of_fpn_not_swapped [simp]: "\<not> PAGING64_PAGE_SWAPPED (pte_of_fpn fpn)"
  by (simp_all add: page_present_bit page_swapped_bit bit_pte_of_fpn)

lemma pte_of_fpn_fpn: "PAGING64_PTE_FPN (pte_of_fpn fpn) = take_bit 40 fpn"
  by (simp add: pte_of_fpn_def PTE_FPN_SET_FPN)

lemma pte_of_swap_swapped [simp]: "PAGING64_PAGE_SWAPPED (pte_of_swap t off)"
  and pte_of_swap_not_present [simp]: "\<not> PAGING64_PAGE_PRESENT (pte_of_swap t off)"
  by (simp_all add: page_present_bit page_swapped_bit bit_pte_of_swap_low)

lemma pte_of_swap_off: "PAGING64_PTE_SWP (pte_of_swap t off) = take_bit 40 off"
  by (simp add: pte_of_swap_def PTE_SWP_SET_SWP)

lemma pte_zero [simp]: "\<not> PAGING64_PAGE_PRESENT 0" "\<not> PAGING64_PAGE_SWAPPED 0"
  by (simp_all add: page_present_bit page_swapped_bit)

lemma dummy_pte [simp]:
  "\<not> PAGING64_PAGE_PRESENT PAGING64_DUMMY_PTE" "\<not> PAGING64_PAGE_SWAPPED PAGING64_DUMMY_PTE"
  by (simp_all add: PAGING64_PAGE_PRESENT_def PAGING64_PAGE_SWAPPED_def c_defs)

lemma take_bit_9_less: "take_bit 9 (a :: addr) < 512"
  by (simp add: word_less_nat_alt unsigned_take_bit_eq take_bit_nat_less_exp [of 9, simplified])

lemma drop_56_iff:
  "drop_bit 56 a = 0 \<longleftrightarrow> a < 2 ^ 56" "drop_bit 56 a = 0xFF \<longleftrightarrow> - (2 ^ 56) \<le> a" for a :: addr
proof -
  have u: "unat (drop_bit 56 a) = unat a div 2 ^ 56"
    unfolding unat_drop_bit_eq by (rule drop_bit_eq_div)
  have "drop_bit 56 a = 0 \<longleftrightarrow> unat a div 2 ^ 56 = 0"
    by (simp only: u [symmetric] unat_eq_0)
  then show "drop_bit 56 a = 0 \<longleftrightarrow> a < 2 ^ 56"
    by (simp add: word_less_nat_alt) linarith
  have "drop_bit 56 a = 0xFF \<longleftrightarrow> unat (drop_bit 56 a) = unat (0xFF :: addr)"
    by (rule word_unat_eq_iff)
  then have "drop_bit 56 a = 0xFF \<longleftrightarrow> unat a div 2 ^ 56 = 255" unfolding u by simp
  moreover have "unat a < 2 ^ 64" using unsigned_less [of a] by simp
  ultimately show "drop_bit 56 a = 0xFF \<longleftrightarrow> - (2 ^ 56) \<le> a"
    by (simp add: word_le_nat_alt) linarith
qed

lemma canonical_top_byte:
  "canonical a \<and> \<not> is_kernel_address a \<longleftrightarrow> drop_bit 56 a = 0"
  "canonical a \<and> is_kernel_address a \<longleftrightarrow> drop_bit 56 a = 0xFF"
proof -
  have all8: "(\<forall>k < 8. Q (56 + k)) \<longleftrightarrow> Q 56 \<and> (\<forall>k < 7. Q (57 + k))" for Q :: "nat \<Rightarrow> bool"
  proof -
    have "(\<forall>k < Suc 7. Q (56 + k)) \<longleftrightarrow> Q (56 + 0) \<and> (\<forall>k < 7. Q (56 + Suc k))"
      by (rule All_less_Suc2)
    moreover have "56 + Suc k = 57 + k" "Suc 7 = 8" "56 + 0 = (56 :: nat)" for k by simp_all
    ultimately show ?thesis by (simp only:)
  qed
  have b: "canonical a \<longleftrightarrow> (\<forall>k < 7. bit a (57 + k) = bit a 56)" "is_kernel_address a \<longleftrightarrow> bit a 56"
    by (rule canonical_bits, rule is_kernel_address_bit)
  show "canonical a \<and> \<not> is_kernel_address a \<longleftrightarrow> drop_bit 56 a = 0"
    unfolding top_bits_zero [of 56 8 a, simplified] all8 [of "\<lambda>n. \<not> bit a n"] b by blast
  show "canonical a \<and> is_kernel_address a \<longleftrightarrow> drop_bit 56 a = 0xFF"
    unfolding top_bits_0xFF all8 [of "bit a"] b by blast
qed

section \<open>Page ranges\<close>

lemma canonical_uint:
  "canonical a \<and> \<not> is_kernel_address a \<longleftrightarrow> uint a < 2 ^ 56"
  "canonical a \<and> is_kernel_address a \<longleftrightarrow> 2 ^ 64 - 2 ^ 56 \<le> uint a"
  unfolding canonical_top_byte drop_56_iff by (simp_all add: word_less_def word_le_def)

text \<open>The page with number \<open>i\<close> of a range that \<open>validate_page_range\<close> accepts.\<close>

lemma page_range_step:
  assumes "a AND PAGING64_ADDR_OFFST_MASK = 0"
  shows "push_bit 12 (drop_bit 12 a + addr_of_int i) = a + addr_of_int (4096 * i)"
proof -
  have "take_bit 12 a = 0" using assms offset_field by simp
  then have "push_bit 12 (drop_bit 12 a) = a" using bits_ident [of 12 a] by simp
  then show ?thesis by (simp add: push_bit_add push_bit_eq_mult addr_of_int_def mult.commute)
qed

lemma page_range:
  assumes "validate_page_range a n = 0" "0 \<le> i" "i < n" "n < 2 ^ 31"
  shows "uint (a + addr_of_int (4096 * i)) = uint a + 4096 * i"
    and "canonical (a + addr_of_int (4096 * i))"
    and "is_kernel_address (a + addr_of_int (4096 * i)) = is_kernel_address a"
proof -
  let ?last = "a + (addr_of_int n - 1) * 4096"
  from assms have last: "a \<le> ?last" "canonical a" "canonical ?last" "is_kernel_address ?last = is_kernel_address a"
    by (auto simp: validate_page_range_def Let_def canonical_def PAGING64_PAGESZ_def split: if_splits)
  have w: "uint (addr_of_int (4096 * j)) = 4096 * j" if "0 \<le> j" "j < 2 ^ 31" for j
  proof -
    have "uint (word_of_int (4096 * j) :: addr) = (4096 * j) mod 2 ^ 64"
      by (subst uint_word_of_int) simp
    with that show ?thesis unfolding addr_of_int_def by simp
  qed
  have l: "?last = a + addr_of_int (4096 * (n - 1))" by (simp add: addr_of_int_def algebra_simps)
  have u: "uint ?last = uint a + 4096 * (n - 1)"
    using last(1) w [of "n - 1"] assms unfolding l
    by (simp add: no_olen_add_nat uint_plus_simple word_le_def)
  have max: "uint ?last < 2 ^ 64" using unsigned_less [of ?last] by simp
  show v: "uint (a + addr_of_int (4096 * i)) = uint a + 4096 * i"
    using u max w [of i] assms by (simp add: uint_word_ariths)
  have "canonical (a + addr_of_int (4096 * i)) \<and>
      is_kernel_address (a + addr_of_int (4096 * i)) = is_kernel_address a"
    using canonical_uint [of a] canonical_uint [of ?last] canonical_uint [of "a + addr_of_int (4096 * i)"]
      last u v assms by (cases "is_kernel_address a") auto
  then show "canonical (a + addr_of_int (4096 * i))"
    "is_kernel_address (a + addr_of_int (4096 * i)) = is_kernel_address a" by auto
qed

lemma page_range_inj:
  assumes "validate_page_range a n = 0" "0 \<le> i" "i < n" "0 \<le> j" "j < n" "n < 2 ^ 31"
    and "a + addr_of_int (4096 * i) = a + addr_of_int (4096 * j)"
  shows "i = j"
proof -
  have "uint a + 4096 * i = uint a + 4096 * j"
    using page_range(1) [OF assms(1,2,3,6)] page_range(1) [OF assms(1,4,5,6)] assms(7) by metis
  then show ?thesis by linarith
qed

lemma validate_page_range_cases: "validate_page_range a n = 0 \<or> validate_page_range a n = -1"
  by (simp add: validate_page_range_def Let_def)

lemma validate_page_rangeD:
  "validate_page_range a n = 0 \<Longrightarrow> a AND PAGING64_ADDR_OFFST_MASK = 0 \<and> 0 \<le> n"
  by (auto simp: validate_page_range_def split: if_splits)

section \<open>Properties\<close>

text \<open>
  The five-level split is faithful. Two canonical addresses have the same five indices
  exactly when they lie in the same 4 KiB page, so no two pages share a page-table entry and
  every page has one.
\<close>

theorem page_path_injective:
  assumes "canonical a" "canonical b"
  shows "snd (get_pd_from_address a) = snd (get_pd_from_address b) \<longleftrightarrow> drop_bit 12 a = drop_bit 12 b"
  using same_path_same_page [OF assms] same_page_same_path [of a b] by auto

theorem page_path_injective_witness:
  "snd (get_pd_from_address 0x1000) \<noteq> snd (get_pd_from_address 0x2000)"
proof -
  have "canonical 0x1000" "canonical 0x2000"
    by (simp_all add: canonical_def get_pd_from_address_def)
  from page_path_injective [OF this] show ?thesis by simp
qed

text \<open>
  Every index that \<open>get_pd_from_address\<close> computes is below 512, so the table
  accesses of the page walk stay inside the allocated 512-entry tables, for canonical and
  non-canonical addresses alike.
\<close>

theorem page_indices_bounded:
  "case get_pd_from_address a of (ret, pgd, p4d, pud, pmd, pt) \<Rightarrow>
     (ret = 0 \<or> ret = -1) \<and> pgd < 512 \<and> p4d < 512 \<and> pud < 512 \<and> pmd < 512 \<and> pt < 512"
proof -
  have "fst (get_pd_from_address a) = 0 \<or> fst (get_pd_from_address a) = -1"
    by (simp add: get_pd_from_address_def Let_def)
  then show ?thesis
    using get_pd_from_address_fields [of a] by (auto simp: take_bit_9_less split: prod.splits)
qed

text \<open>
  Canonical addresses are the two halves of the 57-bit space: user addresses below
  \<open>2 ^ 56\<close> and kernel addresses from \<open>- (2 ^ 56)\<close> up, and \<open>is_kernel_address\<close> tells
  them apart.
\<close>

theorem canonical_halves:
  "(canonical a \<and> \<not> is_kernel_address a \<longleftrightarrow> a < 2 ^ 56) \<and>
   (canonical a \<and> is_kernel_address a \<longleftrightarrow> - (2 ^ 56) \<le> a)"
  by (simp only: canonical_top_byte drop_56_iff)

text \<open>
  Page-table entries round-trip. A frame number or swap offset of at most 40 bits is
  read back exactly from the entry \<open>pte_set_fpn\<close> or \<open>pte_set_swap\<close> builds, the two kinds
  of entries are never confused, and the dummy pattern of \<open>vmap_pgd_memset\<close> is neither.
\<close>

theorem pte_round_trip:
  assumes "fpn < 2 ^ 40" "off < 2 ^ 40"
  shows "PAGING64_PTE_FPN (pte_of_fpn fpn) = fpn \<and> PAGING64_PAGE_PRESENT (pte_of_fpn fpn) \<and>
    \<not> PAGING64_PAGE_SWAPPED (pte_of_fpn fpn) \<and>
    PAGING64_PTE_SWP (pte_of_swap typ off) = off \<and> \<not> PAGING64_PAGE_PRESENT (pte_of_swap typ off) \<and>
    PAGING64_PAGE_SWAPPED (pte_of_swap typ off) \<and>
    \<not> PAGING64_PAGE_PRESENT PAGING64_DUMMY_PTE \<and> \<not> PAGING64_PAGE_SWAPPED PAGING64_DUMMY_PTE"
  using assms by (simp add: pte_of_fpn_fpn pte_of_swap_off take_bit_id)

theorem pte_round_trip_witness:
  "PAGING64_PTE_FPN (pte_of_fpn 65535) = 65535 \<and> PAGING64_PTE_SWP (pte_of_swap 0 4095) = 4095"
  using pte_round_trip [of 65535 4095 0] by simp

end
