(* ===== verification/Memphy.thy ===== *)
theory Memphy
  imports Paging64
begin

text \<open>
  The physical memory devices of src/mm-memphy.c: RAM and the swap devices. Every public
  function holds the device lock for its whole body. A result \<open>None\<close> of the outermost
  option is a memory access outside the allocated storage (or through a null pointer),
  which C leaves undefined; the device that a caller passes as a null pointer is handled
  where the caller's pointer is looked up.
\<close>

section \<open>Byte access\<close>

definition storage_get :: "memphy_struct \<Rightarrow> addr \<Rightarrow> byte option" where
  "storage_get mp a = (if unat a < storage_len mp then Some (storage mp a) else None)"

definition storage_put :: "memphy_struct \<Rightarrow> addr \<Rightarrow> byte \<Rightarrow> memphy_struct option" where
  "storage_put mp a v =
     (if unat a < storage_len mp then Some (mp\<lparr>storage := (storage mp)(a := v)\<rparr>) else None)"

text \<open>The loop of \<open>MEMPHY_mv_csr\<close>: \<open>numstep\<close> and \<open>cursor\<close> are C ints.\<close>

function mv_csr_loop :: "int \<Rightarrow> int \<Rightarrow> addr \<Rightarrow> int \<Rightarrow> int" where
  "mv_csr_loop csr numstep offset sz =
     (if addr_of_int numstep < offset \<and> numstep < sz
      then mv_csr_loop ((csr + 1) mod sz) (numstep + 1) offset sz else csr)"
  by pat_completeness auto
termination
  by (relation "measure (\<lambda>(csr, numstep, offset, sz). nat (sz - numstep))") auto

declare mv_csr_loop.simps [simp del]

definition MEMPHY_mv_csr :: "memphy_struct \<Rightarrow> addr \<Rightarrow> memphy_struct" where
  "MEMPHY_mv_csr mp offset = mp\<lparr>cursor := mv_csr_loop 0 0 offset (maxsz mp)\<rparr>"

definition MEMPHY_seq_read :: "memphy_struct \<Rightarrow> addr \<Rightarrow> (byte option \<times> memphy_struct) option" where
  "MEMPHY_seq_read mp a =
     (if \<not> rdmflg mp then Some (None, mp)
      else do { v \<leftarrow> storage_get mp a; Some (Some v, MEMPHY_mv_csr mp a) })"

text \<open>The byte, or \<open>None\<close> for the return value -1.\<close>

definition MEMPHY_read :: "memphy_struct \<Rightarrow> addr \<Rightarrow> (byte option \<times> memphy_struct) option" where
  "MEMPHY_read mp a =
     (if addr_of_int (maxsz mp) \<le> a then Some (None, mp)
      else if rdmflg mp then do { v \<leftarrow> storage_get mp a; Some (Some v, mp) }
      else MEMPHY_seq_read mp a)"

definition MEMPHY_seq_write :: "memphy_struct \<Rightarrow> addr \<Rightarrow> byte \<Rightarrow> (int \<times> memphy_struct) option" where
  "MEMPHY_seq_write mp a v =
     (if \<not> rdmflg mp then Some (-1, mp)
      else do { mp' \<leftarrow> storage_put (MEMPHY_mv_csr mp a) a v; Some (0, mp') })"

definition MEMPHY_write :: "memphy_struct \<Rightarrow> addr \<Rightarrow> byte \<Rightarrow> (int \<times> memphy_struct) option" where
  "MEMPHY_write mp a v =
     (if addr_of_int (maxsz mp) \<le> a then Some (-1, mp)
      else if rdmflg mp then do { mp' \<leftarrow> storage_put mp a v; Some (0, mp') }
      else MEMPHY_seq_write mp a v)"

section \<open>The frame list\<close>

text \<open>
  \<open>MEMPHY_format\<close> allocates one list node per frame without checking \<open>malloc\<close>; the
  nodes from \<open>iter\<close> up to \<open>numfp\<close>.
\<close>

function format_nodes :: "host \<Rightarrow> int \<Rightarrow> int \<Rightarrow> (addr list \<times> host) option" where
  "format_nodes h iter numfp =
     (if iter < numfp then
        let (ok, h1) = halloc h in
        if \<not> ok then None
        else do { (fps, h2) \<leftarrow> format_nodes h1 (iter + 1) numfp; Some (addr_of_int iter # fps, h2) }
      else Some ([], h))"
  by pat_completeness auto
termination
  by (relation "measure (\<lambda>(h, iter, numfp). nat (numfp - iter))") auto

declare format_nodes.simps [simp del]

definition MEMPHY_format :: "host \<Rightarrow> memphy_struct \<Rightarrow> int \<Rightarrow> (int \<times> memphy_struct \<times> host) option" where
  "MEMPHY_format h mp pagesz =
     (let numfp = sgn (maxsz mp) * (\<bar>maxsz mp\<bar> div pagesz) in
      if numfp \<le> 0 then Some (-1, mp, h)
      else do { (fps, h') \<leftarrow> format_nodes h 0 numfp; Some (0, mp\<lparr>free_fp_list := fps\<rparr>, h') })"

text \<open>The frame number, or \<open>None\<close> for the return value -1.\<close>

definition MEMPHY_get_freefp :: "memphy_struct \<Rightarrow> addr option \<times> memphy_struct" where
  "MEMPHY_get_freefp mp =
     (case free_fp_list mp of [] \<Rightarrow> (None, mp)
      | fpn # fps \<Rightarrow> (Some fpn, mp\<lparr>free_fp_list := fps\<rparr>))"

definition MEMPHY_put_freefp :: "host \<Rightarrow> memphy_struct \<Rightarrow> addr \<Rightarrow> int \<times> memphy_struct \<times> host" where
  "MEMPHY_put_freefp h mp fpn =
     (let (ok, h') = halloc h in
      if \<not> ok then (-1, mp, h')
      else (0, mp\<lparr>free_fp_list := fpn # free_fp_list mp\<rparr>, h'))"

text \<open>
  \<open>init_memphy\<close>: the parameter \<open>mp0\<close> is the uninitialised structure, whose cursor
  survives for a random-access device. The size is narrowed to \<open>int\<close>.
\<close>

definition init_memphy ::
    "host \<Rightarrow> memphy_struct \<Rightarrow> addr \<Rightarrow> int \<Rightarrow> (int \<times> memphy_struct \<times> host) option" where
  "init_memphy h mp0 max_size randomflg =
     (let (ok, h1) = halloc h in
      if \<not> ok \<and> max_size \<noteq> 0 then None
      else do {
        (r, mp, h2) \<leftarrow> MEMPHY_format h1
          (mp0\<lparr>storage := (\<lambda>_. 0), storage_len := unat max_size, maxsz := int_of_addr max_size,
               free_fp_list := [], used_fp_list := []\<rparr>) 4096;
        let mp' = mp\<lparr>rdmflg := (randomflg \<noteq> 0)\<rparr>;
        Some (0, if \<not> rdmflg mp' then mp'\<lparr>cursor := 0\<rparr> else mp', h2) })"

definition MEMPHY_cleanup :: "memphy_struct \<Rightarrow> memphy_struct" where
  "MEMPHY_cleanup mp = mp\<lparr>storage_len := 0, maxsz := 0, rdmflg := False, cursor := 0,
     free_fp_list := [], used_fp_list := []\<rparr>"

section \<open>Well-formed devices\<close>

text \<open>A device whose size fits an \<open>int\<close>: then the bound check guards the storage.\<close>

definition memphy_wf :: "memphy_struct \<Rightarrow> bool" where
  "memphy_wf mp \<longleftrightarrow> 0 \<le> maxsz mp \<and> maxsz mp < 2 ^ 31 \<and> storage_len mp = nat (maxsz mp)"

lemma unat_addr_of_int: "0 \<le> i \<Longrightarrow> i < 2 ^ 64 \<Longrightarrow> unat (addr_of_int i) = nat i"
  by (simp add: addr_of_int_def unat_eq_nat_uint uint_word_of_int_eq take_bit_int_eq_self)

lemma memphy_bound:
  "memphy_wf mp \<Longrightarrow> \<not> addr_of_int (maxsz mp) \<le> a \<longleftrightarrow> unat a < storage_len mp"
  by (auto simp: memphy_wf_def word_le_nat_alt unat_addr_of_int)


section \<open>The contract of a byte device\<close>

text \<open>
  What the page code relies on: inside the device size a read returns the content and a
  write changes exactly one byte; outside, both return an error and change nothing.
\<close>

locale byte_device =
  fixes rd :: "'m \<Rightarrow> addr \<Rightarrow> (byte option \<times> 'm) option"
    and wr :: "'m \<Rightarrow> addr \<Rightarrow> byte \<Rightarrow> (int \<times> 'm) option"
    and wf :: "'m \<Rightarrow> bool"
    and dsize :: "'m \<Rightarrow> nat"
    and content :: "'m \<Rightarrow> addr \<Rightarrow> byte"
  assumes rd_in: "wf m \<Longrightarrow> unat a < dsize m \<Longrightarrow> rd m a = Some (Some (content m a), m)"
    and rd_out: "wf m \<Longrightarrow> \<not> unat a < dsize m \<Longrightarrow> rd m a = Some (None, m)"
    and wr_in: "wf m \<Longrightarrow> unat a < dsize m \<Longrightarrow>
      \<exists>m'. wr m a v = Some (0, m') \<and> wf m' \<and> dsize m' = dsize m \<and> content m' = (content m)(a := v)"
    and wr_out: "wf m \<Longrightarrow> \<not> unat a < dsize m \<Longrightarrow> wr m a v = Some (-1, m)"
begin

lemma rd_total: "wf m \<Longrightarrow> \<exists>v. rd m a = Some (v, m) \<and> (v = None \<longleftrightarrow> \<not> unat a < dsize m)"
  using rd_in [of m a] rd_out [of m a] by (cases "unat a < dsize m") auto

lemma wr_total: "wf m \<Longrightarrow> \<exists>r m'. wr m a v = Some (r, m') \<and> wf m' \<and> dsize m' = dsize m \<and> (r = 0 \<or> r = -1)"
  using wr_in [of m a v] wr_out [of m a v] by (cases "unat a < dsize m") auto

lemma read_back:
  assumes "wf m" "wr m a v = Some (0, m')"
  shows "rd m' b = (if b = a then Some (Some v, m') else map_option (map_prod id (\<lambda>_. m')) (rd m b))"
proof -
  have a: "unat a < dsize m" using assms wr_out [of m a v] by (cases "unat a < dsize m") auto
  with assms wr_in [of m a v] have m': "wf m'" "dsize m' = dsize m" "content m' = (content m)(a := v)"
    by auto
  show ?thesis
    using rd_in [OF m'(1), of b] rd_out [OF m'(1), of b] rd_in [OF assms(1), of b]
      rd_out [OF assms(1), of b] m' a
    by (cases "unat b < dsize m") auto
qed

end

lemma MEMPHY_read_random:
  "memphy_wf mp \<Longrightarrow> rdmflg mp \<Longrightarrow>
   MEMPHY_read mp a = Some (if unat a < storage_len mp then Some (storage mp a) else None, mp)"
  using memphy_bound [of mp a] by (auto simp: MEMPHY_read_def storage_get_def)

lemma MEMPHY_write_random:
  "memphy_wf mp \<Longrightarrow> rdmflg mp \<Longrightarrow>
   MEMPHY_write mp a v = Some (if unat a < storage_len mp
     then (0, mp\<lparr>storage := (storage mp)(a := v)\<rparr>) else (-1, mp))"
  using memphy_bound [of mp a] by (auto simp: MEMPHY_write_def storage_put_def)

interpretation mem: byte_device MEMPHY_read MEMPHY_write "\<lambda>mp. memphy_wf mp \<and> rdmflg mp" storage_len storage
  by unfold_locales (auto simp: MEMPHY_read_random MEMPHY_write_random memphy_wf_def)

section \<open>Formatting and frames\<close>

lemma format_nodes_ok:
  "host_ok h \<Longrightarrow> \<exists>h'. format_nodes h i n = Some (map addr_of_int [i..n - 1], h') \<and> host_ok h'"
proof (induction h i n rule: format_nodes.induct)
  case (1 h i n)
  show ?case
  proof (cases "i < n")
    case True
    obtain h1 where h: "halloc h = (True, h1)" "host_ok h1"
      using halloc_ok [OF "1.prems"] by (cases "halloc h") auto
    from "1.IH" [OF True h(1) [symmetric] refl] h(2) obtain h' where
      "format_nodes h1 (i + 1) n = Some (map addr_of_int [i + 1..n - 1], h')" "host_ok h'" by auto
    moreover have "[i..n - 1] = i # [i + 1..n - 1]" using True by (simp add: upto.simps)
    ultimately show ?thesis using True h(1) by (simp add: format_nodes.simps [of h i n])
  qed (simp add: format_nodes.simps [of h i n] "1.prems")
qed

text \<open>The frame numbers of a device of \<open>n\<close> bytes.\<close>

definition frames_of :: "nat \<Rightarrow> addr list" where
  "frames_of n = map of_nat [0..<n div 4096]"

lemma frames_of_upto: "map addr_of_int [0..int n div 4096 - 1] = frames_of n"
proof -
  have "[0..int m - 1] = map int [0..<m]" for m
    by (induction m) (simp_all add: upto_rec2)
  from this [of "n div 4096"] show ?thesis
    by (simp add: frames_of_def addr_of_int_def zdiv_int)
qed

lemma frames_of_distinct: "n < 2 ^ 64 \<Longrightarrow> distinct (frames_of n)"
  by (auto simp: frames_of_def distinct_map inj_on_def word_of_nat_eq_iff take_bit_nat_eq_self)

lemma init_memphy_ok:
  assumes "host_ok h" "unat sz < 2 ^ 31"
  shows "\<exists>mp h'. init_memphy h mp0 sz flg = Some (0, mp, h') \<and> host_ok h' \<and> memphy_wf mp \<and>
    maxsz mp = int (unat sz) \<and> free_fp_list mp = frames_of (unat sz) \<and> used_fp_list mp = [] \<and>
    rdmflg mp = (flg \<noteq> 0) \<and> storage mp = (\<lambda>_. 0)"
proof -
  define n where "n = unat sz"
  have sz: "int_of_addr sz = int n" "unat sz = n" "n < 2 ^ 31"
    using int_of_addr_small [OF assms(2)] assms(2) by (simp_all add: n_def)
  obtain h1 where h: "halloc h = (True, h1)" "host_ok h1"
    using halloc_ok [OF assms(1)] by (cases "halloc h") auto
  obtain h2 where f: "format_nodes h1 0 (int n div 4096) = Some (frames_of n, h2)" "host_ok h2"
    using format_nodes_ok [OF h(2), of 0 "int n div 4096"] frames_of_upto [of n] by auto
  show ?thesis
  proof (cases "int n div 4096 \<le> 0")
    case True
    then have "frames_of n = []" by (simp add: frames_of_def flip: zdiv_int)
    with True h sz show ?thesis
      by (auto simp: init_memphy_def MEMPHY_format_def memphy_wf_def Let_def sgn_if simp del: of_nat_unat)
  next
    case False
    then have "sgn (int n) = 1" by (auto simp: sgn_if)
    with False h f sz show ?thesis
      by (auto simp: init_memphy_def MEMPHY_format_def memphy_wf_def Let_def simp del: of_nat_unat)
  qed
qed

section \<open>Properties\<close>

text \<open>A device as \<open>init_memphy\<close> leaves it, for the witnesses: 8 KiB of RAM, two frames.\<close>

definition blank_memphy :: memphy_struct where
  "blank_memphy = \<lparr>storage = (\<lambda>_. 0), storage_len = 0, maxsz = 0, rdmflg = False, cursor = 0,
     free_fp_list = [], used_fp_list = []\<rparr>"

definition demo_ram :: memphy_struct where
  "demo_ram = blank_memphy\<lparr>storage_len := 8192, maxsz := 8192, rdmflg := True, free_fp_list := [0, 1]\<rparr>"

lemma demo_ram_wf [simp]: "memphy_wf demo_ram" "rdmflg demo_ram" "storage_len demo_ram = 8192"
  by (simp_all add: demo_ram_def blank_memphy_def memphy_wf_def)

text \<open>
  Physical memory behaves as an array of bytes. On a well-formed random-access device a
  successful write is read back at its address and changes no other address; a write past
  the end returns -1 and changes nothing; no access leaves the allocated storage.
\<close>

theorem memphy_array:
  assumes "memphy_wf mp" "rdmflg mp"
  shows "MEMPHY_read mp b \<noteq> None \<and>
    (case MEMPHY_write mp a v of
       None \<Rightarrow> False
     | Some (r, mp') \<Rightarrow> r = (if uint a < maxsz mp then 0 else -1) \<and> (r = -1 \<longrightarrow> mp' = mp) \<and>
         map_option fst (MEMPHY_read mp' b) =
           (if r = 0 \<and> b = a then Some (Some v) else map_option fst (MEMPHY_read mp b)))"
proof -
  have "unat a < storage_len mp \<longleftrightarrow> uint a < maxsz mp"
    using assms(1) by (simp add: memphy_wf_def unat_less_nat_iff)
  then show ?thesis
    using assms mem.rd_total [of mp b] mem.read_back [of mp a v "mp\<lparr>storage := (storage mp)(a := v)\<rparr>" b]
    by (auto simp: MEMPHY_write_random map_prod_def option.map_comp comp_def)
qed

theorem memphy_array_witness:
  "\<exists>mp. MEMPHY_write demo_ram 77 5 = Some (0, mp) \<and> map_option fst (MEMPHY_read mp 77) = Some (Some 5)"
  using memphy_array [OF demo_ram_wf(1,2), of 77 77 5] by (auto simp: demo_ram_def split: option.splits)

text \<open>
  A device initialised with a size below 2 GiB gets exactly its whole 4 KiB frames, each
  once and in ascending order, zeroed storage of that size and a bound check that matches it.
\<close>

theorem init_memphy_frames:
  assumes "host_ok h" "unat sz < 2 ^ 31"
  shows "\<exists>mp h'. init_memphy h mp0 sz 1 = Some (0, mp, h') \<and> memphy_wf mp \<and> rdmflg mp \<and>
    free_fp_list mp = map of_nat [0..<unat sz div 4096] \<and> distinct (free_fp_list mp) \<and>
    (\<forall>a. unat a < unat sz \<longrightarrow> MEMPHY_read mp a = Some (Some 0, mp))"
proof -
  obtain mp h' where mp: "init_memphy h mp0 sz 1 = Some (0, mp, h')" "memphy_wf mp"
    "maxsz mp = int (unat sz)" "free_fp_list mp = frames_of (unat sz)" "rdmflg mp" "storage mp = (\<lambda>_. 0)"
    using init_memphy_ok [OF assms, of mp0 1] by auto
  moreover have "distinct (frames_of (unat sz))" using assms(2) by (intro frames_of_distinct) simp
  moreover have "storage_len mp = unat sz" using mp(2,3) by (simp add: memphy_wf_def)
  ultimately show ?thesis by (auto simp: MEMPHY_read_random frames_of_def)
qed

theorem init_memphy_frames_witness:
  "\<exists>mp h'. init_memphy (\<lambda>_. True) blank_memphy 12300 1 = Some (0, mp, h') \<and> free_fp_list mp = [0, 1, 2]"
  using init_memphy_frames [of "\<lambda>_. True" 12300 blank_memphy] by (auto simp: upt_rec)

text \<open>The size of a device of any size, narrowed to \<open>int\<close>.\<close>

lemma int_of_addr_range: "int_of_addr sz < 2 ^ 31"
proof -
  have "sint (ucast sz :: uint32) < 2 ^ 31" using sint_lt [of "ucast sz :: uint32"] by simp
  then show ?thesis by (simp add: int_of_addr_def)
qed

lemma int_of_addr_multiple: "unat sz mod 2 ^ 32 = 0 \<Longrightarrow> int_of_addr sz = 0"
proof -
  assume "unat sz mod 2 ^ 32 = 0"
  then have "unat (ucast sz :: uint32) = 0" by (simp add: unsigned_ucast_eq take_bit_eq_mod)
  then have "(ucast sz :: uint32) = 0" by (simp only: unat_eq_zero)
  then show ?thesis by (simp add: int_of_addr_def)
qed

lemma init_memphy_any:
  assumes "host_ok h"
  shows "\<exists>mp h'. init_memphy h mp0 sz 1 = Some (0, mp, h') \<and> storage_len mp = unat sz \<and> maxsz mp = int_of_addr sz \<and>
    free_fp_list mp = frames_of (nat (int_of_addr sz))"
proof -
  let ?m = "int_of_addr sz"
  obtain h1 where h: "halloc h = (True, h1)" "host_ok h1"
    using halloc_ok [OF assms] by (cases "halloc h") auto
  show ?thesis
  proof (cases "sgn ?m * (\<bar>?m\<bar> div 4096) \<le> 0")
    case True
    then have "nat ?m div 4096 = 0" by (cases "0 < ?m") (auto simp: nat_div_distrib)
    then have "frames_of (nat ?m) = []" by (simp add: frames_of_def)
    with True h show ?thesis by (simp add: init_memphy_def MEMPHY_format_def Let_def)
  next
    case False
    then have p: "0 < ?m" by (cases "?m = 0"; cases "?m < 0") (auto simp: mult_le_0_iff pos_imp_zdiv_nonneg_iff)
    then have "sgn ?m * (\<bar>?m\<bar> div 4096) = int (nat ?m) div 4096" by simp
    with format_nodes_ok [OF h(2), of 0 "int (nat ?m) div 4096"] frames_of_upto [of "nat ?m"]
    obtain h2 where "format_nodes h1 0 (sgn ?m * (\<bar>?m\<bar> div 4096)) = Some (frames_of (nat ?m), h2)" by auto
    with False h show ?thesis by (simp add: init_memphy_def MEMPHY_format_def Let_def)
  qed
qed

text \<open>
  C40: The size of a device is an \<open>int\<close>. For every configured size the storage has that size,
  but only the low 32 bits, read as a signed number, are kept as the device size, and
  the device gets the frames of that number: it gets all its frames exactly when the size is below
  2 GiB. For a multiple of 4 GiB, as the default RAM size \<open>0x100000000\<close> is one, it has no frame at all
  and refuses every access, although the storage is there.
\<close>

theorem device_size_limit:
  assumes "host_ok h"
  shows "\<exists>mp h'. init_memphy h mp0 sz 1 = Some (0, mp, h') \<and> storage_len mp = unat sz \<and>
    free_fp_list mp = map of_nat [0..<nat (int_of_addr sz) div 4096] \<and>
    (length (free_fp_list mp) = unat sz div 4096 \<longleftrightarrow> unat sz < 2 ^ 31) \<and>
    (unat sz mod 2 ^ 32 = 0 \<longrightarrow> free_fp_list mp = [] \<and>
       (\<forall>a v. MEMPHY_read mp a = Some (None, mp) \<and> MEMPHY_write mp a v = Some (-1, mp)))"
proof -
  obtain mp h' where mp: "init_memphy h mp0 sz 1 = Some (0, mp, h')" "storage_len mp = unat sz" "maxsz mp = int_of_addr sz"
    "free_fp_list mp = frames_of (nat (int_of_addr sz))" using init_memphy_any [OF assms] by blast
  have "nat (int_of_addr sz) div 4096 = unat sz div 4096 \<longleftrightarrow> unat sz < 2 ^ 31"
  proof
    assume e: "nat (int_of_addr sz) div 4096 = unat sz div 4096"
    have "nat (int_of_addr sz) < 2 ^ 31" using int_of_addr_range [of sz] by simp
    then have "nat (int_of_addr sz) div 4096 < 524288" by simp
    with e show "unat sz < 2 ^ 31" by simp
  next
    assume "unat sz < 2 ^ 31"
    then have "nat (int_of_addr sz) = unat sz" using int_of_addr_small [of sz] by simp
    then show "nat (int_of_addr sz) div 4096 = unat sz div 4096" by (simp only:)
  qed
  moreover have "free_fp_list mp = [] \<and> (\<forall>a v. MEMPHY_read mp a = Some (None, mp) \<and> MEMPHY_write mp a v = Some (-1, mp))"
    if "unat sz mod 2 ^ 32 = 0"
    using mp(3,4) int_of_addr_multiple [OF that] by (simp add: MEMPHY_read_def MEMPHY_write_def addr_of_int_def frames_of_def)
  ultimately show ?thesis using mp by (simp add: frames_of_def)
qed

theorem device_size_limit_witness:
  "\<exists>mp h'. init_memphy (\<lambda>_. True) blank_memphy 0x100000000 1 = Some (0, mp, h') \<and> storage_len mp = 0x100000000 \<and>
     free_fp_list mp = [] \<and> MEMPHY_read mp 5 = Some (None, mp)"
proof -
  have "host_ok (\<lambda>_. True)" by (simp add: host_ok_def)
  from device_size_limit [OF this, where ?mp0.0 = blank_memphy and sz = "0x100000000"] show ?thesis by fastforce
qed

text \<open>
  Sequential devices cannot be used. \<open>MEMPHY_read\<close> and \<open>MEMPHY_write\<close> send a device
  without the random-access flag to the sequential routines, which refuse exactly such
  devices: every access returns -1 and leaves the device as it was.
\<close>

theorem sequential_device_unusable:
  assumes "\<not> rdmflg mp"
  shows "MEMPHY_read mp a = Some (None, mp) \<and> MEMPHY_write mp a v = Some (-1, mp)"
  using assms by (simp add: MEMPHY_read_def MEMPHY_write_def MEMPHY_seq_read_def MEMPHY_seq_write_def)

theorem sequential_device_unusable_witness:
  "MEMPHY_read (demo_ram\<lparr>rdmflg := False\<rparr>) 3 = Some (None, demo_ram\<lparr>rdmflg := False\<rparr>)"
  using sequential_device_unusable [of "demo_ram\<lparr>rdmflg := False\<rparr>" 3 0] by simp

end
