(* ===== verification/Sys_State.thy ===== *)
theory Sys_State
  imports Mlq_Sched Memphy
begin

text \<open>
  The state of the simulator that the memory code works on: the scheduler, the PCBs by
  address, the devices (RAM and the swap devices), the root tables of kernel page tables,
  and the host allocator. The kernel contexts and address spaces belong to one PCB each and
  are part of it; devices and kernel roots are shared and are referred to by number.
\<close>

section \<open>The state and its access functions\<close>

record sys =
  sy_sched :: sched
  pcbs :: pcbs_t
  devs :: "nat \<Rightarrow> memphy_struct"
  kroots :: "nat \<Rightarrow> ptab option"
  next_root :: nat
  sy_host :: host

text \<open>
  The tests \<open>caller == NULL\<close>, \<open>caller->krnl == NULL\<close> and \<open>caller->krnl->mm == NULL\<close>
  in a row: the kernel context or the address space of the caller, if there is one.
\<close>

definition caller_krnl :: "sys \<Rightarrow> pptr \<Rightarrow> krnl_t option" where
  "caller_krnl s c = (if c = NULL then None else do { b \<leftarrow> pcbs s c; krnl b })"

definition caller_mm :: "sys \<Rightarrow> pptr \<Rightarrow> mm_struct option" where
  "caller_mm s c = do { k \<leftarrow> caller_krnl s c; k_mm k }"

definition caller_mram :: "sys \<Rightarrow> pptr \<Rightarrow> nat option" where
  "caller_mram s c = do { k \<leftarrow> caller_krnl s c; k_mram k }"

definition caller_mswp :: "sys \<Rightarrow> pptr \<Rightarrow> nat option" where
  "caller_mswp s c = do { k \<leftarrow> caller_krnl s c; k_active_mswp k }"

definition upd_krnl :: "pptr \<Rightarrow> (krnl_t \<Rightarrow> krnl_t) \<Rightarrow> sys \<Rightarrow> sys" where
  "upd_krnl c f s =
     s\<lparr>pcbs := (pcbs s)(c := map_option (\<lambda>b. b\<lparr>krnl := map_option f (krnl b)\<rparr>) (pcbs s c))\<rparr>"

definition upd_mm :: "pptr \<Rightarrow> (mm_struct \<Rightarrow> mm_struct) \<Rightarrow> sys \<Rightarrow> sys" where
  "upd_mm c f = upd_krnl c (\<lambda>k. k\<lparr>k_mm := map_option f (k_mm k)\<rparr>)"

definition upd_dev :: "nat \<Rightarrow> memphy_struct \<Rightarrow> sys \<Rightarrow> sys" where
  "upd_dev d mp s = s\<lparr>devs := (devs s)(d := mp)\<rparr>"

definition sys_alloc :: "sys \<Rightarrow> bool \<times> sys" where
  "sys_alloc s = (let (ok, h) = halloc (sy_host s) in (ok, s\<lparr>sy_host := h\<rparr>))"

section \<open>Lemmas on access and update\<close>

lemma caller_krnl_NULL [simp]: "caller_krnl s NULL = None"
  by (simp add: caller_krnl_def)

lemma caller_mm_NULL [simp]: "caller_mm s NULL = None"
  by (simp add: caller_mm_def)

lemma caller_krnl_upd_krnl [simp]:
  "caller_krnl (upd_krnl c f s) c' = (if c' = c then map_option f (caller_krnl s c) else caller_krnl s c')"
  by (cases "pcbs s c") (auto simp: caller_krnl_def upd_krnl_def)

lemma caller_krnl_upd_mm [simp]:
  "caller_krnl (upd_mm c f s) c' =
     (if c' = c then map_option (\<lambda>k. k\<lparr>k_mm := map_option f (k_mm k)\<rparr>) (caller_krnl s c)
      else caller_krnl s c')"
  by (simp add: upd_mm_def)

lemma caller_mm_upd_mm [simp]:
  "caller_mm (upd_mm c f s) c' = (if c' = c then map_option f (caller_mm s c) else caller_mm s c')"
  by (cases "caller_krnl s c") (auto simp: caller_mm_def)

lemma caller_mram_upd_mm [simp]: "caller_mram (upd_mm c f s) c' = caller_mram s c'"
  by (cases "caller_krnl s c") (auto simp: caller_mram_def)

lemma caller_mswp_upd_mm [simp]: "caller_mswp (upd_mm c f s) c' = caller_mswp s c'"
  by (cases "caller_krnl s c") (auto simp: caller_mswp_def)

lemma upd_krnl_frame [simp]:
  "sy_sched (upd_krnl c f s) = sy_sched s" "devs (upd_krnl c f s) = devs s"
  "kroots (upd_krnl c f s) = kroots s" "next_root (upd_krnl c f s) = next_root s"
  "sy_host (upd_krnl c f s) = sy_host s"
  by (simp_all add: upd_krnl_def)

lemma upd_mm_frame [simp]:
  "sy_sched (upd_mm c f s) = sy_sched s" "devs (upd_mm c f s) = devs s"
  "kroots (upd_mm c f s) = kroots s" "next_root (upd_mm c f s) = next_root s"
  "sy_host (upd_mm c f s) = sy_host s"
  by (simp_all add: upd_mm_def)

lemma upd_dev_frame [simp]:
  "sy_sched (upd_dev d mp s) = sy_sched s" "pcbs (upd_dev d mp s) = pcbs s"
  "kroots (upd_dev d mp s) = kroots s" "next_root (upd_dev d mp s) = next_root s"
  "sy_host (upd_dev d mp s) = sy_host s" "devs (upd_dev d mp s) = (devs s)(d := mp)"
  "caller_krnl (upd_dev d mp s) c = caller_krnl s c" "caller_mm (upd_dev d mp s) c = caller_mm s c"
  "caller_mram (upd_dev d mp s) c = caller_mram s c" "caller_mswp (upd_dev d mp s) c = caller_mswp s c"
  by (simp_all add: upd_dev_def caller_krnl_def caller_mm_def caller_mram_def caller_mswp_def)

lemma sys_fields_frame [simp]:
  "caller_krnl (s\<lparr>sy_host := h\<rparr>) c = caller_krnl s c" "caller_mm (s\<lparr>sy_host := h\<rparr>) c = caller_mm s c"
  "caller_mram (s\<lparr>sy_host := h\<rparr>) c = caller_mram s c" "caller_mswp (s\<lparr>sy_host := h\<rparr>) c = caller_mswp s c"
  "caller_krnl (s\<lparr>kroots := r\<rparr>) c = caller_krnl s c" "caller_mm (s\<lparr>kroots := r\<rparr>) c = caller_mm s c"
  "caller_mram (s\<lparr>kroots := r\<rparr>) c = caller_mram s c" "caller_mswp (s\<lparr>kroots := r\<rparr>) c = caller_mswp s c"
  "caller_krnl (s\<lparr>next_root := n\<rparr>) c = caller_krnl s c" "caller_mm (s\<lparr>next_root := n\<rparr>) c = caller_mm s c"
  "caller_mram (s\<lparr>next_root := n\<rparr>) c = caller_mram s c" "caller_mswp (s\<lparr>next_root := n\<rparr>) c = caller_mswp s c"
  by (simp_all add: caller_krnl_def caller_mm_def caller_mram_def caller_mswp_def)

lemma sys_alloc_cases:
  obtains h where "sys_alloc s = (sy_host s 0, s\<lparr>sy_host := h\<rparr>)" "host_ok (sy_host s) \<Longrightarrow> host_ok h"
  by (auto simp: sys_alloc_def halloc_def host_ok_def)

lemma caller_mm_krnl: "caller_mm s c = Some m \<Longrightarrow> \<exists>k. caller_krnl s c = Some k \<and> k_mm k = Some m"
  by (auto simp: caller_mm_def bind_eq_Some_conv)

end
