(* ===== verification/Page_Table.thy ===== *)
theory Page_Table
  imports Sys_State
begin

text \<open>
  The five-level page tables of src/mm64.c: walking and lazily building them
  (\<open>walk_pte\<close>, \<open>init_kernel_page_table\<close>), reading and writing entries
  (\<open>pte_get_entry\<close>, \<open>pte_set_entry\<close>, \<open>pte_set_fpn\<close>, \<open>pte_set_swap\<close>) and the
  dummy mapping of \<open>vmap_pgd_memset\<close>. The view of a page table that the rest of the
  development uses is a map from page numbers to entries: the locale \<open>page_map\<close>.
\<close>

section \<open>Tables\<close>

text \<open>
  One level as \<open>calloc\<close> leaves it; the list holds the indices of the directory levels
  below this one, so the empty list is the level of the page table proper.
\<close>

fun empty_table :: "'a list \<Rightarrow> ptab" where
  "empty_table [] = PT (\<lambda>_. 0)"
| "empty_table (_ # _) = Dir (\<lambda>_. None)"

text \<open>
  The four blocks of \<open>walk_pte\<close> that follow one directory entry each, as one recursion
  over the four indices: follow the entry, or allocate the next level when \<open>create\<close> is
  set, or give up. The boolean says whether the page table was reached.
\<close>

fun walk_dirs :: "bool \<Rightarrow> addr list \<Rightarrow> ptab \<Rightarrow> host \<Rightarrow> bool \<times> ptab \<times> host" where
  "walk_dirs create [] t h = (True, t, h)"
| "walk_dirs create (i # is) (Dir f) h =
     (case f i of
        Some t \<Rightarrow> (let (ok, t', h') = walk_dirs create is t h in (ok, Dir (f(i \<mapsto> t')), h'))
      | None \<Rightarrow>
          if create then
            let (got, h1) = halloc h in
            if \<not> got then (False, Dir f, h1)
            else (let (ok, t', h') = walk_dirs create is (empty_table is) h1
                  in (ok, Dir (f(i \<mapsto> t')), h'))
          else (False, Dir f, h))"
| "walk_dirs create (i # is) (PT g) h = (False, PT g, h)"

text \<open>The entry behind a path of directory indices and a page-table index.\<close>

fun tab_get :: "ptab \<Rightarrow> addr list \<Rightarrow> addr \<Rightarrow> addr option" where
  "tab_get (PT g) [] j = Some (g j)"
| "tab_get (Dir f) (i # is) j = (case f i of None \<Rightarrow> None | Some t \<Rightarrow> tab_get t is j)"
| "tab_get _ _ _ = None"

fun tab_set :: "ptab \<Rightarrow> addr list \<Rightarrow> addr \<Rightarrow> addr \<Rightarrow> ptab" where
  "tab_set (PT g) [] j v = PT (g(j := v))"
| "tab_set (Dir f) (i # is) j v =
     (case f i of None \<Rightarrow> Dir f | Some t \<Rightarrow> Dir (f(i \<mapsto> tab_set t is j v)))"
| "tab_set t _ _ _ = t"

fun tab_wf :: "nat \<Rightarrow> ptab \<Rightarrow> bool" where
  "tab_wf 0 (PT g) = True"
| "tab_wf (Suc n) (Dir f) = (\<forall>i. case f i of None \<Rightarrow> True | Some t \<Rightarrow> tab_wf n t)"
| "tab_wf _ _ = False"

definition dir_path :: "addr \<Rightarrow> addr list" where
  "dir_path a = (case get_pd_from_address a of (_, pgd, p4d, pud, pmd, pt) \<Rightarrow> [pgd, p4d, pud, pmd])"

definition pt_index :: "addr \<Rightarrow> addr" where
  "pt_index a = (case get_pd_from_address a of (_, pgd, p4d, pud, pmd, pt) \<Rightarrow> pt)"

section \<open>The walk\<close>

text \<open>The root of the tables that translate an address of a process: \<open>pgd_ptr\<close>.\<close>

definition kroot_of :: "sys \<Rightarrow> pptr \<Rightarrow> nat option" where
  "kroot_of s c = do { k \<leftarrow> caller_krnl s c; krnl_pgd k }"

definition root_of :: "sys \<Rightarrow> pptr \<Rightarrow> addr \<Rightarrow> ptab option" where
  "root_of s c a =
     (if is_kernel_address a
      then do { r \<leftarrow> kroot_of s c; kroots s r }
      else do { m \<leftarrow> caller_mm s c; mm_pgd m })"

definition set_root :: "pptr \<Rightarrow> addr \<Rightarrow> ptab \<Rightarrow> sys \<Rightarrow> sys" where
  "set_root c a t s =
     (if is_kernel_address a
      then case kroot_of s c of
             None \<Rightarrow> s
           | Some r \<Rightarrow> s\<lparr>kroots := (kroots s)(r \<mapsto> t)\<rparr>
      else upd_mm c (\<lambda>m. m\<lparr>mm_pgd := Some t\<rparr>) s)"

definition init_kernel_page_table :: "krnl_t \<Rightarrow> sys \<Rightarrow> int \<times> krnl_t \<times> sys" where
  "init_kernel_page_table k s =
     (case krnl_pgd k of
        Some r \<Rightarrow> (0, k, s)
      | None \<Rightarrow>
          let (ok, s1) = sys_alloc s in
          if \<not> ok then (-1, k, s1)
          else (0, k\<lparr>krnl_pgd := Some (next_root s1)\<rparr>,
                s1\<lparr>kroots := (kroots s1)(next_root s1 \<mapsto> empty_table [()]),
                   next_root := next_root s1 + 1\<rparr>))"

text \<open>
  The choice of the root in \<open>walk_pte\<close>, which allocates it when it is missing and \<open>create\<close>
  is set. An allocation failure leaves the root missing, and the walk returns NULL.
\<close>

definition ensure_root :: "sys \<Rightarrow> pptr \<Rightarrow> addr \<Rightarrow> bool \<Rightarrow> sys" where
  "ensure_root s c a create =
     (if is_kernel_address a then
        case caller_krnl s c of None \<Rightarrow> s
        | Some k \<Rightarrow>
          if krnl_pgd k = None \<and> create
          then let (_, k1, s1) = init_kernel_page_table k s in upd_krnl c (\<lambda>_. k1) s1
          else s
      else
        case caller_mm s c of None \<Rightarrow> s
        | Some m \<Rightarrow>
          if mm_pgd m = None \<and> create
          then let (ok, s1) = sys_alloc s
               in upd_mm c (\<lambda>m. m\<lparr>mm_pgd := (if ok then Some (empty_table [()]) else None)\<rparr>) s1
          else s)"

text \<open>
  The pointer that \<open>walk_pte\<close> returns is used at once by its caller; it stands for the entry
  of the address in the tables of the process.
\<close>

type_synonym pte_loc = "pptr \<times> addr"

definition walk_pte :: "sys \<Rightarrow> pptr \<Rightarrow> addr \<Rightarrow> bool \<Rightarrow> pte_loc option \<times> sys" where
  "walk_pte s c a create =
     (if caller_mm s c = None then (None, s)
      else if fst (get_pd_from_address a) \<noteq> 0 then (None, s)
      else
        let s1 = ensure_root s c a create in
        case root_of s1 c a of None \<Rightarrow> (None, s1)
        | Some t \<Rightarrow>
          let (ok, t', h') = walk_dirs create (dir_path a) t (sy_host s1)
          in (if ok then Some (c, a) else None, set_root c a t' (s1\<lparr>sy_host := h'\<rparr>)))"

definition pte_load :: "sys \<Rightarrow> pte_loc \<Rightarrow> addr option" where
  "pte_load s l = (case l of (c, a) \<Rightarrow> do { t \<leftarrow> root_of s c a; tab_get t (dir_path a) (pt_index a) })"

definition pte_store :: "sys \<Rightarrow> pte_loc \<Rightarrow> addr \<Rightarrow> sys" where
  "pte_store s l v =
     (case l of (c, a) \<Rightarrow>
        case root_of s c a of None \<Rightarrow> s
        | Some t \<Rightarrow> set_root c a (tab_set t (dir_path a) (pt_index a) v) s)"

definition pte_get_entry :: "sys \<Rightarrow> pptr \<Rightarrow> addr \<Rightarrow> addr" where
  "pte_get_entry s c pgn =
     (case fst (walk_pte s c (push_bit 12 pgn) False) of
        None \<Rightarrow> 0
      | Some l \<Rightarrow> the (pte_load s l))"

definition pte_set_entry :: "sys \<Rightarrow> pptr \<Rightarrow> addr \<Rightarrow> addr \<Rightarrow> int \<times> sys" where
  "pte_set_entry s c pgn v =
     (case walk_pte s c (push_bit 12 pgn) True of
        (None, s1) \<Rightarrow> (-1, s1)
      | (Some l, s1) \<Rightarrow> (0, pte_store s1 l v))"

definition pte_set_fpn :: "sys \<Rightarrow> pptr \<Rightarrow> addr \<Rightarrow> addr \<Rightarrow> int \<times> sys" where
  "pte_set_fpn s c pgn fpn =
     (case walk_pte s c (push_bit 12 pgn) True of
        (None, s1) \<Rightarrow> (-1, s1)
      | (Some l, s1) \<Rightarrow> (0, pte_store (pte_store s1 l 0) l (pte_of_fpn fpn)))"

definition pte_set_swap :: "sys \<Rightarrow> pptr \<Rightarrow> addr \<Rightarrow> int \<Rightarrow> addr \<Rightarrow> int \<times> sys" where
  "pte_set_swap s c pgn swptyp swpoff =
     (case walk_pte s c (push_bit 12 pgn) True of
        (None, s1) \<Rightarrow> (-1, s1)
      | (Some l, s1) \<Rightarrow> (0, pte_store (pte_store s1 l 0) l (pte_of_swap swptyp swpoff)))"

text \<open>The loop of \<open>vmap_pgd_memset\<close>, and the function itself.\<close>

function memset_loop :: "sys \<Rightarrow> pptr \<Rightarrow> addr \<Rightarrow> int \<Rightarrow> int \<Rightarrow> int \<times> sys" where
  "memset_loop s c pgn pgit pgnum =
     (if pgit < pgnum then
        case pte_set_entry s c (pgn + addr_of_int pgit) PAGING64_DUMMY_PTE of (r, s1) \<Rightarrow>
          if r \<noteq> 0 then (-1, s1) else memset_loop s1 c pgn (pgit + 1) pgnum
      else (0, s))"
  by pat_completeness auto
termination by (relation "measure (\<lambda>(s, c, pgn, pgit, pgnum). nat (pgnum - pgit))") auto

declare memset_loop.simps [simp del]

definition vmap_pgd_memset :: "sys \<Rightarrow> pptr \<Rightarrow> addr \<Rightarrow> int \<Rightarrow> int \<times> sys" where
  "vmap_pgd_memset s c a pgnum =
     (if caller_mm s c = None then (-1, s)
      else if validate_page_range a pgnum \<noteq> 0 then (-1, s)
      else memset_loop s c (drop_bit 12 a) 0 pgnum)"

section \<open>Lemmas on tables\<close>

text \<open>The value of an entry; entries of tables that do not exist read as 0.\<close>

definition tab_val :: "ptab \<Rightarrow> addr list \<Rightarrow> addr \<Rightarrow> addr" where
  "tab_val t is j = (case tab_get t is j of None \<Rightarrow> 0 | Some v \<Rightarrow> v)"

lemma tab_wf_empty [simp]: "tab_wf (length is) (empty_table is)"
  by (cases "is") auto

lemma tab_wf_DirD: "tab_wf (Suc n) (Dir f) \<Longrightarrow> f i = Some u \<Longrightarrow> tab_wf n u"
  by (metis option.simps(5) tab_wf.simps(2))

lemma tab_wf_DirE:
  assumes "tab_wf (Suc n) t"
  obtains f where "t = Dir f" "\<And>i u. f i = Some u \<Longrightarrow> tab_wf n u"
  using assms tab_wf_DirD by (cases t) auto

lemma tab_wf_0E: "tab_wf 0 t \<Longrightarrow> \<exists>g. t = PT g"
  by (cases t) auto

lemma tab_wf_Dir_upd: "tab_wf (Suc n) (Dir f) \<Longrightarrow> tab_wf n u \<Longrightarrow> tab_wf (Suc n) (Dir (f(i \<mapsto> u)))"
  by auto

lemma tab_val_empty: "length js = length is \<Longrightarrow> tab_val (empty_table is) js k = 0"
  by (cases "is"; cases js) (auto simp: tab_val_def)

lemma tab_val_Dir: "tab_val (Dir f) (i # is) j = (case f i of None \<Rightarrow> 0 | Some t \<Rightarrow> tab_val t is j)"
  by (simp add: tab_val_def split: option.splits)

text \<open>
  A walk keeps the shape of the tables and the value of every entry: the tables it adds are
  zero. If it arrives, the entry it looked for exists.
\<close>

lemma walk_dirs_props:
  assumes "tab_wf (length is) t" "walk_dirs create is t h = (ok, t', h')"
  shows "tab_wf (length is) t'"
    and "length js = length is \<Longrightarrow> tab_val t' js k = tab_val t js k"
    and "ok \<Longrightarrow> tab_get t' is k \<noteq> None"
    and "\<not> create \<Longrightarrow> t' = t \<and> h' = h \<and> ok = (tab_get t is k \<noteq> None)"
    and "host_ok h \<Longrightarrow> host_ok h' \<and> (create \<longrightarrow> ok)"
proof -
  have "tab_wf (length is) t' \<and> (length js = length is \<longrightarrow> tab_val t' js k = tab_val t js k)
        \<and> (ok \<longrightarrow> tab_get t' is k \<noteq> None)
        \<and> (\<not> create \<longrightarrow> t' = t \<and> h' = h \<and> ok = (tab_get t is k \<noteq> None))
        \<and> (host_ok h \<longrightarrow> host_ok h' \<and> (create \<longrightarrow> ok))"
    using assms
  proof (induction "is" arbitrary: t h t' h' js)
    case Nil
    then show ?case using tab_wf_0E [of t] by auto
  next
    case (Cons i "is")
    from Cons.prems(1) obtain f where t: "t = Dir f" and wf: "\<And>i u. f i = Some u \<Longrightarrow> tab_wf (length is) u"
      by (auto elim: tab_wf_DirE)
    have keep: ?case
      if "walk_dirs create is u h1 = (ok, u', h')" "tab_wf (length is) u" "t' = Dir (f(i \<mapsto> u'))"
        "f i = Some u \<and> h1 = h \<or> f i = None \<and> create \<and> u = empty_table is \<and> (host_ok h \<longrightarrow> host_ok h1)" for u u' h1
    proof -
      note IH = Cons.IH [OF that(2,1)] and upd = that(3,4)
      have "tab_val t' js k = tab_val t js k" if len: "length js = length (i # is)"
      proof -
        from len obtain l ls where js: "js = l # ls" "length ls = length is" by (cases js) auto
        with IH [of ls] upd t show ?thesis
          by (cases "l = i") (auto simp: tab_val_Dir tab_val_empty)
      qed
      moreover have "tab_wf (length (i # is)) t'"
        using IH [of js] that(3) t Cons.prems(1) tab_wf_Dir_upd by simp
      moreover have "\<not> create \<longrightarrow> t' = t \<and> h' = h \<and> ok = (tab_get t (i # is) k \<noteq> None)"
        using IH [of js] that(3,4) t by (auto simp: map_upd_triv)
      ultimately show ?thesis using IH [of js] that(3,4) by auto
    qed
    show ?case
    proof (cases "f i")
      case None
      show ?thesis
      proof (cases "create \<and> fst (halloc h)")
        case True
        with Cons.prems(2) None t show ?thesis
          by (intro keep [of "empty_table is" "snd (halloc h)" "fst (snd (walk_dirs create is (empty_table is) (snd (halloc h))))"])
             (auto simp: halloc_def host_ok_def split: prod.splits)
      next
        case False
        with Cons.prems None t show ?thesis
          by (cases create) (auto simp: halloc_def host_ok_def)
      qed
    next
      case (Some u)
      with Cons.prems(2) t show ?thesis
        by (intro keep [of u h "fst (snd (walk_dirs create is u h))"]) (auto simp: wf split: prod.splits)
    qed
  qed
  then show "tab_wf (length is) t'"
    and "length js = length is \<Longrightarrow> tab_val t' js k = tab_val t js k"
    and "ok \<Longrightarrow> tab_get t' is k \<noteq> None"
    and "\<not> create \<Longrightarrow> t' = t \<and> h' = h \<and> ok = (tab_get t is k \<noteq> None)"
    and "host_ok h \<Longrightarrow> host_ok h' \<and> (create \<longrightarrow> ok)"
    by blast+
qed

lemma walk_dirs_exists:
  "tab_get t is k \<noteq> None \<Longrightarrow> walk_dirs create is t h = (True, t, h)"
proof (induction "is" arbitrary: t)
  case (Cons i "is")
  then obtain f u where "t = Dir f" "f i = Some u" "tab_get u is k \<noteq> None"
    by (cases t) (auto split: option.splits)
  with Cons.IH show ?case by (simp add: map_upd_triv)
qed simp

lemma tab_wf_set: "tab_wf n t \<Longrightarrow> tab_wf n (tab_set t is j v)"
proof (induction t "is" j v arbitrary: n rule: tab_set.induct)
  case (1 g j v)
  then show ?case by (cases n) auto
next
  case (2 f i "is" j v)
  then obtain m where [simp]: "n = Suc m" by (cases n) auto
  show ?case
  proof (cases "f i")
    case (Some u)
    with 2 have "tab_wf m u" using tab_wf_DirD [of m f i u] by simp
    with 2 Some show ?thesis by (simp add: tab_wf_Dir_upd)
  qed (use 2 in auto)
qed auto

lemma tab_get_set_same: "tab_get t is j \<noteq> None \<Longrightarrow> tab_get (tab_set t is j v) is j = Some v"
  by (induction t "is" j v rule: tab_set.induct) (auto split: option.splits)

lemma tab_get_set_other: "(is, j) \<noteq> (js, k) \<Longrightarrow> tab_get (tab_set t is j v) js k = tab_get t js k"
proof (induction t "is" j v arbitrary: js rule: tab_set.induct)
  case (1 g j v)
  then show ?case by (cases js) auto
next
  case (2 f i "is" j v)
  then show ?case by (cases js) (auto split: option.splits)
qed simp_all

lemma tab_val_set:
  "tab_get t is j \<noteq> None \<Longrightarrow>
   tab_val (tab_set t is j v) js k = (if (js, k) = (is, j) then v else tab_val t js k)"
  by (auto simp: tab_val_def tab_get_set_same tab_get_set_other)

section \<open>The view of the page tables\<close>

text \<open>
  The invariant of the page tables: every root has the shape of a five-level tree, and a
  kernel root that a process refers to exists and was allocated before.
\<close>

definition pt_wf :: "sys \<Rightarrow> bool" where
  "pt_wf s \<longleftrightarrow>
     (\<forall>c m t. caller_mm s c = Some m \<longrightarrow> mm_pgd m = Some t \<longrightarrow> tab_wf 4 t) \<and>
     (\<forall>r t. kroots s r = Some t \<longrightarrow> tab_wf 4 t \<and> r < next_root s) \<and>
     (\<forall>c r. kroot_of s c = Some r \<longrightarrow> kroots s r \<noteq> None)"

definition pte_view :: "sys \<Rightarrow> pptr \<Rightarrow> addr \<Rightarrow> addr" where
  "pte_view s c a =
     (if caller_mm s c \<noteq> None \<and> canonical a
      then case root_of s c a of None \<Rightarrow> 0 | Some t \<Rightarrow> tab_val t (dir_path a) (pt_index a)
      else 0)"

text \<open>What the page-table code leaves alone: everything but the tables and the host.\<close>

definition forget_pt :: "sys \<Rightarrow> sys" where
  "forget_pt s =
     s\<lparr>pcbs := (\<lambda>c. map_option (\<lambda>b. b\<lparr>krnl := map_option (\<lambda>k. k\<lparr>krnl_pgd := None,
           k_mm := map_option (\<lambda>m. m\<lparr>mm_pgd := None\<rparr>) (k_mm k)\<rparr>) (krnl b)\<rparr>) (pcbs s c)),
       kroots := (\<lambda>_. None), next_root := 0, sy_host := (\<lambda>_. False)\<rparr>"

lemma dir_path_length [simp]: "length (dir_path a) = 4"
  by (simp add: dir_path_def split: prod.splits)

lemma path_eq_iff:
  "canonical a \<Longrightarrow> canonical b \<Longrightarrow>
   (dir_path a, pt_index a) = (dir_path b, pt_index b) \<longleftrightarrow> drop_bit 12 a = drop_bit 12 b"
  using same_path_same_page [of a b] same_page_same_path [of a b]
  by (auto simp: dir_path_def pt_index_def split: prod.splits)

lemma pt_wf_root: "pt_wf s \<Longrightarrow> root_of s c a = Some t \<Longrightarrow> tab_wf 4 t"
  by (auto simp: pt_wf_def root_of_def bind_eq_Some_conv split: if_splits)

text \<open>Updates of a root, and the view after them.\<close>

lemma is_kernel_same_page: "drop_bit 12 a = drop_bit 12 b \<Longrightarrow> is_kernel_address a = is_kernel_address b"
  using bit_pagenum [of a 44] bit_pagenum [of b 44] by (simp add: is_kernel_address_bit)

definition same_space :: "sys \<Rightarrow> pptr \<Rightarrow> pptr \<Rightarrow> bool \<Rightarrow> bool" where
  "same_space s c c' k = (if k then kroot_of s c \<noteq> None \<and> kroot_of s c = kroot_of s c' else c = c')"

lemma set_root_frame [simp]:
  "sy_sched (set_root c a t s) = sy_sched s" "devs (set_root c a t s) = devs s"
  "next_root (set_root c a t s) = next_root s" "sy_host (set_root c a t s) = sy_host s"
  by (simp_all add: set_root_def split: option.splits)

lemma kroot_of_frame [simp]:
  "kroot_of (s\<lparr>sy_host := h\<rparr>) c = kroot_of s c" "kroot_of (s\<lparr>kroots := r\<rparr>) c = kroot_of s c"
  "kroot_of (s\<lparr>next_root := n\<rparr>) c = kroot_of s c" "kroot_of (upd_dev d mp s) c = kroot_of s c"
  by (simp_all add: kroot_of_def)

lemma kroot_of_upd_mm [simp]: "kroot_of (upd_mm c f s) c' = kroot_of s c'"
  by (cases "caller_krnl s c") (auto simp: kroot_of_def)

lemma kroot_of_set_root [simp]: "kroot_of (set_root c a t s) c' = kroot_of s c'"
  by (simp add: set_root_def split: option.splits)

lemma root_of_host [simp]: "root_of (s\<lparr>sy_host := h\<rparr>) c a = root_of s c a"
  by (simp add: root_of_def)

lemma set_root_caller_mm [simp]:
  "(caller_mm (set_root c a t s) c' = None) = (caller_mm s c' = None)"
  by (auto simp: set_root_def split: option.splits)

lemma same_space_set_root [simp]: "same_space (set_root c a t s) x y k = same_space s x y k"
  by (simp add: same_space_def)

lemma root_of_set_root:
  assumes "root_of s c a \<noteq> None"
  shows "root_of (set_root c a t s) c' b =
    (if is_kernel_address b = is_kernel_address a \<and> same_space s c c' (is_kernel_address a)
     then Some t else root_of s c' b)"
proof (cases "is_kernel_address a")
  case True
  with assms obtain r where "kroot_of s c = Some r" by (auto simp: root_of_def bind_eq_Some_conv)
  with True show ?thesis
    by (cases "kroot_of s c'") (auto simp: root_of_def set_root_def same_space_def)
next
  case False
  with assms show ?thesis
    by (auto simp: root_of_def set_root_def same_space_def bind_eq_Some_conv)
qed

lemma pt_wfI:
  assumes "\<And>c m t. caller_mm s c = Some m \<Longrightarrow> mm_pgd m = Some t \<Longrightarrow> tab_wf 4 t"
    and "\<And>r t. kroots s r = Some t \<Longrightarrow> tab_wf 4 t \<and> r < next_root s"
    and "\<And>c r. kroot_of s c = Some r \<Longrightarrow> kroots s r \<noteq> None"
  shows "pt_wf s"
  using assms unfolding pt_wf_def by blast

lemma pt_wf_host [simp]: "pt_wf (s\<lparr>sy_host := h\<rparr>) = pt_wf s"
  by (simp add: pt_wf_def)

lemma pte_view_host [simp]: "pte_view (s\<lparr>sy_host := h\<rparr>) = pte_view s"
  by (intro ext) (simp add: pte_view_def)

lemma forget_pt_host [simp]: "forget_pt (s\<lparr>sy_host := h\<rparr>) = forget_pt s"
  by (simp add: forget_pt_def)

lemma forget_pt_kroots [simp]:
  "forget_pt (s\<lparr>kroots := r\<rparr>) = forget_pt s" "forget_pt (s\<lparr>next_root := n\<rparr>) = forget_pt s"
  by (simp_all add: forget_pt_def)

lemma forget_pt_upd_krnl:
  assumes "\<And>k. caller_krnl s c = Some k \<Longrightarrow>
    (f k)\<lparr>krnl_pgd := None, k_mm := map_option (\<lambda>m. m\<lparr>mm_pgd := None\<rparr>) (k_mm (f k))\<rparr> =
    k\<lparr>krnl_pgd := None, k_mm := map_option (\<lambda>m. m\<lparr>mm_pgd := None\<rparr>) (k_mm k)\<rparr>" and "c \<noteq> NULL"
  shows "forget_pt (upd_krnl c f s) = forget_pt s"
proof -
  have "pcbs (forget_pt (upd_krnl c f s)) x = pcbs (forget_pt s) x" for x
  proof (cases "x = c \<and> caller_krnl s c \<noteq> None")
    case True
    with assms show ?thesis
      by (auto simp: forget_pt_def upd_krnl_def caller_krnl_def bind_eq_Some_conv)
  next
    case False
    with \<open>c \<noteq> NULL\<close> show ?thesis
      by (cases "pcbs s c") (auto simp: forget_pt_def upd_krnl_def caller_krnl_def)
  qed
  then show ?thesis by (simp add: forget_pt_def upd_krnl_def fun_eq_iff)
qed

lemma forget_pt_upd_mm:
  assumes "\<And>m. caller_mm s c = Some m \<Longrightarrow> (f m)\<lparr>mm_pgd := None\<rparr> = m\<lparr>mm_pgd := None\<rparr>" "c \<noteq> NULL"
  shows "forget_pt (upd_mm c f s) = forget_pt s"
  unfolding upd_mm_def
proof (rule forget_pt_upd_krnl [OF _ assms(2)])
  fix k assume "caller_krnl s c = Some k"
  with assms(1) show "k\<lparr>k_mm := map_option f (k_mm k)\<rparr>\<lparr>krnl_pgd := None,
      k_mm := map_option (\<lambda>m. m\<lparr>mm_pgd := None\<rparr>) (k_mm (k\<lparr>k_mm := map_option f (k_mm k)\<rparr>))\<rparr> =
      k\<lparr>krnl_pgd := None, k_mm := map_option (\<lambda>m. m\<lparr>mm_pgd := None\<rparr>) (k_mm k)\<rparr>"
    by (cases "k_mm k") (auto simp: caller_mm_def)
qed

lemma forget_pt_set_root [simp]: "c \<noteq> NULL \<Longrightarrow> forget_pt (set_root c a t s) = forget_pt s"
  by (auto simp: set_root_def forget_pt_upd_mm split: option.splits)

lemma pt_wf_set_root:
  assumes "pt_wf s" "root_of s c a \<noteq> None" "tab_wf 4 t"
  shows "pt_wf (set_root c a t s)"
proof (rule pt_wfI)
  fix x m u assume "caller_mm (set_root c a t s) x = Some m" "mm_pgd m = Some u"
  then show "tab_wf 4 u" using assms
    by (auto simp: pt_wf_def set_root_def split: option.splits if_splits)
next
  fix r u assume "kroots (set_root c a t s) r = Some u"
  then show "tab_wf 4 u \<and> r < next_root (set_root c a t s)" using assms
    by (auto simp: pt_wf_def set_root_def root_of_def bind_eq_Some_conv split: option.splits if_splits)
next
  fix x r assume "kroot_of (set_root c a t s) x = Some r"
  then have "kroot_of s x = Some r" by simp
  then show "kroots (set_root c a t s) r \<noteq> None" using assms
    by (auto simp: pt_wf_def set_root_def split: option.splits)
qed

lemma pte_view_set_root:
  assumes "root_of s c a = Some t"
    and "\<And>b. canonical b \<Longrightarrow> is_kernel_address b = is_kernel_address a \<Longrightarrow>
           tab_val u (dir_path b) (pt_index b) = g b (tab_val t (dir_path b) (pt_index b))"
  shows "pte_view (set_root c a u s) x b =
    (if caller_mm s x \<noteq> None \<and> canonical b \<and> is_kernel_address b = is_kernel_address a \<and>
        same_space s c x (is_kernel_address a)
     then g b (pte_view s x b) else pte_view s x b)"
proof -
  have "root_of s x b = Some t" if "is_kernel_address b = is_kernel_address a" "same_space s c x (is_kernel_address a)"
    using that assms(1) by (auto simp: root_of_def same_space_def split: if_splits)
  with assms show ?thesis by (auto simp: pte_view_def root_of_set_root)
qed

lemma same_space_refl: "root_of s c a \<noteq> None \<Longrightarrow> same_space s c c (is_kernel_address a)"
  by (auto simp: root_of_def same_space_def bind_eq_Some_conv)

lemma upd_krnl_id:
  assumes "caller_krnl s c = Some k" "f k = k"
  shows "upd_krnl c f s = s"
proof -
  from assms obtain b where "pcbs s c = Some b" "krnl b = Some k"
    by (auto simp: caller_krnl_def bind_eq_Some_conv split: if_splits)
  with assms(2) have "pcbs (upd_krnl c f s) x = pcbs s x" for x
    by (cases b) (auto simp: upd_krnl_def)
  then have "pcbs (upd_krnl c f s) = pcbs s" by blast
  then show ?thesis unfolding upd_krnl_def by (cases s) simp
qed

lemma upd_mm_id:
  assumes "caller_mm s c = Some m" "f m = m"
  shows "upd_mm c f s = s"
proof -
  from assms obtain k where "caller_krnl s c = Some k" "k_mm k = Some m"
    using caller_mm_krnl by blast
  with assms(2) show ?thesis unfolding upd_mm_def
    by (intro upd_krnl_id [of s c k]) (cases k; simp)+
qed

lemma set_root_id: "root_of s c a = Some t \<Longrightarrow> set_root c a t s = s"
  by (auto simp: root_of_def set_root_def bind_eq_Some_conv map_upd_triv intro: upd_mm_id split: if_splits)

lemma ensure_root_id: "\<not> create \<Longrightarrow> ensure_root s c a create = s"
  by (simp add: ensure_root_def split: option.splits)

text \<open>Allocating the kernel root or the root of a process changes no entry.\<close>

lemma empty_root [simp]:
  "tab_wf 4 (Dir (\<lambda>_. None))" "tab_val (Dir (\<lambda>_. None)) (dir_path b) (pt_index b) = 0"
  by (auto simp: tab_val_def dir_path_def numeral_eq_Suc split: prod.splits)

lemma new_user_root:
  assumes "pt_wf s" "caller_mm s c = Some m" "mm_pgd m = None"
    and s1: "s1 = upd_mm c (\<lambda>m. m\<lparr>mm_pgd := Some (empty_table [()])\<rparr>) s"
  shows "pt_wf s1" "pte_view s1 x b = pte_view s x b" "forget_pt s1 = forget_pt s"
    and "caller_mm s1 x = None \<longleftrightarrow> caller_mm s x = None"
    and "\<not> is_kernel_address a \<Longrightarrow> root_of s1 c a \<noteq> None"
proof -
  from assms(2) have c: "c \<noteq> NULL" by (auto simp: caller_mm_def)
  show "pt_wf s1"
  proof (rule pt_wfI)
    fix c' m' t assume "caller_mm s1 c' = Some m'" "mm_pgd m' = Some t"
    with assms show "tab_wf 4 t" by (auto simp: pt_wf_def split: if_splits)
  qed (use assms in \<open>auto simp: pt_wf_def\<close>)
  show "pte_view s1 x b = pte_view s x b"
    using assms by (auto simp: pte_view_def root_of_def)
  show "forget_pt s1 = forget_pt s" by (simp add: s1 forget_pt_upd_mm c)
qed (use assms in \<open>auto simp: root_of_def\<close>)

lemma new_kernel_root:
  assumes "pt_wf s" "caller_mm s c = Some m" "caller_krnl s c = Some k" "krnl_pgd k = None"
    and s1: "s1 = upd_krnl c (\<lambda>_. k\<lparr>krnl_pgd := Some (next_root s)\<rparr>)
       (s\<lparr>kroots := (kroots s)(next_root s \<mapsto> empty_table [()]), next_root := next_root s + 1\<rparr>)"
  shows "pt_wf s1" "pte_view s1 x b = pte_view s x b" "forget_pt s1 = forget_pt s"
    and "caller_mm s1 x = None \<longleftrightarrow> caller_mm s x = None"
    and "is_kernel_address a \<Longrightarrow> root_of s1 c a \<noteq> None"
proof -
  from assms(2) have c: "c \<noteq> NULL" by (auto simp: caller_mm_def)
  have mm: "caller_mm s1 y = caller_mm s y" for y
    using assms by (auto simp: caller_mm_def)
  have root: "kroot_of s1 y = (if y = c then Some (next_root s) else kroot_of s y)" for y
    using assms by (auto simp: kroot_of_def)
  have fresh: "kroot_of s y \<noteq> Some (next_root s)" for y
    using assms(1) unfolding pt_wf_def by (metis less_irrefl not_None_eq)
  have none: "kroot_of s c = None" using assms by (simp add: kroot_of_def)
  have roots: "kroots s1 = (kroots s)(next_root s \<mapsto> empty_table [()])" by (simp add: s1)
  show "pt_wf s1"
  proof (rule pt_wfI)
    fix r t assume "kroots s1 r = Some t"
    with assms(1) show "tab_wf 4 t \<and> r < next_root s1"
      by (auto simp: roots s1 pt_wf_def less_Suc_eq split: if_splits)
  qed (use assms(1) in \<open>auto simp: pt_wf_def mm root roots split: if_splits\<close>)
  have other: "root_of s1 y b = root_of s y b" if "\<not> (y = c \<and> is_kernel_address b)" for y
    using that fresh [of y] by (cases "kroot_of s y") (auto simp: root_of_def root roots mm)
  have fresh_root: "root_of s1 c b = Some (empty_table [()])" "root_of s c b = None" if "is_kernel_address b" for b
    using that none by (auto simp: root_of_def root roots)
  show "pte_view s1 x b = pte_view s x b"
    using other [of x] fresh_root [of b] by (cases "x = c \<and> is_kernel_address b") (auto simp: pte_view_def mm)
  have "forget_pt s1 = forget_pt (s\<lparr>kroots := (kroots s)(next_root s \<mapsto> empty_table [()]), next_root := next_root s + 1\<rparr>)"
    unfolding s1 by (rule forget_pt_upd_krnl) (use assms(3) c in auto)
  then show "forget_pt s1 = forget_pt s" by simp
  show "caller_mm s1 x = None \<longleftrightarrow> caller_mm s x = None" by (simp add: mm)
  show "is_kernel_address a \<Longrightarrow> root_of s1 c a \<noteq> None" using fresh_root by auto
qed

lemma ensure_root_props:
  assumes "pt_wf s" "caller_mm s c \<noteq> None" and s1: "s1 = ensure_root s c a create"
  shows "pt_wf s1 \<and> pte_view s1 x b = pte_view s x b \<and> forget_pt s1 = forget_pt s \<and>
    (caller_mm s1 x = None \<longleftrightarrow> caller_mm s x = None) \<and>
    (host_ok (sy_host s) \<longrightarrow> host_ok (sy_host s1) \<and> (create \<longrightarrow> root_of s1 c a \<noteq> None))"
proof -
  from assms(2) obtain k m where k: "caller_krnl s c = Some k" "k_mm k = Some m" and m: "caller_mm s c = Some m"
    using caller_mm_krnl by blast
  obtain h where h: "sys_alloc s = (sy_host s 0, s\<lparr>sy_host := h\<rparr>)" "host_ok (sy_host s) \<Longrightarrow> host_ok h"
    by (rule sys_alloc_cases [of s]) blast
  let ?s = "s\<lparr>sy_host := h\<rparr>"
  have root: "root_of s c a \<noteq> None" if "krnl_pgd k \<noteq> None" "is_kernel_address a"
  proof -
    have "kroot_of s c = krnl_pgd k" using k by (simp add: kroot_of_def)
    with that assms(1) show ?thesis unfolding pt_wf_def root_of_def by (cases "krnl_pgd k") auto
  qed
  show ?thesis
  proof (cases "is_kernel_address a")
    case True
    show ?thesis
    proof (cases "krnl_pgd k = None \<and> create")
      case new: True
      show ?thesis
      proof (cases "sy_host s 0")
        case True
        with new k h \<open>is_kernel_address a\<close> have eq: "s1 = upd_krnl c (\<lambda>_. k\<lparr>krnl_pgd := Some (next_root ?s)\<rparr>)
           (?s\<lparr>kroots := (kroots ?s)(next_root ?s \<mapsto> empty_table [()]), next_root := next_root ?s + 1\<rparr>)"
          by (simp add: s1 ensure_root_def init_kernel_page_table_def)
        note * = new_kernel_root [of ?s c m k, OF _ _ _ _ eq]
        have "host_ok (sy_host s) \<longrightarrow> host_ok (sy_host s1)"
          using eq h(2) by simp
        with *(1-4) *(5) [of a] assms(1) m k new \<open>is_kernel_address a\<close> show ?thesis by simp
      next
        case False
        with new k h \<open>is_kernel_address a\<close> have "s1 = upd_krnl c (\<lambda>_. k) ?s"
          by (simp add: s1 ensure_root_def init_kernel_page_table_def)
        also have "\<dots> = ?s" using upd_krnl_id [of ?s c k] k by simp
        finally show ?thesis using assms(1) False by (auto simp: host_ok_def)
      qed
    next
      case False
      with True k root have "s1 = s" "create \<Longrightarrow> root_of s c a \<noteq> None"
        by (auto simp: s1 ensure_root_def)
      with assms(1) show ?thesis by simp
    qed
  next
    case False
    show ?thesis
    proof (cases "mm_pgd m = None \<and> create")
      case new: True
      show ?thesis
      proof (cases "sy_host s 0")
        case True
        with new m h \<open>\<not> is_kernel_address a\<close> have eq: "s1 = upd_mm c (\<lambda>m. m\<lparr>mm_pgd := Some (empty_table [()])\<rparr>) ?s"
          by (simp add: s1 ensure_root_def)
        note * = new_user_root [of ?s c m, OF _ _ _ eq]
        have "host_ok (sy_host s) \<longrightarrow> host_ok (sy_host s1)"
          using eq h(2) by simp
        with *(1-4) *(5) [of a] assms(1) m new \<open>\<not> is_kernel_address a\<close> show ?thesis by simp
      next
        case False
        with new m h \<open>\<not> is_kernel_address a\<close> have "s1 = upd_mm c (\<lambda>m. m\<lparr>mm_pgd := None\<rparr>) ?s"
          by (simp add: s1 ensure_root_def)
        also have "\<dots> = ?s" using upd_mm_id [of ?s c m] m new by simp
        finally show ?thesis using assms(1) False by (auto simp: host_ok_def)
      qed
    next
      case keep: False
      with False m have "s1 = s" "create \<Longrightarrow> root_of s c a \<noteq> None"
        by (auto simp: s1 ensure_root_def root_of_def)
      with assms(1) show ?thesis by simp
    qed
  qed
qed

section \<open>Lemmas on the walk and on entries\<close>

lemma walk_pte_props:
  assumes "pt_wf s" "walk_pte s c a create = (l, s')"
  shows "pt_wf s'" "pte_view s' = pte_view s" "forget_pt s' = forget_pt s"
    and "l \<noteq> None \<Longrightarrow> l = Some (c, a) \<and> canonical a \<and> caller_mm s' c \<noteq> None \<and> pte_load s' (c, a) \<noteq> None"
    and "\<not> create \<Longrightarrow> s' = s"
    and "host_ok (sy_host s) \<Longrightarrow> host_ok (sy_host s') \<and>
           (create \<and> canonical a \<and> caller_mm s c \<noteq> None \<longrightarrow> l \<noteq> None)"
proof -
  have "pt_wf s' \<and> pte_view s' x b = pte_view s x b \<and> forget_pt s' = forget_pt s \<and>
     (l \<noteq> None \<longrightarrow> l = Some (c, a) \<and> canonical a \<and> caller_mm s' c \<noteq> None \<and> pte_load s' (c, a) \<noteq> None) \<and>
     (\<not> create \<longrightarrow> s' = s) \<and> (host_ok (sy_host s) \<longrightarrow> host_ok (sy_host s') \<and>
     (create \<and> canonical a \<and> caller_mm s c \<noteq> None \<longrightarrow> l \<noteq> None))" for x b
  proof (cases "caller_mm s c = None \<or> \<not> canonical a")
    case True
    with assms show ?thesis by (auto simp: walk_pte_def canonical_def split: if_splits)
  next
    case False
    then have mm: "caller_mm s c \<noteq> None" and ca: "canonical a" by auto
    then have c: "c \<noteq> NULL" by (auto simp: caller_mm_def)
    define s1 where "s1 = ensure_root s c a create"
    note er = ensure_root_props [OF assms(1) mm s1_def]
    show ?thesis
    proof (cases "root_of s1 c a")
      case None
      with assms(2) mm ca have "l = None" "s' = s1"
        by (auto simp: walk_pte_def canonical_def s1_def [symmetric])
      with er [of x b] None show ?thesis using ensure_root_id [of create s c a] by (auto simp: s1_def)
    next
      case (Some t)
      obtain ok t' h' where w: "walk_dirs create (dir_path a) t (sy_host s1) = (ok, t', h')"
        by (cases "walk_dirs create (dir_path a) t (sy_host s1)")
      have wt: "tab_wf (length (dir_path a)) t" using pt_wf_root [OF _ Some] er by simp
      note wd = walk_dirs_props [OF wt w]
      have l: "l = (if ok then Some (c, a) else None)" and s': "s' = set_root c a t' (s1\<lparr>sy_host := h'\<rparr>)"
        using assms(2) mm ca Some w by (auto simp: walk_pte_def canonical_def s1_def [symmetric])
      have "pte_view s' x b = pte_view s1 x b"
        using pte_view_set_root [of "s1\<lparr>sy_host := h'\<rparr>" c a t t' "\<lambda>_ v. v"] Some wd(2) by (simp add: s')
      moreover have "pt_wf s'" unfolding s'
        by (rule pt_wf_set_root) (use er Some wd(1) in auto)
      moreover have "root_of s' c a = Some t'"
        using Some same_space_refl [of s1 c a] unfolding s'
        by (simp add: root_of_set_root same_space_def)
      moreover have "\<not> create \<Longrightarrow> s' = s"
        using wd(4) Some set_root_id [of s1 c a t] ensure_root_id [of create s c a] by (simp add: s' s1_def)
      ultimately show ?thesis
        using er [of x b] wd(3,5) l c mm ca set_root_caller_mm [of c a t' "s1\<lparr>sy_host := h'\<rparr>" c]
          er [of c b] by (auto simp: pte_load_def s')
    qed
  qed
  then show "pt_wf s'" "pte_view s' = pte_view s" "forget_pt s' = forget_pt s"
    and "l \<noteq> None \<Longrightarrow> l = Some (c, a) \<and> canonical a \<and> caller_mm s' c \<noteq> None \<and> pte_load s' (c, a) \<noteq> None"
    and "\<not> create \<Longrightarrow> s' = s"
    and "host_ok (sy_host s) \<Longrightarrow> host_ok (sy_host s') \<and>
           (create \<and> canonical a \<and> caller_mm s c \<noteq> None \<longrightarrow> l \<noteq> None)"
    by blast+
qed

text \<open>Reading an entry is a pure view of the tables.\<close>

lemma pte_get_entry_view:
  assumes "pt_wf s"
  shows "pte_get_entry s c pgn = pte_view s c (push_bit 12 pgn)"
proof -
  define a where "a = push_bit 12 pgn"
  obtain l s' where w: "walk_pte s c a False = (l, s')" by (cases "walk_pte s c a False")
  note wp = walk_pte_props [OF assms w]
  show ?thesis
  proof (cases l)
    case None
    have "pte_view s c a = 0"
    proof (cases "caller_mm s c \<noteq> None \<and> canonical a \<and> root_of s c a \<noteq> None")
      case True
      then obtain t where t: "root_of s c a = Some t" by auto
      then have "tab_wf (length (dir_path a)) t" using pt_wf_root [OF assms] by simp
      note walk_dirs_props(4) [OF this, of False "sy_host s"]
      with True w t None have "tab_get t (dir_path a) (pt_index a) = None"
        by (cases "walk_dirs False (dir_path a) t (sy_host s)")
           (auto simp: walk_pte_def canonical_def ensure_root_id split: if_splits)
      with t show ?thesis by (simp add: pte_view_def tab_val_def)
    qed (auto simp: pte_view_def)
    with None w show ?thesis by (simp add: pte_get_entry_def a_def)
  next
    case (Some x)
    with wp have "s' = s" "x = (c, a)" "canonical a" "caller_mm s c \<noteq> None" "pte_load s (c, a) \<noteq> None"
      by auto
    with Some w show ?thesis
      by (auto simp: pte_get_entry_def a_def pte_view_def pte_load_def tab_val_def bind_eq_Some_conv)
  qed
qed

lemma pte_store_props:
  assumes "pt_wf s" "pte_load s (c, a) \<noteq> None" "canonical a" "caller_mm s c \<noteq> None"
  shows "pt_wf (pte_store s (c, a) v)"
    and "forget_pt (pte_store s (c, a) v) = forget_pt s"
    and "pte_view (pte_store s (c, a) v) x b =
      (if caller_mm s x \<noteq> None \<and> drop_bit 12 b = drop_bit 12 a \<and> canonical b \<and> same_space s c x (is_kernel_address a)
       then v else pte_view s x b)"
    and "sy_host (pte_store s (c, a) v) = sy_host s"
    and "kroot_of (pte_store s (c, a) v) x = kroot_of s x"
    and "caller_mm (pte_store s (c, a) v) x = None \<longleftrightarrow> caller_mm s x = None"
proof -
  from assms obtain t where t: "root_of s c a = Some t" "tab_get t (dir_path a) (pt_index a) \<noteq> None"
    by (auto simp: pte_load_def bind_eq_Some_conv)
  let ?u = "tab_set t (dir_path a) (pt_index a) v"
  have st: "pte_store s (c, a) v = set_root c a ?u s" by (simp add: pte_store_def t)
  have val: "tab_val ?u (dir_path b) (pt_index b) =
      (if drop_bit 12 b = drop_bit 12 a then v else tab_val t (dir_path b) (pt_index b))" if "canonical b" for b
    using path_eq_iff [OF that assms(3)] tab_val_set [OF t(2)] by auto
  show "pt_wf (pte_store s (c, a) v)" unfolding st
    by (rule pt_wf_set_root) (use assms t pt_wf_root tab_wf_set in auto)
  from assms(4) have "c \<noteq> NULL" by (auto simp: caller_mm_def)
  then show "forget_pt (pte_store s (c, a) v) = forget_pt s" by (simp add: st)
  show "pte_view (pte_store s (c, a) v) x b =
      (if caller_mm s x \<noteq> None \<and> drop_bit 12 b = drop_bit 12 a \<and> canonical b \<and> same_space s c x (is_kernel_address a)
       then v else pte_view s x b)"
    unfolding st
    using pte_view_set_root [OF t(1), where g = "\<lambda>b w. if drop_bit 12 b = drop_bit 12 a then v else w", OF val]
      is_kernel_same_page [of b a] by auto
qed (use assms in \<open>auto simp: pte_store_def split: option.splits\<close>)

text \<open>
  The page-number form of an address: shifting it up and down again. Only the low 52 bits of a
  page number count.
\<close>

lemma page_addr_id: "push_bit 12 (drop_bit 12 (push_bit 12 p :: addr)) = push_bit 12 p"
  by (rule bit_word_eqI) (auto simp: bit_push_bit_iff bit_drop_bit_eq)

lemma page_eq_iff: "drop_bit 12 (push_bit 12 p :: addr) = drop_bit 12 (push_bit 12 q) \<longleftrightarrow> push_bit 12 p = push_bit 12 q"
  by (metis page_addr_id)

text \<open>
  The common form of the three operations that write an entry; \<open>pte_set_fpn\<close> and
  \<open>pte_set_swap\<close> clear the entry first, which leaves no trace.
\<close>

lemma tab_set_set: "tab_set (tab_set t is j v) is j w = tab_set t is j w"
  by (induction t "is" j v rule: tab_set.induct) (auto split: option.splits)

lemma upd_krnl_upd_krnl: "upd_krnl c f (upd_krnl c g s) = upd_krnl c (f \<circ> g) s"
  by (cases "pcbs s c") (auto simp: upd_krnl_def option.map_comp comp_def)

lemma upd_mm_upd_mm: "upd_mm c f (upd_mm c g s) = upd_mm c (f \<circ> g) s"
  by (simp add: upd_mm_def upd_krnl_upd_krnl comp_def option.map_comp)

lemma set_root_set_root: "set_root c a u (set_root c a t s) = set_root c a u s"
  by (auto simp: set_root_def upd_mm_upd_mm comp_def split: option.splits)

lemma pte_store_twice:
  assumes "pte_load s (c, a) \<noteq> None"
  shows "pte_store (pte_store s (c, a) v) (c, a) w = pte_store s (c, a) w"
proof -
  from assms obtain t where "root_of s c a = Some t" by (auto simp: pte_load_def bind_eq_Some_conv)
  then show ?thesis
    using same_space_refl [of s c a]
    by (simp add: pte_store_def root_of_set_root set_root_set_root tab_set_set)
qed

lemma pte_set_as_entry:
  assumes "pt_wf s"
  shows "pte_set_fpn s c pgn fpn = pte_set_entry s c pgn (pte_of_fpn fpn)"
    and "pte_set_swap s c pgn typ off = pte_set_entry s c pgn (pte_of_swap typ off)"
proof -
  obtain l s' where w: "walk_pte s c (push_bit 12 pgn) True = (l, s')"
    by (cases "walk_pte s c (push_bit 12 pgn) True")
  note * = walk_pte_props(4) [OF assms w]
  show "pte_set_fpn s c pgn fpn = pte_set_entry s c pgn (pte_of_fpn fpn)"
    using * by (cases l) (auto simp: pte_set_fpn_def pte_set_entry_def w pte_store_twice)
  show "pte_set_swap s c pgn typ off = pte_set_entry s c pgn (pte_of_swap typ off)"
    using * by (cases l) (auto simp: pte_set_swap_def pte_set_entry_def w pte_store_twice)
qed

text \<open>What a state says about everything but the tables can be read off \<open>forget_pt\<close>.\<close>

lemma forget_pt_view:
  "sy_sched (forget_pt s) = sy_sched s" "devs (forget_pt s) = devs s"
  "caller_krnl (forget_pt s) c = map_option (\<lambda>k. k\<lparr>krnl_pgd := None,
      k_mm := map_option (\<lambda>m. m\<lparr>mm_pgd := None\<rparr>) (k_mm k)\<rparr>) (caller_krnl s c)"
  "caller_mm (forget_pt s) c = map_option (\<lambda>m. m\<lparr>mm_pgd := None\<rparr>) (caller_mm s c)"
  "caller_mram (forget_pt s) c = caller_mram s c" "caller_mswp (forget_pt s) c = caller_mswp s c"
proof -
  show k: "caller_krnl (forget_pt s) c = map_option (\<lambda>k. k\<lparr>krnl_pgd := None,
      k_mm := map_option (\<lambda>m. m\<lparr>mm_pgd := None\<rparr>) (k_mm k)\<rparr>) (caller_krnl s c)"
    by (cases "pcbs s c") (auto simp: caller_krnl_def forget_pt_def)
  show "caller_mm (forget_pt s) c = map_option (\<lambda>m. m\<lparr>mm_pgd := None\<rparr>) (caller_mm s c)"
    "caller_mram (forget_pt s) c = caller_mram s c" "caller_mswp (forget_pt s) c = caller_mswp s c"
    by (cases "caller_krnl s c"; auto simp: caller_mm_def caller_mram_def caller_mswp_def k)+
qed (simp_all add: forget_pt_def)

lemma forget_ptD:
  assumes "forget_pt s' = forget_pt s"
  shows "sy_sched s' = sy_sched s" "devs s' = devs s"
    "caller_mram s' c = caller_mram s c" "caller_mswp s' c = caller_mswp s c"
    "map_option (\<lambda>m. m\<lparr>mm_pgd := None\<rparr>) (caller_mm s' c) = map_option (\<lambda>m. m\<lparr>mm_pgd := None\<rparr>) (caller_mm s c)"
    "caller_mm s' c = None \<longleftrightarrow> caller_mm s c = None"
  using forget_pt_view [of s] forget_pt_view [of s'] assms
  by (metis, metis, metis, metis, metis, metis option.map_disc_iff)

lemma pte_set_entry_props:
  assumes "pt_wf s" "pte_set_entry s c pgn v = (r, s')"
  shows "pt_wf s'" "forget_pt s' = forget_pt s" "r = 0 \<or> r = -1"
    and "r = 0 \<Longrightarrow> pte_get_entry s' x q =
      (if push_bit 12 q = push_bit 12 pgn \<and> caller_mm s x \<noteq> None \<and>
          same_space s' c x (is_kernel_address (push_bit 12 pgn)) then v else pte_get_entry s x q)"
    and "r \<noteq> 0 \<Longrightarrow> pte_get_entry s' x q = pte_get_entry s x q"
    and "r = 0 \<Longrightarrow> canonical (push_bit 12 pgn) \<and> caller_mm s c \<noteq> None"
    and "r = 0 \<Longrightarrow> same_space s' c c (is_kernel_address (push_bit 12 pgn))"
    and "host_ok (sy_host s) \<Longrightarrow> host_ok (sy_host s') \<and>
           (r = 0 \<longleftrightarrow> canonical (push_bit 12 pgn) \<and> caller_mm s c \<noteq> None)"
proof -
  define a where "a = push_bit 12 pgn"
  obtain l s1 where w: "walk_pte s c a True = (l, s1)" by (cases "walk_pte s c a True")
  note wp = walk_pte_props [OF assms(1) w]
  note mm = forget_ptD(6) [OF wp(3)]
  have "(pt_wf s' \<and> forget_pt s' = forget_pt s \<and> (r = 0 \<or> r = -1)) \<and>
    (r = 0 \<longrightarrow> pte_get_entry s' x q = (if push_bit 12 q = a \<and> caller_mm s x \<noteq> None \<and>
          same_space s' c x (is_kernel_address a) then v else pte_get_entry s x q)) \<and>
    (r \<noteq> 0 \<longrightarrow> pte_get_entry s' x q = pte_get_entry s x q) \<and>
    (r = 0 \<longrightarrow> canonical a \<and> caller_mm s c \<noteq> None \<and> same_space s' c c (is_kernel_address a)) \<and>
    (host_ok (sy_host s) \<longrightarrow> host_ok (sy_host s') \<and> (r = 0 \<longleftrightarrow> canonical a \<and> caller_mm s c \<noteq> None))"
  proof (cases l)
    case None
    with assms(2) w have "r = -1" "s' = s1" by (auto simp: pte_set_entry_def a_def)
    with wp None show ?thesis by (auto simp: pte_get_entry_view assms(1))
  next
    case (Some y)
    with assms(2) w wp(4) have r: "r = 0" "s' = pte_store s1 (c, a) v" and *: "canonical a" "caller_mm s1 c \<noteq> None" "pte_load s1 (c, a) \<noteq> None"
      by (auto simp: pte_set_entry_def a_def)
    note ps = pte_store_props [OF wp(1) *(3,1,2), of v, folded r(2)]
    have "same_space s' c y k = same_space s1 c y k" for y k
      by (simp add: same_space_def ps(5))
    moreover have "same_space s1 c c (is_kernel_address a)"
      using same_space_refl *(3) by (auto simp: pte_load_def bind_eq_Some_conv)
    moreover have "drop_bit 12 (push_bit 12 q) = drop_bit 12 a \<longleftrightarrow> push_bit 12 q = a"
      unfolding a_def by (rule page_eq_iff)
    ultimately show ?thesis
      using ps(1,2) ps(3) [of x "push_bit 12 q"] ps(4) wp mm [of x] mm [of c] r(1) *
      by (auto simp: pte_get_entry_view assms(1) pte_view_def)
  qed
  then show "pt_wf s'" "forget_pt s' = forget_pt s" "r = 0 \<or> r = -1"
    and "r = 0 \<Longrightarrow> pte_get_entry s' x q =
      (if push_bit 12 q = push_bit 12 pgn \<and> caller_mm s x \<noteq> None \<and>
          same_space s' c x (is_kernel_address (push_bit 12 pgn)) then v else pte_get_entry s x q)"
    and "r \<noteq> 0 \<Longrightarrow> pte_get_entry s' x q = pte_get_entry s x q"
    and "r = 0 \<Longrightarrow> canonical (push_bit 12 pgn) \<and> caller_mm s c \<noteq> None"
    and "r = 0 \<Longrightarrow> same_space s' c c (is_kernel_address (push_bit 12 pgn))"
    and "host_ok (sy_host s) \<Longrightarrow> host_ok (sy_host s') \<and>
           (r = 0 \<longleftrightarrow> canonical (push_bit 12 pgn) \<and> caller_mm s c \<noteq> None)"
    unfolding a_def by blast+
qed

text \<open>
  An entry that is not 0 has its tables: writing it allocates nothing and cannot fail, and
  commutes with what happens to devices and the host allocator.
\<close>

lemma ensure_root_exists: "root_of s c a \<noteq> None \<Longrightarrow> ensure_root s c a create = s"
  by (auto simp: ensure_root_def root_of_def kroot_of_def bind_eq_Some_conv split: option.splits if_splits)

lemma pte_set_entry_exists:
  assumes "pt_wf s" "pte_get_entry s c p \<noteq> 0"
  shows "pte_set_entry s c p v = (0, pte_store s (c, push_bit 12 p) v)"
proof -
  define a where "a = push_bit 12 p"
  from assms have "pte_view s c a \<noteq> 0" by (simp add: pte_get_entry_view a_def)
  then obtain t where t: "caller_mm s c \<noteq> None" "canonical a" "root_of s c a = Some t"
      "tab_get t (dir_path a) (pt_index a) \<noteq> None"
    by (auto simp: pte_view_def tab_val_def split: if_splits option.splits)
  have "walk_pte s c a True = (Some (c, a), s)"
    using t walk_dirs_exists [OF t(4)] ensure_root_exists [of s c a] set_root_id [of s c a t]
    by (simp add: walk_pte_def canonical_def)
  then show ?thesis by (simp add: pte_set_entry_def a_def)
qed

lemma pte_store_commute:
  "pte_store (upd_dev d mp s) l v = upd_dev d mp (pte_store s l v)"
  "pte_store (s\<lparr>sy_host := h\<rparr>) l v = (pte_store s l v)\<lparr>sy_host := h\<rparr>"
  by (cases l; auto simp: pte_store_def set_root_def root_of_def upd_dev_def upd_mm_def upd_krnl_def
      kroot_of_def caller_mm_def caller_krnl_def split: option.splits)+

lemma devs_pte_store [simp]: "devs (pte_store s l v) = devs s" "sy_host (pte_store s l v) = sy_host s"
  by (auto simp: pte_store_def split: option.splits prod.splits)

section \<open>The interface of the page tables\<close>

text \<open>
  What the code above the page tables relies on: writing an entry changes the entry of that
  page and no other. A loop that writes a list of entries, stopping at the first failure, is
  then a simultaneous update.
\<close>

fun set_all :: "('s \<Rightarrow> addr \<Rightarrow> addr \<Rightarrow> int \<times> 's) \<Rightarrow> 's \<Rightarrow> (addr \<times> addr) list \<Rightarrow> int \<times> 's" where
  "set_all st s [] = (0, s)"
| "set_all st s ((p, v) # ps) = (case st s p v of (r, s1) \<Rightarrow> if r \<noteq> 0 then (-1, s1) else set_all st s1 ps)"

locale page_map =
  fixes get :: "'s \<Rightarrow> addr \<Rightarrow> addr"
    and st :: "'s \<Rightarrow> addr \<Rightarrow> addr \<Rightarrow> int \<times> 's"
    and inv :: "'s \<Rightarrow> bool"
    and page :: "addr \<Rightarrow> addr"
  assumes st_inv: "inv s \<Longrightarrow> inv (snd (st s p v))"
    and get_st: "inv s \<Longrightarrow> fst (st s p v) = 0 \<Longrightarrow>
      get (snd (st s p v)) q = (if page q = page p then v else get s q)"
    and st_fails: "inv s \<Longrightarrow> fst (st s p v) \<noteq> 0 \<Longrightarrow> get (snd (st s p v)) q = get s q"
begin

lemma set_all_inv: "inv s \<Longrightarrow> inv (snd (set_all st s ps))"
proof (induction ps arbitrary: s)
  case (Cons pv ps)
  obtain p v where [simp]: "pv = (p, v)" by (cases pv)
  obtain r s1 where st: "st s p v = (r, s1)" by (cases "st s p v")
  with Cons.prems have "inv s1" using st_inv [of s p v] by simp
  with Cons.IH st show ?case by simp
qed simp

lemma get_set_all:
  assumes "inv s" "fst (set_all st s ps) = 0" "distinct (map (page \<circ> fst) ps)"
  shows "get (snd (set_all st s ps)) q =
    (case find (\<lambda>(p, v). page p = page q) ps of None \<Rightarrow> get s q | Some (p, v) \<Rightarrow> v)"
  using assms
proof (induction ps arbitrary: s)
  case (Cons pv ps)
  obtain p v where [simp]: "pv = (p, v)" by (cases pv)
  obtain r s1 where st: "st s p v = (r, s1)" by (cases "st s p v")
  with Cons.prems have "inv s1" "r = 0" using st_inv [of s p v] by (auto split: if_splits)
  with Cons.prems st have IH: "get (snd (set_all st s1 ps)) q =
      (case find (\<lambda>(p, v). page p = page q) ps of None \<Rightarrow> get s1 q | Some (p, v) \<Rightarrow> v)"
    by (intro Cons.IH) auto
  have "find (\<lambda>(p, v). page p = page q) ps = None" if "page p = page q"
    using that Cons.prems(3) by (force simp: find_None_iff)
  with IH get_st [of s p v q] st \<open>r = 0\<close> Cons.prems(1) show ?case
    by (auto split: option.splits)
qed simp

lemma get_set_const:
  assumes "inv s" "fst (set_all st s (map (\<lambda>p. (p, v)) ps)) = 0" "distinct (map page ps)"
  shows "get (snd (set_all st s (map (\<lambda>p. (p, v)) ps))) q = (if page q \<in> page ` set ps then v else get s q)"
proof -
  have "find (\<lambda>(p, v). page p = page q) (map (\<lambda>p. (p, v)) ps) = None \<longleftrightarrow> page q \<notin> page ` set ps"
    unfolding find_None_iff by (auto simp: image_iff)
  moreover have "w = v" if "find (\<lambda>(p, v). page p = page q) (map (\<lambda>p. (p, v)) ps) = Some (p, w)" for p w
    using that by (auto simp: find_Some_iff)
  ultimately show ?thesis using get_set_all [OF assms(1,2)] assms(3)
    by (auto simp: comp_def split: option.splits)
qed

end

text \<open>With a host that does not run out of memory, a write fails only for an invalid page.\<close>

locale total_page_map = page_map +
  fixes avail :: "'a \<Rightarrow> bool" and valid :: "addr \<Rightarrow> bool"
  assumes st_total: "inv s \<Longrightarrow> avail s \<Longrightarrow> (fst (st s p v) = 0 \<longleftrightarrow> valid p) \<and> avail (snd (st s p v))"
begin

lemma set_all_total:
  "inv s \<Longrightarrow> avail s \<Longrightarrow> (\<And>p v. (p, v) \<in> set ps \<Longrightarrow> valid p) \<Longrightarrow>
   fst (set_all st s ps) = 0 \<and> avail (snd (set_all st s ps))"
proof (induction ps arbitrary: s)
  case (Cons pv ps)
  obtain p v where [simp]: "pv = (p, v)" by (cases pv)
  obtain r s1 where st: "st s p v = (r, s1)" by (cases "st s p v")
  from Cons.prems(3) have "valid p" by auto
  with Cons.prems(1,2) st have "inv s1" "avail s1" "r = 0"
    using st_inv [of s p v] st_total [of s p v] by auto
  then have "fst (set_all st s1 ps) = 0 \<and> avail (snd (set_all st s1 ps))"
    using Cons.prems(3) by (intro Cons.IH) auto
  with st \<open>r = 0\<close> show ?case by simp
qed simp

end

interpretation pt: total_page_map
  "\<lambda>s. pte_get_entry s c" "\<lambda>s. pte_set_entry s c" "\<lambda>s. pt_wf s \<and> caller_mm s c \<noteq> None" "push_bit 12"
  "\<lambda>s. host_ok (sy_host s)" "\<lambda>p. canonical (push_bit 12 p)"
  for c
proof
  fix s p v q
  obtain r s' where e: "pte_set_entry s c p v = (r, s')" by (cases "pte_set_entry s c p v")
  assume inv: "pt_wf s \<and> caller_mm s c \<noteq> None"
  then have wf: "pt_wf s" by simp
  note ps = pte_set_entry_props [OF wf e]
  show "pt_wf (snd (pte_set_entry s c p v)) \<and> caller_mm (snd (pte_set_entry s c p v)) c \<noteq> None"
    using ps(1) forget_ptD(6) [OF ps(2), of c] inv by (simp add: e)
  show "pte_get_entry (snd (pte_set_entry s c p v)) c q =
      (if push_bit 12 q = push_bit 12 p then v else pte_get_entry s c q)"
    if "fst (pte_set_entry s c p v) = 0"
    using that ps(4,7) inv by (simp add: e)
  show "pte_get_entry (snd (pte_set_entry s c p v)) c q = pte_get_entry s c q"
    if "fst (pte_set_entry s c p v) \<noteq> 0"
    using that ps(5) by (simp add: e)
  show "(fst (pte_set_entry s c p v) = 0 \<longleftrightarrow> canonical (push_bit 12 p)) \<and> host_ok (sy_host (snd (pte_set_entry s c p v)))"
    if "host_ok (sy_host s)"
    using that ps(8) inv by (simp add: e)
qed

section \<open>Mapping a range with dummy entries\<close>

text \<open>The page numbers of a range, in the order of the loops over it.\<close>

definition range_pages :: "addr \<Rightarrow> int \<Rightarrow> int \<Rightarrow> addr list" where
  "range_pages pgn i n = map (\<lambda>k. pgn + addr_of_int k) [i..n - 1]"

lemma range_pages_step: "i < n \<Longrightarrow> range_pages pgn i n = (pgn + addr_of_int i) # range_pages pgn (i + 1) n"
  by (simp add: range_pages_def upto.simps)

lemma memset_loop_set_all:
  "memset_loop s c pgn i n = set_all (\<lambda>s. pte_set_entry s c) s (map (\<lambda>p. (p, PAGING64_DUMMY_PTE)) (range_pages pgn i n))"
proof (induction "nat (n - i)" arbitrary: s i)
  case 0
  then show ?case by (simp add: memset_loop.simps [of s c pgn i n] range_pages_def)
next
  case (Suc k)
  then have "i < n" "k = nat (n - (i + 1))" by auto
  with Suc(1) [OF this(2)] show ?case
    by (simp add: memset_loop.simps [of s c pgn i n] range_pages_step split: prod.splits)
qed

lemma range_pages_valid:
  assumes "validate_page_range a n = 0" "n < 2 ^ 31"
  shows "p \<in> set (range_pages (drop_bit 12 a) 0 n) \<Longrightarrow> canonical (push_bit 12 p) \<and> is_kernel_address (push_bit 12 p) = is_kernel_address a"
    and "distinct (map (push_bit 12) (range_pages (drop_bit 12 a) 0 n))"
    and "push_bit 12 ` set (range_pages (drop_bit 12 a) 0 n) = {a + addr_of_int (4096 * i) |i. 0 \<le> i \<and> i < n}"
proof -
  note al = page_range_step [OF conjunct1 [OF validate_page_rangeD [OF assms(1)]]]
  show "p \<in> set (range_pages (drop_bit 12 a) 0 n) \<Longrightarrow> canonical (push_bit 12 p) \<and> is_kernel_address (push_bit 12 p) = is_kernel_address a"
    using page_range(2,3) [OF assms(1) _ _ assms(2)] by (auto simp: range_pages_def al)
  show "distinct (map (push_bit 12) (range_pages (drop_bit 12 a) 0 n))"
    using page_range_inj [OF assms(1) _ _ _ _ assms(2)]
    by (auto simp: range_pages_def distinct_map al intro!: inj_onI)
  show "push_bit 12 ` set (range_pages (drop_bit 12 a) 0 n) = {a + addr_of_int (4096 * i) |i. 0 \<le> i \<and> i < n}"
    by (auto simp: range_pages_def al image_image)
qed

lemma set_all_frame:
  "pt_wf s \<Longrightarrow> forget_pt (snd (set_all (\<lambda>s. pte_set_entry s c) s ps)) = forget_pt s"
proof (induction ps arbitrary: s)
  case (Cons pv ps)
  obtain p v where [simp]: "pv = (p, v)" by (cases pv)
  obtain r s1 where e: "pte_set_entry s c p v = (r, s1)" by (cases "pte_set_entry s c p v")
  with pte_set_entry_props(1,2) [OF Cons.prems e] Cons.IH [of s1] show ?case by simp
qed simp

section \<open>Properties\<close>

text \<open>
  A system for the witnesses: two processes with an empty address space each, at the
  addresses 1 and 2, that share one kernel page table, RAM and a swap device.
\<close>

definition demo_mm :: mm_struct where
  "demo_mm = \<lparr>mm_pgd = None, mm_mmap = [], symrgtbl = [], fifo_pgn = [], kcpooltbl = None\<rparr>"

definition demo_proc :: pcb_t where
  "demo_proc = demo_pcb\<lparr>krnl := Some (demo_krnl\<lparr>k_mm := Some demo_mm\<rparr>)\<rparr>"

definition demo_sys :: sys where
  "demo_sys = \<lparr>sy_sched = boot_sched, pcbs = [1 \<mapsto> demo_proc, 2 \<mapsto> demo_proc], devs = (\<lambda>_. demo_ram),
     kroots = [0 \<mapsto> empty_table [()]], next_root = 1, sy_host = (\<lambda>_. True)\<rparr>"

lemma demo_sys_caller:
  "caller_krnl demo_sys c = (if c = 1 \<or> c = 2 then Some (demo_krnl\<lparr>k_mm := Some demo_mm\<rparr>) else None)"
  "caller_mm demo_sys c = (if c = 1 \<or> c = 2 then Some demo_mm else None)"
  "kroot_of demo_sys c = (if c = 1 \<or> c = 2 then Some 0 else None)"
  by (auto simp: caller_krnl_def caller_mm_def kroot_of_def demo_sys_def demo_proc_def demo_pcb_def
      demo_krnl_def NULL_def)

lemma demo_sys_roots: "kroots demo_sys = [0 \<mapsto> empty_table [()]]" "next_root demo_sys = 1"
  by (simp_all add: demo_sys_def)

lemma demo_sys_wf [simp]: "pt_wf demo_sys" "host_ok (sy_host demo_sys)"
proof -
  show "pt_wf demo_sys"
    by (rule pt_wfI) (auto simp: demo_sys_caller demo_mm_def demo_sys_roots split: if_splits)
qed (simp add: host_ok_def demo_sys_def)

lemma small_page_user: "canonical (push_bit 12 p) \<and> \<not> is_kernel_address (push_bit 12 p)" if "p \<in> {0, 1, 2, 3 :: addr}"
  using that by (auto simp: canonical_def get_pd_from_address_def is_kernel_address_def)

text \<open>
  C27: Page tables implement a map from pages to entries, private per process below the
  kernel half and shared in it. After \<open>pte_set_entry\<close> succeeded, the caller reads the new
  entry at that page and the old entry at every other page; another process sees the change
  exactly when the page is a kernel page and both have the same kernel root. Nothing outside the
  page tables changes.
\<close>

theorem page_table_isolation:
  assumes "pt_wf s" "pte_set_entry s c p v = (0, s')"
  shows "pte_get_entry s' c q = (if push_bit 12 q = push_bit 12 p then v else pte_get_entry s c q) \<and>
    (\<forall>x. x \<noteq> c \<longrightarrow> pte_get_entry s' x q =
       (if push_bit 12 q = push_bit 12 p \<and> is_kernel_address (push_bit 12 p) \<and> caller_mm s x \<noteq> None \<and>
           kroot_of s' x = kroot_of s' c then v else pte_get_entry s x q)) \<and>
    pt_wf s' \<and> forget_pt s' = forget_pt s"
  using pte_set_entry_props [OF assms] by (auto simp: same_space_def split: if_splits)

theorem page_table_isolation_witness:
  "\<exists>s'. pte_set_entry demo_sys 1 2 7 = (0, s') \<and> pte_get_entry s' 1 2 = 7 \<and>
     pte_get_entry s' 2 2 = pte_get_entry demo_sys 2 2 \<and> pte_get_entry s' 1 3 = pte_get_entry demo_sys 1 3"
proof -
  obtain r s' where e: "pte_set_entry demo_sys 1 2 7 = (r, s')" by (cases "pte_set_entry demo_sys 1 2 7")
  with pte_set_entry_props(8) [OF demo_sys_wf(1) e] small_page_user [of 2] have "r = 0"
    by (simp add: demo_sys_caller)
  with e have e0: "pte_set_entry demo_sys 1 2 7 = (0, s')" by simp
  have k: "\<not> is_kernel_address (push_bit 12 2)" using small_page_user [of 2] by simp
  note w = page_table_isolation [OF demo_sys_wf(1) e0]
  have "pte_get_entry s' 1 2 = 7" using w [of 2] by simp
  moreover have "pte_get_entry s' 2 2 = pte_get_entry demo_sys 2 2"
    using w [of 2] k by (metis n_not_Suc_n numeral_2_eq_2 One_nat_def)
  moreover have "pte_get_entry s' 1 3 = pte_get_entry demo_sys 1 3" using w [of 3] by simp
  ultimately show ?thesis using e0 by blast
qed

text \<open>
  Writing an entry fails cleanly. When the host has memory, \<open>pte_set_entry\<close>,
  \<open>pte_set_fpn\<close> and \<open>pte_set_swap\<close> return 0 exactly for canonical pages of a process that
  has an address space, and -1 otherwise; a failed call, also one that ran out of memory in
  the middle of the walk, leaves every entry of every process as it was.
\<close>

theorem pte_set_total:
  assumes "pt_wf s" "f \<in> {\<lambda>s. pte_set_entry s c p v, \<lambda>s. pte_set_fpn s c p v, \<lambda>s. pte_set_swap s c p t v}"
  shows "(host_ok (sy_host s) \<longrightarrow> (fst (f s) = 0 \<longleftrightarrow> canonical (push_bit 12 p) \<and> caller_mm s c \<noteq> None)) \<and>
    (fst (f s) \<noteq> 0 \<longrightarrow> fst (f s) = -1 \<and> pte_get_entry (snd (f s)) x q = pte_get_entry s x q)"
proof -
  have "(host_ok (sy_host s) \<longrightarrow> (fst (pte_set_entry s c p w) = 0 \<longleftrightarrow> canonical (push_bit 12 p) \<and> caller_mm s c \<noteq> None)) \<and>
    (fst (pte_set_entry s c p w) \<noteq> 0 \<longrightarrow>
      fst (pte_set_entry s c p w) = -1 \<and> pte_get_entry (snd (pte_set_entry s c p w)) x q = pte_get_entry s x q)" for w
    using pte_set_entry_props(3,5,8) [OF assms(1)] by (cases "pte_set_entry s c p w") fastforce
  with assms show ?thesis by (auto simp: pte_set_as_entry)
qed

theorem pte_set_total_witness:
  "fst (pte_set_fpn demo_sys 1 2 5) = 0 \<and> fst (pte_set_fpn demo_sys 3 2 5) = -1 \<and>
   pte_get_entry (snd (pte_set_fpn demo_sys 3 2 5)) 1 2 = pte_get_entry demo_sys 1 2"
  using pte_set_total [of demo_sys "\<lambda>s. pte_set_fpn s 1 2 5" 1 2 5 0 1 2]
    pte_set_total [of demo_sys "\<lambda>s. pte_set_fpn s 3 2 5" 3 2 5 0 1 2] small_page_user [of 2]
  by (simp add: demo_sys_caller)

text \<open>
  \<open>vmap_pgd_memset\<close> maps exactly the requested range. When the host has memory it
  succeeds exactly for an aligned range inside one half of the address space; then every page
  of the range has the dummy entry, which is neither present nor swapped, and all others
  keep theirs. A rejected range changes nothing.
\<close>

theorem vmap_pgd_memset_range:
  assumes "pt_wf s" "host_ok (sy_host s)" "n < 2 ^ 31" "vmap_pgd_memset s c a n = (r, s')"
  shows "(r = 0 \<longleftrightarrow> caller_mm s c \<noteq> None \<and> validate_page_range a n = 0) \<and>
    (r \<noteq> 0 \<longrightarrow> s' = s) \<and>
    (r = 0 \<longrightarrow> pte_get_entry s' c q =
       (if \<exists>i. 0 \<le> i \<and> i < n \<and> push_bit 12 q = a + addr_of_int (4096 * i) then PAGING64_DUMMY_PTE
        else pte_get_entry s c q)) \<and>
    pt_wf s' \<and> forget_pt s' = forget_pt s"
proof (cases "caller_mm s c \<noteq> None \<and> validate_page_range a n = 0")
  case True
  define ps where "ps = range_pages (drop_bit 12 a) 0 n"
  note rp = range_pages_valid [OF conjunct2 [OF True] assms(3), folded ps_def]
  let ?all = "set_all (\<lambda>s. pte_set_entry s c) s (map (\<lambda>p. (p, PAGING64_DUMMY_PTE)) ps)"
  have run: "(r, s') = ?all"
    using assms(4) True memset_loop_set_all [of s c "drop_bit 12 a" 0 n] by (simp add: vmap_pgd_memset_def ps_def)
  have inv: "pt_wf s \<and> caller_mm s c \<noteq> None" using assms(1) True by simp
  have "fst ?all = 0" by (rule conjunct1 [OF pt.set_all_total [OF inv assms(2)]]) (auto dest: rp(1))
  moreover have "pt_wf (snd ?all)" using pt.set_all_inv [OF inv] by blast
  moreover have "forget_pt (snd ?all) = forget_pt s" using set_all_frame [OF assms(1)] .
  moreover have "pte_get_entry (snd ?all) c q =
      (if push_bit 12 q \<in> push_bit 12 ` set ps then PAGING64_DUMMY_PTE else pte_get_entry s c q)"
    using pt.get_set_const [OF inv \<open>fst ?all = 0\<close> rp(2)] .
  moreover have "push_bit 12 q \<in> push_bit 12 ` set ps \<longleftrightarrow>
      (\<exists>i. 0 \<le> i \<and> i < n \<and> push_bit 12 q = a + addr_of_int (4096 * i))"
    unfolding rp(3) by blast
  ultimately show ?thesis using run [symmetric] True by simp
next
  case False
  with assms(1,4) show ?thesis by (auto simp: vmap_pgd_memset_def split: if_splits)
qed

theorem vmap_pgd_memset_range_witness:
  "\<exists>s'. vmap_pgd_memset demo_sys 1 0x1000 2 = (0, s') \<and> pte_get_entry s' 1 2 = PAGING64_DUMMY_PTE \<and>
     pte_get_entry s' 1 3 = pte_get_entry demo_sys 1 3"
proof -
  obtain r s' where e: "vmap_pgd_memset demo_sys 1 0x1000 2 = (r, s')"
    by (cases "vmap_pgd_memset demo_sys 1 0x1000 2")
  have v: "validate_page_range 0x1000 2 = 0"
    by (simp add: validate_page_range_def offset_field PAGING64_PAGESZ_def take_bit_eq_mod
        addr_of_int_def get_pd_from_address_def is_kernel_address_def)
  note w = vmap_pgd_memset_range [OF demo_sys_wf _ e]
  have "r = 0" using w v by (simp add: demo_sys_caller)
  moreover have "\<exists>i. 0 \<le> i \<and> i < 2 \<and> push_bit 12 2 = (0x1000 :: addr) + addr_of_int (4096 * i)"
    by (rule exI [of _ 1]) (simp add: addr_of_int_def)
  then have "pte_get_entry s' 1 2 = PAGING64_DUMMY_PTE"
    using w [of 2] \<open>r = 0\<close> by simp
  moreover have no: "\<not> (\<exists>i. 0 \<le> i \<and> i < 2 \<and> push_bit 12 3 = (0x1000 :: addr) + addr_of_int (4096 * i))"
  proof
    assume "\<exists>i. 0 \<le> i \<and> i < 2 \<and> push_bit 12 3 = (0x1000 :: addr) + addr_of_int (4096 * i)"
    then obtain i :: int where i: "0 \<le> i" "i < 2" "push_bit 12 3 = (0x1000 :: addr) + addr_of_int (4096 * i)" by blast
    then have "i = 0 \<or> i = 1" by linarith
    with i(3) show False by (auto simp: addr_of_int_def)
  qed
  have "pte_get_entry s' 1 3 = pte_get_entry demo_sys 1 3"
    using w [of 3] \<open>r = 0\<close> unfolding if_not_P [OF no] by simp
  ultimately show ?thesis using e by blast
qed

end
