(* ===== verification/Frame_Swap.thy ===== *)
theory Frame_Swap
  imports Page_Table
begin

text \<open>
  Demand paging: copying pages between RAM and swap (\<open>__swap_cp_page\<close> of src/mm64.c),
  choosing and evicting a victim (\<open>find_victim_page\<close> of src/libmem.c,
  \<open>find_present_victim_in_proc\<close>, \<open>find_global_victim\<close>, \<open>swap_out_victim_page\<close> of src/mm64.c)
  and bringing a page back on access (\<open>pg_getpage\<close>, \<open>pg_getval\<close>, \<open>pg_setval\<close> of
  src/libmem.c). The outer \<open>option\<close> is \<open>None\<close> when the code would access storage out of
  bounds; return codes are values. The contract is that of virtual memory: the byte behind a
  virtual address does not change when pages move.
\<close>

section \<open>Devices of the system\<close>

text \<open>The device operations on a device pointer, which may be NULL.\<close>

definition dev_read :: "nat option \<Rightarrow> addr \<Rightarrow> sys \<Rightarrow> (byte option \<times> sys) option" where
  "dev_read mp a s =
     (case mp of None \<Rightarrow> Some (None, s)
      | Some d \<Rightarrow> do { (b, m) \<leftarrow> MEMPHY_read (devs s d) a; Some (b, upd_dev d m s) })"

definition dev_write :: "nat option \<Rightarrow> addr \<Rightarrow> byte \<Rightarrow> sys \<Rightarrow> (int \<times> sys) option" where
  "dev_write mp a b s =
     (case mp of None \<Rightarrow> Some (-1, s)
      | Some d \<Rightarrow> do { (r, m) \<leftarrow> MEMPHY_write (devs s d) a b; Some (r, upd_dev d m s) })"

definition dev_get_freefp :: "nat option \<Rightarrow> sys \<Rightarrow> addr option \<times> sys" where
  "dev_get_freefp mp s =
     (case mp of None \<Rightarrow> (None, s)
      | Some d \<Rightarrow> let (f, m) = MEMPHY_get_freefp (devs s d) in (f, upd_dev d m s))"

definition dev_put_freefp :: "nat option \<Rightarrow> addr \<Rightarrow> sys \<Rightarrow> sys" where
  "dev_put_freefp mp fpn s =
     (case mp of None \<Rightarrow> s
      | Some d \<Rightarrow> let (_, m, h) = MEMPHY_put_freefp (sy_host s) (devs s d) fpn in (upd_dev d m s)\<lparr>sy_host := h\<rparr>)"

section \<open>Copying a page\<close>

function swap_cp_loop :: "nat option \<Rightarrow> addr \<Rightarrow> nat option \<Rightarrow> addr \<Rightarrow> int \<Rightarrow> sys \<Rightarrow> (int \<times> sys) option" where
  "swap_cp_loop src srcfpn dst dstfpn cellidx s =
     (if cellidx < 4096 then do {
        (data, s1) \<leftarrow> dev_read src (srcfpn * PAGING64_PAGESZ + addr_of_int cellidx) s;
        case data of None \<Rightarrow> Some (-1, s1)
        | Some b \<Rightarrow> do {
            (r, s2) \<leftarrow> dev_write dst (dstfpn * PAGING64_PAGESZ + addr_of_int cellidx) b s1;
            if r \<noteq> 0 then Some (-1, s2) else swap_cp_loop src srcfpn dst dstfpn (cellidx + 1) s2 } }
      else Some (0, s))"
  by pat_completeness auto
termination
  by (relation "measure (\<lambda>(src, srcfpn, dst, dstfpn, cellidx, s). nat (4096 - cellidx))") auto

declare swap_cp_loop.simps [simp del]

definition swap_cp_page :: "nat option \<Rightarrow> addr \<Rightarrow> nat option \<Rightarrow> addr \<Rightarrow> sys \<Rightarrow> (int \<times> sys) option" where
  "swap_cp_page src srcfpn dst dstfpn s = swap_cp_loop src srcfpn dst dstfpn 0 s"

section \<open>The victim\<close>

text \<open>The oldest page is at the tail of the list, which is detached.\<close>

definition find_victim_page :: "mm_struct \<Rightarrow> (addr \<times> mm_struct) option" where
  "find_victim_page m =
     (if fifo_pgn m = [] then None
      else Some (last (fifo_pgn m), m\<lparr>fifo_pgn := butlast (fifo_pgn m)\<rparr>))"

text \<open>
  Pages are taken off the list until one is resident; the list of the process gets shorter in
  every round. The result is the page number and its entry.
\<close>

function find_present_victim_in_proc :: "sys \<Rightarrow> pptr \<Rightarrow> (addr \<times> addr) option \<times> sys" where
  "find_present_victim_in_proc s c =
     (case caller_mm s c of None \<Rightarrow> (None, s)
      | Some m \<Rightarrow>
        (case find_victim_page m of None \<Rightarrow> (None, s)
         | Some (vicpgn, m') \<Rightarrow>
           let s1 = upd_mm c (\<lambda>_. m') s; vicpte = pte_get_entry s1 c vicpgn
           in if PAGING64_PAGE_PRESENT vicpte \<and> \<not> PAGING64_PAGE_SWAPPED vicpte
              then (Some (vicpgn, vicpte), s1)
              else find_present_victim_in_proc s1 c))"
  by pat_completeness auto
termination
proof (relation "measure (\<lambda>(s, c). length (fifo_pgn (the (caller_mm s c))))", goal_cases)
  case (2 s c m p vicpgn m' s1 vicpte)
  then show ?case by (auto simp: find_victim_page_def split: if_splits)
qed auto

declare find_present_victim_in_proc.simps [simp del]

fun global_victim_loop :: "sys \<Rightarrow> pptr \<Rightarrow> pptr list \<Rightarrow> (pptr \<times> addr \<times> addr) option \<times> sys" where
  "global_victim_loop s c [] = (None, s)"
| "global_victim_loop s c (p # ps) =
     (if p = NULL \<or> p = c then global_victim_loop s c ps
      else case find_present_victim_in_proc s p of
        (Some (vicpgn, vicpte), s1) \<Rightarrow> (Some (p, vicpgn, vicpte), s1)
      | (None, s1) \<Rightarrow> global_victim_loop s1 c ps)"

definition find_global_victim :: "sys \<Rightarrow> pptr \<Rightarrow> (pptr \<times> addr \<times> addr) option \<times> sys" where
  "find_global_victim s c =
     (case find_present_victim_in_proc s c of
        (Some (vicpgn, vicpte), s1) \<Rightarrow> (Some (c, vicpgn, vicpte), s1)
      | (None, s1) \<Rightarrow>
        (case caller_krnl s1 c of None \<Rightarrow> (None, s1)
         | Some k \<Rightarrow>
           if \<not> k_running_list k then (None, s1)
           else let q = running_list (sy_sched s1)
                in global_victim_loop s1 c (take (qsize q) (qproc q))))"

text \<open>The frame that was freed, or \<open>None\<close> for the return value -1.\<close>

definition swap_out_victim_page :: "sys \<Rightarrow> pptr \<Rightarrow> (addr option \<times> sys) option" where
  "swap_out_victim_page s c =
     (if caller_mm s c = None \<or> caller_mram s c = None \<or> caller_mswp s c = None then Some (None, s)
      else
        let mram = caller_mram s c; mswp = caller_mswp s c in
        case dev_get_freefp mswp s of
          (None, s1) \<Rightarrow> Some (None, s1)
        | (Some swpfpn, s1) \<Rightarrow>
          (case find_global_victim s1 c of
             (None, s2) \<Rightarrow> Some (None, dev_put_freefp mswp swpfpn s2)
           | (Some (victim_proc, vicpgn, vicpte), s2) \<Rightarrow> do {
               let retfpn = PAGING64_PTE_FPN vicpte;
               (r, s3) \<leftarrow> swap_cp_page mram retfpn mswp swpfpn s2;
               if r \<noteq> 0 then Some (None, dev_put_freefp mswp swpfpn s3)
               else
                 let typ = sint (k_active_mswp_id (the (caller_krnl s3 c)));
                     (r, s4) = pte_set_swap s3 victim_proc vicpgn typ swpfpn
                 in if r \<noteq> 0 then Some (None, dev_put_freefp mswp swpfpn s4)
                    else Some (Some retfpn, s4) }))"

section \<open>Access to a page\<close>

definition enlist_pgn_node :: "pptr \<Rightarrow> addr \<Rightarrow> sys \<Rightarrow> int \<times> sys" where
  "enlist_pgn_node c pgn s =
     (let (ok, s1) = sys_alloc s in
      if \<not> ok then (-1, s1) else (0, upd_mm c (\<lambda>m. m\<lparr>fifo_pgn := pgn # fifo_pgn m\<rparr>) s1))"

definition pg_getpage :: "sys \<Rightarrow> pptr \<Rightarrow> addr \<Rightarrow> (addr option \<times> sys) option" where
  "pg_getpage s c pgn = do {
     let pte = pte_get_entry s c pgn;
     let fpn_of = (\<lambda>s. PAGING64_PTE_FPN (pte_get_entry s c pgn));
     if \<not> PAGING64_PAGE_PRESENT pte then
       if \<not> PAGING64_PAGE_SWAPPED pte then Some (None, s)
       else do {
         let req_swpoff = PAGING64_PTE_SWP pte;
         (tgt, s1) \<leftarrow> swap_out_victim_page s c;
         case tgt of None \<Rightarrow> Some (None, s1)
         | Some tgtfpn \<Rightarrow> do {
             (r, s2) \<leftarrow> swap_cp_page (caller_mswp s1 c) req_swpoff (caller_mram s1 c) tgtfpn s1;
             if r \<noteq> 0 then Some (None, s2)
             else
               let s3 = dev_put_freefp (caller_mswp s2 c) req_swpoff s2;
                   (_, s4) = pte_set_fpn s3 c pgn tgtfpn;
                   (_, s5) = enlist_pgn_node c pgn s4
               in Some (Some (fpn_of s5), s5) } }
     else Some (Some (fpn_of s), s) }"

text \<open>The byte, or \<open>None\<close> for the return value -1.\<close>

definition pg_getval :: "sys \<Rightarrow> pptr \<Rightarrow> addr \<Rightarrow> (byte option \<times> sys) option" where
  "pg_getval s c a = do {
     let pgn = drop_bit 12 a;
     let off = a AND PAGING64_ADDR_OFFST_MASK;
     (fpn, s1) \<leftarrow> pg_getpage s c pgn;
     case fpn of None \<Rightarrow> Some (None, s1)
     | Some f \<Rightarrow> dev_read (caller_mram s1 c) (f * PAGING64_PAGESZ + off) s1 }"

definition pg_setval :: "sys \<Rightarrow> pptr \<Rightarrow> addr \<Rightarrow> byte \<Rightarrow> (int \<times> sys) option" where
  "pg_setval s c a v = do {
     let pgn = drop_bit 12 a;
     let off = a AND PAGING64_ADDR_OFFST_MASK;
     (fpn, s1) \<leftarrow> pg_getpage s c pgn;
     case fpn of None \<Rightarrow> Some (-1, s1)
     | Some f \<Rightarrow> do {
         (r, s2) \<leftarrow> dev_write (caller_mram s1 c) (f * PAGING64_PAGESZ + off) v s1;
         Some (if r < 0 then -1 else 0, s2) } }"

section \<open>Lemmas on frames\<close>

text \<open>A frame that lies inside the storage of a device, and the addresses of its bytes.\<close>

definition frame_ok :: "memphy_struct \<Rightarrow> addr \<Rightarrow> bool" where
  "frame_ok mp f \<longleftrightarrow> unat f * 4096 + 4096 \<le> storage_len mp"

definition ram_like :: "memphy_struct \<Rightarrow> bool" where
  "ram_like mp \<longleftrightarrow> memphy_wf mp \<and> rdmflg mp"

lemma ram_like_upd [simp]:
  "ram_like (mp\<lparr>storage := f\<rparr>) = ram_like mp" "ram_like (mp\<lparr>free_fp_list := l\<rparr>) = ram_like mp"
  "ram_like (mp\<lparr>used_fp_list := l\<rparr>) = ram_like mp"
  by (simp_all add: ram_like_def memphy_wf_def)

lemma frame_ok_upd [simp]:
  "frame_ok (mp\<lparr>storage := g\<rparr>) f = frame_ok mp f" "frame_ok (mp\<lparr>free_fp_list := l\<rparr>) f = frame_ok mp f"
  "frame_ok (mp\<lparr>used_fp_list := l\<rparr>) f = frame_ok mp f"
  by (simp_all add: frame_ok_def)

definition cell :: "addr \<Rightarrow> addr \<Rightarrow> addr" where
  "cell f off = f * PAGING64_PAGESZ + off"

lemma unat_cell:
  assumes "ram_like mp" "frame_ok mp f" "unat off < 4096"
  shows "unat (cell f off) = unat f * 4096 + unat off" "unat (cell f off) < storage_len mp"
proof -
  have len: "storage_len mp < 2 ^ 31"
    using assms(1) by (auto simp: ram_like_def memphy_wf_def)
  have "unat f * 4096 + unat off < 2 ^ 64" using assms(2,3) len by (simp add: frame_ok_def)
  then have "unat (f * 4096) = unat f * 4096" by (simp add: unat_word_ariths)
  then show *: "unat (cell f off) = unat f * 4096 + unat off"
    using \<open>_ < 2 ^ 64\<close> by (simp add: cell_def PAGING64_PAGESZ_def unat_word_ariths)
  show "unat (cell f off) < storage_len mp" unfolding * using assms(2,3) by (simp add: frame_ok_def)
qed

lemma cell_eq_iff:
  assumes "ram_like mp" "frame_ok mp f" "frame_ok mp g" "unat off < 4096" "unat off' < 4096"
  shows "cell f off = cell g off' \<longleftrightarrow> f = g \<and> off = off'"
proof
  assume "cell f off = cell g off'"
  then have "unat f * 4096 + unat off = unat g * 4096 + unat off'"
    using unat_cell(1) [OF assms(1,2,4)] unat_cell(1) [OF assms(1,3,5)] by simp
  then have "(unat f * 4096 + unat off) div 4096 = (unat g * 4096 + unat off') div 4096" by simp
  then have "unat f = unat g" using assms(4,5) by simp
  moreover from this have "unat off = unat off'" using \<open>unat f * 4096 + unat off = _\<close> by simp
  ultimately show "f = g \<and> off = off'" by (simp add: word_unat_eq_iff)
qed simp

lemma upd_dev_id: "upd_dev d (devs s d) s = s"
  by (cases s) (simp add: upd_dev_def)

lemma upd_dev_upd_dev: "upd_dev d m (upd_dev d m' s) = upd_dev d m s"
  by (cases s) (simp add: upd_dev_def)

lemma dev_read_ok:
  "ram_like (devs s d) \<Longrightarrow> unat a < storage_len (devs s d) \<Longrightarrow> dev_read (Some d) a s = Some (Some (storage (devs s d) a), s)"
  by (simp add: dev_read_def ram_like_def mem.rd_in upd_dev_id)

lemma dev_write_ok:
  "ram_like (devs s d) \<Longrightarrow> unat a < storage_len (devs s d) \<Longrightarrow>
   dev_write (Some d) a b s = Some (0, upd_dev d ((devs s d)\<lparr>storage := (storage (devs s d))(a := b)\<rparr>) s)"
  by (simp add: dev_write_def ram_like_def MEMPHY_write_random)

text \<open>The state after the first \<open>k\<close> cells of a page were copied.\<close>

definition copied :: "nat \<Rightarrow> addr \<Rightarrow> nat \<Rightarrow> addr \<Rightarrow> nat \<Rightarrow> sys \<Rightarrow> sys" where
  "copied src f dst g k s =
     upd_dev dst ((devs s dst)\<lparr>storage := (\<lambda>a.
       if \<exists>i < k. a = cell g (of_nat i) then storage (devs s src) (cell f (a - cell g 0))
       else storage (devs s dst) a)\<rparr>) s"

lemma swap_cp_loop_copied:
  assumes "ram_like (devs s src)" "ram_like (devs s dst)" "frame_ok (devs s src) f" "frame_ok (devs s dst) g"
    and "k \<le> 4096"
  shows "swap_cp_loop (Some src) f (Some dst) g (int k) (copied src f dst g k s) = Some (0, copied src f dst g 4096 s)"
  using \<open>k \<le> 4096\<close>
proof (induction "4096 - k" arbitrary: k)
  case 0
  then show ?case by (simp add: swap_cp_loop.simps)
next
  case (Suc n)
  then have k: "k < 4096" by simp
  let ?s = "copied src f dst g k s"
  define j where "j = (of_nat k :: addr)"
  have j: "unat j < 4096" using k by (simp add: j_def unat_of_nat)
  have dev: "ram_like (devs ?s d) = ram_like (devs s d)" "storage_len (devs ?s d) = storage_len (devs s d)" for d
    by (auto simp: copied_def ram_like_def memphy_wf_def)
  have [simp]: "addr_of_int (int k) = j" by (simp add: addr_of_int_def j_def)
  have val: "storage (devs ?s src) (cell f j) = storage (devs s src) (cell f j)"
  proof (cases "src = dst")
    case True
    have "\<not> (\<exists>i < k. cell f j = cell g (of_nat i))"
    proof
      assume "\<exists>i < k. cell f j = cell g (of_nat i)"
      then obtain i where i: "i < k" "cell f j = cell g (of_nat i)" by auto
      then have "unat (of_nat i :: addr) < 4096" using k by (simp add: unat_of_nat)
      with i(2) cell_eq_iff [OF assms(2) _ assms(4) j] assms(3) True have "j = of_nat i" by auto
      then have "unat j = unat (of_nat i :: addr)" by simp
      with i(1) k show False by (simp add: j_def unat_of_nat)
    qed
    with True show ?thesis by (auto simp: copied_def)
  qed (simp add: copied_def)
  have rd: "dev_read (Some src) (f * PAGING64_PAGESZ + j) ?s = Some (Some (storage (devs s src) (cell f j)), ?s)"
    using dev_read_ok [of ?s src "cell f j"] unat_cell(2) [OF assms(1,3) j] assms(1) dev val by (simp add: cell_def)
  have wr: "dev_write (Some dst) (g * PAGING64_PAGESZ + j) (storage (devs s src) (cell f j)) ?s =
      Some (0, copied src f dst g (Suc k) s)"
  proof -
    let ?st = "(\<lambda>k a. if \<exists>i < k. a = cell g (of_nat i) then storage (devs s src) (cell f (a - cell g 0))
       else storage (devs s dst) a)"
    have "(?st k)(cell g j := storage (devs s src) (cell f j)) = ?st (Suc k)"
      by (rule ext) (auto simp: less_Suc_eq j_def cell_def)
    moreover have "dev_write (Some dst) (cell g j) (storage (devs s src) (cell f j)) ?s =
        Some (0, upd_dev dst ((devs s dst)\<lparr>storage := (?st k)(cell g j := storage (devs s src) (cell f j))\<rparr>) s)"
      using dev_write_ok [of ?s dst "cell g j"] unat_cell(2) [OF assms(2,4) j] assms(2) dev
      by (simp add: copied_def upd_dev_upd_dev)
    ultimately show ?thesis by (simp add: cell_def copied_def)
  qed
  show ?case
    using k Suc(1) [of "Suc k"] Suc(2) rd wr by (subst swap_cp_loop.simps) (simp add: add.commute)
qed

lemma copied_start: "copied src f dst g 0 s = s"
  by (simp add: copied_def upd_dev_id)

lemma swap_cp_page_copied:
  assumes "ram_like (devs s src)" "ram_like (devs s dst)" "frame_ok (devs s src) f" "frame_ok (devs s dst) g"
  shows "swap_cp_page (Some src) f (Some dst) g s = Some (0, copied src f dst g 4096 s)"
  using swap_cp_loop_copied [OF assms, of 0] by (simp add: swap_cp_page_def copied_start)

lemma copied_frame:
  "caller_mm (copied src f dst g k s) c = caller_mm s c" "caller_krnl (copied src f dst g k s) c = caller_krnl s c"
  "caller_mram (copied src f dst g k s) c = caller_mram s c" "caller_mswp (copied src f dst g k s) c = caller_mswp s c"
  "kroots (copied src f dst g k s) = kroots s" "sy_host (copied src f dst g k s) = sy_host s"
  by (simp_all add: copied_def)

lemma copied_storage:
  assumes "ram_like (devs s dst)" "frame_ok (devs s dst) g" "frame_ok (devs s dst) h" "unat off < 4096"
  shows "storage (devs (copied src f dst g 4096 s) dst) (cell h off) =
    (if h = g then storage (devs s src) (cell f off) else storage (devs s dst) (cell h off))"
proof -
  have "(\<exists>i < 4096. cell h off = cell g (of_nat i)) \<longleftrightarrow> h = g"
  proof
    assume "\<exists>i < 4096. cell h off = cell g (of_nat i)"
    then obtain i :: nat where i: "i < 4096" "cell h off = cell g (of_nat i)" by blast
    then have "unat (of_nat i :: addr) < 4096" by (simp add: unat_of_nat)
    with cell_eq_iff [OF assms(1,3,2,4)] i(2) show "h = g" by blast
  next
    assume "h = g"
    then show "\<exists>i < 4096. cell h off = cell g (of_nat i)"
      using assms(4) by (intro exI [of _ "unat off"]) simp
  qed
  moreover have "cell g off - cell g 0 = off" by (simp add: cell_def)
  ultimately show ?thesis by (auto simp: copied_def)
qed

section \<open>The invariant of virtual memory\<close>

text \<open>
  A slot is a place where the bytes of a page live: a frame of RAM or a frame of the swap
  device. \<open>slot_of\<close> reads it off an entry the way \<open>pg_getpage\<close> does, and \<open>vbyte\<close> is the
  byte behind a virtual address.
\<close>

type_synonym slot = "bool \<times> addr"    \<comment> \<open>True for swap\<close>

definition dev_of :: "nat \<Rightarrow> bool \<Rightarrow> nat" where
  "dev_of w d = (if d then w else 0)"

definition slot_of :: "addr \<Rightarrow> slot option" where
  "slot_of pte =
     (if PAGING64_PAGE_PRESENT pte then Some (False, PAGING64_PTE_FPN pte)
      else if PAGING64_PAGE_SWAPPED pte then Some (True, PAGING64_PTE_SWP pte)
      else None)"

definition user_page :: "addr \<Rightarrow> bool" where
  "user_page p \<longleftrightarrow> \<not> is_kernel_address (push_bit 12 p)"

definition user_slot :: "sys \<Rightarrow> pptr \<Rightarrow> addr \<Rightarrow> slot option" where
  "user_slot s c p = (if user_page p then slot_of (pte_get_entry s c p) else None)"

definition slot_byte :: "nat \<Rightarrow> sys \<Rightarrow> slot \<Rightarrow> addr \<Rightarrow> byte" where
  "slot_byte w s sl off = storage (devs s (dev_of w (fst sl))) (cell (snd sl) off)"

definition vbyte :: "nat \<Rightarrow> sys \<Rightarrow> pptr \<Rightarrow> addr \<Rightarrow> byte option" where
  "vbyte w s c a =
     map_option (\<lambda>sl. slot_byte w s sl (a AND PAGING64_ADDR_OFFST_MASK)) (user_slot s c (drop_bit 12 a))"

text \<open>
  The invariant. The set \<open>F\<close> holds the slots that the running code has taken off a free list
  and not yet mapped. Every slot has at most one owner: the free list, one page of one process,
  or the running code. All processes use RAM and the same swap device \<open>w\<close>.
\<close>

definition slot_ok :: "nat \<Rightarrow> sys \<Rightarrow> slot \<Rightarrow> bool" where
  "slot_ok w s sl \<longleftrightarrow> frame_ok (devs s (dev_of w (fst sl))) (snd sl) \<and> snd sl \<notin> set (free_fp_list (devs s (dev_of w (fst sl))))"

definition devices_ok :: "nat \<Rightarrow> sys \<Rightarrow> bool" where
  "devices_ok w s \<longleftrightarrow> w \<noteq> 0 \<and> (\<forall>d \<in> {0, w}. ram_like (devs s d) \<and> distinct (free_fp_list (devs s d)) \<and>
     (\<forall>f \<in> set (free_fp_list (devs s d)). frame_ok (devs s d) f))"

definition callers_ok :: "nat \<Rightarrow> sys \<Rightarrow> bool" where
  "callers_ok w s \<longleftrightarrow> (\<forall>c m. caller_mm s c = Some m \<longrightarrow> caller_mram s c = Some 0 \<and> caller_mswp s c = Some w \<and>
     (\<forall>p \<in> set (fifo_pgn m). user_page p))"

definition vm_inv :: "nat \<Rightarrow> slot set \<Rightarrow> sys \<Rightarrow> bool" where
  "vm_inv w F s \<longleftrightarrow> pt_wf s \<and> devices_ok w s \<and> callers_ok w s \<and>
     (\<forall>sl \<in> F. slot_ok w s sl) \<and>
     (\<forall>c p sl. user_slot s c p = Some sl \<longrightarrow> slot_ok w s sl \<and> sl \<notin> F) \<and>
     (\<forall>c p c' p' sl. user_slot s c p = Some sl \<longrightarrow> user_slot s c' p' = Some sl \<longrightarrow>
        c' = c \<and> push_bit 12 p' = push_bit 12 p)"

section \<open>Moving the ownership of slots\<close>

lemma offset_less: "unat (a AND PAGING64_ADDR_OFFST_MASK) < 4096"
  using take_bit_nat_less_exp [of 12 "unat a"] by (simp add: offset_field unsigned_take_bit_eq)

lemma pt_view_upd_dev [simp]:
  "pt_wf (upd_dev d mp s) = pt_wf s" "pte_view (upd_dev d mp s) = pte_view s"
  by (auto simp: pt_wf_def pte_view_def root_of_def fun_eq_iff)

lemma pte_get_entry_upd_dev: "pt_wf s \<Longrightarrow> pte_get_entry (upd_dev d mp s) = pte_get_entry s"
  by (intro ext) (simp add: pte_get_entry_view)

lemma pte_get_entry_host: "pt_wf s \<Longrightarrow> pte_get_entry (s\<lparr>sy_host := h\<rparr>) = pte_get_entry s"
  by (intro ext) (simp add: pte_get_entry_view)

lemma user_slot_cong: "pte_get_entry s' = pte_get_entry s \<Longrightarrow> user_slot s' = user_slot s"
  by (simp add: user_slot_def fun_eq_iff)

lemma vm_invD:
  assumes "vm_inv w F s"
  shows "pt_wf s" "devices_ok w s" "callers_ok w s" "w \<noteq> 0"
    "\<And>d. ram_like (devs s (dev_of w d))"
    "\<And>sl. sl \<in> F \<Longrightarrow> slot_ok w s sl"
    "\<And>c p sl. user_slot s c p = Some sl \<Longrightarrow> slot_ok w s sl"
    "\<And>c p sl. user_slot s c p = Some sl \<Longrightarrow> sl \<notin> F"
    "\<And>c p c' p' sl. user_slot s c p = Some sl \<Longrightarrow> user_slot s c' p' = Some sl \<Longrightarrow>
       c' = c \<and> push_bit 12 p' = push_bit 12 p"
    "\<And>c m. caller_mm s c = Some m \<Longrightarrow> caller_mram s c = Some 0 \<and> caller_mswp s c = Some w"
  using assms unfolding vm_inv_def
  by (blast, blast, blast, simp add: devices_ok_def, simp add: devices_ok_def dev_of_def, blast, blast, blast,
      blast, simp add: callers_ok_def)

lemma vm_invI:
  assumes "pt_wf s" "devices_ok w s" "callers_ok w s"
    "\<And>sl. sl \<in> F \<Longrightarrow> slot_ok w s sl"
    "\<And>c p sl. user_slot s c p = Some sl \<Longrightarrow> slot_ok w s sl \<and> sl \<notin> F"
    "\<And>c p c' p' sl. user_slot s c p = Some sl \<Longrightarrow> user_slot s c' p' = Some sl \<Longrightarrow>
       c' = c \<and> push_bit 12 p' = push_bit 12 p"
  shows "vm_inv w F s"
  using assms unfolding vm_inv_def by blast

lemma vm_inv_cong:
  assumes "vm_inv w F s" "pt_wf s'" "devices_ok w s'" "callers_ok w s'"
    and "\<And>sl. slot_ok w s' sl = slot_ok w s sl" "user_slot s' = user_slot s"
  shows "vm_inv w F s'"
proof -
  have "slot_ok w s' = slot_ok w s" using assms(5) by (rule ext)
  with assms(1-4,6) show ?thesis unfolding vm_inv_def by (simp only: simp_thms) blast
qed

lemma dev_of_eq: "w \<noteq> 0 \<Longrightarrow> dev_of w d = dev_of w d' \<longleftrightarrow> d = d'"
  by (simp add: dev_of_def)

lemma callers_ok_dev [simp]: "callers_ok w (upd_dev d mp s) = callers_ok w s" "callers_ok w (s\<lparr>sy_host := h\<rparr>) = callers_ok w s"
  by (simp_all add: callers_ok_def)

text \<open>A device whose free list changed, all else equal.\<close>

definition with_free :: "nat \<Rightarrow> addr list \<Rightarrow> sys \<Rightarrow> sys" where
  "with_free d fl s = upd_dev d ((devs s d)\<lparr>free_fp_list := fl\<rparr>) s"

lemma with_free_simps [simp]:
  "caller_mm (with_free d fl s) c = caller_mm s c" "caller_krnl (with_free d fl s) c = caller_krnl s c"
  "caller_mram (with_free d fl s) c = caller_mram s c" "caller_mswp (with_free d fl s) c = caller_mswp s c"
  "sy_sched (with_free d fl s) = sy_sched s" "sy_host (with_free d fl s) = sy_host s" "pt_wf (with_free d fl s) = pt_wf s"
  "ram_like (devs (with_free d fl s) d') = ram_like (devs s d')"
  "frame_ok (devs (with_free d fl s) d') f = frame_ok (devs s d') f"
  "free_fp_list (devs (with_free d fl s) d') = (if d' = d then fl else free_fp_list (devs s d'))"
  "storage (devs (with_free d fl s) d') = storage (devs s d')"
  by (auto simp: with_free_def)

lemma vm_inv_with_free:
  assumes "vm_inv w F s" "distinct fl"
    and fl: "\<And>f. f \<in> set fl \<Longrightarrow> f \<in> set (free_fp_list (devs s (dev_of w d))) \<or> (d, f) \<in> F"
    and F': "\<And>sl. sl \<in> F' \<Longrightarrow> sl \<in> F \<or> fst sl = d \<and> snd sl \<in> set (free_fp_list (devs s (dev_of w d)))"
    and disj: "\<And>f. f \<in> set fl \<Longrightarrow> (d, f) \<notin> F'"
  shows "vm_inv w F' (with_free (dev_of w d) fl s)" "vbyte w (with_free (dev_of w d) fl s) = vbyte w s"
    "user_slot (with_free (dev_of w d) fl s) = user_slot s"
proof -
  let ?s = "with_free (dev_of w d) fl s"
  note inv = vm_invD [OF assms(1)]
  have view: "pte_get_entry ?s = pte_get_entry s" using inv(1) by (simp add: with_free_def pte_get_entry_upd_dev)
  note us = user_slot_cong [OF view]
  have free_ok: "frame_ok (devs s (dev_of w e)) f" if "f \<in> set (free_fp_list (devs s (dev_of w e)))" for e f
    using inv(2) that by (auto simp: devices_ok_def dev_of_def split: if_splits)
  have dist: "distinct (free_fp_list (devs s (dev_of w e)))" for e
    using inv(2) by (auto simp: devices_ok_def dev_of_def)
  have fl_ok: "frame_ok (devs s (dev_of w d)) f" if "f \<in> set fl" for f
    using fl [OF that] free_ok [of f d] inv(6) [of "(d, f)"] by (auto simp: slot_ok_def)
  have dev: "ram_like (devs ?s (dev_of w e)) \<and> distinct (free_fp_list (devs ?s (dev_of w e))) \<and>
      (\<forall>f \<in> set (free_fp_list (devs ?s (dev_of w e))). frame_ok (devs ?s (dev_of w e)) f)" for e
    using inv(5) assms(2) dist free_ok fl_ok by auto
  have d0: "\<forall>x\<in>{0, w}. \<exists>e. x = dev_of w e" by (auto simp: dev_of_def)
  have "devices_ok w ?s" unfolding devices_ok_def
    using dev d0 inv(4) by metis
  moreover have ok: "slot_ok w ?s sl" if "slot_ok w s sl" "sl \<notin> Pair d ` set fl" for sl
    using that inv(4) by (cases sl) (auto simp: slot_ok_def dev_of_eq)
  moreover have "callers_ok w ?s" using inv(3) by (simp add: with_free_def)
  ultimately show "vm_inv w F' ?s"
  proof (intro vm_invI)
    fix sl assume sl: "sl \<in> F'"
    then have nin: "sl \<notin> Pair d ` set fl" using disj by auto
    show "slot_ok w ?s sl"
    proof (cases "sl \<in> F")
      case True
      then show ?thesis using ok inv(6) nin by blast
    next
      case False
      with F' [OF sl] have "fst sl = d" "snd sl \<in> set (free_fp_list (devs s (dev_of w d)))" by auto
      with nin free_ok show ?thesis by (cases sl) (auto simp: slot_ok_def)
    qed
  next
    fix c p sl assume "user_slot ?s c p = Some sl"
    then have sl: "user_slot s c p = Some sl" by (simp add: us)
    note * = inv(7) [OF sl] inv(8) [OF sl]
    then have "sl \<notin> Pair d ` set fl" using fl [of "snd sl"] by (auto simp: slot_ok_def)
    moreover have "sl \<notin> F'" using F' [of sl] * by (auto simp: slot_ok_def)
    ultimately show "slot_ok w ?s sl \<and> sl \<notin> F'" using ok * by blast
  next
    fix c p c' p' sl assume "user_slot ?s c p = Some sl" "user_slot ?s c' p' = Some sl"
    then show "c' = c \<and> push_bit 12 p' = push_bit 12 p" unfolding us by (rule inv(9))
  next
    show "pt_wf ?s" using inv(1) by simp
  qed
  show "vbyte w ?s = vbyte w s" by (simp add: vbyte_def fun_eq_iff us slot_byte_def)
  show "user_slot ?s = user_slot s" by (rule us)
qed

lemma dev_get_freefp_inv:
  assumes "vm_inv w F s" "dev_get_freefp (Some (dev_of w d)) s = (Some f, s1)"
  shows "vm_inv w (insert (d, f) F) s1" "vbyte w s1 = vbyte w s" "user_slot s1 = user_slot s"
    and "s1 = with_free (dev_of w d) (tl (free_fp_list (devs s (dev_of w d)))) s" "(d, f) \<notin> F"
proof -
  let ?fl = "free_fp_list (devs s (dev_of w d))"
  from assms(2) have fl: "?fl = f # tl ?fl" and s1: "s1 = with_free (dev_of w d) (tl ?fl) s"
    by (auto simp: dev_get_freefp_def MEMPHY_get_freefp_def with_free_def split: list.splits)
  note inv = vm_invD [OF assms(1)]
  have "distinct ?fl" using inv(2) by (auto simp: devices_ok_def dev_of_def)
  then have dist: "distinct (tl ?fl)" "f \<notin> set (tl ?fl)" by (subst (asm) fl, simp)+
  show notF: "(d, f) \<notin> F"
    using inv(6) [of "(d, f)"] fl by (metis fst_conv list.set_intros(1) slot_ok_def snd_conv)
  show "s1 = with_free (dev_of w d) (tl ?fl) s" by (rule s1)
  have A: "(d, g) \<notin> insert (d, f) F" if "g \<in> set (tl ?fl)" for g
    using that dist(2) inv(6) [of "(d, g)"] in_set_tlD [of g ?fl] by (auto simp: slot_ok_def)
  have B: "sl \<in> F \<or> fst sl = d \<and> snd sl \<in> set ?fl" if "sl \<in> insert (d, f) F" for sl
    using that fl by (metis fst_conv insert_iff list.set_intros(1) snd_conv)
  show "vm_inv w (insert (d, f) F) s1" "vbyte w s1 = vbyte w s" "user_slot s1 = user_slot s"
    unfolding s1 using vm_inv_with_free [OF assms(1) dist(1) disjI1 B A] in_set_tlD by metis+
qed

lemma dev_get_freefp_None: "dev_get_freefp d s = (None, s1) \<Longrightarrow> s1 = s"
  by (auto simp: dev_get_freefp_def MEMPHY_get_freefp_def upd_dev_id split: list.splits option.splits)

lemma dev_put_freefp_cases:
  obtains fl h where "dev_put_freefp (Some d) f s = (with_free d fl s)\<lparr>sy_host := h\<rparr>"
    "fl = (if sy_host s 0 then f # free_fp_list (devs s d) else free_fp_list (devs s d))"
    "host_ok (sy_host s) \<Longrightarrow> host_ok h"
proof (cases "sy_host s 0")
  case True
  then show ?thesis
    by (intro that [of "\<lambda>n. sy_host s (Suc n)" "f # free_fp_list (devs s d)"])
       (auto simp: dev_put_freefp_def MEMPHY_put_freefp_def halloc_def with_free_def host_ok_def)
next
  case False
  then show ?thesis
    by (intro that [of "\<lambda>n. sy_host s (Suc n)" "free_fp_list (devs s d)"])
       (auto simp: dev_put_freefp_def MEMPHY_put_freefp_def halloc_def with_free_def host_ok_def)
qed

lemma dev_put_freefp_inv:
  assumes "vm_inv w F s" "(d, f) \<in> F"
  shows "vm_inv w (F - {(d, f)}) (dev_put_freefp (Some (dev_of w d)) f s)"
    "vbyte w (dev_put_freefp (Some (dev_of w d)) f s) = vbyte w s"
    "user_slot (dev_put_freefp (Some (dev_of w d)) f s) = user_slot s"
proof -
  let ?fl = "free_fp_list (devs s (dev_of w d))" and ?s = "dev_put_freefp (Some (dev_of w d)) f s"
  note inv = vm_invD [OF assms(1)]
  have dist: "distinct ?fl" using inv(2) by (auto simp: devices_ok_def dev_of_def)
  have nf: "f \<notin> set ?fl" using inv(6) [OF assms(2)] by (simp add: slot_ok_def)
  obtain fl h where s: "?s = (with_free (dev_of w d) fl s)\<lparr>sy_host := h\<rparr>" and fl: "fl = ?fl \<or> fl = f # ?fl"
    by (rule dev_put_freefp_cases [of "dev_of w d" f s]) (auto split: if_splits)
  have A: "(d, g) \<notin> F - {(d, f)}" if "g \<in> set fl" for g
    using that fl inv(6) [of "(d, g)"] by (auto simp: slot_ok_def)
  have B: "g \<in> set ?fl \<or> (d, g) \<in> F" if "g \<in> set fl" for g using that fl assms(2) by auto
  have dfl: "distinct fl" using fl dist nf by auto
  note * = vm_inv_with_free [OF assms(1) dfl B _ A, simplified]
  have us: "user_slot ?s = user_slot (with_free (dev_of w d) fl s)"
    using inv(1) by (intro user_slot_cong) (simp add: s pte_get_entry_host)
  moreover have vb: "vbyte w (with_free (dev_of w d) fl s) = vbyte w s" "user_slot (with_free (dev_of w d) fl s) = user_slot s"
    "vm_inv w (F - {(d, f)}) (with_free (dev_of w d) fl s)" using * by blast+
  ultimately show "vbyte w ?s = vbyte w s" "user_slot ?s = user_slot s"
    by (simp_all add: vbyte_def slot_byte_def fun_eq_iff s)
  show "vm_inv w (F - {(d, f)}) ?s"
    by (rule vm_inv_cong [OF vb(3) _ _ _ _ us])
       (use vm_invD(1,2,3) [OF vb(3)] in \<open>simp_all add: s devices_ok_def slot_ok_def\<close>)
qed

text \<open>Copying into a slot that the running code owns is not visible to any process.\<close>

lemma copied_inv:
  assumes "vm_inv w F s" "(e, g) \<in> F" and s'_def: "s' = copied src f (dev_of w e) g 4096 s"
  shows "vm_inv w F s'" "vbyte w s' = vbyte w s" "user_slot s' = user_slot s"
    and "unat off < 4096 \<Longrightarrow> slot_byte w s' (e, g) off = storage (devs s src) (cell f off)"
    and "sl \<noteq> (e, g) \<Longrightarrow> slot_ok w s sl \<Longrightarrow> unat off < 4096 \<Longrightarrow> slot_byte w s' sl off = slot_byte w s sl off"
proof -
  note inv = vm_invD [OF assms(1)]
  have g: "frame_ok (devs s (dev_of w e)) g" using inv(6) [OF assms(2)] by (simp add: slot_ok_def)
  have view: "pte_get_entry s' = pte_get_entry s"
    using inv(1) by (simp add: s'_def copied_def pte_get_entry_upd_dev)
  show us: "user_slot s' = user_slot s" by (rule user_slot_cong [OF view])
  have dev: "ram_like (devs s' d) = ram_like (devs s d)" "frame_ok (devs s' d) h = frame_ok (devs s d) h"
    "free_fp_list (devs s' d) = free_fp_list (devs s d)" for d h
    by (auto simp: s'_def copied_def)
  have "devices_ok w s'" "callers_ok w s'" "pt_wf s'" "\<And>sl. slot_ok w s' sl = slot_ok w s sl"
    using inv(1,2,3) by (simp_all add: devices_ok_def slot_ok_def dev s'_def copied_def)
  then show "vm_inv w F s'" using vm_inv_cong [OF assms(1)] us by blast
  have other: "slot_byte w s' sl off = slot_byte w s sl off"
    if "sl \<noteq> (e, g)" "slot_ok w s sl" "unat off < 4096" for sl off
  proof (cases "fst sl = e")
    case True
    with that copied_storage [OF inv(5) [of e] g, of "snd sl" off src f] show ?thesis
      by (cases sl) (auto simp: slot_byte_def slot_ok_def s'_def)
  next
    case False
    with inv(4) have "devs s' (dev_of w (fst sl)) = devs s (dev_of w (fst sl))"
      by (simp add: s'_def copied_def dev_of_eq)
    then show ?thesis by (simp add: slot_byte_def)
  qed
  then show "sl \<noteq> (e, g) \<Longrightarrow> slot_ok w s sl \<Longrightarrow> unat off < 4096 \<Longrightarrow> slot_byte w s' sl off = slot_byte w s sl off" .
  show "unat off < 4096 \<Longrightarrow> slot_byte w s' (e, g) off = storage (devs s src) (cell f off)"
    using copied_storage [OF inv(5) [of e] g g, of off src f] by (simp add: slot_byte_def s'_def)
  have "vbyte w s' c a = vbyte w s c a" for c a
  proof (cases "user_slot s c (drop_bit 12 a)")
    case (Some sl)
    with inv(7,8) assms(2) have "sl \<noteq> (e, g)" "slot_ok w s sl" by auto
    then show ?thesis using other [of sl "a AND PAGING64_ADDR_OFFST_MASK"] offset_less [of a]
      by (simp add: vbyte_def us Some)
  qed (simp add: vbyte_def us)
  then show "vbyte w s' = vbyte w s" by (simp add: fun_eq_iff)
qed

text \<open>
  Mapping a page to a slot that the running code owns. The slot that the page had before, if
  any, is then owned by the running code.
\<close>

lemma callers_ok_forget:
  assumes "forget_pt s' = forget_pt s"
  shows "callers_ok w s' = callers_ok w s"
proof -
  have fifo: "map_option fifo_pgn (caller_mm s' c) = map_option fifo_pgn (caller_mm s c)" for c
  proof -
    have "map_option (fifo_pgn \<circ> (\<lambda>m. m\<lparr>mm_pgd := None\<rparr>)) (caller_mm s' c) =
        map_option (fifo_pgn \<circ> (\<lambda>m. m\<lparr>mm_pgd := None\<rparr>)) (caller_mm s c)"
      using forget_ptD(5) [OF assms, of c] by (metis option.map_comp)
    then show ?thesis by (simp add: comp_def)
  qed
  have co: "callers_ok w t \<longleftrightarrow> (\<forall>c l. map_option fifo_pgn (caller_mm t c) = Some l \<longrightarrow>
      caller_mram t c = Some 0 \<and> caller_mswp t c = Some w \<and> (\<forall>p \<in> set l. user_page p))" for t
    by (auto simp: callers_ok_def)
  show ?thesis unfolding co fifo forget_ptD(3,4) [OF assms] by (rule refl)
qed

lemma user_slot_set_entry:
  assumes "pt_wf s" "pte_set_entry s c p v = (0, s')" "user_page p"
  shows "user_slot s' x q = (if x = c \<and> push_bit 12 q = push_bit 12 p then slot_of v else user_slot s x q)"
  using pte_set_entry_props(4,6,7) [OF assms(1,2)] assms(3)
  by (auto simp: user_slot_def user_page_def same_space_def)

lemma page_mask: "push_bit 12 (drop_bit 12 (a :: addr)) = push_bit 12 (drop_bit 12 b) \<longleftrightarrow> drop_bit 12 a = drop_bit 12 b"
proof
  assume "push_bit 12 (drop_bit 12 a) = push_bit 12 (drop_bit 12 b)"
  then have "drop_bit 12 (push_bit 12 (drop_bit 12 a)) = drop_bit 12 (push_bit 12 (drop_bit 12 b))" by simp
  moreover have "drop_bit 12 (push_bit 12 (drop_bit 12 x)) = drop_bit 12 x" for x :: addr
    by (rule bit_word_eqI) (auto simp: bit_push_bit_iff bit_drop_bit_eq dest: bit_imp_le_length)
  ultimately show "drop_bit 12 a = drop_bit 12 b" by simp
qed simp

lemma set_slot_inv:
  assumes "vm_inv w F s" "sl \<in> F" "pte_set_entry s c p v = (0, s')" "user_page p" "slot_of v = Some sl"
    and F': "F' = (F - {sl}) \<union> set_option (user_slot s c p)"
  shows "vm_inv w F' s'"
    and "vbyte w s' x a = (if x = c \<and> push_bit 12 (drop_bit 12 a) = push_bit 12 p
      then Some (slot_byte w s sl (a AND PAGING64_ADDR_OFFST_MASK)) else vbyte w s x a)"
    and "slot_ok w s' = slot_ok w s" "devs s' = devs s"
proof -
  note inv = vm_invD [OF assms(1)]
  note pe = pte_set_entry_props [OF inv(1) assms(3)]
  note us = user_slot_set_entry [OF inv(1) assms(3,4)]
  show dv: "devs s' = devs s" by (rule forget_ptD(2) [OF pe(2)])
  then show so: "slot_ok w s' = slot_ok w s" by (simp add: slot_ok_def fun_eq_iff)
  show "vbyte w s' x a = (if x = c \<and> push_bit 12 (drop_bit 12 a) = push_bit 12 p
      then Some (slot_byte w s sl (a AND PAGING64_ADDR_OFFST_MASK)) else vbyte w s x a)"
    by (simp add: vbyte_def us assms(5) slot_byte_def dv)
  have old: "user_slot s c q = user_slot s c p" if "push_bit 12 q = push_bit 12 p" for q
    using that by (simp add: user_slot_def user_page_def pte_get_entry_def)
  show "vm_inv w F' s'"
  proof (rule vm_invI)
    show "pt_wf s'" by (rule pe(1))
    show "devices_ok w s'" using inv(2) by (simp add: devices_ok_def dv)
    show "callers_ok w s'" using inv(3) callers_ok_forget [OF pe(2)] by simp
    show "slot_ok w s' x" if "x \<in> F'" for x
      using that inv(6) [of x] inv(7) [of c p x] unfolding so F' by (auto simp: elem_set)
    show "slot_ok w s' x \<and> x \<notin> F'" if u: "user_slot s' y q = Some x" for y q x
    proof (cases "y = c \<and> push_bit 12 q = push_bit 12 p")
      case True
      with u have "x = sl" by (simp add: us assms(5))
      with assms(2) inv(6) [of sl] inv(8) [of c p sl] show ?thesis unfolding so F' by (auto simp: elem_set)
    next
      case False
      with u have x: "user_slot s y q = Some x" unfolding us by (auto split: if_splits)
      have ne: "user_slot s c p \<noteq> Some x" using inv(9) [OF x, of c p] False by metis
      have "x \<notin> F'" unfolding F' using inv(8) [OF x] ne by (simp add: elem_set)
      with inv(7) [OF x] show ?thesis unfolding so by blast
    qed
    show "c' = c'' \<and> push_bit 12 p' = push_bit 12 p''"
      if "user_slot s' c'' p'' = Some x" "user_slot s' c' p' = Some x" for c' c'' p' p'' x
    proof (cases "x = sl")
      case True
      with that inv(8) [of _ _ sl] assms(2) show ?thesis unfolding us by (metis (full_types))
    next
      case False
      with that inv(9) [of c'' p'' x c' p'] show ?thesis unfolding us assms(5) by (metis option.inject)
    qed
  qed
qed

text \<open>
  What paging leaves alone: the scheduler, the registers and code of every process, and of every
  address space all but its page table and its list of resident pages. A step is calm if it
  keeps all this, and if a host with memory keeps having memory.
\<close>

definition mm_core :: "mm_struct \<Rightarrow> mm_struct" where
  "mm_core m = m\<lparr>mm_pgd := None, fifo_pgn := []\<rparr>"

definition krnl_core :: "krnl_t \<Rightarrow> krnl_t" where
  "krnl_core k = k\<lparr>krnl_pgd := None, k_mm := map_option mm_core (k_mm k)\<rparr>"

definition pcb_core :: "pcb_t \<Rightarrow> pcb_t" where
  "pcb_core b = b\<lparr>krnl := map_option krnl_core (krnl b)\<rparr>"

definition core :: "sys \<Rightarrow> sys" where
  "core s = s\<lparr>devs := (\<lambda>_. blank_memphy), pcbs := (\<lambda>c. map_option pcb_core (pcbs s c)),
     kroots := (\<lambda>_. None), next_root := 0, sy_host := (\<lambda>_. False)\<rparr>"

definition calm :: "sys \<Rightarrow> sys \<Rightarrow> bool" where
  "calm s s' \<longleftrightarrow> core s' = core s \<and> (host_ok (sy_host s) \<longrightarrow> host_ok (sy_host s'))"

lemma core_simps [simp]: "core (upd_dev d mp s) = core s" "core (s\<lparr>sy_host := h\<rparr>) = core s"
  "core (with_free d fl s) = core s" "core (copied src f dst g n s) = core s"
  by (simp_all add: core_def with_free_def copied_def upd_dev_def)

lemma core_forget: "forget_pt s' = forget_pt s \<Longrightarrow> core s' = core s"
proof -
  have "mm_core (m\<lparr>mm_pgd := None\<rparr>) = mm_core m" for m by (simp add: mm_core_def)
  then have "core (forget_pt u) = core u" for u
    by (simp add: core_def forget_pt_def fun_eq_iff option.map_comp comp_def pcb_core_def [abs_def] krnl_core_def [abs_def])
  then show "forget_pt s' = forget_pt s \<Longrightarrow> core s' = core s" by metis
qed

lemma core_upd_mm:
  assumes "\<And>b k m. pcbs s c = Some b \<Longrightarrow> krnl b = Some k \<Longrightarrow> k_mm k = Some m \<Longrightarrow> mm_core (f m) = mm_core m"
  shows "core (upd_mm c f s) = core s"
proof -
  have "map_option pcb_core (pcbs (upd_mm c f s) x) = map_option pcb_core (pcbs s x)" for x
  proof (cases "x = c \<and> (\<exists>b k m. pcbs s c = Some b \<and> krnl b = Some k \<and> k_mm k = Some m)")
    case True
    then obtain b k m where b: "x = c" "pcbs s c = Some b" "krnl b = Some k" "k_mm k = Some m" by blast
    with assms [OF b(2-4)] show ?thesis by (simp add: upd_mm_def upd_krnl_def pcb_core_def krnl_core_def)
  next
    case False
    then show ?thesis
      by (cases "pcbs s c"; cases "krnl (the (pcbs s c))"; cases "k_mm (the (krnl (the (pcbs s c))))")
         (auto simp: upd_mm_def upd_krnl_def pcb_core_def krnl_core_def)
  qed
  then show ?thesis by (simp add: core_def upd_mm_def upd_krnl_def)
qed

lemma pcb_core_eqD:
  assumes p: "map_option pcb_core (pcbs s' c) = map_option pcb_core (pcbs s c)"
  shows "map_option krnl_core (caller_krnl s' c) = map_option krnl_core (caller_krnl s c)"
    "map_option mm_core (caller_mm s' c) = map_option mm_core (caller_mm s c)"
    "caller_mm s' c = None \<longleftrightarrow> caller_mm s c = None" "caller_krnl s' c = None \<longleftrightarrow> caller_krnl s c = None"
    "caller_mram s' c = caller_mram s c" "caller_mswp s' c = caller_mswp s c"
proof -
  have kr: "map_option krnl_core (caller_krnl u c) = (if c = NULL then None else Option.bind (map_option pcb_core (pcbs u c)) krnl)" for u
    by (cases "pcbs u c") (simp_all add: caller_krnl_def pcb_core_def)
  show k: "map_option krnl_core (caller_krnl s' c) = map_option krnl_core (caller_krnl s c)" by (simp only: kr p)
  have mm: "map_option mm_core (caller_mm u c) = Option.bind (map_option krnl_core (caller_krnl u c)) k_mm"
    "caller_mram u c = Option.bind (map_option krnl_core (caller_krnl u c)) k_mram"
    "caller_mswp u c = Option.bind (map_option krnl_core (caller_krnl u c)) k_active_mswp" for u
    by (cases "caller_krnl u c"; simp add: caller_mm_def caller_mram_def caller_mswp_def krnl_core_def)+
  show m: "map_option mm_core (caller_mm s' c) = map_option mm_core (caller_mm s c)"
    "caller_mram s' c = caller_mram s c" "caller_mswp s' c = caller_mswp s c" by (simp_all only: mm k)
  from k m(1) show "caller_mm s' c = None \<longleftrightarrow> caller_mm s c = None" "caller_krnl s' c = None \<longleftrightarrow> caller_krnl s c = None"
    by (metis option.map_disc_iff)+
qed

lemma calmD:
  assumes "calm s s'"
  shows "sy_sched s' = sy_sched s" "host_ok (sy_host s) \<Longrightarrow> host_ok (sy_host s')"
    "map_option pcb_core (pcbs s' c) = map_option pcb_core (pcbs s c)"
    "map_option krnl_core (caller_krnl s' c) = map_option krnl_core (caller_krnl s c)"
    "map_option mm_core (caller_mm s' c) = map_option mm_core (caller_mm s c)"
    "caller_mm s' c = None \<longleftrightarrow> caller_mm s c = None" "caller_krnl s' c = None \<longleftrightarrow> caller_krnl s c = None"
    "caller_mram s' c = caller_mram s c" "caller_mswp s' c = caller_mswp s c"
proof -
  from assms have c: "core s' = core s" by (simp add: calm_def)
  from arg_cong [OF c, of sy_sched] show "sy_sched s' = sy_sched s" by (simp add: core_def)
  show "host_ok (sy_host s) \<Longrightarrow> host_ok (sy_host s')" using assms by (simp add: calm_def)
  from arg_cong [OF c, of pcbs] have p: "map_option pcb_core (pcbs s' c) = map_option pcb_core (pcbs s c)"
    by (simp add: core_def fun_eq_iff)
  then show "map_option pcb_core (pcbs s' c) = map_option pcb_core (pcbs s c)" .
  note e = pcb_core_eqD [OF p]
  show "map_option krnl_core (caller_krnl s' c) = map_option krnl_core (caller_krnl s c)"
    "map_option mm_core (caller_mm s' c) = map_option mm_core (caller_mm s c)"
    "caller_mm s' c = None \<longleftrightarrow> caller_mm s c = None" "caller_krnl s' c = None \<longleftrightarrow> caller_krnl s c = None"
    "caller_mram s' c = caller_mram s c" "caller_mswp s' c = caller_mswp s c" by (rule e)+
qed

lemma calm_refl [simp]: "calm s s"
  by (simp add: calm_def)

lemma calm_trans [trans]: "calm s s' \<Longrightarrow> calm s' s'' \<Longrightarrow> calm s s''"
  by (simp add: calm_def)

lemma calm_simps [simp]: "calm s (with_free d fl s)" "calm s (copied src f dst g k s)" "calm s (upd_dev d mp s)"
  by (simp_all add: calm_def copied_frame)

lemma calm_dev_put: "calm s (dev_put_freefp d f s)"
proof (cases d)
  case (Some e)
  obtain fl h where "dev_put_freefp (Some e) f s = (with_free e fl s)\<lparr>sy_host := h\<rparr>" "host_ok (sy_host s) \<Longrightarrow> host_ok h"
    by (rule dev_put_freefp_cases [of e f s]) blast
  with Some show ?thesis by (simp add: calm_def)
qed (simp add: dev_put_freefp_def)

lemma calm_pte_set_entry:
  assumes "pt_wf s" "pte_set_entry s c p v = (r, s')"
  shows "calm s s'"
  using core_forget [OF pte_set_entry_props(2) [OF assms]] pte_set_entry_props(8) [OF assms] by (simp add: calm_def)

section \<open>Finding a victim\<close>

text \<open>Steps that only change the lists of resident pages.\<close>

definition fifo_step :: "sys \<Rightarrow> sys \<Rightarrow> bool" where
  "fifo_step s s' \<longleftrightarrow> devs s' = devs s \<and> sy_host s' = sy_host s \<and> sy_sched s' = sy_sched s \<and>
     pt_wf s' = pt_wf s \<and> pte_view s' = pte_view s \<and> core s' = core s \<and>
     (\<forall>c. caller_mram s' c = caller_mram s c \<and> caller_mswp s' c = caller_mswp s c \<and>
        (caller_mm s' c = None \<longleftrightarrow> caller_mm s c = None))"

lemma fifo_step_refl [simp]: "fifo_step s s"
  by (simp add: fifo_step_def)

lemma fifo_step_trans: "fifo_step s s' \<Longrightarrow> fifo_step s' s'' \<Longrightarrow> fifo_step s s''"
  by (simp add: fifo_step_def)

lemma pt_upd_mm:
  assumes "\<And>m. caller_mm s c = Some m \<Longrightarrow> mm_pgd (f m) = mm_pgd m"
  shows "pte_view (upd_mm c f s) = pte_view s" "pt_wf (upd_mm c f s) = pt_wf s"
proof -
  have root: "root_of (upd_mm c f s) x a = root_of s x a" for x a
    using assms by (cases "caller_mm s c") (auto simp: root_of_def)
  show "pte_view (upd_mm c f s) = pte_view s"
    by (intro ext) (auto simp: pte_view_def root)
  have "(\<exists>m'. caller_mm (upd_mm c f s) x = Some m' \<and> mm_pgd m' = Some t) \<longleftrightarrow>
      (\<exists>m'. caller_mm s x = Some m' \<and> mm_pgd m' = Some t)" for x t
    using assms by (cases "caller_mm s c") auto
  moreover have "pt_wf u \<longleftrightarrow> (\<forall>x t. (\<exists>m'. caller_mm u x = Some m' \<and> mm_pgd m' = Some t) \<longrightarrow> tab_wf 4 t) \<and>
      (\<forall>r t. kroots u r = Some t \<longrightarrow> tab_wf 4 t \<and> r < next_root u) \<and>
      (\<forall>x r. kroot_of u x = Some r \<longrightarrow> kroots u r \<noteq> None)" for u
    unfolding pt_wf_def by blast
  ultimately show "pt_wf (upd_mm c f s) = pt_wf s" by (simp only: upd_mm_frame kroot_of_upd_mm)
qed

lemma fifo_step_upd_mm:
  assumes f: "\<And>b k m. pcbs s c = Some b \<Longrightarrow> krnl b = Some k \<Longrightarrow> k_mm k = Some m \<Longrightarrow>
    \<exists>l. f m = m\<lparr>fifo_pgn := l\<rparr>"
  shows "fifo_step s (upd_mm c f s)"
proof -
  have pgd: "mm_pgd (f m) = mm_pgd m" if "caller_mm s c = Some m" for m
  proof -
    from that obtain b k where "pcbs s c = Some b" "krnl b = Some k" "k_mm k = Some m"
      by (auto simp: caller_mm_def caller_krnl_def bind_eq_Some_conv split: if_splits)
    from f [OF this] show ?thesis by auto
  qed
  have "core (upd_mm c f s) = core s"
  proof (rule core_upd_mm)
    fix b k m assume "pcbs s c = Some b" "krnl b = Some k" "k_mm k = Some m"
    from f [OF this] show "mm_core (f m) = mm_core m" by (auto simp: mm_core_def)
  qed
  with pt_upd_mm [of s c f, OF pgd] show ?thesis by (simp add: fifo_step_def)
qed

lemma calm_fifo_step: "fifo_step s s' \<Longrightarrow> calm s s'"
  by (simp add: calm_def fifo_step_def)

lemma fifo_step_slots:
  assumes "fifo_step s s'" "pt_wf s"
  shows "pte_get_entry s' = pte_get_entry s" "user_slot s' = user_slot s" "vbyte w s' = vbyte w s"
    "slot_ok w s' = slot_ok w s"
proof -
  show "pte_get_entry s' = pte_get_entry s"
    using assms by (intro ext) (simp add: fifo_step_def pte_get_entry_view)
  then show us: "user_slot s' = user_slot s" by (rule user_slot_cong)
  show "vbyte w s' = vbyte w s" "slot_ok w s' = slot_ok w s"
    using assms by (auto simp: vbyte_def us slot_byte_def slot_ok_def fifo_step_def fun_eq_iff)
qed

lemma vm_inv_fifo_step:
  assumes "vm_inv w F s" "fifo_step s s'" "callers_ok w s'"
  shows "vm_inv w F s'"
proof (rule vm_inv_cong [OF assms(1)])
  note inv = vm_invD(1,2) [OF assms(1)]
  show "pt_wf s'" "devices_ok w s'" using inv assms(2) by (simp_all add: fifo_step_def devices_ok_def)
  show "user_slot s' = user_slot s" "\<And>sl. slot_ok w s' sl = slot_ok w s sl"
    using fifo_step_slots [OF assms(2) inv(1)] by simp_all
qed (rule assms(3))

definition is_victim :: "sys \<Rightarrow> pptr \<Rightarrow> addr \<Rightarrow> addr \<Rightarrow> bool" where
  "is_victim s c p pte \<longleftrightarrow> user_page p \<and> pte = pte_get_entry s c p \<and>
     PAGING64_PAGE_PRESENT pte \<and> \<not> PAGING64_PAGE_SWAPPED pte"

lemma callers_ok_shrink:
  assumes "callers_ok w s" "caller_mm s c = Some m" "find_victim_page m = Some (p, m')"
  shows "callers_ok w (upd_mm c (\<lambda>_. m') s)" "user_page p" "m' = m\<lparr>fifo_pgn := butlast (fifo_pgn m)\<rparr>"
proof -
  from assms(3) have m': "fifo_pgn m \<noteq> []" "p = last (fifo_pgn m)" "m' = m\<lparr>fifo_pgn := butlast (fifo_pgn m)\<rparr>"
    by (auto simp: find_victim_page_def split: if_splits)
  have m: "caller_mram s c = Some 0" "caller_mswp s c = Some w" "\<And>q. q \<in> set (fifo_pgn m) \<Longrightarrow> user_page q"
    using assms(1,2) unfolding callers_ok_def by blast+
  show "user_page p" "m' = m\<lparr>fifo_pgn := butlast (fifo_pgn m)\<rparr>" using m' m(3) by auto
  have "user_page q" if "q \<in> set (fifo_pgn m')" for q
    using that m(3) in_set_butlastD [of q] by (simp add: m'(3))
  with m(1,2) assms(1,2) show "callers_ok w (upd_mm c (\<lambda>_. m') s)"
    unfolding callers_ok_def by simp
qed

lemma find_present_victim_props:
  assumes "vm_inv w F s" "find_present_victim_in_proc s c = (r, s')"
  shows "fifo_step s s' \<and> vm_inv w F s' \<and> (\<forall>p pte. r = Some (p, pte) \<longrightarrow> is_victim s' c p pte)"
  using assms
proof (induction s c arbitrary: rule: find_present_victim_in_proc.induct)
  case (1 s c)
  show ?case
  proof (cases "\<exists>m p m'. caller_mm s c = Some m \<and> find_victim_page m = Some (p, m')")
    case False
    with "1.prems" have "r = None" "s' = s"
      by (auto simp: find_present_victim_in_proc.simps [of s c] split: option.splits)
    with "1.prems"(1) show ?thesis by simp
  next
    case True
    then obtain m p m' where m: "caller_mm s c = Some m" "find_victim_page m = Some (p, m')" by blast
    define s1 where "s1 = upd_mm c (\<lambda>_. m') s"
    note sh = callers_ok_shrink [OF vm_invD(3) [OF "1.prems"(1)] m, folded s1_def]
    have step: "fifo_step s s1" unfolding s1_def 
      by (rule fifo_step_upd_mm)
         (use m sh(3) in \<open>auto simp: caller_mm_def caller_krnl_def bind_eq_Some_conv split: if_splits\<close>)
    note inv1 = vm_inv_fifo_step [OF "1.prems"(1) step sh(1)]
    let ?pte = "pte_get_entry s1 c p"
    show ?thesis
    proof (cases "PAGING64_PAGE_PRESENT ?pte \<and> \<not> PAGING64_PAGE_SWAPPED ?pte")
      case True
      with "1.prems"(2) m have "r = Some (p, ?pte)" "s' = s1"
        by (auto simp: find_present_victim_in_proc.simps [of s c] s1_def Let_def)
      with inv1 step sh(2) True show ?thesis by (simp add: is_victim_def)
    next
      case False
      with "1.prems"(2) m have rec: "find_present_victim_in_proc s1 c = (r, s')"
        by (simp add: find_present_victim_in_proc.simps [of s c] s1_def Let_def split: if_splits)
      have "fifo_step s1 s' \<and> vm_inv w F s' \<and> (\<forall>p pte. r = Some (p, pte) \<longrightarrow> is_victim s' c p pte)"
        by (rule "1.IH" [OF m(1,2) refl s1_def refl _ inv1 rec]) (use False in simp)
      with step fifo_step_trans show ?thesis by blast
    qed
  qed
qed

lemma global_victim_loop_props:
  assumes "vm_inv w F s" "global_victim_loop s c ps = (r, s')"
  shows "fifo_step s s' \<and> vm_inv w F s' \<and> (\<forall>v p pte. r = Some (v, p, pte) \<longrightarrow> is_victim s' v p pte)"
  using assms
proof (induction ps arbitrary: s)
  case (Cons q ps)
  show ?case
  proof (cases "q = NULL \<or> q = c")
    case True
    with Cons show ?thesis by simp
  next
    case False
    obtain x s1 where f: "find_present_victim_in_proc s q = (x, s1)" by (cases "find_present_victim_in_proc s q")
    note * = find_present_victim_props [OF Cons.prems(1) f]
    show ?thesis
    proof (cases x)
      case None
      with False f Cons.prems(2) have "global_victim_loop s1 c ps = (r, s')" by simp
      with Cons.IH [of s1] * fifo_step_trans show ?thesis by blast
    next
      case (Some y)
      with False f Cons.prems(2) * show ?thesis by (cases y) auto
    qed
  qed
qed simp

lemma find_global_victim_props:
  assumes "vm_inv w F s" "find_global_victim s c = (r, s')"
  shows "fifo_step s s' \<and> vm_inv w F s' \<and> (\<forall>v p pte. r = Some (v, p, pte) \<longrightarrow> is_victim s' v p pte)"
proof -
  obtain x s1 where f: "find_present_victim_in_proc s c = (x, s1)" by (cases "find_present_victim_in_proc s c")
  note * = find_present_victim_props [OF assms(1) f]
  show ?thesis
  proof (cases x)
    case None
    show ?thesis
    proof (cases "\<exists>k. caller_krnl s1 c = Some k \<and> k_running_list k")
      case True
      then have l: "global_victim_loop s1 c (take (qsize (running_list (sy_sched s1))) (qproc (running_list (sy_sched s1)))) = (r, s')"
        using assms(2) f None by (auto simp: find_global_victim_def Let_def)
      from * have i: "vm_inv w F s1" and st: "fifo_step s s1" by blast+
      from global_victim_loop_props [OF i l] fifo_step_trans [OF st] show ?thesis by blast
    next
      case False
      then have "r = None" "s' = s1"
        using assms(2) f None by (auto simp: find_global_victim_def split: option.splits if_splits)
      with * show ?thesis by simp
    qed
  next
    case (Some y)
    with f assms(2) * show ?thesis by (cases y) (auto simp: find_global_victim_def)
  qed
qed

section \<open>What can be evicted\<close>

text \<open>
  The pages that the search for a victim can find: those in the list of a process that are resident. The
  search of \<open>c\<close> looks at the list of \<open>c\<close> and, if its context points to the running list, at
  those of the processes there.
\<close>

definition fifo_of :: "sys \<Rightarrow> pptr \<Rightarrow> addr list" where
  "fifo_of s x = (case caller_mm s x of None \<Rightarrow> [] | Some m \<Rightarrow> fifo_pgn m)"

definition resident :: "sys \<Rightarrow> pptr \<Rightarrow> addr \<Rightarrow> bool" where
  "resident s x p \<longleftrightarrow> PAGING64_PAGE_PRESENT (pte_get_entry s x p) \<and> \<not> PAGING64_PAGE_SWAPPED (pte_get_entry s x p)"

definition evictable :: "sys \<Rightarrow> (pptr \<times> addr) set" where
  "evictable s = {(x, push_bit 12 p) | x p. p \<in> set (fifo_of s x) \<and> resident s x p}"

definition owners :: "sys \<Rightarrow> pptr \<Rightarrow> pptr set" where
  "owners s c = insert c (if map_option k_running_list (caller_krnl s c) = Some True
     then set (take (qsize (running_list (sy_sched s))) (qproc (running_list (sy_sched s)))) else {})"

definition victims :: "sys \<Rightarrow> pptr \<Rightarrow> (pptr \<times> addr) set" where
  "victims s c = {v \<in> evictable s. fst v \<in> owners s c}"

lemma finite_victims: "finite (victims s c)"
proof -
  have "victims s c \<subseteq> (\<Union>x \<in> owners s c. (\<lambda>p. (x, push_bit 12 p)) ` set (fifo_of s x))"
    by (auto simp: victims_def evictable_def)
  moreover have "finite (owners s c)" by (simp add: owners_def)
  ultimately show ?thesis by (meson finite_UN finite_imageI finite_set finite_subset)
qed

lemma owners_core:
  assumes "core s' = core s"
  shows "owners s' c = owners s c"
proof -
  have c: "map_option k_running_list (map_option krnl_core k) = map_option k_running_list k" for k
    by (cases k) (simp_all add: krnl_core_def)
  have p: "map_option pcb_core (pcbs s' c) = map_option pcb_core (pcbs s c)" "sy_sched s' = sy_sched s"
    using arg_cong [OF assms, of pcbs] arg_cong [OF assms, of sy_sched] by (simp_all add: core_def fun_eq_iff)
  have "map_option k_running_list (caller_krnl s' c) = map_option k_running_list (caller_krnl s c)"
    using arg_cong [OF pcb_core_eqD(1) [OF p(1)], of "map_option k_running_list"] by (simp only: c)
  then show ?thesis by (simp only: owners_def p(2))
qed

lemma resident_same_page: "push_bit 12 q = push_bit 12 p \<Longrightarrow> resident s x q = resident s x p"
  by (simp add: resident_def pte_get_entry_def)

lemma evictable_mono:
  assumes "\<And>x. fifo_of s' x = fifo_of s x"
    and "\<And>x p. (x, push_bit 12 p) \<notin> V \<Longrightarrow> pte_get_entry s' x p = pte_get_entry s x p"
  shows "evictable s \<subseteq> V \<union> evictable s'"
proof
  fix v assume "v \<in> evictable s"
  then obtain x p where v: "v = (x, push_bit 12 p)" "p \<in> set (fifo_of s x)" "resident s x p" by (auto simp: evictable_def)
  show "v \<in> V \<union> evictable s'"
  proof (cases "v \<in> V")
    case False
    then have "resident s' x p" using v(1,3) assms(2) by (simp add: resident_def)
    then show ?thesis using v(1,2) assms(1) by (auto simp: evictable_def)
  qed simp
qed

lemma evictable_cong:
  assumes "\<And>x. caller_mm s' x = caller_mm s x" "pte_get_entry s' = pte_get_entry s"
  shows "evictable s' = evictable s"
  using assms by (simp add: evictable_def fifo_of_def resident_def)

lemma find_present_victim_evictable:
  assumes "vm_inv w F s" "find_present_victim_in_proc s c = (r, s')"
  shows "case r of None \<Rightarrow> evictable s \<subseteq> evictable s' \<and> (\<forall>a. (c, a) \<notin> evictable s)
    | Some (p, pte) \<Rightarrow> evictable s \<subseteq> insert (c, push_bit 12 p) (evictable s')"
  using assms
proof (induction s c arbitrary: rule: find_present_victim_in_proc.induct)
  case (1 s c)
  show ?case
  proof (cases "\<exists>m p m'. caller_mm s c = Some m \<and> find_victim_page m = Some (p, m')")
    case False
    with "1.prems" have "r = None" "s' = s" "fifo_of s c = []"
      by (auto simp: find_present_victim_in_proc.simps [of s c] fifo_of_def find_victim_page_def split: option.splits if_splits)
    then show ?thesis by (auto simp: evictable_def)
  next
    case True
    then obtain m p m' where m: "caller_mm s c = Some m" "find_victim_page m = Some (p, m')" by blast
    define s1 where "s1 = upd_mm c (\<lambda>_. m') s"
    note sh = callers_ok_shrink [OF vm_invD(3) [OF "1.prems"(1)] m, folded s1_def]
    have step: "fifo_step s s1" unfolding s1_def
      by (rule fifo_step_upd_mm)
         (use m sh(3) in \<open>auto simp: caller_mm_def caller_krnl_def bind_eq_Some_conv split: if_splits\<close>)
    note inv1 = vm_inv_fifo_step [OF "1.prems"(1) step sh(1)] and e = fifo_step_slots(1) [OF step vm_invD(1) [OF "1.prems"(1)]]
    have l: "fifo_pgn m = fifo_pgn m' @ [p]" using m(2) by (auto simp: find_victim_page_def split: if_splits)
    have "fifo_of s x = (if x = c then fifo_of s1 c @ [p] else fifo_of s1 x)" for x
      using m(1) l by (simp add: fifo_of_def s1_def)
    then have ev: "evictable s = evictable s1 \<union> (if resident s1 c p then {(c, push_bit 12 p)} else {})"
      by (auto simp: evictable_def resident_def e split: if_splits)
    show ?thesis
    proof (cases "resident s1 c p")
      case True
      with "1.prems"(2) m have "r = Some (p, pte_get_entry s1 c p)" "s' = s1"
        by (auto simp: find_present_victim_in_proc.simps [of s c] s1_def [symmetric] Let_def resident_def)
      with ev True show ?thesis by auto
    next
      case False
      with "1.prems"(2) m have rec: "find_present_victim_in_proc s1 c = (r, s')"
        by (simp add: find_present_victim_in_proc.simps [of s c] s1_def [symmetric] Let_def resident_def split: if_splits)
      have "evictable s = evictable s1" using ev False by simp
      moreover have "\<not> (PAGING64_PAGE_PRESENT (pte_get_entry s1 c p) \<and> \<not> PAGING64_PAGE_SWAPPED (pte_get_entry s1 c p))"
        using False by (simp add: resident_def)
      ultimately show ?thesis using "1.IH" [OF m(1,2) refl s1_def refl _ inv1 rec] by (cases r) auto
    qed
  qed
qed

lemma global_victim_loop_evictable:
  assumes "vm_inv w F s" "global_victim_loop s c ps = (r, s')"
  shows "case r of None \<Rightarrow> evictable s \<subseteq> evictable s' \<and> (\<forall>x a. x \<in> set ps \<and> x \<noteq> c \<longrightarrow> (x, a) \<notin> evictable s)
    | Some (v, p, pte) \<Rightarrow> evictable s \<subseteq> insert (v, push_bit 12 p) (evictable s')"
  using assms
proof (induction ps arbitrary: s)
  case (Cons q ps)
  show ?case
  proof (cases "q = NULL \<or> q = c")
    case True
    have "(NULL, a) \<notin> evictable s" for a by (simp add: evictable_def fifo_of_def)
    with True Cons show ?thesis by (fastforce split: option.splits)
  next
    case False
    obtain x s1 where f: "find_present_victim_in_proc s q = (x, s1)" by (cases "find_present_victim_in_proc s q")
    note ev = find_present_victim_evictable [OF Cons.prems(1) f]
    show ?thesis
    proof (cases x)
      case None
      with False f Cons.prems(2) have l: "global_victim_loop s1 c ps = (r, s')" by simp
      have "vm_inv w F s1" using find_present_victim_props [OF Cons.prems(1) f] by blast
      from Cons.IH [OF this l] ev None show ?thesis by (fastforce split: option.splits)
    next
      case (Some y)
      with False f Cons.prems(2) ev show ?thesis by (cases y) auto
    qed
  qed
qed simp

lemma find_global_victim_evictable:
  assumes "vm_inv w F s" "find_global_victim s c = (r, s')"
  shows "case r of None \<Rightarrow> victims s c = {} | Some (v, p, pte) \<Rightarrow> evictable s \<subseteq> insert (v, push_bit 12 p) (evictable s')"
proof -
  obtain x s1 where f: "find_present_victim_in_proc s c = (x, s1)" by (cases "find_present_victim_in_proc s c")
  note ev = find_present_victim_evictable [OF assms(1) f] and pr = find_present_victim_props [OF assms(1) f]
  show ?thesis
  proof (cases x)
    case None
    have "core s1 = core s" using pr by (simp add: fifo_step_def)
    then have o: "owners s c = owners s1 c" by (rule owners_core [symmetric])
    show ?thesis
    proof (cases "\<exists>k. caller_krnl s1 c = Some k \<and> k_running_list k")
      case True
      let ?ps = "take (qsize (running_list (sy_sched s1))) (qproc (running_list (sy_sched s1)))"
      have l: "global_victim_loop s1 c ?ps = (r, s')" and ow: "owners s1 c = insert c (set ?ps)"
        using assms(2) f None True by (auto simp: find_global_victim_def owners_def Let_def)
      have i: "vm_inv w F s1" using pr by blast
      have e1: "evictable s \<subseteq> evictable s1" "\<And>a. (c, a) \<notin> evictable s" using ev None by auto
      show ?thesis
      proof (cases r)
        case n: None
        then have "(x, a) \<notin> evictable s1" if "x \<in> set ?ps" "x \<noteq> c" for x a
          using that global_victim_loop_evictable [OF i l] by auto
        then show ?thesis using e1 o ow n by (auto simp: victims_def)
      next
        case (Some y)
        then show ?thesis using e1(1) global_victim_loop_evictable [OF i l] by (cases y) auto
      qed
    next
      case False
      then have "r = None" "owners s1 c = {c}"
        using assms(2) f None by (auto simp: find_global_victim_def owners_def split: option.splits if_splits)
      with ev None o show ?thesis by (auto simp: victims_def)
    qed
  next
    case (Some y)
    with f assms(2) ev show ?thesis by (cases y) (auto simp: find_global_victim_def)
  qed
qed

section \<open>Evicting and bringing back a page\<close>

lemma frame_ok_small:
  assumes "ram_like mp" "frame_ok mp f"
  shows "f < 2 ^ 40"
proof -
  have "unat f < 2 ^ 40" using assms by (auto simp: ram_like_def memphy_wf_def frame_ok_def)
  then show ?thesis by (simp add: word_less_nat_alt)
qed

lemma slot_of_entries:
  "g < 2 ^ 40 \<Longrightarrow> slot_of (pte_of_swap t g) = Some (True, g)"
  "g < 2 ^ 40 \<Longrightarrow> slot_of (pte_of_fpn g) = Some (False, g)"
  using take_bit_id [of g 40] pte_of_swap_off [of t g] pte_of_fpn_fpn [of g] by (auto simp: slot_of_def)

lemma slot_of_nonzero: "slot_of pte \<noteq> None \<Longrightarrow> pte \<noteq> 0"
  by (auto simp: slot_of_def)

lemma user_slot_entry: "user_slot s c p = Some sl \<Longrightarrow> pte_get_entry s c p \<noteq> 0 \<and> user_page p"
  using slot_of_nonzero [of "pte_get_entry s c p"] by (auto simp: user_slot_def split: if_splits)

lemma user_slot_same_page: "push_bit 12 q = push_bit 12 p \<Longrightarrow> user_slot s c q = user_slot s c p"
  by (simp add: user_slot_def user_page_def pte_get_entry_def)

text \<open>
  Remapping a page to a slot that holds the same bytes: no process notices.
\<close>

lemma remap_slot:
  assumes "vm_inv w F s" "sl \<in> F" "user_slot s c p = Some old" "slot_of v = Some sl"
    and same: "\<And>off. unat off < 4096 \<Longrightarrow> slot_byte w s sl off = slot_byte w s old off"
  shows "vm_inv w (insert old (F - {sl})) (pte_store s (c, push_bit 12 p) v)"
    and "vbyte w (pte_store s (c, push_bit 12 p) v) = vbyte w s"
    and "pte_set_entry s c p v = (0, pte_store s (c, push_bit 12 p) v)"
    and "user_slot (pte_store s (c, push_bit 12 p) v) x q =
      (if x = c \<and> push_bit 12 q = push_bit 12 p then Some sl else user_slot s x q)"
proof -
  note inv = vm_invD [OF assms(1)]
  note ue = user_slot_entry [OF assms(3)]
  let ?s = "pte_store s (c, push_bit 12 p) v"
  show e: "pte_set_entry s c p v = (0, ?s)" using pte_set_entry_exists [OF inv(1)] ue by simp
  have F': "insert old (F - {sl}) = (F - {sl}) \<union> set_option (user_slot s c p)" using assms(3) by auto
  note ss = set_slot_inv [OF assms(1,2) e _ assms(4) F']
  show "vm_inv w (insert old (F - {sl})) ?s" using ss(1) ue by blast
  have "vbyte w ?s x a = vbyte w s x a" for x a
  proof (cases "x = c \<and> push_bit 12 (drop_bit 12 a) = push_bit 12 p")
    case True
    then have "user_slot s x (drop_bit 12 a) = Some old" using user_slot_same_page assms(3) by metis
    then have "vbyte w s x a = Some (slot_byte w s old (a AND PAGING64_ADDR_OFFST_MASK))" by (simp add: vbyte_def)
    with True ss(2) [of x a] ue same [OF offset_less, of a] show ?thesis by simp
  next
    case False
    with ss(2) [of x a] ue show ?thesis by auto
  qed
  then show "vbyte w ?s = vbyte w s" by (simp add: fun_eq_iff)
  show "user_slot ?s x q = (if x = c \<and> push_bit 12 q = push_bit 12 p then Some sl else user_slot s x q)"
    using user_slot_set_entry [OF inv(1) e] ue assms(4) by simp
qed

text \<open>
  \<open>kept w F s s'\<close>: the content of the slots that the running code holds and the entries of the
  kernel half are the same in both states.
\<close>

definition kept :: "nat \<Rightarrow> slot set \<Rightarrow> sys \<Rightarrow> sys \<Rightarrow> bool" where
  "kept w F s s' \<longleftrightarrow> (\<forall>sl \<in> F. \<forall>off. unat off < 4096 \<longrightarrow> slot_byte w s' sl off = slot_byte w s sl off) \<and>
     (\<forall>c q. \<not> user_page q \<longrightarrow> pte_get_entry s' c q = pte_get_entry s c q)"

lemma kept_refl [simp]: "kept w F s s"
  by (simp add: kept_def)

lemma kept_trans [trans]: "kept w F s s' \<Longrightarrow> kept w F s' s'' \<Longrightarrow> kept w F s s''"
  by (auto simp: kept_def)

lemma kept_storage:
  "pte_get_entry s' = pte_get_entry s \<Longrightarrow> (\<And>d. storage (devs s' d) = storage (devs s d)) \<Longrightarrow> kept w F s s'"
  by (simp add: kept_def slot_byte_def)

lemma kept_with_free: "pt_wf s \<Longrightarrow> kept w F s (with_free d fl s)"
  by (intro kept_storage) (simp_all add: with_free_def pte_get_entry_upd_dev)

lemma kept_dev_put: "pt_wf s \<Longrightarrow> kept w F s (dev_put_freefp (Some d) f s)"
  by (rule dev_put_freefp_cases [of d f s])
     (auto intro!: kept_storage simp: with_free_def pte_get_entry_upd_dev pte_get_entry_host)

lemma kept_fifo_step: "fifo_step s s' \<Longrightarrow> pt_wf s \<Longrightarrow> kept w F s s'"
  by (intro kept_storage fifo_step_slots(1)) (auto simp: fifo_step_def)

lemma kept_copied:
  assumes "vm_inv w (insert (e, g) F) s" "(e, g) \<notin> F"
  shows "kept w F s (copied src f (dev_of w e) g 4096 s)"
proof -
  have "pte_get_entry (copied src f (dev_of w e) g 4096 s) = pte_get_entry s"
    using vm_invD(1) [OF assms(1)] by (simp add: copied_def pte_get_entry_upd_dev)
  moreover have "slot_byte w (copied src f (dev_of w e) g 4096 s) sl off = slot_byte w s sl off"
    if "sl \<in> F" "unat off < 4096" for sl off
    by (rule copied_inv(5) [OF assms(1) insertI1 refl]) (use that assms vm_invD(6) in auto)
  ultimately show ?thesis by (simp add: kept_def)
qed

lemma kept_pte_set_entry:
  assumes "pt_wf s" "user_page p" "pte_set_entry s c p v = (r, s')"
  shows "kept w F s s'"
proof -
  note pe = pte_set_entry_props [OF assms(1,3)]
  have "pte_get_entry s' x q = pte_get_entry s x q" if "\<not> user_page q" for x q
  proof -
    have "push_bit 12 q \<noteq> push_bit 12 p" using that assms(2) by (auto simp: user_page_def)
    then show ?thesis using pe(4,5) [of x q] pe(3) by (cases "r = 0") auto
  qed
  then show ?thesis by (simp add: kept_def slot_byte_def forget_ptD(2) [OF pe(2)])
qed

lemma kept_enlist:
  assumes "pt_wf s" "enlist_pgn_node c p s = (r, s')"
  shows "kept w F s s'"
proof -
  obtain h where h: "sys_alloc s = (sy_host s 0, s\<lparr>sy_host := h\<rparr>)" by (rule sys_alloc_cases)
  let ?s = "s\<lparr>sy_host := h\<rparr>" and ?f = "\<lambda>m. m\<lparr>fifo_pgn := p # fifo_pgn m\<rparr>"
  from h assms(2) have s': "s' = ?s \<or> s' = upd_mm c ?f ?s"
    by (auto simp: enlist_pgn_node_def split: if_splits)
  have "kept w F s ?s" using assms(1) by (intro kept_storage) (simp_all add: pte_get_entry_host)
  moreover have "kept w F ?s (upd_mm c ?f ?s)"
    using assms(1) by (intro kept_fifo_step fifo_step_upd_mm) auto
  ultimately show ?thesis using s' kept_trans by blast
qed

text \<open>
  An eviction takes one slot of the swap device and one page from what can be evicted, and it fails
  only if there is no slot or no page.
\<close>

definition evicted :: "nat \<Rightarrow> sys \<Rightarrow> pptr \<Rightarrow> addr option \<Rightarrow> sys \<Rightarrow> bool" where
  "evicted w s c r s' \<longleftrightarrow>
     (case r of None \<Rightarrow> caller_mm s c = None \<or> free_fp_list (devs s w) = [] \<or> victims s c = {}
      | Some f \<Rightarrow> (\<exists>v. victims s c \<subseteq> insert v (victims s' c)) \<and> free_fp_list (devs s w) \<noteq> [] \<and>
          (\<forall>d. free_fp_list (devs s' d) = (if d = w then tl (free_fp_list (devs s w)) else free_fp_list (devs s d))))"

lemma swap_out_run:
  assumes "vm_inv w F s"
  shows "\<exists>r s'. swap_out_victim_page s c = Some (r, s') \<and> vbyte w s' = vbyte w s \<and> calm s s' \<and> kept w F s s' \<and>
    (\<forall>x q g. user_slot s x q = Some (True, g) \<longrightarrow> user_slot s' x q = Some (True, g)) \<and>
    (case r of None \<Rightarrow> vm_inv w F s' | Some f \<Rightarrow> (False, f) \<notin> F \<and> vm_inv w (insert (False, f) F) s') \<and>
    evicted w s c r s'"
proof (cases "caller_mm s c")
  case None
  then show ?thesis using assms by (simp add: swap_out_victim_page_def evicted_def)
next
  case (Some m)
  with vm_invD(10) [OF assms] have dv: "caller_mram s c = Some 0" "caller_mswp s c = Some (dev_of w True)"
    by (auto simp: dev_of_def)
  obtain r1 s1 where g: "dev_get_freefp (Some (dev_of w True)) s = (r1, s1)"
    by (cases "dev_get_freefp (Some (dev_of w True)) s")
  show ?thesis
  proof (cases r1)
    case None
    with g have "s1 = s" using dev_get_freefp_None by simp
    moreover have "free_fp_list (devs s w) = []"
      using g None by (auto simp: dev_get_freefp_def MEMPHY_get_freefp_def dev_of_def split: list.splits)
    ultimately show ?thesis using None g assms Some dv by (simp add: swap_out_victim_page_def evicted_def)
  next
    case g1: (Some g)
    note i1 = dev_get_freefp_inv [OF assms, of True g s1, unfolded g1 [symmetric], OF g]
    obtain r2 s2 where v: "find_global_victim s1 c = (r2, s2)" by (cases "find_global_victim s1 c")
    note v1 = find_global_victim_props [OF i1(1) v]
    have i2: "vm_inv w (insert (True, g) F) s2" and st: "fifo_step s1 s2" using v1 by auto
    note sl2 = fifo_step_slots [OF st vm_invD(1) [OF i1(1)]]
    have put: "insert (True, g) F - {(True, g)} = F" using i1(5) by blast
    have c2: "calm s s2" using i1(4) calm_fifo_step [OF st] calm_trans by (metis calm_simps(1))
    have wt: "dev_of w True = w" by (simp add: dev_of_def)
    have e1: "evictable s1 = evictable s"
      using i1(4) vm_invD(1) [OF assms] by (intro evictable_cong) (simp_all add: with_free_def pte_get_entry_upd_dev)
    have oc: "owners s1 c = owners s c" by (rule owners_core) (simp add: i1(4))
    have vic1: "victims s1 c = victims s c" by (simp add: victims_def e1 oc)
    note ev = find_global_victim_evictable [OF i1(1) v]
    have k2: "kept w F s s2"
      using kept_with_free [OF vm_invD(1) [OF assms]] kept_fifo_step [OF st vm_invD(1) [OF i1(1)]] i1(4) kept_trans by metis
    show ?thesis
    proof (cases r2)
      case None
      let ?s = "dev_put_freefp (Some (dev_of w True)) g s2"
      have "swap_out_victim_page s c = Some (None, ?s)"
        using Some dv g g1 v None by (simp add: swap_out_victim_page_def)
      moreover have "vm_inv w F ?s" "vbyte w ?s = vbyte w s" "user_slot ?s = user_slot s"
        using dev_put_freefp_inv [OF i2, of True g] sl2(2,3) i1(2,3) put by simp_all
      moreover have "calm s ?s" using calm_trans [OF c2 calm_dev_put] .
      moreover have "kept w F s ?s" using kept_trans [OF k2 kept_dev_put [OF vm_invD(1) [OF i2]]] .
      moreover have "evicted w s c None ?s" using ev None vic1 by (simp add: evicted_def)
      ultimately show ?thesis by simp
    next
      case (Some y)
      obtain vp p pte where y: "y = (vp, p, pte)" by (cases y)
      with v1 Some have vic: "is_victim s2 vp p pte" by simp
      define f where "f = PAGING64_PTE_FPN pte"
      have old: "user_slot s2 vp p = Some (False, f)"
        using vic by (auto simp: is_victim_def user_slot_def slot_of_def f_def)
      define s3 where "s3 = copied 0 f (dev_of w True) g 4096 s2"
      have ok: "slot_ok w s2 (False, f)" "slot_ok w s2 (True, g)"
        using vm_invD(7) [OF i2 old] vm_invD(6) [OF i2, of "(True, g)"] by auto
      have d0: "dev_of w False = 0" by (simp add: dev_of_def)
      have cp: "swap_cp_page (Some 0) f (Some (dev_of w True)) g s2 = Some (0, s3)"
        unfolding s3_def using ok vm_invD(5) [OF i2, of False] vm_invD(5) [OF i2, of True]
        by (intro swap_cp_page_copied) (auto simp: slot_ok_def d0)
      note c3 = copied_inv [OF i2 insertI1 s3_def]
      have small: "g < 2 ^ 40" using frame_ok_small [OF vm_invD(5) [OF i2, of True]] ok(2) by (simp add: slot_ok_def)
      define t where "t = sint (k_active_mswp_id (the (caller_krnl s3 c)))"
      have "slot_byte w s3 (True, g) off = slot_byte w s3 (False, f) off" if "unat off < 4096" for off
        using c3(4) [OF that] c3(5) [OF _ ok(1) that] by (simp add: slot_byte_def d0)
      note r = remap_slot [OF c3(1) insertI1, of vp p "(False, f)" "pte_of_swap t g", unfolded c3(3),
        OF old slot_of_entries(1) [OF small] this]
      let ?s = "pte_store s3 (vp, push_bit 12 p) (pte_of_swap t g)"
      have "pte_set_swap s3 vp p t g = (0, ?s)"
        using r(3) pte_set_as_entry(2) [OF vm_invD(1) [OF c3(1)]] by simp
      with \<open>caller_mm s c = Some m\<close> dv g g1 v Some y cp have run: "swap_out_victim_page s c = Some (Some f, ?s)"
        by (simp add: swap_out_victim_page_def f_def t_def)
      have "vbyte w ?s = vbyte w s" using r(2) c3(2) sl2(3) i1(2) by simp
      moreover have "user_slot ?s x q = Some (True, h)" if "user_slot s x q = Some (True, h)" for x q h
      proof -
        have "user_slot s2 x q = Some (True, h)" using that sl2(2) i1(3) by simp
        moreover from this have "\<not> (x = vp \<and> push_bit 12 q = push_bit 12 p)"
          using user_slot_same_page old by (metis Pair_inject option.inject)
        ultimately show ?thesis using r(4) [of x q] c3(3) by auto
      qed
      moreover have "vm_inv w (insert (False, f) F) ?s" using r(1) put by simp
      moreover have "(False, f) \<notin> F" using vm_invD(8) [OF i2 old] by simp
      moreover have "calm s ?s"
        using calm_trans [OF c2 calm_trans [OF _ calm_pte_set_entry [OF vm_invD(1) [OF c3(1)] r(3)]]] by (simp add: s3_def)
      moreover have "evicted w s c (Some f) ?s"
      proof -
        have co: "core ?s = core s" using \<open>calm s ?s\<close> by (simp add: calm_def)
        have e3: "pte_get_entry s3 = pte_get_entry s2"
          using vm_invD(1) [OF i2] by (simp add: s3_def copied_def pte_get_entry_upd_dev)
        note pe = pte_set_entry_props [OF vm_invD(1) [OF c3(1)] r(3)]
        have fi: "fifo_of ?s x = fifo_of s2 x" for x
          using forget_ptD(5) [OF pe(2), of x] by (cases "caller_mm ?s x"; cases "caller_mm s2 x")
            (auto simp: fifo_of_def s3_def copied_def dest: arg_cong [of _ _ fifo_pgn])
        have "evictable s2 \<subseteq> {(vp, push_bit 12 p)} \<union> evictable ?s"
        proof (rule evictable_mono [OF fi])
          fix x q assume "(x, push_bit 12 q) \<notin> {(vp, push_bit 12 p)}"
          moreover have "\<not> is_kernel_address (push_bit 12 p)" using user_slot_entry [OF old] by (simp add: user_page_def)
          ultimately show "pte_get_entry ?s x q = pte_get_entry s2 x q"
            using pe(4) [of x q] e3 by (auto simp: same_space_def)
        qed
        then have "evictable s1 \<subseteq> insert (vp, push_bit 12 p) (evictable ?s)" using ev Some y by auto
        then have "victims s c \<subseteq> insert (vp, push_bit 12 p) (victims ?s c)"
          unfolding victims_def e1 owners_core [OF co] by auto
        moreover have "free_fp_list (devs ?s d) = free_fp_list (devs s2 d)" for d
          by (simp add: forget_ptD(2) [OF pe(2)] s3_def copied_def)
        moreover have "devs s2 = devs s1" using st by (simp add: fifo_step_def)
        moreover have "free_fp_list (devs s w) \<noteq> []"
          using g g1 by (auto simp: dev_get_freefp_def MEMPHY_get_freefp_def wt)
        ultimately show ?thesis unfolding evicted_def by (auto simp: i1(4) with_free_def wt)
      qed
      moreover have "kept w F s ?s"
      proof -
        note k2
        also have "kept w F s2 s3" unfolding s3_def by (rule kept_copied [OF i2 i1(5)])
        also have "kept w F s3 ?s"
          using kept_pte_set_entry [OF vm_invD(1) [OF c3(1)] _ r(3)] user_slot_entry [OF old] by simp
        finally show ?thesis .
      qed
      ultimately show ?thesis using run by auto
    qed
  qed
qed

lemma swap_out_ok:
  assumes "vm_inv w F s"
  shows "\<exists>r s'. swap_out_victim_page s c = Some (r, s') \<and> vbyte w s' = vbyte w s \<and> calm s s' \<and> kept w F s s' \<and>
    (\<forall>x q g. user_slot s x q = Some (True, g) \<longrightarrow> user_slot s' x q = Some (True, g)) \<and>
    (case r of None \<Rightarrow> vm_inv w F s' | Some f \<Rightarrow> (False, f) \<notin> F \<and> vm_inv w (insert (False, f) F) s')"
  using swap_out_run [OF assms, of c] by blast

lemma dev_put_pte_store: "dev_put_freefp d f (pte_store s l v) = pte_store (dev_put_freefp d f s) l v"
  by (cases d) (auto simp: dev_put_freefp_def pte_store_commute split: prod.splits)

lemma caller_mm_of_entry: "pt_wf s \<Longrightarrow> pte_get_entry s c p \<noteq> 0 \<Longrightarrow> caller_mm s c \<noteq> None"
  by (auto simp: pte_get_entry_view pte_view_def split: if_splits)

lemma vm_inv_host [simp]: "vm_inv w F s \<Longrightarrow> vm_inv w F (s\<lparr>sy_host := h\<rparr>)"
proof (rule vm_inv_cong)
  assume i: "vm_inv w F s"
  note inv = vm_invD(1-3) [OF i]
  show "user_slot (s\<lparr>sy_host := h\<rparr>) = user_slot s"
    using inv(1) by (intro user_slot_cong) (simp add: pte_get_entry_host)
qed (auto simp: devices_ok_def slot_ok_def dest: vm_invD(1-3))

lemma enlist_pgn_node_inv:
  assumes "vm_inv w F s" "user_page p" "enlist_pgn_node c p s = (r, s')"
  shows "vm_inv w F s'" "vbyte w s' = vbyte w s" "user_slot s' = user_slot s" "devs s' = devs s"
proof -
  obtain h where h: "sys_alloc s = (sy_host s 0, s\<lparr>sy_host := h\<rparr>)" by (rule sys_alloc_cases)
  let ?s = "s\<lparr>sy_host := h\<rparr>" and ?f = "\<lambda>m. m\<lparr>fifo_pgn := p # fifo_pgn m\<rparr>"
  from h assms(3) have s': "s' = ?s \<or> s' = upd_mm c ?f ?s"
    by (auto simp: enlist_pgn_node_def split: if_splits)
  note i = vm_inv_host [OF assms(1), of h]
  have st: "fifo_step ?s (upd_mm c ?f ?s)" by (rule fifo_step_upd_mm) blast
  have "callers_ok w (upd_mm c ?f ?s)"
    using vm_invD(3) [OF assms(1)] assms(2) by (auto simp: callers_ok_def)
  note i' = vm_inv_fifo_step [OF i st this] and sl = fifo_step_slots [OF st vm_invD(1) [OF i]]
  have us: "user_slot ?s = user_slot s"
    using vm_invD(1) [OF assms(1)] by (intro user_slot_cong) (simp add: pte_get_entry_host)
  then have "vbyte w ?s = vbyte w s" by (simp add: vbyte_def slot_byte_def fun_eq_iff)
  with s' i i' sl us show "vm_inv w F s'" "vbyte w s' = vbyte w s" "user_slot s' = user_slot s" "devs s' = devs s"
    by auto
qed

lemma calm_sys_alloc: "sys_alloc s = (ok, s') \<Longrightarrow> calm s s'"
  by (auto simp: calm_def sys_alloc_def halloc_def host_ok_def)

lemma calm_enlist:
  assumes "enlist_pgn_node c p s = (r, s')"
  shows "calm s s'"
proof -
  have "core (upd_mm c (\<lambda>m. m\<lparr>fifo_pgn := p # fifo_pgn m\<rparr>) u) = core u" for u
    by (rule core_upd_mm) (simp add: mm_core_def)
  with assms show ?thesis
    by (auto simp: enlist_pgn_node_def sys_alloc_def halloc_def calm_def host_ok_def split: if_splits)
qed

lemma pg_getpage_ok:
  assumes "vm_inv w F s" "user_page p"
  shows "\<exists>r s'. pg_getpage s c p = Some (r, s') \<and> vbyte w s' = vbyte w s \<and> vm_inv w F s' \<and> calm s s' \<and> kept w F s s' \<and>
    (\<forall>f. r = Some f \<longrightarrow> user_slot s' c p = Some (False, f)) \<and>
    (user_slot s c p = None \<longrightarrow> r = None \<and> s' = s) \<and>
    (\<forall>f. user_slot s c p = Some (False, f) \<longrightarrow> r = Some f \<and> s' = s)"
proof -
  let ?pte = "pte_get_entry s c p"
  have us: "user_slot s c p = slot_of ?pte" using assms(2) by (simp add: user_slot_def)
  consider "\<not> PAGING64_PAGE_PRESENT ?pte" "\<not> PAGING64_PAGE_SWAPPED ?pte"
    | "PAGING64_PAGE_PRESENT ?pte" | "\<not> PAGING64_PAGE_PRESENT ?pte" "PAGING64_PAGE_SWAPPED ?pte" by blast
  then show ?thesis
  proof cases
    case 1
    with assms us show ?thesis by (simp add: pg_getpage_def slot_of_def)
  next
    case 2
    with assms us show ?thesis by (simp add: pg_getpage_def slot_of_def)
  next
    case 3
    define g where "g = PAGING64_PTE_SWP ?pte"
    have old: "user_slot s c p = Some (True, g)" using us 3 by (simp add: slot_of_def g_def)
    obtain r1 s1 where so: "swap_out_victim_page s c = Some (r1, s1)" "vbyte w s1 = vbyte w s"
        "user_slot s1 c p = Some (True, g)"
        "case r1 of None \<Rightarrow> vm_inv w F s1 | Some f \<Rightarrow> (False, f) \<notin> F \<and> vm_inv w (insert (False, f) F) s1" "calm s s1" "kept w F s s1"
      using swap_out_ok [OF assms(1), of c] old by blast
    show ?thesis
    proof (cases r1)
      case None
      with so 3 old show ?thesis by (simp add: pg_getpage_def)
    next
      case (Some f)
      with so(4) have i1: "vm_inv w (insert (False, f) F) s1" and nF: "(False, f) \<notin> F" by auto
      have mm: "caller_mm s1 c \<noteq> None"
        using caller_mm_of_entry [OF vm_invD(1) [OF i1]] user_slot_entry [OF so(3)] by blast
      with vm_invD(10) [OF i1] have dv: "caller_mram s1 c = Some (dev_of w False)" "caller_mswp s1 c = Some (dev_of w True)"
        by (auto simp: dev_of_def)
      have ok: "slot_ok w s1 (False, f)" "slot_ok w s1 (True, g)"
        using vm_invD(7) [OF i1 so(3)] vm_invD(6) [OF i1, of "(False, f)"] by auto
      define s2 where "s2 = copied (dev_of w True) g (dev_of w False) f 4096 s1"
      have cp: "swap_cp_page (Some (dev_of w True)) g (Some (dev_of w False)) f s1 = Some (0, s2)"
        unfolding s2_def using ok vm_invD(5) [OF i1] by (intro swap_cp_page_copied) (auto simp: slot_ok_def)
      note c2 = copied_inv [OF i1 insertI1 s2_def]
      have small: "f < 2 ^ 40" using frame_ok_small [OF vm_invD(5) [OF i1, of False]] ok(1) by (simp add: slot_ok_def)
      have same: "slot_byte w s2 (False, f) off = slot_byte w s2 (True, g) off" if "unat off < 4096" for off
        using c2(4) [OF that] c2(5) [OF _ ok(2) that] by (simp add: slot_byte_def)
      note r = remap_slot [OF c2(1) insertI1, of c p "(True, g)" "pte_of_fpn f", unfolded c2(3),
        OF so(3) slot_of_entries(2) [OF small] same]
      let ?s3 = "dev_put_freefp (Some (dev_of w True)) g s2"
      let ?s4 = "dev_put_freefp (Some (dev_of w True)) g (pte_store s2 (c, push_bit 12 p) (pte_of_fpn f))"
      have wf3: "pt_wf ?s3 \<and> pte_get_entry ?s3 c p \<noteq> 0"
      proof -
        obtain fl h where s3: "?s3 = (with_free (dev_of w True) fl s2)\<lparr>sy_host := h\<rparr>"
          by (rule dev_put_freefp_cases)
        note wf = vm_invD(1) [OF c2(1)]
        have "pte_get_entry ?s3 = pte_get_entry s2" using wf
          by (simp add: s3 with_free_def pte_get_entry_host pte_get_entry_upd_dev)
        moreover have "pte_get_entry s2 c p \<noteq> 0" using user_slot_entry c2(3) so(3) by metis
        ultimately show ?thesis using wf s3 by simp
      qed
      then have set: "pte_set_entry ?s3 c p (pte_of_fpn f) = (0, ?s4)" "pte_set_fpn ?s3 c p f = (0, ?s4)"
        using pte_set_entry_exists [of ?s3 c p] pte_set_as_entry(1) [of ?s3] by (simp_all add: dev_put_pte_store)
      have F: "insert (True, g) (insert (False, f) F - {(False, f)}) - {(True, g)} = F"
        using nF vm_invD(8) [OF i1 so(3)] by blast
      note put = dev_put_freefp_inv [OF r(1) insertI1, unfolded F]
      obtain x s5 where en: "enlist_pgn_node c p ?s4 = (x, s5)" by (cases "enlist_pgn_node c p ?s4")
      note e = enlist_pgn_node_inv [OF put(1) assms(2) en]
      have fin: "user_slot s5 c p = Some (False, f)" using e(3) put(3) r(4) [of c p] by simp
      have "PAGING64_PTE_FPN (pte_get_entry s5 c p) = f"
        using fin assms(2) by (auto simp: user_slot_def slot_of_def split: if_splits)
      with 3 so(1) Some dv cp set en have "pg_getpage s c p = Some (Some f, s5)"
        by (simp add: pg_getpage_def g_def [symmetric] copied_frame s2_def)
      moreover have "vbyte w s5 = vbyte w s" using e(2) put(2) r(2) c2(2) so(2) by simp
      moreover have "calm s s5"
      proof -
        have "calm s s2" using calm_trans [OF so(5)] by (simp add: s2_def)
        also have "calm s2 ?s3" by (rule calm_dev_put)
        also have "calm ?s3 ?s4" using calm_pte_set_entry [OF _ set(1)] wf3 by simp
        also have "calm ?s4 s5" by (rule calm_enlist [OF en])
        finally show ?thesis .
      qed
      moreover have "kept w F s s5"
      proof -
        note so(6)
        also have "kept w F s1 s2" unfolding s2_def by (rule kept_copied [OF i1 nF])
        also have "kept w F s2 ?s3" by (rule kept_dev_put [OF vm_invD(1) [OF c2(1)]])
        also have "kept w F ?s3 ?s4" using kept_pte_set_entry [OF _ assms(2) set(1)] wf3 by simp
        also have "kept w F ?s4 s5" by (rule kept_enlist [OF vm_invD(1) [OF put(1)] en])
        finally show ?thesis .
      qed
      ultimately show ?thesis using e(1) fin old by simp
    qed
  qed
qed

section \<open>Reading and writing bytes\<close>

lemma same_byte_iff:
  "push_bit 12 (drop_bit 12 a) = push_bit 12 (drop_bit 12 b) \<and>
   a AND PAGING64_ADDR_OFFST_MASK = b AND PAGING64_ADDR_OFFST_MASK \<longleftrightarrow> a = b" for a b :: addr
  unfolding offset_field using bits_ident [of 12 a] bits_ident [of 12 b] by metis

lemma user_page_addr: "user_page (drop_bit 12 a) \<longleftrightarrow> \<not> is_kernel_address a"
  by (simp add: user_page_def is_kernel_address_bit bit_push_bit_iff bit_drop_bit_eq)

lemma write_byte:
  assumes "vm_inv w F s" "user_slot s c (drop_bit 12 a) = Some (False, f)"
    and off: "off = a AND PAGING64_ADDR_OFFST_MASK"
  shows "\<exists>s'. dev_write (Some 0) (f * PAGING64_PAGESZ + off) v s = Some (0, s') \<and> vm_inv w F s' \<and>
    user_slot s' = user_slot s \<and> calm s s' \<and> kept w F s s' \<and>
    (\<forall>x b. vbyte w s' x b = (if x = c \<and> b = a then Some v else vbyte w s x b))"
proof -
  note inv = vm_invD [OF assms(1)]
  have ok: "frame_ok (devs s 0) f" using inv(7) [OF assms(2)] by (simp add: slot_ok_def dev_of_def)
  have rl: "ram_like (devs s 0)" using inv(5) [of False] by (simp add: dev_of_def)
  have o: "unat off < 4096" unfolding off by (rule offset_less)
  define s' where "s' = upd_dev 0 ((devs s 0)\<lparr>storage := (storage (devs s 0))(cell f off := v)\<rparr>) s"
  have run: "dev_write (Some 0) (f * PAGING64_PAGESZ + off) v s = Some (0, s')"
    using dev_write_ok [OF rl unat_cell(2) [OF rl ok o]] by (simp add: cell_def s'_def)
  have us: "user_slot s' = user_slot s"
    using inv(1) by (intro user_slot_cong) (simp add: s'_def pte_get_entry_upd_dev)
  have "devices_ok w s'" "callers_ok w s'" "pt_wf s'" "\<And>sl. slot_ok w s' sl = slot_ok w s sl"
    using inv(1,2,3) by (auto simp: s'_def devices_ok_def slot_ok_def)
  then have i: "vm_inv w F s'" using vm_inv_cong [OF assms(1)] us by blast
  have "vbyte w s' x b = (if x = c \<and> b = a then Some v else vbyte w s x b)" for x b
  proof (cases "user_slot s x (drop_bit 12 b)")
    case None
    with assms(2) have "\<not> (x = c \<and> b = a)" by auto
    with None show ?thesis by (auto simp: vbyte_def us)
  next
    case (Some sl)
    let ?ob = "b AND PAGING64_ADDR_OFFST_MASK"
    have hit: "(sl = (False, f) \<and> ?ob = off) \<longleftrightarrow> x = c \<and> b = a"
    proof
      assume h: "sl = (False, f) \<and> ?ob = off"
      with inv(9) [OF assms(2), of x "drop_bit 12 b"] Some have "x = c" "push_bit 12 (drop_bit 12 b) = push_bit 12 (drop_bit 12 a)"
        by auto
      with h off same_byte_iff [of b a] show "x = c \<and> b = a" by simp
    qed (use assms(2) Some off in auto)
    have so: "frame_ok (devs s (dev_of w (fst sl))) (snd sl)" using inv(7) [OF Some] by (simp add: slot_ok_def)
    have "slot_byte w s' sl ?ob = (if sl = (False, f) \<and> ?ob = off then v else slot_byte w s sl ?ob)"
    proof (cases "fst sl")
      case True
      then show ?thesis using inv(4) by (auto simp: slot_byte_def s'_def dev_of_def)
    next
      case False
      with so cell_eq_iff [OF rl _ ok offset_less o, of "snd sl" b] show ?thesis
        by (cases sl) (auto simp: slot_byte_def s'_def dev_of_def)
    qed
    with Some hit show ?thesis by (simp add: vbyte_def us)
  qed
  moreover have "calm s s'" by (simp add: s'_def)
  moreover have "kept w F s s'"
  proof -
    have "slot_byte w s' sl ob = slot_byte w s sl ob" if sl: "sl \<in> F" "unat ob < 4096" for sl ob
    proof (cases "fst sl")
      case True
      then show ?thesis using inv(4) by (simp add: slot_byte_def s'_def dev_of_def)
    next
      case False
      have "frame_ok (devs s 0) (snd sl)" using inv(6) [OF sl(1)] False by (simp add: slot_ok_def dev_of_def)
      moreover have "snd sl \<noteq> f" using inv(8) [OF assms(2)] sl(1) False by (cases sl) auto
      ultimately show ?thesis using False cell_eq_iff [OF rl _ ok sl(2) o, of "snd sl"]
        by (auto simp: slot_byte_def s'_def dev_of_def)
    qed
    then show ?thesis using inv(1) by (simp add: kept_def s'_def pte_get_entry_upd_dev)
  qed
  ultimately show ?thesis using run us i by blast
qed

lemma read_byte:
  assumes "vm_inv w F s" "user_slot s c (drop_bit 12 a) = Some (False, f)"
  shows "\<exists>v. dev_read (Some 0) (f * PAGING64_PAGESZ + (a AND PAGING64_ADDR_OFFST_MASK)) s = Some (Some v, s) \<and>
    vbyte w s c a = Some v"
proof -
  have ok: "frame_ok (devs s 0) f" using vm_invD(7) [OF assms] by (simp add: slot_ok_def dev_of_def)
  have rl: "ram_like (devs s 0)" using vm_invD(5) [OF assms(1), of False] by (simp add: dev_of_def)
  show ?thesis
    using dev_read_ok [OF rl unat_cell(2) [OF rl ok offset_less [of a]]] assms(2)
    by (simp add: vbyte_def slot_byte_def dev_of_def cell_def)
qed

lemma caller_mram_of_slot:
  "vm_inv w F s \<Longrightarrow> user_slot s c p = Some sl \<Longrightarrow> caller_mram s c = Some 0 \<and> caller_mswp s c = Some w"
  using caller_mm_of_entry [OF vm_invD(1)] user_slot_entry vm_invD(10) by blast

lemma pg_getval_ok:
  assumes "vm_inv w F s" "\<not> is_kernel_address a"
  shows "\<exists>b s'. pg_getval s c a = Some (b, s') \<and> vm_inv w F s' \<and> vbyte w s' = vbyte w s \<and> calm s s' \<and> kept w F s s' \<and>
    (\<forall>v. b = Some v \<longrightarrow> vbyte w s c a = Some v) \<and>
    (\<forall>f. user_slot s c (drop_bit 12 a) = Some (False, f) \<longrightarrow> b = vbyte w s c a \<and> s' = s)"
proof -
  have up: "user_page (drop_bit 12 a)" using assms(2) by (simp add: user_page_addr)
  obtain r s1 where g: "pg_getpage s c (drop_bit 12 a) = Some (r, s1)" "vbyte w s1 = vbyte w s" "vm_inv w F s1"
      "\<And>f. r = Some f \<Longrightarrow> user_slot s1 c (drop_bit 12 a) = Some (False, f)"
      "\<And>f. user_slot s c (drop_bit 12 a) = Some (False, f) \<Longrightarrow> r = Some f \<and> s1 = s" "calm s s1" "kept w F s s1"
    using pg_getpage_ok [OF assms(1) up, of c] by blast
  show ?thesis
  proof (cases r)
    case None
    with g show ?thesis by (auto simp: pg_getval_def)
  next
    case (Some f)
    note us = g(4) [OF this]
    obtain v where "dev_read (Some 0) (f * PAGING64_PAGESZ + (a AND PAGING64_ADDR_OFFST_MASK)) s1 = Some (Some v, s1)"
        "vbyte w s1 c a = Some v" using read_byte [OF g(3) us] by blast
    with g Some caller_mram_of_slot [OF g(3) us] show ?thesis by (auto simp: pg_getval_def)
  qed
qed

lemma pg_setval_ok:
  assumes "vm_inv w F s" "\<not> is_kernel_address a"
  shows "\<exists>r s'. pg_setval s c a v = Some (r, s') \<and> vm_inv w F s' \<and> (r = 0 \<or> r = -1) \<and> calm s s' \<and> kept w F s s' \<and>
    (\<forall>x b. vbyte w s' x b = (if r = 0 \<and> x = c \<and> b = a then Some v else vbyte w s x b)) \<and>
    (r = 0 \<longrightarrow> (\<exists>f. user_slot s' c (drop_bit 12 a) = Some (False, f))) \<and>
    (vbyte w s c a = None \<longrightarrow> r = -1)"
proof -
  have up: "user_page (drop_bit 12 a)" using assms(2) by (simp add: user_page_addr)
  obtain r s1 where g: "pg_getpage s c (drop_bit 12 a) = Some (r, s1)" "vbyte w s1 = vbyte w s" "vm_inv w F s1"
      "\<And>f. r = Some f \<Longrightarrow> user_slot s1 c (drop_bit 12 a) = Some (False, f)" "calm s s1" "kept w F s s1"
    using pg_getpage_ok [OF assms(1) up, of c] by blast
  show ?thesis
  proof (cases r)
    case None
    with g show ?thesis by (auto simp: pg_setval_def)
  next
    case (Some f)
    note us = g(4) [OF this]
    obtain s' where wr: "dev_write (Some 0) (f * PAGING64_PAGESZ + (a AND PAGING64_ADDR_OFFST_MASK)) v s1 = Some (0, s')"
        "vm_inv w F s'" "user_slot s' = user_slot s1"
        "\<And>x b. vbyte w s' x b = (if x = c \<and> b = a then Some v else vbyte w s1 x b)" "calm s1 s'" "kept w F s1 s'"
      using write_byte [OF g(3) us refl, of v] by blast
    have "vbyte w s1 c a \<noteq> None" using us by (simp add: vbyte_def)
    then have "vbyte w s c a \<noteq> None" using g(2) by simp
    moreover have "pg_setval s c a v = Some (0, s')"
      using g(1) Some wr(1) caller_mram_of_slot [OF g(3) us] by (simp add: pg_setval_def)
    ultimately show ?thesis using wr(2,3,4) us g(2) calm_trans [OF g(5) wr(5)] kept_trans [OF g(6) wr(6)] by auto
  qed
qed

section \<open>Properties\<close>

text \<open>
  A system for the witnesses: page 2 of process 1 is mapped to frame 0 of RAM, the other frames of
  RAM and all frames of the swap device are free.
\<close>

lemma demo_sys_unmapped: "pte_get_entry demo_sys c p = 0" "user_slot demo_sys c p = None"
proof -
  show "pte_get_entry demo_sys c p = 0"
    by (auto simp: pte_get_entry_view pte_view_def root_of_def demo_sys_caller demo_mm_def demo_sys_roots)
  then show "user_slot demo_sys c p = None" by (simp add: user_slot_def slot_of_def)
qed

lemma demo_sys_inv: "vm_inv 1 {} demo_sys"
proof (rule vm_invI)
  have "devs demo_sys d = demo_ram" for d by (simp add: demo_sys_def)
  then show "devices_ok 1 demo_sys"
    by (auto simp: devices_ok_def ram_like_def frame_ok_def) (auto simp: demo_ram_def)
  show "callers_ok 1 demo_sys"
    by (auto simp: callers_ok_def caller_mram_def caller_mswp_def demo_sys_caller demo_mm_def demo_krnl_def
        split: if_splits)
qed (simp_all add: demo_sys_unmapped)

lemma demo_mapped:
  obtains s where "vm_inv 1 {} s" "user_slot s 1 2 = Some (False, 0)" "caller_mm s 1 \<noteq> None" "host_ok (sy_host s)"
    "free_fp_list (devs s 0) = [1]" "free_fp_list (devs s 1) = [0, 1]" "resident s 1 2"
proof -
  have "dev_get_freefp (Some (dev_of 1 False)) demo_sys = (Some 0, with_free 0 [1] demo_sys)"
    by (simp add: dev_get_freefp_def MEMPHY_get_freefp_def dev_of_def demo_sys_def demo_ram_def with_free_def)
  note i = dev_get_freefp_inv [OF demo_sys_inv this]
  let ?s = "with_free 0 [1] demo_sys"
  obtain r s where e: "pte_set_entry ?s 1 2 (pte_of_fpn 0) = (r, s)" by (cases "pte_set_entry ?s 1 2 (pte_of_fpn 0)")
  note pe = pte_set_entry_props [OF vm_invD(1) [OF i(1)] e]
  have r: "r = 0" "host_ok (sy_host s)" using pe(8) small_page_user [of 2] by (auto simp: demo_sys_caller)
  have up: "user_page 2" using small_page_user [of 2] by (simp add: user_page_def)
  have "user_slot ?s 1 2 = None" using i(3) demo_sys_unmapped by simp
  with set_slot_inv(1) [OF i(1) insertI1 e [unfolded r] up slot_of_entries(2) refl]
  have "vm_inv 1 {} s" by simp
  moreover have "user_slot s 1 2 = Some (False, 0)"
    using user_slot_set_entry [OF vm_invD(1) [OF i(1)] e [unfolded r] up, of 1 2] slot_of_entries(2) [of 0] by simp
  moreover have "caller_mm s 1 \<noteq> None" using forget_ptD(6) [OF pe(2), of 1] by (simp add: demo_sys_caller)
  moreover have "free_fp_list (devs s 0) = [1]" "free_fp_list (devs s 1) = [0, 1]"
    by (simp_all add: forget_ptD(2) [OF pe(2)] with_free_def demo_sys_def demo_ram_def)
  moreover have "pte_get_entry s 1 2 = pte_of_fpn 0"
    using pe(4) [OF r(1), of 1 2] pe(7) [OF r(1)] by (simp add: demo_sys_caller)
  then have "resident s 1 2" by (simp add: resident_def)
  ultimately show thesis using r(2) that by blast
qed

text \<open>The page is in the list of the process, and there is room on the swap device.\<close>

lemma demo_evictable:
  obtains s where "vm_inv 1 {} s" "caller_mm s 1 \<noteq> None" "victims s 1 \<noteq> {}" "free_fp_list (devs s 1) \<noteq> []"
proof -
  obtain s where s: "vm_inv 1 {} s" "caller_mm s 1 \<noteq> None" "host_ok (sy_host s)" "free_fp_list (devs s 1) = [0, 1]" "resident s 1 2"
    by (rule demo_mapped)
  obtain r s' where e: "enlist_pgn_node 1 2 s = (r, s')" by (cases "enlist_pgn_node 1 2 s")
  have "user_page 2" using small_page_user [of 2] by (simp add: user_page_def)
  note i = enlist_pgn_node_inv [OF s(1) this e]
  obtain h where h: "sys_alloc s = (True, s\<lparr>sy_host := h\<rparr>)" using s(3) by (auto simp: sys_alloc_def halloc_def host_ok_def)
  let ?s = "s\<lparr>sy_host := h\<rparr>" and ?f = "\<lambda>m. m\<lparr>fifo_pgn := 2 # fifo_pgn m\<rparr>"
  have s': "s' = upd_mm 1 ?f ?s" using e h by (simp add: enlist_pgn_node_def)
  have st: "fifo_step ?s s'" unfolding s' by (rule fifo_step_upd_mm) blast
  have "pte_get_entry s' = pte_get_entry s"
    using fifo_step_slots(1) [OF st] vm_invD(1) [OF s(1)] vm_invD(1) [OF vm_inv_host [OF s(1)]] by (simp add: pte_get_entry_host)
  then have "resident s' 1 2" using s(5) by (simp add: resident_def)
  moreover have "2 \<in> set (fifo_of s' 1)" using s(2) by (auto simp: s' fifo_of_def)
  ultimately have "(1, push_bit 12 2) \<in> evictable s'" unfolding evictable_def by blast
  then have "(1, push_bit 12 2) \<in> victims s' 1" by (simp add: victims_def owners_def)
  moreover have "caller_mm s' 1 \<noteq> None" using s(2) by (simp add: s')
  ultimately show thesis using that [OF i(1)] i(4) s(4) by auto
qed

text \<open>
  C1: Paged memory is memory. In a state of the invariant, \<open>pg_setval\<close> on a user address
  either succeeds, and then exactly the byte at that address of that process changes, or
  returns -1, and then no byte of any process changes; a byte that \<open>pg_getval\<close> returns is the
  current one, and reading changes no byte, however many pages of whichever processes were
  evicted and brought back on the way. No access leaves the storage of a device, the content of
  the frames that the kernel holds and its page-table entries stay, and the invariant holds
  afterwards.
\<close>

theorem virtual_memory_array:
  assumes "vm_inv w F s" "\<not> is_kernel_address a"
  shows "(\<exists>r s'. pg_setval s c a v = Some (r, s') \<and> (r = 0 \<or> r = -1) \<and> vm_inv w F s' \<and> kept w F s s' \<and>
      (\<forall>x b. vbyte w s' x b = (if r = 0 \<and> x = c \<and> b = a then Some v else vbyte w s x b))) \<and>
    (\<exists>d s'. pg_getval s c a = Some (d, s') \<and> vm_inv w F s' \<and> kept w F s s' \<and> vbyte w s' = vbyte w s \<and>
      (\<forall>u. d = Some u \<longrightarrow> vbyte w s c a = Some u))"
  using pg_setval_ok [OF assms, of c v] pg_getval_ok [OF assms, of c] by blast

theorem virtual_memory_array_witness:
  "\<exists>s r s'. vm_inv 1 {} s \<and> pg_setval s 1 0x2005 7 = Some (r, s') \<and> vm_inv 1 {} s' \<and> vbyte 1 s' 2 0x2005 = vbyte 1 s 2 0x2005"
proof -
  obtain s where s: "vm_inv 1 {} s" by (rule demo_mapped)
  have "\<not> is_kernel_address 0x2005" by (simp add: is_kernel_address_def)
  from virtual_memory_array [OF s this, of 1 7] obtain r s' where
    "pg_setval s 1 0x2005 7 = Some (r, s')" "vm_inv 1 {} s'"
    "\<And>x b. vbyte 1 s' x b = (if r = 0 \<and> x = 1 \<and> b = 0x2005 then Some 7 else vbyte 1 s x b)" by blast
  then show ?thesis using s by fastforce
qed

text \<open>
  A write is read back. When the page is resident, a write to it succeeds and the next
  read of that address returns the value.
\<close>

theorem write_then_read:
  assumes "vm_inv w {} s" "\<not> is_kernel_address a" "user_slot s c (drop_bit 12 a) = Some (False, f)"
  shows "\<exists>s'. pg_setval s c a v = Some (0, s') \<and> pg_getval s' c a = Some (Some v, s')"
proof -
  obtain s' where wr: "dev_write (Some 0) (f * PAGING64_PAGESZ + (a AND PAGING64_ADDR_OFFST_MASK)) v s = Some (0, s')"
      "vm_inv w {} s'" "user_slot s' = user_slot s" "vbyte w s' c a = Some v"
    using write_byte [OF assms(1,3) refl, of v] by auto
  have "pg_getpage s c (drop_bit 12 a) = Some (Some f, s)"
    using pg_getpage_ok [OF assms(1), of "drop_bit 12 a" c] assms(2,3) by (auto simp: user_page_addr)
  then have "pg_setval s c a v = Some (0, s')"
    using wr(1) caller_mram_of_slot [OF assms(1,3)] by (simp add: pg_setval_def)
  moreover have "pg_getval s' c a = Some (Some v, s')"
    using pg_getval_ok [OF wr(2) assms(2), of c] assms(3) wr(3,4) by auto
  ultimately show ?thesis by blast
qed

theorem write_then_read_witness:
  "\<exists>s s'. vm_inv 1 {} s \<and> pg_setval s 1 0x2005 7 = Some (0, s') \<and> pg_getval s' 1 0x2005 = Some (Some 7, s')"
proof -
  obtain s where s: "vm_inv 1 {} s" "user_slot s 1 2 = Some (False, 0)" by (rule demo_mapped)
  have "\<not> is_kernel_address 0x2005" "drop_bit 12 0x2005 = (2 :: addr)" by (simp_all add: is_kernel_address_def)
  with write_then_read [OF s(1), of "0x2005" 1 0 7] s show ?thesis by auto
qed

text \<open>
  C29: Eviction gives away a frame that nobody owns. \<open>swap_out_victim_page\<close> never faults;
  if it returns a frame, that frame is on no free list and no page of any process is mapped
  to it, the frames held before are still held, and every byte of every process is unchanged.
  If it fails, everything is as before, and it fails only if the swap device has no free slot or
  no page of the processes it searches is resident.
\<close>

theorem swap_out_transparent:
  assumes "vm_inv w F s"
  shows "\<exists>r s'. swap_out_victim_page s c = Some (r, s') \<and> vbyte w s' = vbyte w s \<and>
    (r = None \<longrightarrow> vm_inv w F s' \<and> (caller_mm s c = None \<or> free_fp_list (devs s w) = [] \<or> victims s c = {})) \<and>
    (\<forall>f. r = Some f \<longrightarrow> (False, f) \<notin> F \<and> vm_inv w (insert (False, f) F) s')"
proof -
  obtain r s' where "swap_out_victim_page s c = Some (r, s')" "vbyte w s' = vbyte w s"
      "case r of None \<Rightarrow> vm_inv w F s' | Some f \<Rightarrow> (False, f) \<notin> F \<and> vm_inv w (insert (False, f) F) s'" "evicted w s c r s'"
    using swap_out_run [OF assms, of c] by blast
  then show ?thesis by (cases r) (auto simp: evicted_def)
qed

theorem swap_out_transparent_witness:
  "\<exists>s f s'. vm_inv 1 {} s \<and> swap_out_victim_page s 1 = Some (Some f, s') \<and> vbyte 1 s' = vbyte 1 s \<and> vm_inv 1 {(False, f)} s'"
proof -
  obtain s where s: "vm_inv 1 {} s" "caller_mm s 1 \<noteq> None" "victims s 1 \<noteq> {}" "free_fp_list (devs s 1) \<noteq> []" by (rule demo_evictable)
  with swap_out_transparent [OF s(1), of 1] show ?thesis by fastforce
qed

text \<open>
  \<open>__swap_cp_page\<close> copies exactly one page. Between well-formed random-access devices and for
  frames inside them it returns 0, the destination frame holds the bytes of the source frame,
  and every other frame of the destination, every other device and all else is unchanged.
\<close>

theorem swap_cp_page_copies:
  assumes "ram_like (devs s src)" "ram_like (devs s dst)" "frame_ok (devs s src) f" "frame_ok (devs s dst) g"
    and "frame_ok (devs s dst) h" "unat off < 4096"
  shows "\<exists>s'. swap_cp_page (Some src) f (Some dst) g s = Some (0, s') \<and>
    storage (devs s' dst) (cell h off) = (if h = g then storage (devs s src) (cell f off) else storage (devs s dst) (cell h off)) \<and>
    (\<forall>d. d \<noteq> dst \<longrightarrow> devs s' d = devs s d) \<and> free_fp_list (devs s' dst) = free_fp_list (devs s dst) \<and>
    pcbs s' = pcbs s \<and> kroots s' = kroots s \<and> sy_sched s' = sy_sched s"
  using swap_cp_page_copied [OF assms(1-4)] copied_storage [OF assms(2,4,5,6), of src f]
  by (auto simp: copied_def)

theorem swap_cp_page_copies_witness:
  "\<exists>s'. swap_cp_page (Some 0) 1 (Some 1) 0 demo_sys = Some (0, s') \<and> devs s' 0 = demo_ram"
proof -
  have d: "devs demo_sys d = demo_ram" for d by (simp add: demo_sys_def)
  have "ram_like demo_ram" "frame_ok demo_ram 0" "frame_ok demo_ram 1"
    by (simp_all add: ram_like_def frame_ok_def)
  then show ?thesis
    using swap_cp_page_copies [of demo_sys 0 1 1 0 0 5] by (auto simp: d)
qed

end
