(* ===== verification/Vm_Area.thy ===== *)
theory Vm_Area
  imports Frame_Swap
begin

text \<open>
  Virtual memory areas: the list of free regions of an area (\<open>enlist_vm_rg_node\<close> of src/mm64.c,
  \<open>get_free_vmrg_area\<close> of src/libmem.c), the areas of an address space (\<open>get_vma_by_num\<close>,
  \<open>validate_overlap_vm_area\<close>, \<open>inc_vma_limit\<close> of src/mm-vm.c) and the allocation and mapping of
  frames behind them (\<open>alloc_pages_range\<close>, \<open>vmap_page_range\<close>, \<open>vm_map_ram\<close>, \<open>init_mm\<close> of
  src/mm64.c). As before, the outer \<open>None\<close> is a null dereference or an access out of bounds.
\<close>

section \<open>Free regions\<close>

text \<open>
  \<open>enlist_vm_rg_node\<close>: the nodes before the insertion point (\<open>prev\<close> is the last of them), the
  new node joined with the node after it, then with \<open>prev\<close>.
\<close>

definition enlist_vm_rg_node :: "rg_node list \<Rightarrow> rg_node \<Rightarrow> int \<times> rg_node list" where
  "enlist_vm_rg_node l rgnode =
     (if rg_start rgnode \<ge> rg_end rgnode then (-1, l)
      else
        let before = takeWhile (\<lambda>r. rg_start r < rg_start rgnode) l;
            curr = dropWhile (\<lambda>r. rg_start r < rg_start rgnode) l;
            (node, rest) =
              (case curr of
                 [] \<Rightarrow> (rgnode, [])
               | c # cs \<Rightarrow> if rg_end rgnode = rg_start c then (rgnode\<lparr>rg_end := rg_end c\<rparr>, cs) else (rgnode, curr))
        in if before \<noteq> [] \<and> rg_end (last before) = rg_start node
           then (0, butlast before @ (last before)\<lparr>rg_end := rg_end node\<rparr> # rest)
           else (0, before @ node # rest))"

text \<open>
  \<open>get_free_vmrg_area\<close>: first fit. The size is the C \<open>int\<close> parameter, sign-extended in the
  address arithmetic. A region that is used up is overwritten with its successor, and the last
  one stays as an empty region.
\<close>

fun free_region_loop :: "addr \<Rightarrow> rg_node list \<Rightarrow> (rg_node \<times> rg_node list) option" where
  "free_region_loop sz [] = None"
| "free_region_loop sz (r # rs) =
     (if rg_start r + sz \<le> rg_end r then
        let newrg = \<lparr>rg_start = rg_start r, rg_end = rg_start r + sz\<rparr> in
        if rg_start r + sz < rg_end r then Some (newrg, r\<lparr>rg_start := rg_start r + sz\<rparr> # rs)
        else (case rs of
                [] \<Rightarrow> Some (newrg, [r\<lparr>rg_start := rg_end r\<rparr>])
              | n # ns \<Rightarrow> Some (newrg, n # ns))
      else map_option (\<lambda>(newrg, rs'). (newrg, r # rs')) (free_region_loop sz rs))"

text \<open>The result is the region, or \<open>None\<close> for the return value -1, and the new list.\<close>

definition free_region :: "int \<Rightarrow> rg_node list \<Rightarrow> rg_node option \<times> rg_node list" where
  "free_region sz l =
     (case free_region_loop (addr_of_int sz) l of
        None \<Rightarrow> (None, l)
      | Some (newrg, l') \<Rightarrow> if rg_start newrg = addr_of_int (-1) then (None, l') else (Some newrg, l'))"

section \<open>Areas\<close>

text \<open>
  The loop of \<open>get_vma_by_num\<close> reads the id of the next area before it tests the pointer: past
  the last area it dereferences NULL. The result is an index into the list of areas.
\<close>

fun vma_loop :: "vm_area_struct list \<Rightarrow> nat \<Rightarrow> int \<Rightarrow> nat option" where
  "vma_loop [] i vid = None"
| "vma_loop (v # vs) i vid = (if int_of_addr (vm_id v) < vid then vma_loop vs (Suc i) vid else Some i)"

definition get_vma_by_num :: "mm_struct \<Rightarrow> int \<Rightarrow> nat option option" where
  "get_vma_by_num m vid =
     (if mm_mmap m = [] then Some None else map_option Some (vma_loop (mm_mmap m) 0 vid))"

definition upd_vma :: "pptr \<Rightarrow> nat \<Rightarrow> (vm_area_struct \<Rightarrow> vm_area_struct) \<Rightarrow> sys \<Rightarrow> sys" where
  "upd_vma c i f = upd_mm c (\<lambda>m. m\<lparr>mm_mmap := (mm_mmap m)[i := f (mm_mmap m ! i)]\<rparr>)"

definition get_free_vmrg_area :: "sys \<Rightarrow> pptr \<Rightarrow> int \<Rightarrow> int \<Rightarrow> (rg_node option \<times> sys) option" where
  "get_free_vmrg_area s c vid sz = do {
     m \<leftarrow> caller_mm s c;
     vma \<leftarrow> get_vma_by_num m vid;
     i \<leftarrow> vma;
     let (rg, l') = free_region sz (vm_freerg_list (mm_mmap m ! i));
     Some (rg, upd_vma c i (\<lambda>v. v\<lparr>vm_freerg_list := l'\<rparr>) s) }"

definition OVERLAP :: "addr \<Rightarrow> addr \<Rightarrow> addr \<Rightarrow> addr \<Rightarrow> bool" where
  "OVERLAP x1 x2 y1 y2 \<longleftrightarrow> x1 < y2 \<and> y1 < x2"

definition validate_overlap_vm_area :: "mm_struct \<Rightarrow> int \<Rightarrow> addr \<Rightarrow> addr \<Rightarrow> int option" where
  "validate_overlap_vm_area m vid vmastart vmaend =
     (if vmastart \<ge> vmaend then Some (-1)
      else do {
        cur \<leftarrow> get_vma_by_num m vid;
        case cur of None \<Rightarrow> Some (-1)
        | Some i \<Rightarrow>
          Some (if \<exists>j < length (mm_mmap m). j \<noteq> i \<and>
                     OVERLAP vmastart vmaend (vm_start (mm_mmap m ! j)) (vm_end (mm_mmap m ! j))
                then -1 else 0) })"

section \<open>Frames for a range of pages\<close>

fun release_frame_list :: "sys \<Rightarrow> pptr \<Rightarrow> addr list \<Rightarrow> sys" where
  "release_frame_list s c [] = s"
| "release_frame_list s c (fpn # fps) = release_frame_list (dev_put_freefp (caller_mram s c) fpn s) c fps"

function alloc_pages_loop :: "sys \<Rightarrow> pptr \<Rightarrow> int \<Rightarrow> int \<Rightarrow> addr list \<Rightarrow> (addr \<times> addr list \<times> sys) option" where
  "alloc_pages_loop s c pgit req_pgnum head =
     (if pgit < req_pgnum then do {
        (fpn, s1) \<leftarrow> (case dev_get_freefp (caller_mram s c) s of
                     (Some f, s') \<Rightarrow> Some (Some f, s')
                   | (None, s') \<Rightarrow> swap_out_victim_page s' c);
        case fpn of None \<Rightarrow> Some (addr_of_int (-3000), [], release_frame_list s1 c head)
        | Some f \<Rightarrow>
          let (ok, s2) = sys_alloc s1 in
          if \<not> ok then Some (addr_of_int (-1), [], release_frame_list (dev_put_freefp (caller_mram s2 c) f s2) c head)
          else alloc_pages_loop s2 c (pgit + 1) req_pgnum (head @ [f]) }
      else Some (0, head, s))"
  by pat_completeness auto
termination by (relation "measure (\<lambda>(s, c, pgit, n, h). nat (n - pgit))") auto

declare alloc_pages_loop.simps [simp del]

definition alloc_pages_range :: "sys \<Rightarrow> pptr \<Rightarrow> int \<Rightarrow> (addr \<times> addr list \<times> sys) option" where
  "alloc_pages_range s c req_pgnum =
     (if caller_mram s c = None \<or> req_pgnum < 0 then Some (addr_of_int (-1), [], s)
      else alloc_pages_loop s c 0 req_pgnum [])"

text \<open>
  \<open>vmap_page_range\<close> first builds the tables for the whole range, then enters the frames one by
  one. Both loops return whether they came to their end; the second also returns how many
  pages were mapped. \<open>pgit * PAGING64_PAGESZ\<close> is a product of two \<open>int\<close>s.
\<close>

function walk_range :: "sys \<Rightarrow> pptr \<Rightarrow> addr \<Rightarrow> int \<Rightarrow> int \<Rightarrow> bool \<times> sys" where
  "walk_range s c pgn pgit pgnum =
     (if pgit < pgnum then
        case walk_pte s c (push_bit 12 (pgn + addr_of_int pgit)) True of
          (None, s1) \<Rightarrow> (False, s1)
        | (Some _, s1) \<Rightarrow> walk_range s1 c pgn (pgit + 1) pgnum
      else (True, s))"
  by pat_completeness auto
termination by (relation "measure (\<lambda>(s, c, pgn, pgit, n). nat (n - pgit))") auto

declare walk_range.simps [simp del]

fun map_frames :: "sys \<Rightarrow> pptr \<Rightarrow> addr \<Rightarrow> int \<Rightarrow> int \<Rightarrow> addr list \<Rightarrow> bool \<times> int \<times> sys" where
  "map_frames s c pgn pgit pgnum [] = (True, pgit, s)"
| "map_frames s c pgn pgit pgnum (fpn # next) =
     (if pgit < pgnum then
        let (r, s1) = pte_set_fpn s c (pgn + addr_of_int pgit) fpn in
        if r \<noteq> 0 then (False, pgit, release_frame_list s1 c (fpn # next))
        else
          let (r, s2) = enlist_pgn_node c (pgn + addr_of_int pgit) s1 in
          if r \<noteq> 0 then
            let (_, s3) = pte_set_entry s2 c (pgn + addr_of_int pgit) 0;
                s4 = dev_put_freefp (caller_mram s3 c) fpn s3
            in (False, pgit, release_frame_list s4 c next)
          else map_frames s2 c pgn (pgit + 1) pgnum next
      else (True, pgit, s))"

definition vmap_page_range :: "sys \<Rightarrow> pptr \<Rightarrow> addr \<Rightarrow> int \<Rightarrow> addr list \<Rightarrow> rg_node \<Rightarrow> addr \<times> rg_node \<times> sys" where
  "vmap_page_range s c a pgnum frames ret_rg =
     (let pgn = drop_bit 12 a; bytes = (\<lambda>n. addr_of_int (int32 (n * 4096))) in
      if caller_mm s c = None \<or> validate_page_range a pgnum \<noteq> 0
      then (addr_of_int (-1), ret_rg, release_frame_list s c frames)
      else
        case walk_range s c pgn 0 pgnum of
          (False, s1) \<Rightarrow> (addr_of_int (-1), ret_rg\<lparr>rg_start := a, rg_end := a\<rparr>, release_frame_list s1 c frames)
        | (True, s1) \<Rightarrow>
          (case map_frames s1 c pgn 0 pgnum frames of
             (ok, pgit, s2) \<Rightarrow>
               (if ok then 0 else addr_of_int (-1), ret_rg\<lparr>rg_start := a, rg_end := a + bytes pgit\<rparr>, s2)))"

definition vm_map_ram :: "sys \<Rightarrow> pptr \<Rightarrow> addr \<Rightarrow> int \<Rightarrow> rg_node \<Rightarrow> (addr \<times> rg_node \<times> sys) option" where
  "vm_map_ram s c mapstart incpgnum ret_rg = do {
     (ret_alloc, frm_lst, s1) \<leftarrow> alloc_pages_range s c incpgnum;
     if ret_alloc < 0 \<and> ret_alloc \<noteq> addr_of_int (-3000) then Some (addr_of_int (-1), ret_rg, s1)
     else if ret_alloc = addr_of_int (-3000) then Some (addr_of_int (-1), ret_rg, s1)
     else
       case vmap_page_range s1 c mapstart incpgnum frm_lst ret_rg of
         (r, rg, s2) \<Rightarrow> Some (if r = addr_of_int (-1) then addr_of_int (-1) else 0, rg, s2) }"

text \<open>
  \<open>inc_vma_limit\<close>. The parameter \<open>junk\<close> is the content of the freshly allocated, uninitialised
  region node. The test \<open>vm_map_ram(...) < 0\<close> is a comparison of an unsigned number with 0.
\<close>

definition inc_vma_limit :: "rg_node \<Rightarrow> sys \<Rightarrow> pptr \<Rightarrow> int \<Rightarrow> addr \<Rightarrow> (int \<times> sys) option" where
  "inc_vma_limit junk s c vid inc_sz =
     (let (ok, s0) = sys_alloc s in
      if \<not> ok then Some (-1, s0)
      else do {
        let inc_amt = PAGING64_PAGE_ALIGNSZ inc_sz;
        let incnumpage = int_of_addr (inc_amt div PAGING64_PAGESZ);
        m \<leftarrow> caller_mm s0 c;
        cur_vma \<leftarrow> get_vma_by_num m vid;
        case cur_vma of None \<Rightarrow> Some (-1, s0)
        | Some i \<Rightarrow> do {
            let old_end = sbrk (mm_mmap m ! i);
            let new_end = old_end + inc_amt;
            v \<leftarrow> validate_overlap_vm_area m vid old_end new_end;
            if v < 0 then Some (-1, s0)
            else do {
              let s1 = upd_vma c i (\<lambda>v. v\<lparr>vm_end := new_end, sbrk := new_end\<rparr>) s0;
              (r, newrg, s2) \<leftarrow> vm_map_ram s1 c old_end incnumpage junk;
              if r < 0 then Some (-1, upd_vma c i (\<lambda>v. v\<lparr>vm_end := old_end, sbrk := old_end\<rparr>) s2)
              else Some (0, upd_vma c i (\<lambda>v. v\<lparr>vm_freerg_list := snd (enlist_vm_rg_node (vm_freerg_list v) newrg)\<rparr>) s2) } } })"

definition mm_swap_page :: "sys \<Rightarrow> pptr \<Rightarrow> addr \<Rightarrow> addr \<Rightarrow> (int \<times> sys) option" where
  "mm_swap_page s c vicfpn swpfpn =
     (if caller_mram s c = None \<or> caller_mswp s c = None then Some (-1, s)
      else swap_cp_page (caller_mram s c) vicfpn (caller_mswp s c) swpfpn s)"

section \<open>A new address space\<close>

text \<open>
  \<open>init_mm\<close>: two allocations, the kernel root if it is missing, and one empty area. The free
  list of the area stays empty, because \<open>enlist_vm_rg_node\<close> rejects the empty region; the
  allocation of its node is not checked.
\<close>

definition init_vm_rg :: "addr \<Rightarrow> addr \<Rightarrow> sys \<Rightarrow> (rg_node \<times> sys) option" where
  "init_vm_rg a b s = (let (ok, s1) = sys_alloc s in if ok then Some (\<lparr>rg_start = a, rg_end = b\<rparr>, s1) else None)"

definition init_mm :: "sys \<Rightarrow> krnl_t option \<Rightarrow> (int \<times> mm_struct option \<times> krnl_t option \<times> sys) option" where
  "init_mm s caller = do {
     let (vma0, s1) = sys_alloc s;
     let (pgd, s2) = sys_alloc s1;
     if \<not> pgd \<or> \<not> vma0 then Some (-1, None, caller, s2)
     else
       let (r, k, s3) =
             (case caller of None \<Rightarrow> (0, None, s2)
              | Some k \<Rightarrow> (case init_kernel_page_table k s2 of (r, k', s') \<Rightarrow> (r, Some k', s')))
       in if r \<noteq> 0 then Some (-1, None, k, s3)
          else do {
            (first_rg, s4) \<leftarrow> init_vm_rg 0 0 s3;
            let fl = snd (enlist_vm_rg_node [] first_rg);
            Some (0, Some \<lparr>mm_pgd = Some (empty_table [()]),
                     mm_mmap = [\<lparr>vm_id = 0, vm_start = 0, vm_end = 0, sbrk = 0, vm_freerg_list = fl\<rparr>],
                     symrgtbl = replicate PAGING_MAX_SYMTBL_SZ \<lparr>rg_start = 0, rg_end = 0, vmaid = 0\<rparr>,
                     fifo_pgn = [], kcpooltbl = None\<rparr>, k, s4) } }"

section \<open>The pool of free regions\<close>

text \<open>
  What allocation relies on: taking a region removes exactly its bytes from the pool, giving
  it back adds them again. Regions that were taken one after the other do not overlap.
\<close>

fun take_many :: "('n \<Rightarrow> 'p \<Rightarrow> 'r option \<times> 'p) \<Rightarrow> 'n list \<Rightarrow> 'p \<Rightarrow> 'r list \<times> 'p" where
  "take_many tk [] p = ([], p)"
| "take_many tk (n # ns) p =
     (case tk n p of
        (None, p') \<Rightarrow> take_many tk ns p'
      | (Some r, p') \<Rightarrow> (case take_many tk ns p' of (rs, q) \<Rightarrow> (r # rs, q)))"

locale region_pool =
  fixes tk :: "'n \<Rightarrow> 'p \<Rightarrow> 'r option \<times> 'p"
    and gv :: "'p \<Rightarrow> 'r \<Rightarrow> int \<times> 'p"
    and bytes :: "'r \<Rightarrow> addr set"
    and pool :: "'p \<Rightarrow> addr set"
    and ok :: "'p \<Rightarrow> bool"
    and valid :: "'n \<Rightarrow> bool"
    and fits :: "'r \<Rightarrow> bool"
  assumes take_some: "ok p \<Longrightarrow> valid n \<Longrightarrow> tk n p = (Some r, p') \<Longrightarrow>
      ok p' \<and> fits r \<and> bytes r \<subseteq> pool p \<and> pool p' = pool p - bytes r"
    and take_none: "ok p \<Longrightarrow> valid n \<Longrightarrow> tk n p = (None, p') \<Longrightarrow> p' = p"
    and give: "ok p \<Longrightarrow> fits r \<Longrightarrow> bytes r \<inter> pool p = {} \<Longrightarrow>
      fst (gv p r) = 0 \<and> ok (snd (gv p r)) \<and> pool (snd (gv p r)) = pool p \<union> bytes r"
begin

lemma take_many_disjoint:
  assumes "ok p" "\<forall>n \<in> set ns. valid n" "take_many tk ns p = (rs, q)"
  shows "ok q \<and> sorted_wrt (\<lambda>r r'. bytes r \<inter> bytes r' = {}) rs \<and> (\<Union>r \<in> set rs. bytes r) \<subseteq> pool p \<and>
    pool q = pool p - (\<Union>r \<in> set rs. bytes r)"
  using assms
proof (induction ns arbitrary: p rs)
  case (Cons n ns)
  obtain x p' where t: "tk n p = (x, p')" by (cases "tk n p")
  show ?case
  proof (cases x)
    case None
    with t Cons.prems take_none [of p n p'] have "take_many tk ns p = (rs, q)" by simp
    with Cons.IH [of p rs] Cons.prems show ?thesis by simp
  next
    case (Some r)
    with t take_some [of p n r p'] Cons.prems have p': "ok p'" "bytes r \<subseteq> pool p" "pool p' = pool p - bytes r" by auto
    from Cons.prems(3) t Some obtain rs' where "take_many tk ns p' = (rs', q)" "rs = r # rs'"
      by (auto split: prod.splits)
    with Cons.IH [of p' rs'] p' Cons.prems(2) show ?thesis by auto
  qed
qed simp

lemma take_give:
  assumes "ok p" "valid n" "tk n p = (Some r, p')"
  shows "pool (snd (gv p' r)) = pool p \<and> ok (snd (gv p' r))"
  using take_some [OF assms] give [of p' r] by auto

end

definition rg_bytes :: "rg_node \<Rightarrow> addr set" where
  "rg_bytes r = {a. rg_start r \<le> a \<and> a < rg_end r}"

definition covered :: "rg_node list \<Rightarrow> addr set" where
  "covered l = (\<Union>r \<in> set l. rg_bytes r)"

text \<open>
  The invariant of a free list: regions without overlap in the lower half of the 64-bit space, so
  that adding a size does not wrap. Empty regions may remain. The list is sorted by start as long
  as no region was used up at its end, but nothing depends on the order.
\<close>

definition rg_fits :: "rg_node \<Rightarrow> bool" where
  "rg_fits r \<longleftrightarrow> rg_start r \<le> rg_end r \<and> rg_end r < 2 ^ 63"

definition rg_list_ok :: "rg_node list \<Rightarrow> bool" where
  "rg_list_ok l \<longleftrightarrow> sorted_wrt (\<lambda>r q. rg_bytes r \<inter> rg_bytes q = {}) l \<and>
     (\<forall>r \<in> set l. rg_fits r)"

lemma rg_list_ok_append:
  "rg_list_ok (xs @ ys) \<longleftrightarrow> rg_list_ok xs \<and> rg_list_ok ys \<and>
     (\<forall>x \<in> set xs. \<forall>y \<in> set ys. rg_bytes x \<inter> rg_bytes y = {})"
  by (auto simp: rg_list_ok_def sorted_wrt_append)

lemma rg_list_ok_Cons:
  "rg_list_ok (x # ys) \<longleftrightarrow> rg_fits x \<and> rg_list_ok ys \<and>
     (\<forall>y \<in> set ys. rg_bytes x \<inter> rg_bytes y = {})"
  by (auto simp: rg_list_ok_def)

lemma covered_simps [simp]: "covered [] = {}" "covered (x # xs) = rg_bytes x \<union> covered xs"
  "covered (xs @ ys) = covered xs \<union> covered ys"
  by (auto simp: covered_def)

lemma rg_list_ok_Nil [simp]: "rg_list_ok []"
  by (simp add: rg_list_ok_def)

lemma disjoint_covered: "A \<inter> covered l = {} \<longleftrightarrow> (\<forall>r \<in> set l. A \<inter> rg_bytes r = {})"
  by (auto simp: covered_def)

text \<open>Joining adjacent regions.\<close>

lemma rg_join:
  assumes "rg_fits r" "rg_fits q" "rg_end r = rg_start q"
  shows "rg_bytes (r\<lparr>rg_end := rg_end q\<rparr>) = rg_bytes r \<union> rg_bytes q" "rg_fits (r\<lparr>rg_end := rg_end q\<rparr>)"
  using assms by (auto simp: rg_bytes_def rg_fits_def)

lemma enlist_insert:
  assumes "rg_list_ok (xs @ ys)" "rg_fits r" "rg_bytes r \<inter> covered (xs @ ys) = {}"
  shows "rg_list_ok (xs @ r # ys)" "covered (xs @ r # ys) = covered (xs @ ys) \<union> rg_bytes r"
proof -
  have d: "\<forall>x \<in> set (xs @ ys). rg_bytes r \<inter> rg_bytes x = {}"
    using assms(3) by (simp add: disjoint_covered del: covered_simps)
  then have "\<forall>x \<in> set xs. rg_bytes x \<inter> rg_bytes r = {}" "\<forall>y \<in> set ys. rg_bytes r \<inter> rg_bytes y = {}"
    by (simp_all add: Int_commute)
  with assms(1,2) show "rg_list_ok (xs @ r # ys)"
    by (simp add: rg_list_ok_append rg_list_ok_Cons)
  show "covered (xs @ r # ys) = covered (xs @ ys) \<union> rg_bytes r" by auto
qed

lemma enlist_vm_rg_node_ok:
  assumes "rg_list_ok l" "rg_fits r" "rg_start r < rg_end r" "rg_bytes r \<inter> covered l = {}"
  shows "fst (enlist_vm_rg_node l r) = 0 \<and> rg_list_ok (snd (enlist_vm_rg_node l r)) \<and>
    covered (snd (enlist_vm_rg_node l r)) = covered l \<union> rg_bytes r"
proof -
  define xs where "xs = takeWhile (\<lambda>q. rg_start q < rg_start r) l"
  define ys where "ys = dropWhile (\<lambda>q. rg_start q < rg_start r) l"
  have l: "l = xs @ ys" by (simp add: xs_def ys_def)
  \<comment> \<open>the node after joining it with its successor\<close>
  obtain node rest where nr: "(case ys of [] \<Rightarrow> (r, []) | c # cs \<Rightarrow>
      if rg_end r = rg_start c then (r\<lparr>rg_end := rg_end c\<rparr>, cs) else (r, ys)) = (node, rest)" by fastforce
  have "rg_fits node \<and> rg_list_ok (xs @ rest) \<and> rg_bytes node \<inter> covered (xs @ rest) = {} \<and>
      rg_bytes node \<union> covered (xs @ rest) = rg_bytes r \<union> covered l"
  proof (cases "\<exists>c cs. ys = c # cs \<and> rg_end r = rg_start c")
    case True
    then obtain c cs where ys: "ys = c # cs" "rg_end r = rg_start c" by blast
    with nr have n: "node = r\<lparr>rg_end := rg_end c\<rparr>" "rest = cs" by auto
    from assms(1) l ys have c: "rg_fits c" "rg_list_ok (xs @ cs)" "rg_bytes c \<inter> covered (xs @ cs) = {}"
      by (auto simp: rg_list_ok_append rg_list_ok_Cons covered_def)
    note j = rg_join [OF assms(2) c(1) ys(2)]
    have "rg_bytes r \<inter> covered (xs @ cs) = {}" using assms(4) l ys by auto
    with c(3) have "rg_bytes node \<inter> covered (xs @ cs) = {}" by (simp only: n(1) j(1) Int_Un_distrib2 Un_empty)
    moreover have "rg_bytes node \<union> covered (xs @ cs) = rg_bytes r \<union> covered l"
      by (simp only: n(1) j(1) l ys(1) covered_simps) blast
    ultimately show ?thesis using j(2) c(2) n ys by auto
  next
    case False
    with nr have "node = r" "rest = ys" by (auto split: list.splits if_splits)
    with assms l show ?thesis by auto
  qed
  then have node: "rg_fits node" "rg_list_ok (xs @ rest)" "rg_bytes node \<inter> covered (xs @ rest) = {}"
    "rg_bytes node \<union> covered (xs @ rest) = rg_bytes r \<union> covered l" by blast+
  have run: "enlist_vm_rg_node l r = (0, if xs \<noteq> [] \<and> rg_end (last xs) = rg_start node
      then butlast xs @ (last xs)\<lparr>rg_end := rg_end node\<rparr> # rest else xs @ node # rest)"
    using less_le_not_le [THEN iffD1, OF assms(3)] nr by (auto simp: enlist_vm_rg_node_def Let_def xs_def [symmetric] ys_def [symmetric])
  show ?thesis
  proof (cases "xs \<noteq> [] \<and> rg_end (last xs) = rg_start node")
    case False
    with run enlist_insert [OF node(2,1,3)] node(4) show ?thesis by auto
  next
    case True
    define zs p where "zs = butlast xs" and "p = last xs"
    have xs: "xs = zs @ [p]" using True by (simp add: zs_def p_def)
    from node(2) xs have p: "rg_fits p" "rg_list_ok (zs @ rest)" "rg_bytes p \<inter> covered (zs @ rest) = {}"
      by (auto simp: rg_list_ok_append rg_list_ok_Cons covered_def)
    have pe: "rg_end p = rg_start node" using True by (simp add: p_def)
    note j = rg_join [OF p(1) node(1) pe]
    have d: "rg_bytes (p\<lparr>rg_end := rg_end node\<rparr>) \<inter> covered (zs @ rest) = {}"
      using node(3) p(3) by (simp only: j(1) Int_Un_distrib2 xs covered_simps) blast
    note ins = enlist_insert [OF p(2) j(2) d]
    have "covered (zs @ p\<lparr>rg_end := rg_end node\<rparr> # rest) = rg_bytes r \<union> covered l"
      using node(4) by (simp only: covered_simps j(1) xs) blast
    with run True ins(1) show ?thesis by (auto simp: zs_def p_def)
  qed
qed

text \<open>First fit.\<close>

lemma region_add:
  assumes "rg_fits r" "0 < sz" "sz < 2 ^ 31"
  shows "rg_start r < rg_start r + addr_of_int sz" "unat (rg_start r + addr_of_int sz) = unat (rg_start r) + nat sz"
proof -
  have w: "unat (addr_of_int sz) = nat sz" using assms by (simp add: unat_addr_of_int)
  have b: "unat (rg_start r) < 2 ^ 63"
    using assms(1) by (auto simp: rg_fits_def word_less_nat_alt word_le_nat_alt)
  show u: "unat (rg_start r + addr_of_int sz) = unat (rg_start r) + nat sz"
    using b w assms(3) by (simp add: unat_word_ariths)
  show "rg_start r < rg_start r + addr_of_int sz" using u assms(2) by (simp add: word_less_nat_alt)
qed

lemma region_cut:
  assumes "rg_fits r" "0 < sz" "sz < 2 ^ 31" "rg_start r + addr_of_int sz \<le> rg_end r"
  defines "n \<equiv> \<lparr>rg_start = rg_start r, rg_end = rg_start r + addr_of_int sz\<rparr>"
    and "q \<equiv> r\<lparr>rg_start := rg_start r + addr_of_int sz\<rparr>"
  shows "rg_bytes n \<union> rg_bytes q = rg_bytes r" "rg_bytes n \<inter> rg_bytes q = {}" "rg_fits q" "rg_fits n"
    "rg_start r \<le> rg_start q" "rg_bytes q \<subseteq> rg_bytes r"
  using region_add [OF assms(1,2,3)] assms(1,4) by (auto simp: rg_bytes_def rg_fits_def n_def q_def)

lemma free_region_loop_some:
  assumes "rg_list_ok l" "0 < sz" "sz < 2 ^ 31" "free_region_loop (addr_of_int sz) l = Some (n, l')"
  shows "rg_list_ok l' \<and> rg_bytes n \<subseteq> covered l \<and> covered l' = covered l - rg_bytes n \<and> rg_fits n \<and>
    rg_end n = rg_start n + addr_of_int sz \<and> rg_start n < rg_end n"
  using assms
proof (induction l arbitrary: l')
  case (Cons r rs)
  from Cons.prems(1) have r: "rg_fits r" "rg_list_ok rs" "\<forall>q \<in> set rs. rg_bytes r \<inter> rg_bytes q = {}"
    by (auto simp: rg_list_ok_Cons)
  then have dis: "rg_bytes r \<inter> covered rs = {}" by (simp add: disjoint_covered)
  note add = region_add [OF r(1) Cons.prems(2,3)]
  show ?case
  proof (cases "rg_start r + addr_of_int sz \<le> rg_end r")
    case True
    note cut = region_cut [OF r(1) Cons.prems(2,3) True]
    let ?q = "r\<lparr>rg_start := rg_start r + addr_of_int sz\<rparr>"
    have n: "n = \<lparr>rg_start = rg_start r, rg_end = rg_start r + addr_of_int sz\<rparr>"
      using Cons.prems(4) True by (auto simp: Let_def split: if_splits list.splits)
    have cov: "rg_bytes n \<subseteq> covered (r # rs)" "covered (r # rs) - rg_bytes n = rg_bytes ?q \<union> covered rs"
      using cut(1,2) dis unfolding n by auto
    consider "l' = ?q # rs" "rg_start r + addr_of_int sz < rg_end r"
      | "l' = [r\<lparr>rg_start := rg_end r\<rparr>]" "rs = []" "rg_start r + addr_of_int sz = rg_end r"
      | "l' = rs" "rg_start r + addr_of_int sz = rg_end r"
      using Cons.prems(4) True by (auto simp: Let_def split: if_splits list.splits)
    then have "rg_list_ok l' \<and> covered l' = rg_bytes ?q \<union> covered rs"
    proof cases
      case 1
      have "\<forall>q \<in> set rs. rg_bytes ?q \<inter> rg_bytes q = {}" using r(3) cut(6) by blast
      with 1 r(2) cut(3) show ?thesis by (simp add: rg_list_ok_Cons)
    next
      case 2
      with r(1) add(1) show ?thesis by (auto simp: rg_list_ok_def rg_fits_def rg_bytes_def)
    next
      case 3
      have "rg_bytes ?q = {}" using 3 by (auto simp: rg_bytes_def)
      with 3 r(2) show ?thesis by auto
    qed
    with cov cut(4) n add(1) show ?thesis by simp
  next
    case False
    then obtain rs' where rec: "free_region_loop (addr_of_int sz) rs = Some (n, rs')" "l' = r # rs'"
      using Cons.prems(4) by (auto split: if_splits)
    note IH = Cons.IH [OF r(2) Cons.prems(2,3) rec(1)]
    have "rg_bytes r \<inter> covered rs' = {}" "rg_bytes r \<inter> rg_bytes n = {}" using IH dis by blast+
    then have "\<forall>q \<in> set rs'. rg_bytes r \<inter> rg_bytes q = {}" by (simp only: disjoint_covered)
    then have "rg_list_ok l'" using IH r(1) by (simp add: rg_list_ok_Cons rec(2))
    moreover have "covered l' = covered (r # rs) - rg_bytes n"
      using IH \<open>rg_bytes r \<inter> rg_bytes n = {}\<close> by (auto simp: rec(2))
    ultimately show ?thesis using IH by auto
  qed
qed simp

lemma free_region_loop_none:
  "free_region_loop n l = None \<longleftrightarrow> (\<forall>r \<in> set l. \<not> rg_start r + n \<le> rg_end r)"
  by (induction l) (auto simp: Let_def split: list.splits)

lemma free_region_some:
  assumes "rg_list_ok l" "0 < sz" "sz < 2 ^ 31" "free_region sz l = (Some n, l')"
  shows "rg_list_ok l' \<and> rg_bytes n \<subseteq> covered l \<and> covered l' = covered l - rg_bytes n \<and> rg_fits n \<and>
    rg_end n = rg_start n + addr_of_int sz \<and> rg_start n < rg_end n"
proof -
  from assms(4) have "free_region_loop (addr_of_int sz) l = Some (n, l')"
    by (auto simp: free_region_def split: option.splits if_splits)
  from free_region_loop_some [OF assms(1,2,3) this] show ?thesis .
qed

lemma rg_list_fits: "rg_list_ok l \<Longrightarrow> r \<in> set l \<Longrightarrow> rg_fits r"
  by (simp add: rg_list_ok_def)

text \<open>The search fails exactly when no region is large enough, and then nothing changes.\<close>

lemma free_region_none:
  assumes "rg_list_ok l" "0 < sz" "sz < 2 ^ 31" "free_region sz l = (None, l')"
  shows "l' = l" "\<forall>r \<in> set l. unat (rg_end r) < unat (rg_start r) + nat sz"
proof -
  have none: "free_region_loop (addr_of_int sz) l = None"
  proof (rule ccontr)
    assume "free_region_loop (addr_of_int sz) l \<noteq> None"
    then obtain n l'' where f: "free_region_loop (addr_of_int sz) l = Some (n, l'')" by auto
    with free_region_loop_some [OF assms(1,2,3) f] have "rg_start n < 2 ^ 63"
      by (auto simp: rg_fits_def)
    with f assms(4) show False by (auto simp: free_region_def addr_of_int_def split: if_splits)
  qed
  with assms(4) show "l' = l" by (simp add: free_region_def)
  show "\<forall>r \<in> set l. unat (rg_end r) < unat (rg_start r) + nat sz"
  proof
    fix r assume r: "r \<in> set l"
    with none have "\<not> rg_start r + addr_of_int sz \<le> rg_end r" by (simp add: free_region_loop_none)
    then show "unat (rg_end r) < unat (rg_start r) + nat sz"
      using region_add(2) [OF rg_list_fits [OF assms(1) r] assms(2,3)] by (simp add: word_le_nat_alt)
  qed
qed

interpretation frl: region_pool free_region enlist_vm_rg_node rg_bytes covered rg_list_ok
  "\<lambda>n. 0 < n \<and> n < 2 ^ 31" "\<lambda>r. rg_fits r \<and> rg_start r < rg_end r"
proof
  fix p n r p' assume "rg_list_ok p" "0 < n \<and> n < 2 ^ 31" "free_region n p = (Some r, p')"
  with free_region_some [of p n r p'] show "rg_list_ok p' \<and> (rg_fits r \<and> rg_start r < rg_end r) \<and>
    rg_bytes r \<subseteq> covered p \<and> covered p' = covered p - rg_bytes r" by blast
next
  fix p n p' assume "rg_list_ok p" "0 < n \<and> n < 2 ^ 31" "free_region n p = (None, p')"
  with free_region_none(1) [of p n p'] show "p' = p" by blast
next
  fix p r assume "rg_list_ok p" "rg_fits r \<and> rg_start r < rg_end r" "rg_bytes r \<inter> covered p = {}"
  with enlist_vm_rg_node_ok [of p r] show "fst (enlist_vm_rg_node p r) = 0 \<and>
    rg_list_ok (snd (enlist_vm_rg_node p r)) \<and> covered (snd (enlist_vm_rg_node p r)) = covered p \<union> rg_bytes r"
    by blast
qed

section \<open>Allocating and mapping frames\<close>

lemma calm_mram:
  assumes "calm s s'" "vm_inv w F' s'" "caller_mm s c \<noteq> None"
  shows "caller_mram s' c = Some (dev_of w False)" "caller_mm s' c \<noteq> None"
proof -
  show mm: "caller_mm s' c \<noteq> None" using assms(3) calmD(6) [OF assms(1)] by simp
  then obtain m where "caller_mm s' c = Some m" by blast
  from vm_invD(10) [OF assms(2) this] show "caller_mram s' c = Some (dev_of w False)" by (simp add: dev_of_def)
qed

lemma sys_alloc_inv:
  assumes "vm_inv w F s" "sys_alloc s = (ok, s')"
  shows "vm_inv w F s'" "vbyte w s' = vbyte w s" "user_slot s' = user_slot s" "host_ok (sy_host s) \<Longrightarrow> ok"
proof -
  obtain h where h: "sys_alloc s = (sy_host s 0, s\<lparr>sy_host := h\<rparr>)" by (rule sys_alloc_cases)
  with assms(2) have s': "s' = s\<lparr>sy_host := h\<rparr>" "ok = sy_host s 0" by auto
  show "vm_inv w F s'" unfolding s'(1) by (rule vm_inv_host [OF assms(1)])
  show us: "user_slot s' = user_slot s"
    using vm_invD(1) [OF assms(1)] by (intro user_slot_cong) (simp add: s' pte_get_entry_host)
  have "devs s' = devs s" by (simp add: s'(1))
  then show "vbyte w s' = vbyte w s" by (simp add: vbyte_def us slot_byte_def fun_eq_iff)
  show "host_ok (sy_host s) \<Longrightarrow> ok" by (simp add: s' host_ok_def)
qed

lemma release_frame_list_inv:
  assumes "vm_inv w F s" "caller_mm s c \<noteq> None" "distinct fs" "Pair False ` set fs \<subseteq> F"
  shows "vm_inv w (F - Pair False ` set fs) (release_frame_list s c fs)"
    "vbyte w (release_frame_list s c fs) = vbyte w s" "user_slot (release_frame_list s c fs) = user_slot s"
    "calm s (release_frame_list s c fs)"
proof -
  have "vm_inv w (F - Pair False ` set fs) (release_frame_list s c fs) \<and>
    vbyte w (release_frame_list s c fs) = vbyte w s \<and> user_slot (release_frame_list s c fs) = user_slot s \<and>
    calm s (release_frame_list s c fs)"
    using assms
  proof (induction fs arbitrary: s F)
    case (Cons f fs)
    let ?s = "dev_put_freefp (caller_mram s c) f s"
    have mram: "caller_mram s c = Some (dev_of w False)" using calm_mram(1) [OF calm_refl Cons.prems(1,2)] .
    have "(False, f) \<in> F" using Cons.prems(4) by simp
    note put = dev_put_freefp_inv [OF Cons.prems(1) this, folded mram]
    have "calm s ?s" by (rule calm_dev_put)
    moreover have "vm_inv w (F - {(False, f)} - Pair False ` set fs) (release_frame_list ?s c fs) \<and>
        vbyte w (release_frame_list ?s c fs) = vbyte w ?s \<and> user_slot (release_frame_list ?s c fs) = user_slot ?s \<and>
        calm ?s (release_frame_list ?s c fs)"
      by (rule Cons.IH [OF put(1)]) (use Cons.prems calm_mram(2) [OF \<open>calm s ?s\<close> put(1)] in auto)
    moreover have "F - {(False, f)} - Pair False ` set fs = F - Pair False ` set (f # fs)" by auto
    ultimately show ?case using put(2,3) calm_trans by auto
  qed simp
  then show "vm_inv w (F - Pair False ` set fs) (release_frame_list s c fs)"
    "vbyte w (release_frame_list s c fs) = vbyte w s" "user_slot (release_frame_list s c fs) = user_slot s"
    "calm s (release_frame_list s c fs)" by auto
qed

text \<open>
  The frames that \<open>c\<close> can get: the free ones, and those of pages that can be evicted as long as there
  are slots for them.
\<close>

definition frames_avail :: "nat \<Rightarrow> sys \<Rightarrow> pptr \<Rightarrow> nat" where
  "frames_avail w s c = length (free_fp_list (devs s 0)) + min (length (free_fp_list (devs s w))) (card (victims s c))"

lemma victims_cong:
  assumes "\<And>x. caller_mm s' x = caller_mm s x" "pte_get_entry s' = pte_get_entry s" "core s' = core s"
  shows "victims s' c = victims s c"
  by (simp only: victims_def evictable_cong [OF assms(1,2)] owners_core [OF assms(3)])

lemma frames_avail_host: "pt_wf s \<Longrightarrow> frames_avail w (s\<lparr>sy_host := h\<rparr>) c = frames_avail w s c"
  using victims_cong [of "s\<lparr>sy_host := h\<rparr>" s c] by (simp add: frames_avail_def pte_get_entry_host)

text \<open>One frame: from the free list, or from a victim.\<close>

lemma grab_frame:
  assumes "vm_inv w F s" "caller_mm s c \<noteq> None"
  shows "\<exists>r s'. (case dev_get_freefp (caller_mram s c) s of
       (Some f, s') \<Rightarrow> Some (Some f, s') | (None, s') \<Rightarrow> swap_out_victim_page s' c) = Some (r, s') \<and>
    vbyte w s' = vbyte w s \<and> calm s s' \<and>
    (case r of None \<Rightarrow> vm_inv w F s' | Some f \<Rightarrow> (False, f) \<notin> F \<and> vm_inv w (insert (False, f) F) s') \<and>
    (0 < frames_avail w s c \<longrightarrow> r \<noteq> None \<and> frames_avail w s c \<le> Suc (frames_avail w s' c))"
proof -
  have mram: "caller_mram s c = Some (dev_of w False)" using calm_mram(1) [OF calm_refl assms] .
  have w: "w \<noteq> 0" using vm_invD(4) [OF assms(1)] .
  obtain x s1 where g: "dev_get_freefp (Some (dev_of w False)) s = (x, s1)"
    by (cases "dev_get_freefp (Some (dev_of w False)) s")
  show ?thesis
  proof (cases x)
    case None
    with g have s1: "s1 = s" using dev_get_freefp_None by simp
    have e: "free_fp_list (devs s 0) = []"
      using g None by (auto simp: dev_get_freefp_def MEMPHY_get_freefp_def dev_of_def split: list.splits)
    obtain r s' where r: "swap_out_victim_page s c = Some (r, s')" "vbyte w s' = vbyte w s" "calm s s'"
        "case r of None \<Rightarrow> vm_inv w F s' | Some f \<Rightarrow> (False, f) \<notin> F \<and> vm_inv w (insert (False, f) F) s'" "evicted w s c r s'"
      using swap_out_run [OF assms(1), of c] by blast
    have "r \<noteq> None \<and> frames_avail w s c \<le> Suc (frames_avail w s' c)" if "0 < frames_avail w s c"
    proof -
      from that e have "free_fp_list (devs s w) \<noteq> []" "victims s c \<noteq> {}" by (auto simp: frames_avail_def)
      with r(5) assms(2) obtain f where f: "r = Some f" by (auto simp: evicted_def split: option.splits)
      with r(5) obtain v where v: "victims s c \<subseteq> insert v (victims s' c)" "free_fp_list (devs s' 0) = []"
          "free_fp_list (devs s' w) = tl (free_fp_list (devs s w))" using e w by (auto simp: evicted_def)
      have "card (victims s c) \<le> Suc (card (victims s' c))"
        using card_mono [OF _ v(1)] finite_victims card_insert_le_m1 [of "Suc (card (victims s' c))" "victims s' c" v]
        by (auto intro: order_trans)
      then show ?thesis using f v(2,3) e by (auto simp: frames_avail_def)
    qed
    with r g None mram s1 show ?thesis by auto
  next
    case (Some f)
    note i = dev_get_freefp_inv [OF assms(1), of False f s1, unfolded Some [symmetric], OF g]
    have "calm s s1" unfolding i(4) by simp
    moreover have "frames_avail w s c \<le> Suc (frames_avail w s1 c)"
    proof -
      have "victims s1 c = victims s c"
        unfolding i(4) using vm_invD(1) [OF assms(1)] by (intro victims_cong) (simp_all add: with_free_def pte_get_entry_upd_dev)
      then show ?thesis using w by (simp add: frames_avail_def i(4) with_free_def dev_of_def)
    qed
    ultimately show ?thesis using g Some i(1,2,5) mram by auto
  qed
qed

lemma alloc_pages_loop_ok:
  assumes "vm_inv w (F \<union> Pair False ` set hd0) s" "caller_mm s c \<noteq> None" "distinct hd0" "F \<inter> Pair False ` set hd0 = {}"
  shows "\<exists>ret fs s'. alloc_pages_loop s c i n hd0 = Some (ret, fs, s') \<and> vbyte w s' = vbyte w s \<and> calm s s' \<and>
    (if ret = 0 then length fs = length hd0 + nat (n - i) \<and> distinct fs \<and> F \<inter> Pair False ` set fs = {} \<and>
       vm_inv w (F \<union> Pair False ` set fs) s'
     else fs = [] \<and> vm_inv w F s') \<and>
    (host_ok (sy_host s) \<longrightarrow> ret = 0 \<or> ret = addr_of_int (-3000)) \<and>
    (host_ok (sy_host s) \<and> nat (n - i) \<le> frames_avail w s c \<longrightarrow> ret = 0)"
  using assms
proof (induction "nat (n - i)" arbitrary: i s hd0)
  case 0
  then show ?case by (auto simp: alloc_pages_loop.simps [of s c i n hd0])
next
  case (Suc k)
  then have "i < n" "k = nat (n - (i + 1))" by auto
  let ?F = "F \<union> Pair False ` set hd0"
  obtain r s1 where g: "(case dev_get_freefp (caller_mram s c) s of
       (Some f, s') \<Rightarrow> Some (Some f, s') | (None, s') \<Rightarrow> swap_out_victim_page s' c) = Some (r, s1)"
     "vbyte w s1 = vbyte w s" "calm s s1"
     "case r of None \<Rightarrow> vm_inv w ?F s1 | Some f \<Rightarrow> (False, f) \<notin> ?F \<and> vm_inv w (insert (False, f) ?F) s1"
     "0 < frames_avail w s c \<longrightarrow> r \<noteq> None \<and> frames_avail w s c \<le> Suc (frames_avail w s1 c)"
    using grab_frame [OF Suc.prems(1,2)] by (elim exE conjE) (rule that; assumption)
  have enough: "\<exists>f. r = Some f \<and> k \<le> frames_avail w s1 c" if "nat (n - i) \<le> frames_avail w s c"
  proof -
    have "0 < frames_avail w s c" "Suc k \<le> frames_avail w s c" using that Suc.hyps(2) by simp_all
    with g(5) show ?thesis by (auto dest: order_trans)
  qed
  have diff: "?F - Pair False ` set hd0 = F" using Suc.prems(4) by blast
  show ?case
  proof (cases r)
    case None
    with g(4) have i1: "vm_inv w ?F s1" by simp
    note rel = release_frame_list_inv [OF i1 calm_mram(2) [OF g(3) i1 Suc.prems(2)] Suc.prems(3), unfolded diff]
    have "alloc_pages_loop s c i n hd0 = Some (addr_of_int (-3000), [], release_frame_list s1 c hd0)"
      using \<open>i < n\<close> g(1) None by (simp add: alloc_pages_loop.simps [of s c i n hd0])
    then show ?thesis using rel g(2) calm_trans [OF g(3) rel(4)] enough None by (auto simp: addr_of_int_def)
  next
    case (Some f)
    with g(4) have i1: "vm_inv w (insert (False, f) ?F) s1" and nf: "(False, f) \<notin> ?F" by auto
    obtain ok s2 where al: "sys_alloc s1 = (ok, s2)" by (cases "sys_alloc s1")
    note i2 = sys_alloc_inv [OF i1 al]
    have c2: "calm s s2" using calm_trans [OF g(3) calm_sys_alloc [OF al]] .
    note m2 = calm_mram [OF c2 i2(1) Suc.prems(2)]
    show ?thesis
    proof (cases ok)
      case True
      have step: "alloc_pages_loop s c i n hd0 = alloc_pages_loop s2 c (i + 1) n (hd0 @ [f])"
        using \<open>i < n\<close> g(1) Some al True by (simp add: alloc_pages_loop.simps [of s c i n hd0])
      have F2: "insert (False, f) ?F = F \<union> Pair False ` set (hd0 @ [f])" by auto
      have new: "distinct (hd0 @ [f])" "F \<inter> Pair False ` set (hd0 @ [f]) = {}" using Suc.prems(3,4) nf by auto
      obtain ret fs s' where "alloc_pages_loop s2 c (i + 1) n (hd0 @ [f]) = Some (ret, fs, s')"
        "vbyte w s' = vbyte w s2" "calm s2 s'"
        "if ret = 0 then length fs = length (hd0 @ [f]) + nat (n - (i + 1)) \<and> distinct fs \<and> F \<inter> Pair False ` set fs = {} \<and>
           vm_inv w (F \<union> Pair False ` set fs) s' else fs = [] \<and> vm_inv w F s'"
        "host_ok (sy_host s2) \<longrightarrow> ret = 0 \<or> ret = addr_of_int (-3000)"
        "host_ok (sy_host s2) \<and> nat (n - (i + 1)) \<le> frames_avail w s2 c \<longrightarrow> ret = 0"
        using Suc.hyps(1) [OF \<open>k = _\<close> i2(1) [unfolded F2] m2(2) new] by blast
      moreover have "length (hd0 @ [f]) + nat (n - (i + 1)) = length hd0 + nat (n - i)" using \<open>i < n\<close> by simp
      moreover have "frames_avail w s2 c = frames_avail w s1 c"
        using al frames_avail_host [OF vm_invD(1) [OF i1]] by (auto simp: sys_alloc_def split: prod.splits)
      moreover have "host_ok (sy_host s) \<longrightarrow> host_ok (sy_host s2)" using c2 by (simp add: calm_def)
      ultimately show ?thesis using step i2(2) g(2) calm_trans [OF c2] enough \<open>k = _\<close> by auto
    next
      case False
      have "(False, f) \<in> insert (False, f) ?F" by simp
      note put = dev_put_freefp_inv [OF i2(1) this, folded m2(1)]
      let ?s3 = "dev_put_freefp (caller_mram s2 c) f s2"
      have c3: "calm s ?s3" using calm_trans [OF c2 calm_dev_put] .
      have i3: "vm_inv w ?F ?s3" using put(1) nf by simp
      note rel = release_frame_list_inv [OF i3 calm_mram(2) [OF c3 i3 Suc.prems(2)] Suc.prems(3), unfolded diff]
      have "alloc_pages_loop s c i n hd0 = Some (addr_of_int (-1), [], release_frame_list ?s3 c hd0)"
        using \<open>i < n\<close> g(1) Some al False by (simp add: alloc_pages_loop.simps [of s c i n hd0])
      moreover have "\<not> host_ok (sy_host s)" using i2(4) g(3) False by (auto simp: calm_def)
      ultimately show ?thesis using rel put(2) i2(2) g(2) calm_trans [OF c3 rel(4)] by (auto simp: addr_of_int_def)
    qed
  qed
qed

text \<open>Building tables is invisible.\<close>

lemma vm_inv_view:
  assumes "vm_inv w F s" "pt_wf s'" "pte_get_entry s' = pte_get_entry s" "forget_pt s' = forget_pt s"
  shows "vm_inv w F s'" "vbyte w s' = vbyte w s" "user_slot s' = user_slot s"
proof -
  note inv = vm_invD(1-3) [OF assms(1)]
  have d: "devs s' = devs s" by (rule forget_ptD(2) [OF assms(4)])
  show us: "user_slot s' = user_slot s"
    by (rule user_slot_cong [OF assms(3)])
  show "vm_inv w F s'"
    by (rule vm_inv_cong [OF assms(1,2) _ _ _ us])
       (use inv callers_ok_forget [OF assms(4)] in \<open>simp_all add: devices_ok_def slot_ok_def d\<close>)
  show "vbyte w s' = vbyte w s" by (simp add: vbyte_def us slot_byte_def d fun_eq_iff)
qed

lemma walk_range_inv:
  assumes "vm_inv w F s" "walk_range s c pgn i n = (ok, s')"
  shows "vm_inv w F s' \<and> vbyte w s' = vbyte w s \<and> user_slot s' = user_slot s \<and> calm s s' \<and>
    (host_ok (sy_host s) \<and> caller_mm s c \<noteq> None \<and>
      (\<forall>k. i \<le> k \<and> k < n \<longrightarrow> canonical (push_bit 12 (pgn + addr_of_int k))) \<longrightarrow> ok)"
  using assms
proof (induction "nat (n - i)" arbitrary: i s)
  case 0
  then show ?case by (simp add: walk_range.simps [of s c pgn i n])
next
  case (Suc k)
  then have i: "i < n" "k = nat (n - (i + 1))" by auto
  obtain l s1 where wk: "walk_pte s c (push_bit 12 (pgn + addr_of_int i)) True = (l, s1)"
    by (cases "walk_pte s c (push_bit 12 (pgn + addr_of_int i)) True")
  note wp = walk_pte_props [OF vm_invD(1) [OF Suc.prems(1)] wk]
  have "pte_get_entry s1 = pte_get_entry s"
    using wp(1,2) vm_invD(1) [OF Suc.prems(1)] by (intro ext) (simp add: pte_get_entry_view)
  note v = vm_inv_view [OF Suc.prems(1) wp(1) this wp(3)]
  have c1: "calm s s1" using wp(6) core_forget [OF wp(3)] by (auto simp: calm_def)
  show ?case
  proof (cases l)
    case None
    with Suc.prems(2) i wk have "ok = False" "s' = s1" by (simp_all add: walk_range.simps [of s c pgn i n])
    moreover have "\<not> (host_ok (sy_host s) \<and> caller_mm s c \<noteq> None \<and> canonical (push_bit 12 (pgn + addr_of_int i)))"
      using wp(6) None by blast
    ultimately show ?thesis using v c1 i(1) by blast
  next
    case (Some x)
    with Suc.prems(2) i wk have rec: "walk_range s1 c pgn (i + 1) n = (ok, s')"
      by (simp add: walk_range.simps [of s c pgn i n])
    note IH = Suc.hyps(1) [OF i(2) v(1) rec]
    have "ok" if "host_ok (sy_host s)" "caller_mm s c \<noteq> None"
        "\<forall>k. i \<le> k \<and> k < n \<longrightarrow> canonical (push_bit 12 (pgn + addr_of_int k))"
    proof -
      have "host_ok (sy_host s1)" "caller_mm s1 c \<noteq> None" using that(1,2) calmD(2,6) [OF c1] by simp_all
      moreover have "\<forall>k. i + 1 \<le> k \<and> k < n \<longrightarrow> canonical (push_bit 12 (pgn + addr_of_int k))" using that(3) by simp
      ultimately show ?thesis using IH by blast
    qed
    with IH v(2,3) calm_trans [OF c1] show ?thesis by auto
  qed
qed

lemma vm_inv_mono: "vm_inv w F s \<Longrightarrow> F' \<subseteq> F \<Longrightarrow> vm_inv w F' s"
  unfolding vm_inv_def by blast

text \<open>Taking a page out again: its slot is owned by the running code.\<close>

lemma clear_slot_inv:
  assumes "vm_inv w F s" "user_slot s c p = Some sl" "pte_set_entry s c p 0 = (r, s')"
  shows "r = 0" "vm_inv w (insert sl F) s'" "calm s s'"
    and "user_slot s' x q = (if x = c \<and> push_bit 12 q = push_bit 12 p then None else user_slot s x q)"
    and "\<not> (x = c \<and> push_bit 12 (drop_bit 12 a) = push_bit 12 p) \<Longrightarrow> vbyte w s' x a = vbyte w s x a"
proof -
  note inv = vm_invD [OF assms(1)]
  note ue = user_slot_entry [OF assms(2)]
  show r: "r = 0" using pte_set_entry_exists [OF inv(1), of c p 0] ue assms(3) by simp
  note e = assms(3) [unfolded r]
  note pe = pte_set_entry_props [OF inv(1) e]
  show "calm s s'" by (rule calm_pte_set_entry [OF inv(1) e])
  have us: "user_slot s' x q = (if x = c \<and> push_bit 12 q = push_bit 12 p then None else user_slot s x q)" for x q
    using user_slot_set_entry [OF inv(1) e conjunct2 [OF ue]] by (simp add: slot_of_def)
  then show "user_slot s' x q = (if x = c \<and> push_bit 12 q = push_bit 12 p then None else user_slot s x q)" .
  have d: "devs s' = devs s" by (rule forget_ptD(2) [OF pe(2)])
  have so: "slot_ok w s' = slot_ok w s" by (simp add: slot_ok_def d fun_eq_iff)
  show "vbyte w s' x a = vbyte w s x a" if "\<not> (x = c \<and> push_bit 12 (drop_bit 12 a) = push_bit 12 p)"
    using that by (auto simp: vbyte_def us slot_byte_def d)
  show "vm_inv w (insert sl F) s'"
  proof (rule vm_invI)
    show "pt_wf s'" "devices_ok w s'" "callers_ok w s'"
      using pe(1) inv(2,3) callers_ok_forget [OF pe(2)] by (simp_all add: devices_ok_def d)
    show "slot_ok w s' y" if "y \<in> insert sl F" for y
      using that inv(6) [of y] inv(7) [OF assms(2)] unfolding so by blast
    show "slot_ok w s' y \<and> y \<notin> insert sl F" if "user_slot s' x q = Some y" for x q y
    proof -
      from that have y: "user_slot s x q = Some y" and ne: "\<not> (x = c \<and> push_bit 12 q = push_bit 12 p)"
        unfolding us by (auto split: if_splits)
      have "y \<noteq> sl" using inv(9) [OF assms(2), of x q] y ne by blast
      with inv(7) [OF y] inv(8) [OF y] show ?thesis unfolding so by blast
    qed
    show "c' = x \<and> push_bit 12 p' = push_bit 12 q" if "user_slot s' x q = Some y" "user_slot s' c' p' = Some y" for x q c' p' y
      using that inv(9) [of x q y c' p'] unfolding us by (metis option.distinct(1))
  qed
qed

definition fresh_pages :: "sys \<Rightarrow> pptr \<Rightarrow> addr \<Rightarrow> int \<Rightarrow> int \<Rightarrow> bool" where
  "fresh_pages s c pgn i n \<longleftrightarrow>
     (\<forall>k. i \<le> k \<and> k < n \<longrightarrow> user_page (pgn + addr_of_int k) \<and> user_slot s c (pgn + addr_of_int k) = None) \<and>
     (\<forall>k l. i \<le> k \<and> k < n \<and> i \<le> l \<and> l < n \<and>
        push_bit 12 (pgn + addr_of_int k) = push_bit 12 (pgn + addr_of_int l) \<longrightarrow> k = l)"

lemma fresh_pages_step:
  assumes "fresh_pages s c pgn i n" "i < n"
    and "\<And>q. user_slot s' c q = (if push_bit 12 q = push_bit 12 (pgn + addr_of_int i) then Some sl else user_slot s c q)"
  shows "fresh_pages s' c pgn (i + 1) n"
proof -
  have "user_slot s' c (pgn + addr_of_int k) = None" if "i + 1 \<le> k" "k < n" for k
  proof -
    have "push_bit 12 (pgn + addr_of_int k) \<noteq> push_bit 12 (pgn + addr_of_int i)"
    proof
      assume "push_bit 12 (pgn + addr_of_int k) = push_bit 12 (pgn + addr_of_int i)"
      with assms(1,2) that have "k = i" unfolding fresh_pages_def by auto
      with that(1) show False by simp
    qed
    with assms(1,3) that show ?thesis by (simp add: fresh_pages_def)
  qed
  with assms(1) show ?thesis by (auto simp: fresh_pages_def)
qed

text \<open>
  The mapping loop: the frames move from the running code to the pages of the range; bytes
  outside the range do not change. If it stops early, the frames not entered go back.
\<close>

lemma map_frames_ok:
  assumes "vm_inv w F s" "caller_mm s c \<noteq> None" "distinct fs" "Pair False ` set fs \<subseteq> F"
    and "fresh_pages s c pgn i n" "int (length fs) \<le> n - i" "map_frames s c pgn i n fs = (ok, m, s')"
  shows "vm_inv w (F - Pair False ` set fs) s' \<and> calm s s' \<and>
    (\<forall>x a. \<not> (x = c \<and> (\<exists>k. i \<le> k \<and> k < n \<and> push_bit 12 (drop_bit 12 a) = push_bit 12 (pgn + addr_of_int k))) \<longrightarrow>
       vbyte w s' x a = vbyte w s x a) \<and>
    (\<forall>x q. \<not> (x = c \<and> (\<exists>k. i \<le> k \<and> k < n \<and> push_bit 12 q = push_bit 12 (pgn + addr_of_int k))) \<longrightarrow>
       user_slot s' x q = user_slot s x q) \<and>
    (ok \<longrightarrow> m = i + int (length fs) \<and>
       (\<forall>j < length fs. user_slot s' c (pgn + addr_of_int (i + int j)) = Some (False, fs ! j)))"
  using assms
proof (induction fs arbitrary: s i F)
  case Nil
  then show ?case by auto
next
  case (Cons f fs)
  have i: "i < n" using Cons.prems(6) by simp
  let ?p = "pgn + addr_of_int i"
  have fF: "(False, f) \<in> F" using Cons.prems(4) by simp
  have up: "user_page ?p" and none: "user_slot s c ?p = None"
    using Cons.prems(5) i by (auto simp: fresh_pages_def)
  have small: "f < 2 ^ 40"
    using frame_ok_small [OF vm_invD(5) [OF Cons.prems(1), of False]] vm_invD(6) [OF Cons.prems(1) fF] by (simp add: slot_ok_def)
  obtain r s1 where e: "pte_set_entry s c ?p (pte_of_fpn f) = (r, s1)" by (cases "pte_set_entry s c ?p (pte_of_fpn f)")
  have ef: "pte_set_fpn s c ?p f = (r, s1)" using e pte_set_as_entry(1) [OF vm_invD(1) [OF Cons.prems(1)]] by simp
  have c1: "calm s s1" by (rule calm_pte_set_entry [OF vm_invD(1) [OF Cons.prems(1)] e])
  show ?case
  proof (cases "r = 0")
    case False
    note pe = pte_set_entry_props [OF vm_invD(1) [OF Cons.prems(1)] e]
    have "pte_get_entry s1 = pte_get_entry s" using pe(5) [OF False] by (intro ext)
    note v = vm_inv_view [OF Cons.prems(1) pe(1) this pe(2)]
    note rel = release_frame_list_inv [OF v(1) calm_mram(2) [OF c1 v(1) Cons.prems(2)] Cons.prems(3,4)]
    have "ok = False" "s' = release_frame_list s1 c (f # fs)"
      using Cons.prems(7) i ef False by (auto simp: Let_def)
    then show ?thesis using rel v(2,3) calm_trans [OF c1 rel(4)] by simp
  next
    case True
    note e0 = e [unfolded True]
    have F1: "F - {(False, f)} = (F - {(False, f)}) \<union> set_option (user_slot s c ?p)" using none by simp
    note st = set_slot_inv [OF Cons.prems(1) fF e0 up slot_of_entries(2) [OF small] F1]
    note us1 = user_slot_set_entry [OF vm_invD(1) [OF Cons.prems(1)] e0 up, unfolded slot_of_entries(2) [OF small]]
    obtain r2 s2 where en: "enlist_pgn_node c ?p s1 = (r2, s2)" by (cases "enlist_pgn_node c ?p s1")
    note i2 = enlist_pgn_node_inv [OF st(1) up en]
    have c2: "calm s s2" using calm_trans [OF c1 calm_enlist [OF en]] .
    have us2: "user_slot s2 x q = (if x = c \<and> push_bit 12 q = push_bit 12 ?p then Some (False, f) else user_slot s x q)" for x q
      using us1 i2(3) by simp
    have vb2: "vbyte w s2 x a = vbyte w s x a" if "\<not> (x = c \<and> push_bit 12 (drop_bit 12 a) = push_bit 12 ?p)" for x a
      using st(2) [of x a] i2(2) that by auto
    show ?thesis
    proof (cases "r2 = 0")
      case True
      have rec: "map_frames s2 c pgn (i + 1) n fs = (ok, m, s')"
        using Cons.prems(7) i ef \<open>r = 0\<close> en True by (simp add: Let_def)
      have fr: "fresh_pages s2 c pgn (i + 1) n"
        by (rule fresh_pages_step [OF Cons.prems(5) i]) (simp add: us2)
      have IH: "vm_inv w (F - {(False, f)} - Pair False ` set fs) s' \<and> calm s2 s' \<and>
        (\<forall>x a. \<not> (x = c \<and> (\<exists>k. i + 1 \<le> k \<and> k < n \<and> push_bit 12 (drop_bit 12 a) = push_bit 12 (pgn + addr_of_int k))) \<longrightarrow>
           vbyte w s' x a = vbyte w s2 x a) \<and>
        (\<forall>x q. \<not> (x = c \<and> (\<exists>k. i + 1 \<le> k \<and> k < n \<and> push_bit 12 q = push_bit 12 (pgn + addr_of_int k))) \<longrightarrow>
           user_slot s' x q = user_slot s2 x q) \<and>
        (ok \<longrightarrow> m = i + 1 + int (length fs) \<and>
           (\<forall>j < length fs. user_slot s' c (pgn + addr_of_int (i + 1 + int j)) = Some (False, fs ! j)))"
        by (rule Cons.IH [OF i2(1) calm_mram(2) [OF c2 i2(1) Cons.prems(2)] _ _ fr _ rec]) (use Cons.prems(3,4,6) in auto)
      have out: "vbyte w s' x a = vbyte w s x a"
        if "\<not> (x = c \<and> (\<exists>k. i \<le> k \<and> k < n \<and> push_bit 12 (drop_bit 12 a) = push_bit 12 (pgn + addr_of_int k)))" for x a
      proof -
        have "\<not> (x = c \<and> (\<exists>k. i + 1 \<le> k \<and> k < n \<and> push_bit 12 (drop_bit 12 a) = push_bit 12 (pgn + addr_of_int k)))"
          "\<not> (x = c \<and> push_bit 12 (drop_bit 12 a) = push_bit 12 ?p)" using that i by auto
        with IH vb2 [of x a] show ?thesis by metis
      qed
      have slots: "user_slot s' x q = user_slot s x q"
        if "\<not> (x = c \<and> (\<exists>k. i \<le> k \<and> k < n \<and> push_bit 12 q = push_bit 12 (pgn + addr_of_int k)))" for x q
      proof -
        have "\<not> (x = c \<and> (\<exists>k. i + 1 \<le> k \<and> k < n \<and> push_bit 12 q = push_bit 12 (pgn + addr_of_int k)))"
          "\<not> (x = c \<and> push_bit 12 q = push_bit 12 ?p)" using that i by auto
        with IH us2 [of x q] show ?thesis by metis
      qed
      have "\<not> (\<exists>k. i + 1 \<le> k \<and> k < n \<and> push_bit 12 ?p = push_bit 12 (pgn + addr_of_int k))"
      proof
        assume "\<exists>k. i + 1 \<le> k \<and> k < n \<and> push_bit 12 ?p = push_bit 12 (pgn + addr_of_int k)"
        then obtain k where k: "i + 1 \<le> k" "k < n" "push_bit 12 ?p = push_bit 12 (pgn + addr_of_int k)" by blast
        have "i = k" using Cons.prems(5) i k unfolding fresh_pages_def by auto
        with k(1) show False by simp
      qed
      with IH us2 [of c ?p] have here: "user_slot s' c ?p = Some (False, f)" by simp
      have all: "user_slot s' c (pgn + addr_of_int (i + int j)) = Some (False, (f # fs) ! j)"
        if "ok" "j < length (f # fs)" for j
      proof (cases j)
        case (Suc j')
        with IH that have "user_slot s' c (pgn + addr_of_int (i + 1 + int j')) = Some (False, fs ! j')" by simp
        moreover have "i + int j = i + 1 + int j'" using Suc by simp
        ultimately show ?thesis using Suc by (simp only: nth_Cons_Suc)
      qed (use here in simp)
      have "F - {(False, f)} - Pair False ` set fs = F - Pair False ` set (f # fs)" by auto
      with IH have "vm_inv w (F - Pair False ` set (f # fs)) s'" by simp
      moreover have "calm s s'" using calm_trans [OF c2] IH by blast
      moreover have "ok \<longrightarrow> m = i + int (length (f # fs))" using IH by simp
      ultimately show ?thesis using out slots all by blast
    next
      case False
      obtain r3 s3 where e3: "pte_set_entry s2 c ?p 0 = (r3, s3)" by (cases "pte_set_entry s2 c ?p 0")
      have old: "user_slot s2 c ?p = Some (False, f)" by (simp add: us2)
      note cl = clear_slot_inv [OF i2(1) old e3]
      have F3: "insert (False, f) (F - {(False, f)}) = F" using fF by blast
      have c3: "calm s s3" using calm_trans [OF c2 cl(3)] .
      have rel_eq: "release_frame_list s3 c (f # fs) = release_frame_list (dev_put_freefp (caller_mram s3 c) f s3) c fs" by simp
      have i3: "vm_inv w F s3" using cl(2) F3 by simp
      note rel = release_frame_list_inv [OF i3 calm_mram(2) [OF c3 i3 Cons.prems(2)] Cons.prems(3,4)]
      have "ok = False" "s' = release_frame_list s3 c (f # fs)"
        using Cons.prems(7) i ef \<open>r = 0\<close> en False e3 by (auto simp: Let_def)
      moreover have "vbyte w s3 x a = vbyte w s x a"
        if "\<not> (x = c \<and> (\<exists>k. i \<le> k \<and> k < n \<and> push_bit 12 (drop_bit 12 a) = push_bit 12 (pgn + addr_of_int k)))" for x a
        using cl(5) [of x a] vb2 [of x a] that i by auto
      moreover have "user_slot s3 x q = user_slot s x q"
        if "\<not> (x = c \<and> (\<exists>k. i \<le> k \<and> k < n \<and> push_bit 12 q = push_bit 12 (pgn + addr_of_int k)))" for x q
        using cl(4) [of x q] us2 [of x q] that i by auto
      ultimately show ?thesis using rel calm_trans [OF c3 rel(4)] by simp
    qed
  qed
qed

lemma ram_frames_bound:
  assumes "vm_inv w F s" "distinct fs" "Pair False ` set fs \<subseteq> F"
  shows "length fs < 524288"
proof -
  have "unat f < 524287" if "f \<in> set fs" for f
  proof -
    have "(False, f) \<in> F" using assms(3) that by blast
    from vm_invD(6) [OF assms(1) this] vm_invD(5) [OF assms(1), of False] show ?thesis
      by (auto simp: slot_ok_def frame_ok_def ram_like_def memphy_wf_def)
  qed
  then have "unat ` set fs \<subseteq> {..<524287}" by auto
  moreover have "card (unat ` set fs) = length fs"
    using assms(2) card_image [of unat "set fs"] by (simp add: distinct_card inj_on_def word_unat_eq_iff)
  ultimately show ?thesis using card_mono [of "{..<524287}" "unat ` set fs"] by simp
qed

lemma range_fresh:
  assumes "validate_page_range a n = 0" "n < 2 ^ 31" "\<not> is_kernel_address a"
    and "\<And>k. 0 \<le> k \<Longrightarrow> k < n \<Longrightarrow> user_slot s c (drop_bit 12 a + addr_of_int k) = None"
  shows "fresh_pages s c (drop_bit 12 a) 0 n"
proof -
  note al = page_range_step [OF conjunct1 [OF validate_page_rangeD [OF assms(1)]]]
  have "user_page (drop_bit 12 a + addr_of_int k)" if "0 \<le> k" "k < n" for k
    using page_range(3) [OF assms(1) that assms(2)] assms(3) by (simp add: user_page_def al)
  moreover have "k = l" if "0 \<le> k" "k < n" "0 \<le> l" "l < n"
      "push_bit 12 (drop_bit 12 a + addr_of_int k) = push_bit 12 (drop_bit 12 a + addr_of_int l)" for k l
    using page_range_inj [OF assms(1) that(1-4) assms(2)] that(5) by (simp add: al)
  ultimately show ?thesis using assms(4) by (auto simp: fresh_pages_def)
qed

text \<open>Addresses whose page is one of the pages of the range.\<close>

definition in_pages :: "addr \<Rightarrow> int \<Rightarrow> addr \<Rightarrow> bool" where
  "in_pages a n b \<longleftrightarrow> (\<exists>k. 0 \<le> k \<and> k < n \<and> push_bit 12 (drop_bit 12 b) = a + addr_of_int (4096 * k))"

text \<open>With memory on the host, the loop comes to its end.\<close>

lemma map_frames_complete:
  assumes "pt_wf s" "host_ok (sy_host s)" "caller_mm s c \<noteq> None"
    and "\<And>k. i \<le> k \<Longrightarrow> k < n \<Longrightarrow> canonical (push_bit 12 (pgn + addr_of_int k))"
  shows "fst (map_frames s c pgn i n fs)"
  using assms
proof (induction fs arbitrary: s i)
  case (Cons f fs)
  let ?p = "pgn + addr_of_int i"
  show ?case
  proof (cases "i < n")
    case True
    obtain r s1 where e: "pte_set_entry s c ?p (pte_of_fpn f) = (r, s1)" by (cases "pte_set_entry s c ?p (pte_of_fpn f)")
    note pe = pte_set_entry_props [OF Cons.prems(1) e]
    have r: "r = 0" "host_ok (sy_host s1)" using pe(8) [OF Cons.prems(2)] Cons.prems(3,4) True by auto
    obtain h where h: "sys_alloc s1 = (True, s1\<lparr>sy_host := h\<rparr>)" "host_ok h"
      by (rule sys_alloc_cases [of s1]) (use r(2) in \<open>auto simp: host_ok_def\<close>)
    let ?s1 = "s1\<lparr>sy_host := h\<rparr>" and ?f = "\<lambda>m. m\<lparr>fifo_pgn := ?p # fifo_pgn m\<rparr>"
    have st: "fifo_step ?s1 (upd_mm c ?f ?s1)" by (rule fifo_step_upd_mm) blast
    have "caller_mm (upd_mm c ?f ?s1) c \<noteq> None" using forget_ptD(6) [OF pe(2), of c] Cons.prems(3) by simp
    moreover have "pt_wf (upd_mm c ?f ?s1)" using st pe(1) by (simp add: fifo_step_def)
    moreover have "host_ok (sy_host (upd_mm c ?f ?s1))" using h(2) by simp
    ultimately have "fst (map_frames (upd_mm c ?f ?s1) c pgn (i + 1) n fs)"
      by (intro Cons.IH) (use Cons.prems(4) in auto)
    with True e r h show ?thesis
      by (simp add: pte_set_as_entry(1) [OF Cons.prems(1)] enlist_pgn_node_def)
  qed simp
qed simp

lemma push_drop_push: "push_bit 12 (drop_bit 12 (push_bit 12 (x :: addr))) = push_bit 12 x"
  by (rule bit_word_eqI) (auto simp: bit_simps)

text \<open>
  Mapping fresh frames for a range of user pages that were not mapped before.
\<close>

lemma vm_map_ram_ok:
  assumes "vm_inv w F s" "caller_mm s c \<noteq> None" "host_ok (sy_host s)"
    and "validate_page_range a n = 0" "n < 2 ^ 31" "\<not> is_kernel_address a"
    and fresh: "\<And>k. 0 \<le> k \<Longrightarrow> k < n \<Longrightarrow> vbyte w s c (a + addr_of_int (4096 * k)) = None"
  shows "\<exists>ret rg s'. vm_map_ram s c a n rg0 = Some (ret, rg, s') \<and> vm_inv w F s' \<and> calm s s' \<and>
    (\<forall>x b. \<not> (x = c \<and> in_pages a n b) \<longrightarrow> vbyte w s' x b = vbyte w s x b) \<and>
    (n \<le> int (frames_avail w s c) \<longrightarrow> ret = 0) \<and>
    (if ret = 0 then rg = \<lparr>rg_start = a, rg_end = a + addr_of_int (4096 * n)\<rparr> \<and>
       (\<forall>k. 0 \<le> k \<and> k < n \<longrightarrow> (\<exists>f. user_slot s' c (drop_bit 12 a + addr_of_int k) = Some (False, f)))
     else ret = addr_of_int (-1) \<and> vbyte w s' = vbyte w s \<and> rg = rg0)"
proof -
  note vd = validate_page_rangeD [OF assms(4)]
  note al = page_range_step [OF conjunct1 [OF vd]]
  have n0: "0 \<le> n" using vd by simp
  have mram: "caller_mram s c \<noteq> None" using calm_mram(1) [OF calm_refl assms(1,2)] by simp
  obtain ra fs s1 where A: "alloc_pages_loop s c 0 n [] = Some (ra, fs, s1)" "vbyte w s1 = vbyte w s" "calm s s1"
      "if ra = 0 then length fs = nat n \<and> distinct fs \<and> F \<inter> Pair False ` set fs = {} \<and> vm_inv w (F \<union> Pair False ` set fs) s1 else fs = [] \<and> vm_inv w F s1"
      "ra = 0 \<or> ra = addr_of_int (-3000)" "nat n \<le> frames_avail w s c \<longrightarrow> ra = 0"
    using alloc_pages_loop_ok [of w F "[]" s c 0 n] assms(1,2,3)
    by (simp only: list.set image_empty Un_empty Un_empty_right Int_empty_right distinct.simps list.size add_0 diff_0_right simp_thms) blast
  have ar: "alloc_pages_range s c n = Some (ra, fs, s1)" using A(1) mram n0 by (auto simp: alloc_pages_range_def)
  have ho: "host_ok (sy_host s1)" using A(3) assms(3) by (simp add: calm_def)
  show ?thesis
  proof (cases "ra = 0")
    case False
    with A(5) have ra: "ra = addr_of_int (-3000)" by simp
    then have "vm_map_ram s c a n rg0 = Some (addr_of_int (-1), rg0, s1)"
      using ar by (simp add: vm_map_ram_def)
    moreover have "addr_of_int (-1) \<noteq> 0" by (simp add: addr_of_int_def)
    ultimately show ?thesis using A False by auto
  next
    case True
    with A(4) have fs: "length fs = nat n" "distinct fs" "vm_inv w (F \<union> Pair False ` set fs) s1"
      "F \<union> Pair False ` set fs - Pair False ` set fs = F" by auto
    have can: "canonical (push_bit 12 (drop_bit 12 a + addr_of_int k))" if "0 \<le> k" "k < n" for k
      using page_range(2) [OF assms(4) that assms(5)] by (simp add: al)
    obtain ok s2 where wr: "walk_range s1 c (drop_bit 12 a) 0 n = (ok, s2)" by (cases "walk_range s1 c (drop_bit 12 a) 0 n")
    have mm1: "caller_mm s1 c \<noteq> None" using calm_mram(2) [OF A(3) fs(3) assms(2)] .
    have w2: "vm_inv w (F \<union> Pair False ` set fs) s2" "vbyte w s2 = vbyte w s1" "calm s1 s2" "ok"
      using walk_range_inv [OF fs(3) wr] ho mm1 can by auto
    have mm2: "caller_mm s2 c \<noteq> None" "host_ok (sy_host s2)"
      using calm_mram(2) [OF w2(3,1) mm1] ho w2(3) by (simp, simp add: calm_def)
    have none: "user_slot s2 c (drop_bit 12 a + addr_of_int k) = None" if k: "0 \<le> k" "k < n" for k
    proof -
      have "vbyte w s2 c (a + addr_of_int (4096 * k)) = None" using fresh [OF k] w2(2) A(2) by simp
      moreover have "drop_bit 12 (a + addr_of_int (4096 * k)) = drop_bit 12 (push_bit 12 (drop_bit 12 a + addr_of_int k))"
        by (simp add: al)
      ultimately have "user_slot s2 c (drop_bit 12 (push_bit 12 (drop_bit 12 a + addr_of_int k))) = None"
        by (simp add: vbyte_def)
      moreover have "push_bit 12 (drop_bit 12 (push_bit 12 (drop_bit 12 a + addr_of_int k))) =
          push_bit 12 (drop_bit 12 a + addr_of_int k)"
        by (rule push_drop_push)
      ultimately show ?thesis using user_slot_same_page by metis
    qed
    note fp = range_fresh [OF assms(4,5,6) none]
    obtain ok2 m s3 where mf: "map_frames s2 c (drop_bit 12 a) 0 n fs = (ok2, m, s3)" by (rule prod_cases3)
    have len: "int (length fs) \<le> n - 0" using fs(1) n0 by simp
    note M = map_frames_ok [OF w2(1) mm2(1) fs(2) Un_upper2 fp len mf]
    have ok2: "ok2" using map_frames_complete [OF vm_invD(1) [OF w2(1)] mm2(2,1), of 0 n "drop_bit 12 a" fs] can mf by simp
    have m: "m = n" using M ok2 fs(1) n0 by simp
    have small: "n < 524288" using ram_frames_bound [OF fs(3,2) Un_upper2] fs(1) by simp
    have "int32 (n * 4096) = 4096 * n" using small n0 by (simp add: int32_id)
    then have vp: "vmap_page_range s1 c a n fs rg0 = (0, \<lparr>rg_start = a, rg_end = a + addr_of_int (4096 * n)\<rparr>, s3)"
      using mm1 assms(4) wr w2(4) mf ok2 m by (cases rg0) (auto simp: vmap_page_range_def Let_def)
    have run: "vm_map_ram s c a n rg0 = Some (0, \<lparr>rg_start = a, rg_end = a + addr_of_int (4096 * n)\<rparr>, s3)"
      using ar True vp by (simp add: vm_map_ram_def addr_of_int_def)
    have pages: "\<exists>f. user_slot s3 c (drop_bit 12 a + addr_of_int k) = Some (False, f)" if "0 \<le> k" "k < n" for k
    proof -
      have "nat k < length fs" "0 + int (nat k) = k" using that fs(1) by auto
      with M ok2 show ?thesis by metis
    qed
    have out: "vbyte w s3 x b = vbyte w s x b" if "\<not> (x = c \<and> in_pages a n b)" for x b
      using M that w2(2) A(2) unfolding in_pages_def al by simp
    have "vm_inv w F s3" "calm s s3" using M fs(4) calm_trans [OF A(3) calm_trans [OF w2(3)]] by auto
    with run pages out show ?thesis by auto
  qed
qed

section \<open>Properties\<close>

text \<open>
  The free list is a pool of bytes. Whatever sizes are asked for one after the other, the
  regions handed out do not overlap, all their bytes were free, and exactly these bytes have
  left the pool; a request that is refused changes nothing.
\<close>

theorem first_fit_disjoint:
  assumes "rg_list_ok l" "\<forall>n \<in> set ns. 0 < n \<and> n < 2 ^ 31" "take_many free_region ns l = (rs, q)"
  shows "rg_list_ok q \<and> sorted_wrt (\<lambda>r r'. rg_bytes r \<inter> rg_bytes r' = {}) rs \<and>
    (\<Union>r \<in> set rs. rg_bytes r) \<subseteq> covered l \<and> covered q = covered l - (\<Union>r \<in> set rs. rg_bytes r)"
  using assms by (rule frl.take_many_disjoint)

definition demo_free :: "rg_node list" where
  "demo_free = [\<lparr>rg_start = 0, rg_end = 64\<rparr>, \<lparr>rg_start = 4096, rg_end = 8192\<rparr>]"

lemma demo_free_ok: "rg_list_ok demo_free"
proof -
  have "rg_bytes \<lparr>rg_start = 0, rg_end = 64\<rparr> \<inter> rg_bytes \<lparr>rg_start = 4096, rg_end = 8192\<rparr> = {}"
  proof -
    have False if "a < 64" "4096 \<le> a" for a :: addr
      using order_le_less_trans [OF that(2,1)] by simp
    then show ?thesis by (auto simp: rg_bytes_def)
  qed
  then show ?thesis by (simp add: demo_free_def rg_list_ok_def rg_fits_def)
qed

lemma demo_free_take:
  "free_region 100 demo_free = (Some \<lparr>rg_start = 4096, rg_end = 4196\<rparr>,
     [\<lparr>rg_start = 0, rg_end = 64\<rparr>, \<lparr>rg_start = 4196, rg_end = 8192\<rparr>])"
  by (simp add: free_region_def demo_free_def addr_of_int_def)

theorem first_fit_disjoint_witness:
  "take_many free_region [100] demo_free = ([\<lparr>rg_start = 4096, rg_end = 4196\<rparr>],
     [\<lparr>rg_start = 0, rg_end = 64\<rparr>, \<lparr>rg_start = 4196, rg_end = 8192\<rparr>]) \<and>
   rg_list_ok [\<lparr>rg_start = 0, rg_end = 64\<rparr>, \<lparr>rg_start = 4196, rg_end = 8192\<rparr>]"
  using first_fit_disjoint [OF demo_free_ok, of "[100]"] demo_free_take by simp

text \<open>
  Giving a region back undoes taking it: after \<open>get_free_vmrg_area\<close> and
  \<open>enlist_vm_rg_node\<close> of the same region, with joining of neighbours, the pool has the bytes it
  had before, and its regions are again without overlap.
\<close>

theorem free_list_round_trip:
  assumes "rg_list_ok l" "0 < n \<and> n < 2 ^ 31" "free_region n l = (Some r, l')"
  shows "covered (snd (enlist_vm_rg_node l' r)) = covered l \<and> rg_list_ok (snd (enlist_vm_rg_node l' r))"
  using assms by (rule frl.take_give)

theorem free_list_round_trip_witness:
  "\<exists>r l'. free_region 100 demo_free = (Some r, l') \<and> covered (snd (enlist_vm_rg_node l' r)) = covered demo_free"
  using free_list_round_trip [OF demo_free_ok _ demo_free_take] demo_free_take by auto

end
