(* ===== verification/Sys_Call.thy ===== *)
theory Sys_Call
  imports Vm_Area
begin

text \<open>
  The system calls: the dispatcher and its table (src/syscall.c, src/syscalltbl.lst), the
  handlers (src/sys_mem.c, src/sys_listsyscall.c, src/sys_compat101.c, src/sys_xxxhandler.c) and
  the user-side stub \<open>libsyscall\<close> (src/libstd.c). The handlers get the process by its number
  from the running list. Log messages are left out; the lines that \<open>sys_listsyscall\<close> prints are
  part of its result.
\<close>

section \<open>Handlers\<close>

record sc_regs =
  sc_a1 :: addr
  sc_a2 :: addr
  sc_a3 :: addr
  sc_a4 :: addr
  sc_a5 :: addr
  sc_a6 :: addr
  orig_ax :: uint32
  sc_flags :: int

definition SYSMEM_MAP_OP :: int where [c_defs]: "SYSMEM_MAP_OP = 1"
definition SYSMEM_INC_OP :: int where [c_defs]: "SYSMEM_INC_OP = 2"
definition SYSMEM_SWP_OP :: int where [c_defs]: "SYSMEM_SWP_OP = 3"
definition SYSMEM_IO_READ :: int where [c_defs]: "SYSMEM_IO_READ = 4"
definition SYSMEM_IO_WRITE :: int where [c_defs]: "SYSMEM_IO_WRITE = 5"

text \<open>
  \<open>__sys_memmap\<close>. The outer \<open>None\<close> is a fault of the kernel itself. \<open>junk\<close> is the
  uninitialised region node of \<open>inc_vma_limit\<close>.
\<close>

definition io_area :: "sys \<Rightarrow> pptr \<Rightarrow> addr \<Rightarrow> bool option" where
  "io_area s c a = do {
     m \<leftarrow> caller_mm s c;
     vma \<leftarrow> get_vma_by_num m 0;
     case vma of None \<Rightarrow> Some False
     | Some i \<Rightarrow> let v = mm_mmap m ! i in Some (\<not> (a < vm_start v \<or> a \<ge> sbrk v)) }"

definition sys_memmap :: "rg_node \<Rightarrow> sys \<Rightarrow> krnl_t option \<Rightarrow> uint32 \<Rightarrow> sc_regs \<Rightarrow> (int \<times> sc_regs \<times> sys) option" where
  "sys_memmap junk s k n rs =
     (let memop = int_of_addr (sc_a1 rs);
          caller = find_proc (sy_sched s) (pcbs s) n;
          finish = (\<lambda>(ret, s'). Some (if ret < 0 then -1 else 0, rs, s'))
      in
      if k = None \<or> caller = NULL then Some (-1, rs, s)
      else if memop = SYSMEM_MAP_OP then
        (case vmap_pgd_memset s caller (sc_a2 rs) (int_of_addr (sc_a3 rs)) of
           (r, s1) \<Rightarrow> if r \<noteq> 0 then Some (-1, rs, s1) else Some (0, rs, s1))
      else if memop = SYSMEM_INC_OP then
        Option.bind (inc_vma_limit junk s caller (int_of_addr (sc_a2 rs)) (sc_a3 rs)) finish
      else if memop = SYSMEM_SWP_OP then
        Option.bind (mm_swap_page s caller (sc_a2 rs) (sc_a3 rs)) finish
      else if memop = SYSMEM_IO_READ then do {
        inside \<leftarrow> io_area s caller (sc_a2 rs);
        if \<not> inside then Some (-1, rs, s)
        else do {
          (value, s1) \<leftarrow> pg_getval s caller (sc_a2 rs);
          case value of None \<Rightarrow> Some (-1, rs, s1)
          | Some b \<Rightarrow> Some (0, rs\<lparr>sc_a3 := addr_of_byte b\<rparr>, s1) } }
      else if memop = SYSMEM_IO_WRITE then do {
        inside \<leftarrow> io_area s caller (sc_a2 rs);
        if \<not> inside then Some (-1, rs, s)
        else do {
          (r, s1) \<leftarrow> pg_setval s caller (sc_a2 rs) (ucast (sc_a3 rs AND 0xFF));
          Some (if r < 0 then -1 else 0, rs, s1) } }
      else Some (-1, rs, s))"

definition sys_call_table :: "string list" where
  "sys_call_table = [''0-sys_listsyscall'', ''17-sys_memmap'', ''101-sys_compat101'', ''440-sys_xxxhandler'']"

text \<open>The return value and the printed lines.\<close>

definition sys_listsyscall :: "int \<times> string list" where
  "sys_listsyscall = (0, sys_call_table)"

definition sys_compat101 :: "sc_regs \<Rightarrow> int" where "sys_compat101 rs = 0"

definition sys_xxxhandler :: "sc_regs \<Rightarrow> int" where "sys_xxxhandler rs = 0"

definition sys_ni_syscall :: "sc_regs \<Rightarrow> int" where "sys_ni_syscall rs = -1"

section \<open>Dispatch\<close>

definition syscall :: "rg_node \<Rightarrow> sys \<Rightarrow> krnl_t option \<Rightarrow> uint32 \<Rightarrow> uint32 \<Rightarrow> sc_regs \<Rightarrow> (int \<times> sc_regs \<times> sys) option" where
  "syscall junk s k n nr rs =
     (if nr = 0 then Some (fst sys_listsyscall, rs, s)
      else if nr = 17 then sys_memmap junk s k n rs
      else if nr = 101 then Some (sys_compat101 rs, rs, s)
      else if nr = 440 then Some (sys_xxxhandler rs, rs, s)
      else Some (sys_ni_syscall rs, rs, s))"

text \<open>
  \<open>libsyscall\<close>: the byte that \<open>SYSMEM_IO_READ\<close> delivers goes to the register that the third
  argument names, if there is such a register.
\<close>

definition upd_pcb :: "pptr \<Rightarrow> (pcb_t \<Rightarrow> pcb_t) \<Rightarrow> sys \<Rightarrow> sys" where
  "upd_pcb c f s = s\<lparr>pcbs := (pcbs s)(c := map_option f (pcbs s c))\<rparr>"

definition libsyscall :: "rg_node \<Rightarrow> sys \<Rightarrow> pptr \<Rightarrow> uint32 \<Rightarrow> addr \<Rightarrow> addr \<Rightarrow> addr \<Rightarrow> (int \<times> sys) option" where
  "libsyscall junk s c idx x1 x2 x3 =
     (case caller_krnl s c of None \<Rightarrow> Some (-1, s)
      | Some k \<Rightarrow> do {
          b \<leftarrow> pcbs s c;
          let rs = \<lparr>sc_a1 = x1, sc_a2 = x2, sc_a3 = x3, sc_a4 = 0, sc_a5 = 0, sc_a6 = 0, orig_ax = 0, sc_flags = 0\<rparr>;
          (ret, rs', s1) \<leftarrow> syscall junk s (Some k) (pid b) idx rs;
          if ret = 0 \<and> idx = 17 \<and> x1 = addr_of_int SYSMEM_IO_READ then
            if x3 \<ge> 10 then Some (-1, s1)
            else Some (ret, upd_pcb c (\<lambda>b. b\<lparr>regs := (regs b)[unat x3 := sc_a3 rs']\<rparr>) s1)
          else Some (ret, s1) })"

end
