(* ===== verification/Libmem.thy ===== *)
theory Libmem
  imports Sys_Call
begin

text \<open>
  The user part of src/libmem.c: regions of the symbol table (\<open>get_symrg_byid\<close>), allocation
  and release (\<open>__alloc\<close>, \<open>__free\<close>, \<open>liballoc\<close>, \<open>libfree\<close>), access to bytes of a region
  (\<open>__read\<close>, \<open>__write\<close>, \<open>libread\<close>, \<open>libwrite\<close>) and the address checks
  \<open>is_user_vaddr_range\<close> and \<open>is_kernel_vaddr_range\<close>. The dump that follows every successful
  operation only prints.
\<close>

section \<open>Regions\<close>

definition KMEM_VADDR_BASE :: addr where [c_defs]: "KMEM_VADDR_BASE = 0xffff800000000000"

definition is_kernel_vaddr_range :: "addr \<Rightarrow> addr \<Rightarrow> bool" where
  "is_kernel_vaddr_range start end' \<longleftrightarrow> start \<ge> KMEM_VADDR_BASE \<and> end' > start"

definition is_user_vaddr_range :: "addr \<Rightarrow> addr \<Rightarrow> bool" where
  "is_user_vaddr_range start end' \<longleftrightarrow>
     \<not> end' \<le> start \<and> fst (get_pd_from_address start) = 0 \<and> fst (get_pd_from_address (end' - 1)) = 0 \<and>
     drop_bit 56 start AND 1 = 0 \<and> drop_bit 56 (end' - 1) AND 1 = 0"

text \<open>A new region is put in front of the list, without joining.\<close>

definition enlist_vm_freerg_list :: "mm_struct \<Rightarrow> rg_node \<Rightarrow> (int \<times> mm_struct) option" where
  "enlist_vm_freerg_list m rg_elmt =
     (case mm_mmap m of [] \<Rightarrow> None
      | v # vs \<Rightarrow>
        if rg_start rg_elmt \<ge> rg_end rg_elmt then Some (-1, m)
        else Some (0, m\<lparr>mm_mmap := v\<lparr>vm_freerg_list := rg_elmt # vm_freerg_list v\<rparr> # vs\<rparr>))"

text \<open>The index of the entry, or \<open>None\<close> for a null pointer.\<close>

definition get_symrg_byid :: "mm_struct option \<Rightarrow> int \<Rightarrow> nat option" where
  "get_symrg_byid mm rgid =
     (if mm = None \<or> rgid < 0 \<or> rgid \<ge> int PAGING_MAX_SYMTBL_SZ then None else Some (nat rgid))"

definition set_symrg :: "pptr \<Rightarrow> nat \<Rightarrow> vm_rg_struct \<Rightarrow> sys \<Rightarrow> sys" where
  "set_symrg c i r = upd_mm c (\<lambda>m. m\<lparr>symrgtbl := (symrgtbl m)[i := r]\<rparr>)"

section \<open>Allocation\<close>

text \<open>
  \<open>__alloc\<close>: the address of the region, or \<open>None\<close> for the return value -1. The fields of
  \<open>regs\<close> that are not set are not read by the handler.
\<close>

definition mem_alloc :: "rg_node \<Rightarrow> sys \<Rightarrow> pptr \<Rightarrow> int \<Rightarrow> int \<Rightarrow> addr \<Rightarrow> (addr option \<times> sys) option" where
  "mem_alloc junk s c vid rgid sz =
     (case caller_mm s c of None \<Rightarrow> Some (None, s)
      | Some m \<Rightarrow>
        if rgid < 0 \<or> rgid \<ge> int PAGING_MAX_SYMTBL_SZ \<or> sz = 0 then Some (None, s)
        else do {
          cur_vma \<leftarrow> get_vma_by_num m vid;
          let store = (\<lambda>r s'. Some (Some (rg_start r),
                set_symrg c (nat rgid) \<lparr>rg_start = rg_start r, rg_end = rg_end r, vmaid = vid\<rparr> s'));
          if cur_vma = None then Some (None, s)
          else do {
            (rg, s1) \<leftarrow> get_free_vmrg_area s c vid (int_of_addr sz);
            case rg of Some r \<Rightarrow> store r s1
            | None \<Rightarrow> do {
                b \<leftarrow> pcbs s1 c;
                (sret, _, s2) \<leftarrow> syscall junk s1 (caller_krnl s1 c) (pid b) 17
                  \<lparr>sc_a1 = addr_of_int SYSMEM_INC_OP, sc_a2 = addr_of_int vid, sc_a3 = PAGING64_PAGE_ALIGNSZ sz,
                   sc_a4 = 0, sc_a5 = 0, sc_a6 = 0, orig_ax = 0, sc_flags = 0\<rparr>;
                if sret < 0 then Some (None, s2)
                else do {
                  (rg, s3) \<leftarrow> get_free_vmrg_area s2 c vid (int_of_addr sz);
                  case rg of Some r \<Rightarrow> store r s3 | None \<Rightarrow> Some (None, s3) } } } })"

definition mem_free :: "sys \<Rightarrow> pptr \<Rightarrow> int \<Rightarrow> int \<Rightarrow> (int \<times> sys) option" where
  "mem_free s c vid rgid =
     (case caller_mm s c of None \<Rightarrow> Some (-1, s)
      | Some m \<Rightarrow>
        (case get_symrg_byid (Some m) rgid of None \<Rightarrow> Some (-1, s)
         | Some i \<Rightarrow>
           let rgnode = symrgtbl m ! i in
           if rg_start rgnode = 0 \<and> rg_end rgnode = 0 then Some (-1, s)
           else
             let (ok, s1) = sys_alloc s in
             if \<not> ok then Some (-1, s1)
             else do {
               let s2 = set_symrg c i (rgnode\<lparr>rg_start := 0, rg_end := 0\<rparr>) s1;
               cur_vma \<leftarrow> get_vma_by_num m vid;
               case cur_vma of None \<Rightarrow> Some (-1, s2)
               | Some j \<Rightarrow> Some (0, upd_vma c j (\<lambda>v. v\<lparr>vm_freerg_list :=
                     snd (enlist_vm_rg_node (vm_freerg_list v) \<lparr>rg_start = rg_start rgnode, rg_end = rg_end rgnode\<rparr>)\<rparr>) s2) }))"

definition liballoc :: "rg_node \<Rightarrow> sys \<Rightarrow> pptr \<Rightarrow> addr \<Rightarrow> uint32 \<Rightarrow> (int \<times> sys) option" where
  "liballoc junk s c sz reg_index = do {
     (a, s1) \<leftarrow> mem_alloc junk s c 0 (sint reg_index) sz;
     Some (if a = None then -1 else 0, s1) }"

definition libfree :: "sys \<Rightarrow> pptr \<Rightarrow> uint32 \<Rightarrow> (int \<times> sys) option" where
  "libfree s c reg_index = do {
     (val, s1) \<leftarrow> mem_free s c 0 (sint reg_index);
     if val = -1 then Some (-1, s1) else Some (0, s1) }"

section \<open>Access\<close>

text \<open>
  The common checks of \<open>__read\<close> and \<open>__write\<close>: the address to access, or \<open>None\<close>.
\<close>

definition region_addr :: "vm_rg_struct \<Rightarrow> addr \<Rightarrow> addr option" where
  "region_addr currg offset =
     (if rg_start currg = rg_end currg then None
      else if offset \<ge> rg_end currg - rg_start currg then None
      else
        let access_addr = rg_start currg + offset in
        if access_addr < rg_start currg \<or> \<not> is_user_vaddr_range (rg_start currg) (rg_end currg) \<or>
           \<not> is_user_vaddr_range access_addr (access_addr + 1)
        then None else Some access_addr)"

definition mem_read :: "sys \<Rightarrow> pptr \<Rightarrow> int \<Rightarrow> int \<Rightarrow> addr \<Rightarrow> (byte option \<times> sys) option" where
  "mem_read s c vid rgid offset = do {
     k \<leftarrow> caller_krnl s c;
     case get_symrg_byid (k_mm k) rgid of None \<Rightarrow> Some (None, s)
     | Some i \<Rightarrow>
       (case region_addr (symrgtbl (the (k_mm k)) ! i) offset of None \<Rightarrow> Some (None, s)
        | Some a \<Rightarrow> pg_getval s c a) }"

definition mem_write :: "sys \<Rightarrow> pptr \<Rightarrow> int \<Rightarrow> int \<Rightarrow> addr \<Rightarrow> byte \<Rightarrow> (int \<times> sys) option" where
  "mem_write s c vid rgid offset value = do {
     m \<leftarrow> caller_mm s c;
     cur_vma \<leftarrow> get_vma_by_num m vid;
     case get_symrg_byid (Some m) rgid of None \<Rightarrow> Some (-1, s)
     | Some i \<Rightarrow>
       if cur_vma = None then Some (-1, s)
       else (case region_addr (symrgtbl m ! i) offset of None \<Rightarrow> Some (-1, s)
             | Some a \<Rightarrow> pg_setval s c a value) }"

text \<open>The index of the destination register is not checked: past the array it is a fault.\<close>

definition libread :: "sys \<Rightarrow> pptr \<Rightarrow> uint32 \<Rightarrow> addr \<Rightarrow> uint32 \<Rightarrow> (int \<times> sys) option" where
  "libread s c source offset destination = do {
     (data, s1) \<leftarrow> mem_read s c 0 (sint source) offset;
     case data of None \<Rightarrow> Some (-1, s1)
     | Some v \<Rightarrow> do {
         b \<leftarrow> pcbs s1 c;
         if unat destination < length (regs b)
         then Some (0, upd_pcb c (\<lambda>b. b\<lparr>regs := (regs b)[unat destination := addr_of_byte v]\<rparr>) s1)
         else None } }"

definition libwrite :: "sys \<Rightarrow> pptr \<Rightarrow> byte \<Rightarrow> uint32 \<Rightarrow> addr \<Rightarrow> (int \<times> sys) option" where
  "libwrite s c data destination offset = mem_write s c 0 (sint destination) offset data"

end
