(* ===== verification/Heap.thy ===== *)
theory Heap
  imports Libmem
begin

text \<open>
  The memory of a process as it sees it: one area that starts at 0 and ends at \<open>sbrk\<close>, its free
  regions, and the regions of the symbol table. The theory has the invariant that ties them to the
  page table, and shows that \<open>inc_vma_limit\<close>, \<open>__alloc\<close>, \<open>__free\<close>, \<open>__read\<close> and \<open>__write\<close>
  keep it: allocated regions never overlap, and an access to one region leaves all others alone.
\<close>

section \<open>Changes to the bookkeeping of an address space\<close>

lemma vm_inv_upd_mm:
  assumes "vm_inv w F s"
    and "\<And>m. caller_mm s c = Some m \<Longrightarrow> mm_pgd (f m) = mm_pgd m \<and> fifo_pgn (f m) = fifo_pgn m"
  shows "vm_inv w F (upd_mm c f s)" "user_slot (upd_mm c f s) = user_slot s" "vbyte w (upd_mm c f s) = vbyte w s"
proof -
  note inv = vm_invD(1-3) [OF assms(1)]
  note pt = pt_upd_mm [of s c f, OF conjunct1 [OF assms(2)]]
  have "pte_get_entry (upd_mm c f s) = pte_get_entry s"
    using pt inv(1) by (intro ext) (simp add: pte_get_entry_view)
  then show us: "user_slot (upd_mm c f s) = user_slot s" by (rule user_slot_cong)
  show "vbyte w (upd_mm c f s) = vbyte w s" by (simp add: vbyte_def us slot_byte_def fun_eq_iff)
  have "callers_ok w (upd_mm c f s)"
    using inv(3) assms(2) by (auto simp: callers_ok_def split: if_splits)
  then show "vm_inv w F (upd_mm c f s)"
    using inv pt us by (intro vm_inv_cong [OF assms(1)]) (auto simp: devices_ok_def slot_ok_def)
qed

lemma frames_avail_upd_mm:
  assumes "pt_wf s" "\<And>m. caller_mm s c = Some m \<Longrightarrow> mm_pgd (f m) = mm_pgd m \<and> fifo_pgn (f m) = fifo_pgn m"
  shows "frames_avail w (upd_mm c f s) x = frames_avail w s x"
proof -
  note pt = pt_upd_mm [of s c f, OF conjunct1 [OF assms(2)]]
  have "pte_get_entry (upd_mm c f s) = pte_get_entry s"
    using pt assms(1) by (intro ext) (simp add: pte_get_entry_view)
  moreover have "fifo_of (upd_mm c f s) y = fifo_of s y" for y
    using assms(2) by (cases "caller_mm s c") (auto simp: fifo_of_def)
  ultimately have "evictable (upd_mm c f s) = evictable s" by (simp add: evictable_def resident_def)
  moreover have "map_option k_running_list (caller_krnl (upd_mm c f s) x) = map_option k_running_list (caller_krnl s x)"
    by (cases "caller_krnl s x") auto
  then have "owners (upd_mm c f s) x = owners s x" by (simp only: owners_def upd_mm_frame)
  ultimately show ?thesis by (simp add: frames_avail_def victims_def)
qed

text \<open>
  \<open>outside_mm c s s'\<close>: apart from the address space of \<open>c\<close>, the page tables and the devices,
  nothing changed.
\<close>

definition outside_mm :: "pptr \<Rightarrow> sys \<Rightarrow> sys \<Rightarrow> bool" where
  "outside_mm c s s' \<longleftrightarrow> core (upd_mm c (\<lambda>_. demo_mm) s') = core (upd_mm c (\<lambda>_. demo_mm) s)"

lemma outside_mm_refl [simp]: "outside_mm c s s"
  by (simp add: outside_mm_def)

lemma outside_mm_trans [trans]: "outside_mm c s s' \<Longrightarrow> outside_mm c s' s'' \<Longrightarrow> outside_mm c s s''"
  by (simp add: outside_mm_def)

lemma outside_mm_upd_mm [simp]: "outside_mm c s (upd_mm c f s)"
  by (simp add: outside_mm_def upd_mm_upd_mm comp_def)

lemma core_upd_const: "core (upd_mm c (\<lambda>_. m) s) = upd_mm c (\<lambda>_. mm_core m) (core s)"
  by (simp add: core_def upd_mm_def upd_krnl_def pcb_core_def krnl_core_def option.map_comp comp_def fun_eq_iff)

lemma calm_outside_mm: "calm s s' \<Longrightarrow> outside_mm c s s'"
  by (simp add: outside_mm_def core_upd_const calm_def)

lemma outside_mmD:
  assumes "outside_mm c s s'"
  shows "sy_sched s' = sy_sched s"
    "x \<noteq> c \<Longrightarrow> map_option pcb_core (pcbs s' x) = map_option pcb_core (pcbs s x)"
    "map_option (\<lambda>b. b\<lparr>krnl := None\<rparr>) (pcbs s' x) = map_option (\<lambda>b. b\<lparr>krnl := None\<rparr>) (pcbs s x)"
proof -
  from assms have e: "upd_mm c (\<lambda>_. mm_core demo_mm) (core s') = upd_mm c (\<lambda>_. mm_core demo_mm) (core s)"
    by (simp add: outside_mm_def core_upd_const)
  from arg_cong [OF e, of sy_sched] show "sy_sched s' = sy_sched s" by (simp add: core_def)
  from arg_cong [OF e, of pcbs] have p: "pcbs (upd_mm c (\<lambda>_. mm_core demo_mm) (core s')) x =
    pcbs (upd_mm c (\<lambda>_. mm_core demo_mm) (core s)) x" by simp
  show "map_option pcb_core (pcbs s' x) = map_option pcb_core (pcbs s x)" if "x \<noteq> c"
    using p that by (simp add: upd_mm_def upd_krnl_def core_def)
  have "map_option (\<lambda>b. b\<lparr>krnl := None\<rparr>) (pcbs (upd_mm c (\<lambda>_. mm_core demo_mm) (core u)) x) =
      map_option (\<lambda>b. b\<lparr>krnl := None\<rparr>) (pcbs u x)" for u
    by (cases "pcbs u x") (auto simp: upd_mm_def upd_krnl_def core_def pcb_core_def)
  from this [of s'] this [of s] p
  show "map_option (\<lambda>b. b\<lparr>krnl := None\<rparr>) (pcbs s' x) = map_option (\<lambda>b. b\<lparr>krnl := None\<rparr>) (pcbs s x)" by simp
qed

section \<open>One area\<close>

definition area_ok :: "nat \<Rightarrow> sys \<Rightarrow> pptr \<Rightarrow> vm_area_struct \<Rightarrow> vm_rg_struct list \<Rightarrow> bool" where
  "area_ok w s c v T \<longleftrightarrow>
     (\<exists>m. caller_mm s c = Some m \<and> mm_mmap m = [v] \<and> symrgtbl m = T) \<and>
     vm_id v = 0 \<and> vm_start v = 0 \<and> vm_end v = sbrk v \<and> take_bit 12 (sbrk v) = 0 \<and>
     rg_list_ok (vm_freerg_list v) \<and> (\<forall>a \<in> covered (vm_freerg_list v). a < sbrk v) \<and>
     (\<forall>a. vbyte w s c a \<noteq> None \<longleftrightarrow> a < sbrk v)"

text \<open>
  A page below \<open>sbrk\<close> owns a frame or a swap slot, so there are fewer pages than slots, and
  \<open>sbrk\<close> stays far below the kernel half.
\<close>

lemma slots_finite:
  assumes "vm_inv w F s"
  shows "user_slot s c p = Some sl \<Longrightarrow> unat (snd sl) < 524287"
  using vm_invD(7) [OF assms, of c p sl] vm_invD(5) [OF assms, of "fst sl"]
  by (auto simp: slot_ok_def frame_ok_def ram_like_def memphy_wf_def)

lemma sbrk_bound:
  assumes "vm_inv w F s" "\<And>a. a < b \<Longrightarrow> vbyte w s c a \<noteq> None"
  shows "uint b < 2 ^ 32"
proof (rule ccontr)
  assume "\<not> uint b < 2 ^ 32"
  then have b: "2 ^ 32 \<le> uint b" by simp
  let ?g = "\<lambda>k. the (user_slot s c (of_nat k))" and ?K = "{..<1048576 :: nat}"
  have slot: "\<exists>sl. user_slot s c (of_nat k) = Some sl" if "k \<in> ?K" for k
  proof -
    have u: "unat (of_nat (4096 * k) :: addr) = 4096 * k" "unat (of_nat k :: addr) = k"
      using that by (simp_all only: unat_of_nat) simp_all
    have d: "drop_bit 12 (of_nat (4096 * k) :: addr) = of_nat k"
      using that by (simp only: word_unat_eq_iff unsigned_drop_bit_eq u) (simp add: drop_bit_eq_div take_bit_nat_eq_self)
    have "int (4096 * k) < uint b" using b that by simp
    then have "(of_nat (4096 * k) :: addr) < b" using u by (simp only: word_less_def uint_nat)
    from assms(2) [OF this, unfolded vbyte_def d] show ?thesis by auto
  qed
  have "inj_on ?g ?K"
  proof (rule inj_onI)
    fix k l assume kl: "k \<in> ?K" "l \<in> ?K" "?g k = ?g l"
    from slot [OF kl(1)] slot [OF kl(2)] kl(3) obtain sl where
      "user_slot s c (of_nat k) = Some sl" "user_slot s c (of_nat l) = Some sl" by auto
    from vm_invD(9) [OF assms(1) this] have "push_bit 12 (of_nat l :: addr) = push_bit 12 (of_nat k)" by simp
    then have "(of_nat (4096 * l) :: addr) = of_nat (4096 * k)" by (simp add: push_bit_eq_mult mult.commute)
    then have "unat (of_nat (4096 * l) :: addr) = unat (of_nat (4096 * k) :: addr)" by (simp only:)
    with kl(1,2) show "k = l" by (simp only: unat_of_nat) simp
  qed
  moreover have "?g ` ?K \<subseteq> UNIV \<times> {f. unat f < 524287}"
    using slots_finite [OF assms(1), of c] slot by (auto simp: mem_Times_iff dest!: slot)
  moreover have "card {f :: addr. unat f < 524287} \<le> card {..<524287 :: nat}"
    by (rule card_inj_on_le [of unat]) (auto simp: inj_on_def word_unat_eq_iff)
  moreover have "finite (UNIV \<times> {f :: addr. unat f < 524287} :: slot set)" by simp
  ultimately show False
    using card_inj_on_le [of ?g ?K "UNIV \<times> {f. unat f < 524287}"] by (simp add: card_cartesian_product)
qed

section \<open>Sizes and ranges\<close>

definition pages_of :: "addr \<Rightarrow> int" where
  "pages_of sz = (uint sz + 4095) div 4096"

lemma align_pages:
  assumes "uint sz \<le> 2 ^ 31"
  shows "PAGING64_PAGE_ALIGNSZ sz = addr_of_int (4096 * pages_of sz)" "uint (PAGING64_PAGE_ALIGNSZ sz) = 4096 * pages_of sz"
    and "0 \<le> pages_of sz" "pages_of sz \<le> 524288" "uint sz \<le> 4096 * pages_of sz" "0 < uint sz \<Longrightarrow> 0 < pages_of sz"
proof -
  show n: "0 \<le> pages_of sz" "pages_of sz \<le> 524288" "uint sz \<le> 4096 * pages_of sz" "0 < uint sz \<Longrightarrow> 0 < pages_of sz"
  proof -
    have "0 \<le> uint sz" "uint sz \<le> 2147483648" using assms by simp_all
    moreover have "uint sz + 4095 = 4096 * pages_of sz + (uint sz + 4095) mod 4096"
      by (simp add: pages_of_def)
    moreover have "0 \<le> (uint sz + 4095) mod 4096" "(uint sz + 4095) mod 4096 < 4096" by simp_all
    ultimately show "0 \<le> pages_of sz" "pages_of sz \<le> 524288" "uint sz \<le> 4096 * pages_of sz" "0 < uint sz \<Longrightarrow> 0 < pages_of sz"
      by linarith+
  qed
  have "uint (sz + 4095 :: addr) = uint sz + 4095"
    using uint_add_small [of sz 4095] assms by simp
  then have q: "uint ((sz + 4095) div 4096 :: addr) = pages_of sz" by (simp add: uint_div_distrib pages_of_def)
  have "PAGING64_PAGE_ALIGNSZ sz = ((sz + 4095) div 4096) * 4096"
    by (simp add: PAGING64_PAGE_ALIGNSZ_def PAGING64_PAGESZ_def add.commute)
  also have "\<dots> = addr_of_int (pages_of sz) * 4096" by (simp only: addr_of_int_def q [symmetric] word_of_int_uint)
  also have "\<dots> = addr_of_int (4096 * pages_of sz)" by (simp add: addr_of_int_def)
  finally show e: "PAGING64_PAGE_ALIGNSZ sz = addr_of_int (4096 * pages_of sz)" .
  show "uint (PAGING64_PAGE_ALIGNSZ sz) = 4096 * pages_of sz" unfolding e using n by (intro uint_addr_of_int) auto
qed

lemma page_base: "uint (push_bit 12 (drop_bit 12 b) :: addr) = 4096 * (uint b div 4096)"
proof -
  have "uint b < 2 ^ 64" using uint_lt2p [of b] by simp
  then have "4096 * (uint b div 4096) < 2 ^ 64" by simp
  moreover have "0 \<le> uint b div 4096" by (simp add: pos_imp_zdiv_nonneg_iff)
  ultimately show ?thesis
    by (simp add: push_bit_eq_mult uint_word_ariths drop_bit_eq_div uint_div_distrib mult.commute)
qed

lemma aligned_uint: "take_bit 12 x = 0 \<longleftrightarrow> uint x mod 4096 = 0" for x :: addr
  by (simp add: word_uint_eq_iff take_bit_eq_mod uint_mod_distrib)

lemma range_ok:
  assumes "take_bit 12 a = 0" "0 \<le> n" "uint a + 4096 * n \<le> 2 ^ 55"
  shows "validate_page_range a n = 0" "\<not> is_kernel_address a" "in_pages a n b \<longleftrightarrow> uint a \<le> uint b \<and> uint b < uint a + 4096 * n"
proof -
  have ca: "canonical a \<and> \<not> is_kernel_address a" using assms by (simp only: canonical_uint) simp
  then show "\<not> is_kernel_address a" by simp
  have sum: "uint (a + addr_of_int (4096 * k)) = uint a + 4096 * k" if "0 \<le> k" "k < n" for k
  proof -
    have a: "0 \<le> uint a" by simp
    moreover have "uint a + 4096 * n \<le> 36028797018963968" using assms(3) by simp
    ultimately have "4096 * k < 18446744073709551616" "uint a + 4096 * k < 18446744073709551616" using that by linarith+
    then have k: "4096 * k < 2 ^ 64" "uint a + 4096 * k < 2 ^ 64" by simp_all
    with that have "uint (addr_of_int (4096 * k)) = 4096 * k" by (intro uint_addr_of_int) auto
    with k(2) uint_add_small [of a "addr_of_int (4096 * k)"] show ?thesis by simp
  qed
  show "validate_page_range a n = 0"
  proof (cases "n = 0")
    case False
    let ?l = "a + (addr_of_int n - 1) * PAGING64_PAGESZ"
    have l: "?l = a + addr_of_int (4096 * (n - 1))" by (simp add: addr_of_int_def PAGING64_PAGESZ_def)
    have u: "uint ?l = uint a + 4096 * (n - 1)" unfolding l using sum [of "n - 1"] False assms(2) by simp
    then have "canonical ?l \<and> \<not> is_kernel_address ?l" using assms(3) by (simp only: canonical_uint) simp
    moreover have "a \<le> ?l" using u assms(2) False by (simp only: word_le_def) simp
    ultimately show ?thesis using ca assms(1,2)
      by (auto simp: validate_page_range_def offset_field canonical_def Let_def)
  qed (use assms(1) in \<open>simp add: validate_page_range_def offset_field\<close>)
  have "uint a mod 4096 = 0" using assms(1) by (simp only: aligned_uint)
  then have al: "uint a = 4096 * (uint a div 4096)" using mult_div_mod_eq [of 4096 "uint a"] by simp
  have be: "uint b = 4096 * (uint b div 4096) + uint b mod 4096" "0 \<le> uint b mod 4096" "uint b mod 4096 < 4096" by simp_all
  show "in_pages a n b \<longleftrightarrow> uint a \<le> uint b \<and> uint b < uint a + 4096 * n"
  proof
    assume "in_pages a n b"
    then obtain k where "0 \<le> k" "k < n" "4096 * (uint b div 4096) = uint a + 4096 * k"
      using page_base [of b] sum unfolding in_pages_def by metis
    with be al show "uint a \<le> uint b \<and> uint b < uint a + 4096 * n" by linarith
  next
    assume r: "uint a \<le> uint b \<and> uint b < uint a + 4096 * n"
    define k where "k = uint b div 4096 - uint a div 4096"
    have "4096 * k = 4096 * (uint b div 4096) - 4096 * (uint a div 4096)" by (simp add: k_def)
    with r al be have k: "0 \<le> k" "k < n" "uint a + 4096 * k = 4096 * (uint b div 4096)" by linarith+
    then have "push_bit 12 (drop_bit 12 b) = a + addr_of_int (4096 * k)"
      using page_base [of b] sum [OF k(1,2)] by (simp only: word_uint_eq_iff)
    then show "in_pages a n b" unfolding in_pages_def using k(1,2) by blast
  qed
qed

section \<open>Growing the area\<close>

text \<open>What the bookkeeping and the bytes of a process say about each other survives a calm step.\<close>

lemma area_ok_mm:
  assumes "area_ok w s c v T"
  obtains m where "caller_mm s c = Some m" "mm_mmap m = [v]" "symrgtbl m = T"
  using assms by (auto simp: area_ok_def)

lemma area_okD:
  assumes "area_ok w s c v T"
  shows "vm_id v = 0" "vm_start v = 0" "vm_end v = sbrk v" "take_bit 12 (sbrk v) = 0"
    "rg_list_ok (vm_freerg_list v)" "\<And>a. a \<in> covered (vm_freerg_list v) \<Longrightarrow> a < sbrk v"
    "\<And>a. vbyte w s c a \<noteq> None \<longleftrightarrow> a < sbrk v"
  using assms by (simp_all add: area_ok_def)

lemma area_ok_sbrk: "vm_inv w F s \<Longrightarrow> area_ok w s c v T \<Longrightarrow> uint (sbrk v) < 2 ^ 32"
  using sbrk_bound [of w F s "sbrk v" c] by (simp only: area_okD(7) simp_thms)

lemma mm_core_fields:
  assumes "map_option mm_core (caller_mm s' c) = map_option mm_core (caller_mm s c)" "caller_mm s c = Some m"
  obtains m' where "caller_mm s' c = Some m'" "mm_mmap m' = mm_mmap m" "symrgtbl m' = symrgtbl m" "kcpooltbl m' = kcpooltbl m"
proof -
  from assms obtain m' where m': "caller_mm s' c = Some m'" "mm_core m' = mm_core m" by auto
  have "mm_mmap (mm_core x) = mm_mmap x" "symrgtbl (mm_core x) = symrgtbl x" "kcpooltbl (mm_core x) = kcpooltbl x" for x
    by (simp_all add: mm_core_def)
  with m' that show thesis by metis
qed

lemma calm_mm:
  assumes "calm s s'" "caller_mm s c = Some m"
  obtains m' where "caller_mm s' c = Some m'" "mm_mmap m' = mm_mmap m" "symrgtbl m' = symrgtbl m" "kcpooltbl m' = kcpooltbl m"
  using mm_core_fields [OF calmD(5) [OF assms(1)] assms(2)] that by blast

lemma get_vma_single: "mm_mmap m = [v] \<Longrightarrow> vm_id v = 0 \<Longrightarrow> get_vma_by_num m 0 = Some (Some 0)"
  by (simp add: get_vma_by_num_def int_of_addr_def)

text \<open>
  The first half of \<open>inc_vma_limit\<close>: the end of the area moves before the pages are mapped, and
  the result of mapping them is not looked at.
\<close>

lemma inc_vma_limit_start:
  assumes "vm_inv w F s" "host_ok (sy_host s)" "area_ok w s c v T"
    and sz: "0 < uint sz" "uint sz \<le> 2 ^ 31" and e: "e = sbrk v + PAGING64_PAGE_ALIGNSZ sz"
  obtains s1 m1 where "vm_inv w F s1" "vbyte w s1 = vbyte w s" "host_ok (sy_host s1)" "devs s1 = devs s" "outside_mm c s s1"
    "caller_mm s1 c = Some m1" "mm_mmap m1 = [v\<lparr>vm_end := e, sbrk := e\<rparr>]" "symrgtbl m1 = T"
    "uint e = uint (sbrk v) + 4096 * pages_of sz" "sbrk v < e" "uint (sbrk v) < 4294967296"
    "frames_avail w s1 c = frames_avail w s c"
    "\<And>junk. inc_vma_limit junk s c 0 sz = do {
       (r, rg, s2) \<leftarrow> vm_map_ram s1 c (sbrk v) (pages_of sz) junk;
       Some (0, upd_vma c 0 (\<lambda>v. v\<lparr>vm_freerg_list := snd (enlist_vm_rg_node (vm_freerg_list v) rg)\<rparr>) s2) }"
proof -
  note a = area_okD [OF assms(3)] and al = align_pages [OF sz(2)]
  have b32: "uint (sbrk v) < 4294967296" using area_ok_sbrk [OF assms(1,3)] by simp
  have ue: "uint e = uint (sbrk v) + 4096 * pages_of sz"
    unfolding e using uint_add_small [of "sbrk v" "PAGING64_PAGE_ALIGNSZ sz"] b32 al(2,4) by simp
  have lt: "sbrk v < e" using ue al(6) [OF sz(1)] by (simp add: word_less_def)
  have pg: "int_of_addr (PAGING64_PAGE_ALIGNSZ sz div PAGING64_PAGESZ) = pages_of sz"
  proof -
    have "uint (PAGING64_PAGE_ALIGNSZ sz div PAGING64_PAGESZ) = pages_of sz"
      using al(2) by (simp add: uint_div_distrib PAGING64_PAGESZ_def)
    then have "unat (PAGING64_PAGE_ALIGNSZ sz div PAGING64_PAGESZ) = nat (pages_of sz)" by (simp only: unat_eq_nat_uint)
    with al(3,4) int_of_addr_small [of "PAGING64_PAGE_ALIGNSZ sz div PAGING64_PAGESZ"] show ?thesis by simp
  qed
  obtain h where h: "sys_alloc s = (True, s\<lparr>sy_host := h\<rparr>)" "host_ok h"
    by (rule sys_alloc_cases [of s]) (use assms(2) in \<open>auto simp: host_ok_def\<close>)
  let ?s0 = "s\<lparr>sy_host := h\<rparr>"
  note s0 = sys_alloc_inv [OF assms(1) h(1)]
  obtain m where m: "caller_mm s c = Some m" "mm_mmap m = [v]" "symrgtbl m = T" by (rule area_ok_mm [OF assms(3)])
  note vma = get_vma_single [OF m(2) a(1)]
  have ov: "validate_overlap_vm_area m 0 (sbrk v) e = Some 0"
    using lt vma m(2) by (simp add: validate_overlap_vm_area_def)
  define s1 where "s1 = upd_vma c 0 (\<lambda>v. v\<lparr>vm_end := e, sbrk := e\<rparr>) ?s0"
  have i1: "vm_inv w F s1" "vbyte w s1 = vbyte w s" unfolding s1_def upd_vma_def
    using vm_inv_upd_mm [OF s0(1), of c] s0(2) by simp_all
  have m1: "caller_mm s1 c = Some (m\<lparr>mm_mmap := [v\<lparr>vm_end := e, sbrk := e\<rparr>]\<rparr>)" "host_ok (sy_host s1)" "devs s1 = devs s"
    using m(1,2) h(2) by (simp_all add: s1_def upd_vma_def)
  have fa: "frames_avail w s1 c = frames_avail w s c"
    unfolding s1_def upd_vma_def using frames_avail_upd_mm [OF vm_invD(1) [OF s0(1)], of c]
    by (simp add: frames_avail_host [OF vm_invD(1) [OF assms(1)]])
  have "outside_mm c s s1"
    by (rule outside_mm_trans [OF calm_outside_mm [OF calm_sys_alloc [OF h(1)]]]) (simp add: s1_def upd_vma_def)
  moreover have "inc_vma_limit junk s c 0 sz = do {
       (r, rg, s2) \<leftarrow> vm_map_ram s1 c (sbrk v) (pages_of sz) junk;
       Some (0, upd_vma c 0 (\<lambda>v. v\<lparr>vm_freerg_list := snd (enlist_vm_rg_node (vm_freerg_list v) rg)\<rparr>) s2) }" for junk
    using h(1) m(1,2) vma ov pg
    by (simp add: inc_vma_limit_def e [symmetric] s1_def [symmetric] Let_def cong: bind_option_cong)
  ultimately show thesis using that i1 m1 ue lt b32 fa m(3) by simp
qed

lemma inc_vma_limit_ok:
  assumes "vm_inv w F s" "host_ok (sy_host s)" "area_ok w s c v T"
    and sz: "0 < uint sz" "uint sz \<le> 2 ^ 31" and room: "pages_of sz \<le> int (frames_avail w s c)"
    and e: "e = sbrk v + PAGING64_PAGE_ALIGNSZ sz"
    and v': "v' = v\<lparr>vm_end := e, sbrk := e,
      vm_freerg_list := snd (enlist_vm_rg_node (vm_freerg_list v) \<lparr>rg_start = sbrk v, rg_end = e\<rparr>)\<rparr>"
  shows "\<exists>s'. inc_vma_limit junk s c 0 sz = Some (0, s') \<and> vm_inv w F s' \<and> host_ok (sy_host s') \<and>
    area_ok w s' c v' T \<and> outside_mm c s s' \<and> uint e = uint (sbrk v) + 4096 * pages_of sz \<and>
    (\<forall>x b. \<not> (x = c \<and> sbrk v \<le> b \<and> b < e) \<longrightarrow> vbyte w s' x b = vbyte w s x b)"
proof -
  note a = area_okD [OF assms(3)] and al = align_pages [OF sz(2)]
  let ?n = "pages_of sz"
  obtain s1 m1 where s1: "vm_inv w F s1" "vbyte w s1 = vbyte w s" "host_ok (sy_host s1)" "devs s1 = devs s" "outside_mm c s s1"
    and m1: "caller_mm s1 c = Some m1" "mm_mmap m1 = [v\<lparr>vm_end := e, sbrk := e\<rparr>]" "symrgtbl m1 = T"
    and ue: "uint e = uint (sbrk v) + 4096 * ?n" and lt: "sbrk v < e" and b32: "uint (sbrk v) < 4294967296"
    and fa: "frames_avail w s1 c = frames_avail w s c"
    and run: "\<And>junk. inc_vma_limit junk s c 0 sz = do {
       (r, rg, s2) \<leftarrow> vm_map_ram s1 c (sbrk v) ?n junk;
       Some (0, upd_vma c 0 (\<lambda>v. v\<lparr>vm_freerg_list := snd (enlist_vm_rg_node (vm_freerg_list v) rg)\<rparr>) s2) }"
    by (rule inc_vma_limit_start [OF assms(1-3) sz e]) (rule that; assumption)
  have bound: "uint (sbrk v) + 4096 * ?n \<le> 2 ^ 55" using b32 al(4) by simp
  note rg = range_ok [OF a(4) al(3) bound]
  have pages: "in_pages (sbrk v) ?n b \<longleftrightarrow> sbrk v \<le> b \<and> b < e" for b
    unfolding rg(3) by (simp add: word_le_def word_less_def ue)
  have fresh: "vbyte w s1 c (sbrk v + addr_of_int (4096 * k)) = None" if k: "0 \<le> k" "k < ?n" for k
  proof -
    have "uint (addr_of_int (4096 * k)) = 4096 * k" using k al(4) by (intro uint_addr_of_int) auto
    then have "sbrk v \<le> sbrk v + addr_of_int (4096 * k)"
      using k al(4) b32 uint_add_small [of "sbrk v" "addr_of_int (4096 * k)"] by (simp add: word_le_def)
    then show ?thesis using a(7) [of "sbrk v + addr_of_int (4096 * k)"] s1(2) by auto
  qed
  obtain ret rg0 s2 where mp: "vm_map_ram s1 c (sbrk v) ?n junk = Some (ret, rg0, s2)" "vm_inv w F s2" "calm s1 s2"
      "\<forall>x b. \<not> (x = c \<and> in_pages (sbrk v) ?n b) \<longrightarrow> vbyte w s2 x b = vbyte w s1 x b" "ret = 0"
      "rg0 = \<lparr>rg_start = sbrk v, rg_end = sbrk v + addr_of_int (4096 * ?n)\<rparr>"
      "\<forall>k. 0 \<le> k \<and> k < ?n \<longrightarrow> (\<exists>f. user_slot s2 c (drop_bit 12 (sbrk v) + addr_of_int k) = Some (False, f))"
    using vm_map_ram_ok [OF s1(1) _ s1(3) rg(1) _ rg(2) fresh, of junk] m1(1) fa al(4) room by auto
  have rg0: "rg0 = \<lparr>rg_start = sbrk v, rg_end = e\<rparr>" using mp(6) al(1) e by simp
  obtain m2 where m2: "caller_mm s2 c = Some m2" "mm_mmap m2 = [v\<lparr>vm_end := e, sbrk := e\<rparr>]" "symrgtbl m2 = T"
    by (rule calm_mm [OF mp(3) m1(1)]) (use m1 in auto)
  define s3 where "s3 = upd_vma c 0 (\<lambda>v. v\<lparr>vm_freerg_list := snd (enlist_vm_rg_node (vm_freerg_list v) rg0)\<rparr>) s2"
  have i3: "vm_inv w F s3" "vbyte w s3 = vbyte w s2" unfolding s3_def upd_vma_def
    using vm_inv_upd_mm [OF mp(2), of c] by simp_all
  have out: "vbyte w s3 x b = vbyte w s x b" if "\<not> (x = c \<and> sbrk v \<le> b \<and> b < e)" for x b
    using mp(4) that s1(2) i3(2) unfolding pages by simp
  have inside: "vbyte w s3 c b \<noteq> None" if "sbrk v \<le> b \<and> b < e" for b
  proof -
    have "in_pages (sbrk v) ?n b" using that pages by simp
    then obtain k where k: "0 \<le> k" "k < ?n" "push_bit 12 (drop_bit 12 b) = sbrk v + addr_of_int (4096 * k)"
      by (auto simp: in_pages_def)
    have "push_bit 12 (drop_bit 12 b) = push_bit 12 (drop_bit 12 (sbrk v) + addr_of_int k)"
      using k(3) page_range_step [of "sbrk v" k] a(4) by (simp add: offset_field)
    with mp(7) k(1,2) user_slot_same_page have "user_slot s2 c (drop_bit 12 b) \<noteq> None" by (metis option.discI)
    with i3(2) show ?thesis by (simp add: vbyte_def)
  qed
  have fits: "rg_fits rg0" "rg_start rg0 < rg_end rg0"
    using lt ue b32 al(4) less_imp_le [OF lt] by (simp add: rg0 rg_fits_def word_less_def, simp add: rg0)
  have dis: "rg_bytes rg0 \<inter> covered (vm_freerg_list v) = {}" using a(6) by (fastforce simp: rg_bytes_def rg0)
  note en = enlist_vm_rg_node_ok [OF a(5) fits dis, unfolded rg0]
  have "area_ok w s3 c v' T"
    unfolding area_ok_def
  proof (intro conjI ballI allI)
    show "\<exists>m. caller_mm s3 c = Some m \<and> mm_mmap m = [v'] \<and> symrgtbl m = T"
      using m2 by (simp add: s3_def upd_vma_def v' rg0)
    show "vm_id v' = 0" "vm_start v' = 0" "vm_end v' = sbrk v'" using a(1-3) by (simp_all add: v')
    have "uint e mod 4096 = uint (sbrk v) mod 4096" unfolding ue by simp
    then show "take_bit 12 (sbrk v') = 0" using a(4) by (simp add: v' aligned_uint)
    show "rg_list_ok (vm_freerg_list v')" using en by (simp add: v')
    show "b < sbrk v'" if "b \<in> covered (vm_freerg_list v')" for b
      using that en a(6) [of b] lt by (auto simp: v' rg_bytes_def)
    show "(vbyte w s3 c b \<noteq> None) = (b < sbrk v')" for b
    proof (cases "sbrk v \<le> b \<and> b < e")
      case False
      with out [of c b] a(7) [of b] lt show ?thesis by (auto simp: v')
    qed (use inside in \<open>simp add: v'\<close>)
  qed
  moreover have "outside_mm c s s3"
    using outside_mm_trans [OF s1(5) outside_mm_trans [OF calm_outside_mm [OF mp(3)]]] by (simp add: s3_def upd_vma_def)
  moreover have "host_ok (sy_host s3)" using calmD(2) [OF mp(3) s1(3)] by (simp add: s3_def upd_vma_def)
  moreover have "inc_vma_limit junk s c 0 sz = Some (0, s3)" using run [of junk] mp(1) by (simp add: s3_def)
  ultimately show ?thesis using i3(1) ue out by blast
qed

text \<open>With no frame left, the caller is told that the area has grown.\<close>

lemma inc_vma_limit_no_frames:
  assumes "vm_inv w F s" "host_ok (sy_host s)" "area_ok w s c v T" "0 < uint sz" "uint sz \<le> 2 ^ 31"
    and none: "free_fp_list (devs s 0) = []" "free_fp_list (devs s w) = []"
  shows "\<exists>s' m v'. inc_vma_limit junk s c 0 sz = Some (0, s') \<and> vbyte w s' = vbyte w s \<and>
    caller_mm s' c = Some m \<and> mm_mmap m = [v'] \<and> sbrk v' = sbrk v + PAGING64_PAGE_ALIGNSZ sz \<and> sbrk v < sbrk v' \<and>
    vm_freerg_list v' = snd (enlist_vm_rg_node (vm_freerg_list v) junk)"
proof -
  obtain s1 m1 where s1: "vm_inv w F s1" "vbyte w s1 = vbyte w s" "devs s1 = devs s" "caller_mm s1 c = Some m1"
    "mm_mmap m1 = [v\<lparr>vm_end := sbrk v + PAGING64_PAGE_ALIGNSZ sz, sbrk := sbrk v + PAGING64_PAGE_ALIGNSZ sz\<rparr>]"
    "sbrk v < sbrk v + PAGING64_PAGE_ALIGNSZ sz"
    and run: "\<And>junk. inc_vma_limit junk s c 0 sz = do {
       (r, rg, s2) \<leftarrow> vm_map_ram s1 c (sbrk v) (pages_of sz) junk;
       Some (0, upd_vma c 0 (\<lambda>v. v\<lparr>vm_freerg_list := snd (enlist_vm_rg_node (vm_freerg_list v) rg)\<rparr>) s2) }"
    by (rule inc_vma_limit_start [OF assms(1-5) refl]) (rule that; assumption)
  have dv: "caller_mram s1 c = Some 0" "caller_mswp s1 c = Some w" using vm_invD(10) [OF s1(1,4)] by auto
  have "dev_get_freefp (Some d) s1 = (None, s1)" if "d = 0 \<or> d = w" for d
    using that none s1(3) by (auto simp: dev_get_freefp_def MEMPHY_get_freefp_def upd_dev_id)
  then have "alloc_pages_range s1 c (pages_of sz) = Some (addr_of_int (-3000), [], s1)"
    using dv s1(4) align_pages(3,6) [OF assms(5)] assms(4)
    by (auto simp: alloc_pages_range_def alloc_pages_loop.simps [of s1 c 0 "pages_of sz" "[]"] swap_out_victim_page_def)
  then have "vm_map_ram s1 c (sbrk v) (pages_of sz) junk = Some (addr_of_int (-1), junk, s1)" by (simp add: vm_map_ram_def)
  with run [of junk] have "inc_vma_limit junk s c 0 sz =
      Some (0, upd_vma c 0 (\<lambda>v. v\<lparr>vm_freerg_list := snd (enlist_vm_rg_node (vm_freerg_list v) junk)\<rparr>) s1)" by simp
  moreover have "vbyte w (upd_vma c 0 f s1) = vbyte w s" for f
    unfolding upd_vma_def using vm_inv_upd_mm(3) [OF s1(1), of c] s1(2) by simp
  ultimately show ?thesis using s1(4-6) by (simp add: upd_vma_def)
qed

section \<open>The symbol table\<close>

definition sym_bytes :: "vm_rg_struct \<Rightarrow> addr set" where
  "sym_bytes r = {a. rg_start r \<le> a \<and> a < rg_end r}"

text \<open>An entry that names user memory; entries of kernel memory lie above \<open>KMEM_VADDR_BASE\<close>.\<close>

definition user_rg :: "vm_rg_struct \<Rightarrow> bool" where
  "user_rg r \<longleftrightarrow> rg_start r < rg_end r \<and> rg_start r < KMEM_VADDR_BASE"

definition symtab_ok :: "vm_area_struct \<Rightarrow> vm_rg_struct list \<Rightarrow> bool" where
  "symtab_ok v T \<longleftrightarrow> length T = PAGING_MAX_SYMTBL_SZ \<and>
     (\<forall>i < length T. user_rg (T ! i) \<longrightarrow>
        rg_end (T ! i) \<le> sbrk v \<and> sym_bytes (T ! i) \<inter> covered (vm_freerg_list v) = {}) \<and>
     (\<forall>i < length T. \<forall>j < length T. i \<noteq> j \<longrightarrow> user_rg (T ! i) \<longrightarrow> user_rg (T ! j) \<longrightarrow>
        sym_bytes (T ! i) \<inter> sym_bytes (T ! j) = {})"

text \<open>
  The slots in \<open>F\<close> are held outside the address spaces of the processes, by the kernel.
\<close>

definition heap_inv :: "nat \<Rightarrow> slot set \<Rightarrow> sys \<Rightarrow> pptr \<Rightarrow> bool" where
  "heap_inv w F s c \<longleftrightarrow> vm_inv w F s \<and> (\<exists>v T. area_ok w s c v T \<and> symtab_ok v T)"

lemma sym_bytes_node: "sym_bytes r = rg_bytes \<lparr>rg_start = rg_start r, rg_end = rg_end r\<rparr>"
  by (simp add: sym_bytes_def rg_bytes_def)

lemma symtab_pair:
  "symtab_ok v T \<Longrightarrow> i < length T \<Longrightarrow> j < length T \<Longrightarrow> i \<noteq> j \<Longrightarrow> user_rg (T ! i) \<Longrightarrow> user_rg (T ! j) \<Longrightarrow>
   sym_bytes (T ! i) \<inter> sym_bytes (T ! j) = {}"
  by (simp add: symtab_ok_def)

lemma symtab_update:
  assumes "symtab_ok v T" "i < length T" "vm_freerg_list v' = l'" "sbrk v \<le> sbrk v'"
    and l': "\<And>a. a \<in> covered l' \<Longrightarrow> a \<in> covered (vm_freerg_list v) \<or> sbrk v \<le> a \<or> user_rg (T ! i) \<and> a \<in> sym_bytes (T ! i)"
    and r: "user_rg r \<Longrightarrow> rg_end r \<le> sbrk v' \<and> sym_bytes r \<inter> covered l' = {} \<and>
      sym_bytes r \<subseteq> covered (vm_freerg_list v) \<union> {a. sbrk v \<le> a}"
  shows "symtab_ok v' (T[i := r])"
proof -
  let ?T = "T[i := r]"
  have old: "rg_end (T ! j) \<le> sbrk v" "sym_bytes (T ! j) \<inter> covered (vm_freerg_list v) = {}"
    "sym_bytes (T ! j) \<inter> {a. sbrk v \<le> a} = {}" if "j < length T" "user_rg (T ! j)" for j
    using assms(1) that by (auto simp: symtab_ok_def sym_bytes_def)
  note pair = symtab_pair [OF assms(1)]
  have "rg_end (?T ! j) \<le> sbrk v' \<and> sym_bytes (?T ! j) \<inter> covered l' = {}" if j: "j < length T" "user_rg (?T ! j)" for j
  proof (cases "j = i")
    case True
    with j r show ?thesis by simp
  next
    case False
    with j have u: "user_rg (T ! j)" by simp
    have "a \<notin> covered l'" if "a \<in> sym_bytes (T ! j)" for a
      using l' [of a] that old(2,3) [OF j(1) u] pair [OF j(1) assms(2) False u] by auto
    with False old(1) [OF j(1) u] assms(4) show ?thesis by auto
  qed
  moreover have "sym_bytes (?T ! j) \<inter> sym_bytes (?T ! k) = {}"
    if jk: "j < length T" "k < length T" "j \<noteq> k" "user_rg (?T ! j)" "user_rg (?T ! k)" for j k
  proof -
    have new: "sym_bytes r \<inter> sym_bytes (T ! k) = {}" if "user_rg r" "k < length T" "user_rg (T ! k)" for k
      using r [OF that(1)] old(2,3) [OF that(2,3)] by blast
    show ?thesis
    proof (cases "j = i \<or> k = i")
      case True
      with jk new [of k] new [of j] show ?thesis by (auto simp: Int_commute)
    next
      case False
      with jk pair show ?thesis by simp
    qed
  qed
  ultimately show ?thesis using assms(1,3) by (simp add: symtab_ok_def)
qed

text \<open>The region that the search finds becomes an entry of the table.\<close>

lemma take_region:
  assumes "vm_inv w F s" "area_ok w s c v T" "symtab_ok v T" "i < length T"
    and "0 < sz" "sz < 2 ^ 31" "free_region sz (vm_freerg_list v) = (Some r, l')"
    and s': "s' = set_symrg c i \<lparr>rg_start = rg_start r, rg_end = rg_end r, vmaid = 0\<rparr>
      (upd_vma c 0 (\<lambda>v. v\<lparr>vm_freerg_list := l'\<rparr>) s)"
  shows "vm_inv w F s'" "vbyte w s' = vbyte w s" "outside_mm c s s'" "sy_host s' = sy_host s" "devs s' = devs s"
    "area_ok w s' c (v\<lparr>vm_freerg_list := l'\<rparr>) (T[i := \<lparr>rg_start = rg_start r, rg_end = rg_end r, vmaid = 0\<rparr>])"
    "symtab_ok (v\<lparr>vm_freerg_list := l'\<rparr>) (T[i := \<lparr>rg_start = rg_start r, rg_end = rg_end r, vmaid = 0\<rparr>])"
    "rg_end r = rg_start r + addr_of_int sz" "rg_start r < rg_end r" "rg_bytes r \<subseteq> covered (vm_freerg_list v)"
proof -
  note a = area_okD [OF assms(2)]
  note fr = free_region_some [OF a(5) assms(5,6,7)]
  from fr show "rg_end r = rg_start r + addr_of_int sz" "rg_start r < rg_end r" "rg_bytes r \<subseteq> covered (vm_freerg_list v)"
    by blast+
  let ?r = "\<lparr>rg_start = rg_start r, rg_end = rg_end r, vmaid = 0\<rparr>"
  define s1 where "s1 = upd_vma c 0 (\<lambda>v. v\<lparr>vm_freerg_list := l'\<rparr>) s"
  have s'1: "s' = set_symrg c i ?r s1" by (simp add: s' s1_def)
  have i1: "vm_inv w F s1" "vbyte w s1 = vbyte w s"
    unfolding s1_def upd_vma_def using vm_inv_upd_mm [OF assms(1), of c] by simp_all
  show i2: "vm_inv w F s'" "vbyte w s' = vbyte w s"
    unfolding s'1 set_symrg_def using vm_inv_upd_mm [OF i1(1), of c] i1(2) by simp_all
  show "outside_mm c s s'"
    by (rule outside_mm_trans [of c s s1]) (simp_all add: s'1 s1_def set_symrg_def upd_vma_def)
  show "sy_host s' = sy_host s" "devs s' = devs s" by (simp_all add: s'1 s1_def set_symrg_def upd_vma_def)
  obtain m where "caller_mm s c = Some m" "mm_mmap m = [v]" "symrgtbl m = T" by (rule area_ok_mm [OF assms(2)])
  then have "\<exists>m. caller_mm s' c = Some m \<and> mm_mmap m = [v\<lparr>vm_freerg_list := l'\<rparr>] \<and> symrgtbl m = T[i := ?r]"
    by (simp add: s'1 s1_def set_symrg_def upd_vma_def)
  then show "area_ok w s' c (v\<lparr>vm_freerg_list := l'\<rparr>) (T[i := ?r])"
    using a fr unfolding area_ok_def by (simp add: i2(2))
  have "rg_end r \<le> sbrk v"
  proof (rule ccontr)
    assume "\<not> rg_end r \<le> sbrk v"
    then have "(if rg_start r \<le> sbrk v then sbrk v else rg_start r) \<in> rg_bytes r"
      using fr by (auto simp: rg_bytes_def)
    with fr a(6) show False by (fastforce split: if_splits)
  qed
  moreover have sb: "sym_bytes ?r = rg_bytes r" by (simp add: sym_bytes_def rg_bytes_def)
  ultimately show "symtab_ok (v\<lparr>vm_freerg_list := l'\<rparr>) (T[i := ?r])"
    using fr by (intro symtab_update [OF assms(3,4)]) (auto simp: sb)
qed

text \<open>The region that was enlisted lies inside one node of the list.\<close>

lemma enlist_contains:
  assumes "rg_list_ok l" "rg_start r < rg_end r"
  shows "\<exists>q \<in> set (snd (enlist_vm_rg_node l r)). rg_start q \<le> rg_start r \<and> rg_end r \<le> rg_end q"
proof -
  define xs where "xs = takeWhile (\<lambda>q. rg_start q < rg_start r) l"
  define ys where "ys = dropWhile (\<lambda>q. rg_start q < rg_start r) l"
  obtain node rest where nr: "(case ys of [] \<Rightarrow> (r, []) | c # cs \<Rightarrow>
      if rg_end r = rg_start c then (r\<lparr>rg_end := rg_end c\<rparr>, cs) else (r, ys)) = (node, rest)" by fastforce
  have "rg_fits c" if "c \<in> set ys" for c using assms(1) that set_dropWhileD rg_list_fits unfolding ys_def by metis
  with nr have node: "rg_start node = rg_start r" "rg_end r \<le> rg_end node"
    by (auto simp: rg_fits_def split: list.splits if_splits)
  have run: "enlist_vm_rg_node l r = (0, if xs \<noteq> [] \<and> rg_end (last xs) = rg_start node
      then butlast xs @ (last xs)\<lparr>rg_end := rg_end node\<rparr> # rest else xs @ node # rest)"
    using less_le_not_le [THEN iffD1, OF assms(2)] nr by (auto simp: enlist_vm_rg_node_def Let_def xs_def [symmetric] ys_def [symmetric])
  have "rg_start (last xs) < rg_start r" if "xs \<noteq> []"
    using set_takeWhileD [of "last xs" "\<lambda>q. rg_start q < rg_start r" l] last_in_set [OF that] by (simp add: xs_def)
  with run node show ?thesis by (auto intro: less_imp_le)
qed

lemma upd_mm_same:
  assumes "\<And>b k m. pcbs s c = Some b \<Longrightarrow> krnl b = Some k \<Longrightarrow> k_mm k = Some m \<Longrightarrow> f m = m"
  shows "upd_mm c f s = s"
proof -
  have "pcbs (upd_mm c f s) x = pcbs s x" for x
  proof (cases "pcbs s c")
    case (Some b)
    then show ?thesis
    proof (cases "krnl b")
      case k: (Some k)
      with Some assms show ?thesis by (cases "k_mm k") (auto simp: upd_mm_def upd_krnl_def)
    qed (simp add: upd_mm_def upd_krnl_def)
  qed (simp add: upd_mm_def upd_krnl_def)
  then have "pcbs (upd_mm c f s) = pcbs s" by (rule ext)
  then show ?thesis by (simp add: upd_mm_def upd_krnl_def)
qed

lemma get_free_vmrg_area_run:
  assumes "area_ok w s c v T" "free_region sz (vm_freerg_list v) = (rg, l')"
  shows "get_free_vmrg_area s c 0 sz = Some (rg, upd_vma c 0 (\<lambda>v. v\<lparr>vm_freerg_list := l'\<rparr>) s)"
    and "l' = vm_freerg_list v \<Longrightarrow> upd_vma c 0 (\<lambda>v. v\<lparr>vm_freerg_list := l'\<rparr>) s = s"
proof -
  obtain m where m: "caller_mm s c = Some m" "mm_mmap m = [v]" "symrgtbl m = T" by (rule area_ok_mm [OF assms(1)])
  show "get_free_vmrg_area s c 0 sz = Some (rg, upd_vma c 0 (\<lambda>v. v\<lparr>vm_freerg_list := l'\<rparr>) s)"
    using m assms(2) get_vma_single [OF m(2) area_okD(1) [OF assms(1)]] by (simp add: get_free_vmrg_area_def)
  show "upd_vma c 0 (\<lambda>v. v\<lparr>vm_freerg_list := l'\<rparr>) s = s" if "l' = vm_freerg_list v"
    unfolding upd_vma_def that
    by (rule upd_mm_same) (use m in \<open>auto simp: caller_mm_def caller_krnl_def split: if_splits\<close>)
qed

section \<open>Allocation\<close>

text \<open>The process is found under its number in the running list.\<close>

definition runs :: "sys \<Rightarrow> pptr \<Rightarrow> bool" where
  "runs s c \<longleftrightarrow> (\<exists>b. pcbs s c = Some b \<and> find_proc (sy_sched s) (pcbs s) (pid b) = c)"

lemma find_pid_cong:
  assumes "\<And>x. map_option pid (P' x) = map_option pid (P x)"
  shows "find_pid P' xs n i m = find_pid P xs n i m"
proof (induction "m - i" arbitrary: i)
  case 0
  then show ?case by (simp add: find_pid.simps [of P' xs n i m] find_pid.simps [of P xs n i m])
next
  case (Suc k)
  then have IH: "find_pid P' xs n (i + 1) m = find_pid P xs n (i + 1) m" by simp
  have "map_option pid (P' (xs ! i)) = map_option pid (P (xs ! i))" by (rule assms)
  with IH show ?case
    by (cases "P (xs ! i)"; cases "P' (xs ! i)")
       (simp_all add: find_pid.simps [of P' xs n i m] find_pid.simps [of P xs n i m])
qed

lemma runs_outside:
  assumes "outside_mm c s s'" "runs s c"
  shows "runs s' c"
proof -
  have p: "map_option pid (pcbs s' x) = map_option pid (pcbs s x)" for x
    using arg_cong [OF outside_mmD(3) [OF assms(1), of x], of "map_option pid"] by (simp add: option.map_comp comp_def)
  obtain b where b: "pcbs s c = Some b" "find_proc (sy_sched s) (pcbs s) (pid b) = c" using assms(2) by (auto simp: runs_def)
  with p [of c] obtain b' where "pcbs s' c = Some b'" "pid b' = pid b" by auto
  with b(2) outside_mmD(1) [OF assms(1)] find_pid_cong [of "pcbs s'" "pcbs s", OF p] show ?thesis
    by (simp add: runs_def find_proc_def)
qed

lemma align_align: "uint sz < 2 ^ 31 \<Longrightarrow> PAGING64_PAGE_ALIGNSZ (PAGING64_PAGE_ALIGNSZ sz) = PAGING64_PAGE_ALIGNSZ sz \<and>
    pages_of (PAGING64_PAGE_ALIGNSZ sz) = pages_of sz \<and> uint (PAGING64_PAGE_ALIGNSZ sz) \<le> 2 ^ 31"
proof -
  assume "uint sz < 2 ^ 31"
  then have sz: "uint sz \<le> 2 ^ 31" by simp
  note al = align_pages [OF sz]
  have le: "uint (PAGING64_PAGE_ALIGNSZ sz) \<le> 2 ^ 31" using al(2,4) by simp
  have "pages_of (PAGING64_PAGE_ALIGNSZ sz) = pages_of sz" by (simp add: pages_of_def [of "PAGING64_PAGE_ALIGNSZ sz"] al(2))
  with align_pages(1) [OF le] al(1) le show ?thesis by simp
qed

text \<open>The system call that grows the area.\<close>

lemma grow_syscall:
  assumes "runs s c" "caller_krnl s c \<noteq> None" "pcbs s c = Some b" "sc_a1 rs = addr_of_int SYSMEM_INC_OP"
    "sc_a2 rs = addr_of_int 0" "inc_vma_limit junk s c 0 (sc_a3 rs) = Some (0, s')"
  shows "syscall junk s (caller_krnl s c) (pid b) 17 rs = Some (0, rs, s')"
proof -
  have "c \<noteq> NULL" using assms(2) by auto
  moreover have "int_of_addr (addr_of_int SYSMEM_INC_OP) = 2" "int_of_addr (addr_of_int 0) = 0"
    by (simp_all add: int_of_addr_def addr_of_int_def SYSMEM_INC_OP_def)
  ultimately show ?thesis using assms
    by (auto simp: syscall_def sys_memmap_def runs_def SYSMEM_INC_OP_def SYSMEM_MAP_OP_def)
qed

lemma symtab_grow:
  assumes "symtab_ok v T" "sbrk v \<le> sbrk v'"
    "covered (vm_freerg_list v') = covered (vm_freerg_list v) \<union> rg_bytes \<lparr>rg_start = sbrk v, rg_end = e\<rparr>"
  shows "symtab_ok v' T"
proof -
  have "rg_end (T ! i) \<le> sbrk v' \<and> sym_bytes (T ! i) \<inter> covered (vm_freerg_list v') = {}"
    if "i < length T" "user_rg (T ! i)" for i
  proof -
    have "rg_end (T ! i) \<le> sbrk v" "sym_bytes (T ! i) \<inter> covered (vm_freerg_list v) = {}"
      using assms(1) that by (auto simp: symtab_ok_def)
    with assms(2,3) show ?thesis by (auto simp: sym_bytes_def rg_bytes_def)
  qed
  with assms(1) show ?thesis by (simp add: symtab_ok_def)
qed

definition new_rg :: "addr \<Rightarrow> addr \<Rightarrow> vm_rg_struct" where
  "new_rg a sz = \<lparr>rg_start = a, rg_end = a + sz, vmaid = 0\<rparr>"

text \<open>Storing the region that was found.\<close>

lemma store_region:
  assumes "vm_inv w F s" "area_ok w s c v T" "symtab_ok v T" "i < length T"
    and sz: "0 < uint sz" "uint sz < 2 ^ 31" and f: "free_region (uint sz) (vm_freerg_list v) = (Some r, l')"
    and s': "s' = set_symrg c i \<lparr>rg_start = rg_start r, rg_end = rg_end r, vmaid = 0\<rparr>
      (upd_vma c 0 (\<lambda>v. v\<lparr>vm_freerg_list := l'\<rparr>) s)"
  shows "\<exists>v'. vm_inv w F s' \<and> sy_host s' = sy_host s \<and> area_ok w s' c v' (T[i := new_rg (rg_start r) sz]) \<and>
    symtab_ok v' (T[i := new_rg (rg_start r) sz]) \<and> rg_start r < rg_start r + sz \<and> rg_start r + sz \<le> sbrk v' \<and>
    outside_mm c s s' \<and> vbyte w s' = vbyte w s"
proof -
  note tr = take_region [OF assms(1-4) sz f s']
  have si: "addr_of_int (uint sz) = sz" by (simp add: addr_of_int_def)
  have e: "\<lparr>rg_start = rg_start r, rg_end = rg_end r, vmaid = 0\<rparr> = new_rg (rg_start r) sz"
    using tr(8) si by (simp add: new_rg_def)
  have lt: "rg_start r < rg_start r + sz" using tr(8,9) si by simp
  have "rg_start r \<in> rg_bytes r" using tr(9) by (simp add: rg_bytes_def)
  then have "rg_start r < sbrk v" using tr(10) area_okD(6) [OF assms(2)] by blast
  then have "user_rg (new_rg (rg_start r) sz)"
    using lt area_ok_sbrk [OF assms(1,2)] by (simp add: user_rg_def new_rg_def KMEM_VADDR_BASE_def word_less_def)
  then have "rg_end (new_rg (rg_start r) sz) \<le> sbrk (v\<lparr>vm_freerg_list := l'\<rparr>)"
    using tr(7) assms(4) unfolding e symtab_ok_def by (metis length_list_update nth_list_update_eq)
  with tr(1-7) lt show ?thesis unfolding e by (auto simp: new_rg_def)
qed

text \<open>After growing the area, a region of the wanted size is found.\<close>

lemma grow_fits:
  assumes "vm_inv w F s" "host_ok (sy_host s)" "area_ok w s c v T" "symtab_ok v T"
    and sz: "0 < uint sz" "uint sz < 2 ^ 31" and room: "pages_of sz \<le> int (frames_avail w s c)"
  shows "\<exists>s' v' r l. inc_vma_limit junk s c 0 (PAGING64_PAGE_ALIGNSZ sz) = Some (0, s') \<and> vm_inv w F s' \<and>
    host_ok (sy_host s') \<and> area_ok w s' c v' T \<and> symtab_ok v' T \<and> outside_mm c s s' \<and>
    free_region (uint sz) (vm_freerg_list v') = (Some r, l) \<and>
    (\<forall>x b. x \<noteq> c \<or> vbyte w s x b \<noteq> None \<longrightarrow> vbyte w s' x b = vbyte w s x b)"
proof -
  note a = area_okD [OF assms(3)] and aa = align_align [OF sz(2)] and ap = align_pages [of sz]
  let ?sz = "PAGING64_PAGE_ALIGNSZ sz"
  have pos: "0 < uint ?sz" "uint ?sz \<le> 2 ^ 31" "pages_of ?sz \<le> int (frames_avail w s c)"
    using ap(2,6) sz aa room by auto
  obtain e v2 s2 where inc: "inc_vma_limit junk s c 0 ?sz = Some (0, s2)" "vm_inv w F s2" "host_ok (sy_host s2)"
      "area_ok w s2 c v2 T" "outside_mm c s s2" "uint e = uint (sbrk v) + 4096 * pages_of sz"
      "v2 = v\<lparr>vm_end := e, sbrk := e, vm_freerg_list := snd (enlist_vm_rg_node (vm_freerg_list v) \<lparr>rg_start = sbrk v, rg_end = e\<rparr>)\<rparr>"
      "\<forall>x b. \<not> (x = c \<and> sbrk v \<le> b \<and> b < e) \<longrightarrow> vbyte w s2 x b = vbyte w s x b"
    using inc_vma_limit_ok [OF assms(1,2,3) pos refl refl, of junk] aa by auto
  let ?new = "\<lparr>rg_start = sbrk v, rg_end = e\<rparr>"
  have lt: "sbrk v < e" "uint sz \<le> uint e - uint (sbrk v)"
    using inc(6) ap(5,6) sz by (auto simp: word_less_def)
  have fit: "rg_fits ?new" using area_ok_sbrk [OF inc(2,4)] lt(1) inc(7) by (simp add: rg_fits_def word_less_def word_le_def)
  have dis: "rg_bytes ?new \<inter> covered (vm_freerg_list v) = {}" using a(6) by (fastforce simp: rg_bytes_def)
  note en = enlist_vm_rg_node_ok [OF a(5) fit _ dis]
  have sym2: "symtab_ok v2 T"
    by (rule symtab_grow [OF assms(4)]) (use en lt(1) inc(7) in auto)
  obtain q where q: "q \<in> set (vm_freerg_list v2)" "rg_start q \<le> sbrk v" "e \<le> rg_end q"
    using enlist_contains [OF a(5), of ?new] lt(1) inc(7) by auto
  obtain rg2 l2 where f2: "free_region (uint sz) (vm_freerg_list v2) = (rg2, l2)" by (cases "free_region (uint sz) (vm_freerg_list v2)")
  have "rg2 \<noteq> None"
  proof
    assume "rg2 = None"
    with free_region_none(2) [OF area_okD(5) [OF inc(4)] sz] f2 q(1) have "unat (rg_end q) < unat (rg_start q) + nat (uint sz)" by auto
    then have "int (unat (rg_end q)) < int (unat (rg_start q) + nat (uint sz))" by (simp only: of_nat_less_iff)
    then have "uint (rg_end q) < uint (rg_start q) + uint sz" by simp
    with q(2,3) lt(2) show False by (simp add: word_le_def)
  qed
  moreover have "vbyte w s2 x b = vbyte w s x b" if "x \<noteq> c \<or> vbyte w s x b \<noteq> None" for x b
  proof -
    have "\<not> (x = c \<and> sbrk v \<le> b \<and> b < e)" using that a(7) [of b] not_less by blast
    with inc(8) show ?thesis by blast
  qed
  ultimately show ?thesis using inc(1-5) sym2 f2 by blast
qed

lemma frames_avail_free: "length (free_fp_list (devs s 0)) \<le> frames_avail w s c"
  by (simp add: frames_avail_def)

lemma mem_alloc_ok:
  assumes "vm_inv w F s" "area_ok w s c v T" "symtab_ok v T" "host_ok (sy_host s)" "runs s c"
    and i: "0 \<le> rgid" "rgid < int PAGING_MAX_SYMTBL_SZ" and sz: "0 < uint sz" "uint sz < 2 ^ 31"
    and room: "pages_of sz \<le> int (frames_avail w s c)"
  shows "\<exists>a s' v'. mem_alloc junk s c 0 rgid sz = Some (Some a, s') \<and> vm_inv w F s' \<and> host_ok (sy_host s') \<and>
    area_ok w s' c v' (T[nat rgid := new_rg a sz]) \<and> symtab_ok v' (T[nat rgid := new_rg a sz]) \<and>
    a < a + sz \<and> a + sz \<le> sbrk v' \<and> outside_mm c s s' \<and>
    (\<forall>x b. x \<noteq> c \<or> vbyte w s x b \<noteq> None \<longrightarrow> vbyte w s' x b = vbyte w s x b)"
proof -
  note a = area_okD [OF assms(2)]
  obtain m where m: "caller_mm s c = Some m" "mm_mmap m = [v]" "symrgtbl m = T" by (rule area_ok_mm [OF assms(2)])
  note vma = get_vma_single [OF m(2) a(1)]
  have len: "nat rgid < length T" using assms(3) i by (simp add: symtab_ok_def)
  have "uint sz < int (2 ^ 31)" using sz(2) by simp
  then have "unat sz < 2 ^ 31" by (simp only: uint_nat of_nat_less_iff)
  from int_of_addr_small [OF this] have si: "int_of_addr sz = uint sz" by simp
  have nz: "sz \<noteq> 0" using sz(1) by auto
  let ?store = "\<lambda>r l' t. set_symrg c (nat rgid) \<lparr>rg_start = rg_start r, rg_end = rg_end r, vmaid = 0\<rparr>
    (upd_vma c 0 (\<lambda>v. v\<lparr>vm_freerg_list := l'\<rparr>) t)"
  obtain rg l' where f: "free_region (uint sz) (vm_freerg_list v) = (rg, l')" by (cases "free_region (uint sz) (vm_freerg_list v)")
  note g = get_free_vmrg_area_run [OF assms(2) f]
  show ?thesis
  proof (cases rg)
    case (Some r)
    have "mem_alloc junk s c 0 rgid sz = Some (Some (rg_start r), ?store r l' s)"
      using m(1) i nz vma g(1) Some si by (simp add: mem_alloc_def)
    with store_region [OF assms(1-3) len sz f [unfolded Some] refl] assms(4) show ?thesis by fastforce
  next
    case None
    note fn = free_region_none [OF a(5) sz f [unfolded None]]
    have s1: "upd_vma c 0 (\<lambda>v. v\<lparr>vm_freerg_list := l'\<rparr>) s = s" by (rule g(2) [OF fn(1)])
    obtain s2 v2 r l2 where inc: "inc_vma_limit junk s c 0 (PAGING64_PAGE_ALIGNSZ sz) = Some (0, s2)" "vm_inv w F s2"
        "host_ok (sy_host s2)" "area_ok w s2 c v2 T" "symtab_ok v2 T" "outside_mm c s s2"
        "free_region (uint sz) (vm_freerg_list v2) = (Some r, l2)"
        "\<And>x b. x \<noteq> c \<or> vbyte w s x b \<noteq> None \<Longrightarrow> vbyte w s2 x b = vbyte w s x b"
      using grow_fits [OF assms(1,4,2,3) sz room, of junk] by blast
    obtain b where b: "pcbs s c = Some b" using assms(5) by (auto simp: runs_def)
    have kn: "caller_krnl s c \<noteq> None" using caller_mm_krnl [OF m(1)] by auto
    note gs = grow_syscall [OF assms(5) kn b, of "\<lparr>sc_a1 = addr_of_int SYSMEM_INC_OP, sc_a2 = addr_of_int 0,
      sc_a3 = PAGING64_PAGE_ALIGNSZ sz, sc_a4 = 0, sc_a5 = 0, sc_a6 = 0, orig_ax = 0, sc_flags = 0\<rparr>" junk s2, simplified, OF inc(1)]
    have "mem_alloc junk s c 0 rgid sz = Some (Some (rg_start r), ?store r l2 s2)"
      using m(1) i nz vma g(1) None si s1 b gs get_free_vmrg_area_run(1) [OF inc(4,7)] by (simp add: mem_alloc_def)
    moreover obtain v' where v': "vm_inv w F (?store r l2 s2)" "sy_host (?store r l2 s2) = sy_host s2"
        "area_ok w (?store r l2 s2) c v' (T[nat rgid := new_rg (rg_start r) sz])"
        "symtab_ok v' (T[nat rgid := new_rg (rg_start r) sz])" "rg_start r < rg_start r + sz" "rg_start r + sz \<le> sbrk v'"
        "outside_mm c s2 (?store r l2 s2)" "vbyte w (?store r l2 s2) = vbyte w s2"
      using store_region [OF inc(2,4,5) len sz inc(7) refl] by blast
    ultimately show ?thesis using inc(3,8) outside_mm_trans [OF inc(6) v'(7)] by (metis (no_types, lifting))
  qed
qed

section \<open>Release\<close>

lemma mem_free_ok:
  assumes "vm_inv w F s" "area_ok w s c v T" "symtab_ok v T" "host_ok (sy_host s)"
    and i: "0 \<le> rgid" "rgid < int PAGING_MAX_SYMTBL_SZ" and u: "user_rg (T ! nat rgid)"
    and v': "v' = v\<lparr>vm_freerg_list := snd (enlist_vm_rg_node (vm_freerg_list v)
      \<lparr>rg_start = rg_start (T ! nat rgid), rg_end = rg_end (T ! nat rgid)\<rparr>)\<rparr>"
    and T': "T' = T[nat rgid := (T ! nat rgid)\<lparr>rg_start := 0, rg_end := 0\<rparr>]"
  shows "\<exists>s'. mem_free s c 0 rgid = Some (0, s') \<and> vm_inv w F s' \<and> host_ok (sy_host s') \<and>
    area_ok w s' c v' T' \<and> symtab_ok v' T' \<and> outside_mm c s s' \<and> vbyte w s' = vbyte w s \<and>
    covered (vm_freerg_list v') = covered (vm_freerg_list v) \<union> sym_bytes (T ! nat rgid)"
proof -
  note a = area_okD [OF assms(2)]
  let ?r = "T ! nat rgid" let ?n = "\<lparr>rg_start = rg_start ?r, rg_end = rg_end ?r\<rparr>"
  obtain m where m: "caller_mm s c = Some m" "mm_mmap m = [v]" "symrgtbl m = T" by (rule area_ok_mm [OF assms(2)])
  have len: "nat rgid < length T" using assms(3) i by (simp add: symtab_ok_def)
  have ur: "rg_start ?r < rg_end ?r" "rg_end ?r \<le> sbrk v" "sym_bytes ?r \<inter> covered (vm_freerg_list v) = {}"
    using assms(3) len u by (auto simp: symtab_ok_def user_rg_def)
  have fit: "rg_fits ?n" using ur area_ok_sbrk [OF assms(1,2)] by (simp add: rg_fits_def word_less_def word_le_def)
  have en: "rg_list_ok (vm_freerg_list v')" "covered (vm_freerg_list v') = covered (vm_freerg_list v) \<union> sym_bytes ?r"
    using enlist_vm_rg_node_ok [OF a(5) fit] ur by (simp_all add: v' sym_bytes_node)
  obtain h where h: "sys_alloc s = (True, s\<lparr>sy_host := h\<rparr>)" "host_ok h"
    by (rule sys_alloc_cases [of s]) (use assms(4) in \<open>auto simp: host_ok_def\<close>)
  note i0 = sys_alloc_inv [OF assms(1) h(1)]
  define s1 where "s1 = set_symrg c (nat rgid) (?r\<lparr>rg_start := 0, rg_end := 0\<rparr>) (s\<lparr>sy_host := h\<rparr>)"
  define s2 where "s2 = upd_vma c 0 (\<lambda>v. v\<lparr>vm_freerg_list := snd (enlist_vm_rg_node (vm_freerg_list v) ?n)\<rparr>) s1"
  have i1: "vm_inv w F s1" "vbyte w s1 = vbyte w s"
    unfolding s1_def set_symrg_def using vm_inv_upd_mm [OF i0(1), of c] i0(2) by simp_all
  have i2: "vm_inv w F s2" "vbyte w s2 = vbyte w s"
    unfolding s2_def upd_vma_def using vm_inv_upd_mm [OF i1(1), of c] i1(2) by simp_all
  have "rg_end ?r \<noteq> 0" using ur(1) by auto
  then have run: "mem_free s c 0 rgid = Some (0, s2)"
    using m i h(1) get_vma_single [OF m(2) a(1)]
    by (simp add: mem_free_def get_symrg_byid_def s1_def s2_def Let_def)
  have "\<exists>m. caller_mm s2 c = Some m \<and> mm_mmap m = [v'] \<and> symrgtbl m = T'"
    using m by (simp add: s2_def s1_def set_symrg_def upd_vma_def v' T')
  moreover have "b < sbrk v'" if "b \<in> covered (vm_freerg_list v')" for b
    using that a(6) [of b] ur(2) unfolding en(2) by (auto simp: v' sym_bytes_def)
  ultimately have ar: "area_ok w s2 c v' T'"
    unfolding area_ok_def i2(2) using a(1-4,7) en(1) by (simp add: v')
  have "symtab_ok v' T'"
    unfolding T'
  proof (rule symtab_update [OF assms(3) len refl])
    show "b \<in> covered (vm_freerg_list v) \<or> sbrk v \<le> b \<or> user_rg ?r \<and> b \<in> sym_bytes ?r"
      if "b \<in> covered (vm_freerg_list v')" for b using that u unfolding en(2) by blast
  qed (simp_all add: v' user_rg_def)
  moreover have "outside_mm c s s2"
  proof -
    have "outside_mm c s (s\<lparr>sy_host := h\<rparr>)" by (rule calm_outside_mm [OF calm_sys_alloc [OF h(1)]])
    also have "outside_mm c (s\<lparr>sy_host := h\<rparr>) s1" by (simp add: s1_def set_symrg_def)
    also have "outside_mm c s1 s2" by (simp add: s2_def upd_vma_def)
    finally show ?thesis .
  qed
  moreover have "host_ok (sy_host s2)" using h(2) by (simp add: s2_def s1_def set_symrg_def upd_vma_def)
  ultimately show ?thesis using run i2 ar en(2) by blast
qed

section \<open>Access to a region\<close>

lemma region_addr_user:
  assumes "user_rg r" "uint (rg_end r) < 2 ^ 55"
  shows "region_addr r off = (if off < rg_end r - rg_start r then Some (rg_start r + off) else None)"
    and "off < rg_end r - rg_start r \<Longrightarrow> rg_start r + off \<in> sym_bytes r \<and> \<not> is_kernel_address (rg_start r + off)"
proof -
  have lt: "rg_start r < rg_end r" using assms(1) by (simp add: user_rg_def)
  then have len: "uint (rg_end r - rg_start r) = uint (rg_end r) - uint (rg_start r)"
    by (simp add: uint_sub_if' word_less_def)
  have sum: "uint (rg_start r + off) = uint (rg_start r) + uint off" "uint (rg_start r) + uint off < uint (rg_end r)"
    if "off < rg_end r - rg_start r"
  proof -
    show "uint (rg_start r) + uint off < uint (rg_end r)" using that len by (simp add: word_less_def)
    with assms(2) show "uint (rg_start r + off) = uint (rg_start r) + uint off" by (intro uint_add_small) simp
  qed
  show mem: "rg_start r + off \<in> sym_bytes r \<and> \<not> is_kernel_address (rg_start r + off)"
    if "off < rg_end r - rg_start r"
  proof -
    have "uint (rg_start r + off) < 2 ^ 56" using sum [OF that] assms(2) by simp
    then have "\<not> is_kernel_address (rg_start r + off)" using canonical_uint(1) [of "rg_start r + off"] by blast
    with sum [OF that] show ?thesis by (simp add: sym_bytes_def word_le_def word_less_def)
  qed
  have user: "is_user_vaddr_range x y" if "x < y" "uint y < 2 ^ 55" for x y
  proof -
    have xy: "uint x < uint y" using that(1) by (simp add: word_less_def)
    have "0 \<le> uint x" by simp
    with xy have "1 \<le> uint y" by linarith
    then have "uint (y - 1) = uint y - 1" by (subst uint_sub_if') simp
    with xy have "uint x < 2 ^ 56" "uint (y - 1) < 2 ^ 56" using that(2) by simp_all
    then have "canonical x \<and> \<not> is_kernel_address x" "canonical (y - 1) \<and> \<not> is_kernel_address (y - 1)"
      by (simp_all only: canonical_uint)
    with that(1) show ?thesis by (auto simp: is_user_vaddr_range_def canonical_def is_kernel_address_def)
  qed
  show "region_addr r off = (if off < rg_end r - rg_start r then Some (rg_start r + off) else None)"
  proof (cases "off < rg_end r - rg_start r")
    case True
    note s1 = sum [OF True]
    have "uint (rg_start r + off + 1) = uint (rg_start r) + uint off + 1"
      using s1 assms(2) uint_add_small [of "rg_start r + off" 1] by simp
    then have "rg_start r + off < rg_start r + off + 1" "uint (rg_start r + off + 1) < 2 ^ 55"
      using s1 assms(2) by (simp_all add: word_less_def)
    then have "is_user_vaddr_range (rg_start r + off) (rg_start r + off + 1)" by (rule user)
    moreover have "\<not> rg_start r + off < rg_start r" using s1 by (simp add: word_less_def)
    ultimately show ?thesis using True lt user [OF lt assms(2)] by (auto simp: region_addr_def Let_def)
  next
    case False
    then show ?thesis using lt by (auto simp: region_addr_def)
  qed
qed

section \<open>The invariant of all heaps\<close>

definition symrg :: "sys \<Rightarrow> pptr \<Rightarrow> nat \<Rightarrow> vm_rg_struct option" where
  "symrg s c i = (case caller_mm s c of None \<Rightarrow> None
     | Some m \<Rightarrow> if i < length (symrgtbl m) then Some (symrgtbl m ! i) else None)"

text \<open>The bytes on the free lists of the areas of a process.\<close>

definition free_bytes :: "sys \<Rightarrow> pptr \<Rightarrow> addr set" where
  "free_bytes s c = (case caller_mm s c of None \<Rightarrow> {} | Some m \<Rightarrow> (\<Union>v \<in> set (mm_mmap m). covered (vm_freerg_list v)))"

lemma free_bytes_area: "area_ok w s c v T \<Longrightarrow> free_bytes s c = covered (vm_freerg_list v)"
  by (rule area_ok_mm [of w s c v T]) (auto simp: free_bytes_def)

lemma free_bytes_core:
  assumes "map_option mm_core (caller_mm s' x) = map_option mm_core (caller_mm s x)"
  shows "free_bytes s' x = free_bytes s x" "symrg s' x i = symrg s x i"
    "map_option mm_mmap (caller_mm s' x) = map_option mm_mmap (caller_mm s x)"
  using arg_cong [OF assms, of "map_option mm_mmap"] arg_cong [OF assms, of "map_option symrgtbl"]
  by (cases "caller_mm s x"; cases "caller_mm s' x"; simp add: free_bytes_def symrg_def mm_core_def)+

lemma symrg_area: "area_ok w s c v T \<Longrightarrow> symrg s c i = (if i < length T then Some (T ! i) else None)"
  by (rule area_ok_mm [of w s c v T]) (auto simp: symrg_def)

lemma heap_inv_keep:
  assumes "heap_inv w F s x" "vm_inv w G s'" "map_option mm_core (caller_mm s' x) = map_option mm_core (caller_mm s x)"
    and "\<And>b. vbyte w s' x b = None \<longleftrightarrow> vbyte w s x b = None"
  shows "heap_inv w G s' x"
proof -
  from assms(1) obtain v T where a: "area_ok w s x v T" "symtab_ok v T" by (auto simp: heap_inv_def)
  obtain m where m: "caller_mm s x = Some m" "mm_mmap m = [v]" "symrgtbl m = T" by (rule area_ok_mm [OF a(1)])
  obtain m' where "caller_mm s' x = Some m'" "mm_mmap m' = [v]" "symrgtbl m' = T"
    by (rule mm_core_fields [OF assms(3) m(1)]) (use m in auto)
  then have "area_ok w s' x v T" using a(1) assms(4) by (simp add: area_ok_def)
  with a(2) assms(2) show ?thesis by (auto simp: heap_inv_def)
qed

lemma heap_inv_other:
  assumes "heap_inv w F s x" "vm_inv w G s'" "outside_mm c s s'" "x \<noteq> c" "\<And>b. vbyte w s' x b = vbyte w s x b"
  shows "heap_inv w G s' x"
  using heap_inv_keep [OF assms(1,2)] pcb_core_eqD(2) [OF outside_mmD(2) [OF assms(3,4)]] assms(5) by simp

text \<open>An operation of one process, which keeps its own invariant, keeps that of the others.\<close>

lemma heap_inv_step:
  assumes "heap_inv w F s x" "vm_inv w F s'" "area_ok w s' c v' T'" "symtab_ok v' T'" "outside_mm c s s'"
    and "\<And>x b. x \<noteq> c \<Longrightarrow> vbyte w s' x b = vbyte w s x b"
  shows "heap_inv w F s' x"
  using assms(2-4) heap_inv_other [OF assms(1,2,5)] assms(6) by (cases "x = c") (auto simp: heap_inv_def)

lemma heap_region:
  assumes "heap_inv w F s c" "symrg s c i = Some r" "user_rg r"
  obtains v T where "area_ok w s c v T" "symtab_ok v T" "vm_inv w F s" "i < length T" "T ! i = r" "length T = PAGING_MAX_SYMTBL_SZ"
    "rg_end r \<le> sbrk v" "uint (rg_end r) < 2 ^ 55" "\<And>b. b \<in> sym_bytes r \<Longrightarrow> vbyte w s c b \<noteq> None"
proof -
  from assms(1) obtain v T where a: "area_ok w s c v T" "symtab_ok v T" "vm_inv w F s" by (auto simp: heap_inv_def)
  from assms(2) symrg_area [OF a(1)] have i: "i < length T" "T ! i = r" by (auto split: if_splits)
  with a(2) assms(3) have e: "rg_end r \<le> sbrk v" by (auto simp: symtab_ok_def)
  have "uint (rg_end r) < 2 ^ 55" using e area_ok_sbrk [OF a(3,1)] by (simp add: word_le_def)
  moreover have "vbyte w s c b \<noteq> None" if "b \<in> sym_bytes r" for b
    using that e area_okD(7) [OF a(1), of b] by (auto simp: sym_bytes_def)
  ultimately show thesis using that a i e by (auto simp: symtab_ok_def)
qed

lemma mem_write_ok:
  assumes "heap_inv w F s c" "symrg s c i = Some r" "user_rg r"
  shows "\<exists>e s'. mem_write s c 0 (int i) off u = Some (e, s') \<and> (e = 0 \<or> e = -1) \<and> vm_inv w F s' \<and> calm s s' \<and>
    (\<not> off < rg_end r - rg_start r \<longrightarrow> e = -1 \<and> s' = s) \<and>
    (\<forall>x b. vbyte w s' x b = (if e = 0 \<and> x = c \<and> b = rg_start r + off then Some u else vbyte w s x b))"
proof -
  obtain v T where a: "area_ok w s c v T" "vm_inv w F s" "i < length T" "T ! i = r" "length T = PAGING_MAX_SYMTBL_SZ"
    "uint (rg_end r) < 2 ^ 55" by (rule heap_region [OF assms]) blast
  obtain m where m: "caller_mm s c = Some m" "mm_mmap m = [v]" "symrgtbl m = T" by (rule area_ok_mm [OF a(1)])
  note ra = region_addr_user [OF assms(3) a(6), of off]
  have run: "mem_write s c 0 (int i) off u =
      (if off < rg_end r - rg_start r then pg_setval s c (rg_start r + off) u else Some (-1, s))"
    using m a(3-5) get_vma_single [OF m(2) area_okD(1) [OF a(1)]] ra(1)
    by (simp add: mem_write_def get_symrg_byid_def)
  show ?thesis
  proof (cases "off < rg_end r - rg_start r")
    case True
    with pg_setval_ok [OF a(2), of "rg_start r + off" c u] ra(2) run show ?thesis by auto
  qed (use run a(2) in simp)
qed

lemma mem_read_ok:
  assumes "heap_inv w F s c" "symrg s c i = Some r" "user_rg r"
  shows "\<exists>d s'. mem_read s c 0 (int i) off = Some (d, s') \<and> vm_inv w F s' \<and> calm s s' \<and> vbyte w s' = vbyte w s \<and>
    (\<not> off < rg_end r - rg_start r \<longrightarrow> d = None \<and> s' = s) \<and>
    (\<forall>u. d = Some u \<longrightarrow> vbyte w s c (rg_start r + off) = Some u)"
proof -
  obtain v T where a: "area_ok w s c v T" "vm_inv w F s" "i < length T" "T ! i = r" "length T = PAGING_MAX_SYMTBL_SZ"
    "uint (rg_end r) < 2 ^ 55" by (rule heap_region [OF assms]) blast
  obtain m where m: "caller_mm s c = Some m" "mm_mmap m = [v]" "symrgtbl m = T" by (rule area_ok_mm [OF a(1)])
  note ra = region_addr_user [OF assms(3) a(6), of off]
  from caller_mm_krnl [OF m(1)] obtain k where "caller_krnl s c = Some k" "k_mm k = Some m" by blast
  then have run: "mem_read s c 0 (int i) off =
      (if off < rg_end r - rg_start r then pg_getval s c (rg_start r + off) else Some (None, s))"
    using m a(3-5) ra(1) by (simp add: mem_read_def get_symrg_byid_def)
  show ?thesis
  proof (cases "off < rg_end r - rg_start r")
    case True
    with pg_getval_ok [OF a(2), of "rg_start r + off" c] ra(2) run show ?thesis by auto
  qed (use run a(2) in simp)
qed

section \<open>Properties\<close>

text \<open>
  A system for the witnesses: process 1 runs and has the address space that \<open>init_mm\<close> sets up.
\<close>

definition demo_area :: vm_area_struct where
  "demo_area = \<lparr>vm_id = 0, vm_start = 0, vm_end = 0, sbrk = 0, vm_freerg_list = []\<rparr>"

definition no_rg :: vm_rg_struct where
  "no_rg = \<lparr>rg_start = 0, rg_end = 0, vmaid = 0\<rparr>"

definition demo_heap :: sys where
  "demo_heap = (upd_mm 1 (\<lambda>m. m\<lparr>mm_mmap := [demo_area], symrgtbl := replicate PAGING_MAX_SYMTBL_SZ no_rg\<rparr>) demo_sys)
     \<lparr>sy_sched := boot_sched\<lparr>running_list := snd (enqueue new_queue 1)\<rparr>\<rparr>"

lemma sched_frame [simp]:
  "caller_krnl (s\<lparr>sy_sched := x\<rparr>) c = caller_krnl s c" "caller_mm (s\<lparr>sy_sched := x\<rparr>) c = caller_mm s c"
  "caller_mram (s\<lparr>sy_sched := x\<rparr>) c = caller_mram s c" "caller_mswp (s\<lparr>sy_sched := x\<rparr>) c = caller_mswp s c"
  by (simp_all add: caller_krnl_def caller_mm_def caller_mram_def caller_mswp_def)

lemma vm_inv_sched:
  assumes "vm_inv w F s"
  shows "vm_inv w F (s\<lparr>sy_sched := x\<rparr>)" "vbyte w (s\<lparr>sy_sched := x\<rparr>) = vbyte w s"
proof -
  note inv = vm_invD(1-3) [OF assms]
  have kr: "kroot_of (s\<lparr>sy_sched := x\<rparr>) c = kroot_of s c" for c by (simp add: kroot_of_def)
  have wf: "pt_wf (s\<lparr>sy_sched := x\<rparr>)" using inv(1) by (simp add: pt_wf_def kr)
  have "root_of (s\<lparr>sy_sched := x\<rparr>) c a = root_of s c a" for c a by (simp add: root_of_def kr)
  then have "pte_get_entry (s\<lparr>sy_sched := x\<rparr>) = pte_get_entry s"
    using wf inv(1) by (intro ext) (simp add: pte_get_entry_view pte_view_def)
  then have us: "user_slot (s\<lparr>sy_sched := x\<rparr>) = user_slot s" by (rule user_slot_cong)
  then show "vbyte w (s\<lparr>sy_sched := x\<rparr>) = vbyte w s" by (simp add: vbyte_def slot_byte_def fun_eq_iff)
  show "vm_inv w F (s\<lparr>sy_sched := x\<rparr>)"
    by (rule vm_inv_cong [OF assms wf _ _ _ us]) (use inv in \<open>simp_all add: devices_ok_def callers_ok_def slot_ok_def\<close>)
qed

lemma demo_heap_inv: "heap_inv 1 {} demo_heap 1" "runs demo_heap 1" "host_ok (sy_host demo_heap)"
  "length (free_fp_list (devs demo_heap 0)) = 2"
proof -
  let ?f = "\<lambda>m. m\<lparr>mm_mmap := [demo_area], symrgtbl := replicate PAGING_MAX_SYMTBL_SZ no_rg\<rparr>"
  note i = vm_inv_upd_mm [OF demo_sys_inv, of 1 ?f, simplified]
  have inv: "vm_inv 1 {} demo_heap" "vbyte 1 demo_heap = vbyte 1 demo_sys"
    unfolding demo_heap_def using vm_inv_sched [OF i(1)] i(3) by simp_all
  have mm: "caller_mm demo_heap 1 = Some (?f demo_mm)"
    by (simp add: demo_heap_def demo_sys_caller)
  have "vbyte 1 demo_sys 1 a = None" for a by (simp add: vbyte_def demo_sys_unmapped)
  then have "area_ok 1 demo_heap 1 demo_area (replicate PAGING_MAX_SYMTBL_SZ no_rg)"
    unfolding area_ok_def using mm by (simp add: inv(2) demo_area_def del: One_nat_def)
  moreover have "symtab_ok demo_area (replicate PAGING_MAX_SYMTBL_SZ no_rg)"
    by (simp add: symtab_ok_def user_rg_def no_rg_def)
  ultimately show "heap_inv 1 {} demo_heap 1" using inv(1) by (auto simp: heap_inv_def)
  show "host_ok (sy_host demo_heap)" "length (free_fp_list (devs demo_heap 0)) = 2"
    by (simp_all add: demo_heap_def demo_sys_def demo_ram_def host_ok_def)
  show "runs demo_heap 1"
    by (simp add: runs_def demo_heap_def demo_sys_def upd_mm_def upd_krnl_def find_proc_def enqueue_def new_queue_def
        MAX_QUEUE_SIZE_def find_pid.simps NULL_def demo_proc_def demo_pcb_def Let_def)
qed

text \<open>
  C9: Allocation gives fresh memory. If the process is running and the frames it needs can be had,
  because they are free or because as many resident pages can be evicted and there is room for them on the swap
  device, then \<open>__alloc\<close> of up to 2 GiB succeeds: the entry of the symbol table names a region of exactly the
  requested size, every byte of it is mapped, it overlaps no other region in the table and no free region, the
  other entries are as before, no mapped byte of any process changes, whatever is evicted, and the
  invariant holds for the process and for every process it held for.
\<close>

theorem alloc_fresh_region:
  assumes "heap_inv w F s c" "host_ok (sy_host s)" "runs s c"
    and "i < PAGING_MAX_SYMTBL_SZ" "0 < uint sz" "uint sz < 2 ^ 31"
    and "pages_of sz \<le> int (frames_avail w s c)"
  shows "\<exists>a s'. mem_alloc junk s c 0 (int i) sz = Some (Some a, s') \<and> (\<forall>x. heap_inv w F s x \<longrightarrow> heap_inv w F s' x) \<and>
    symrg s' c i = Some \<lparr>rg_start = a, rg_end = a + sz, vmaid = 0\<rparr> \<and> a < a + sz \<and>
    (\<forall>b. a \<le> b \<and> b < a + sz \<longrightarrow> vbyte w s' c b \<noteq> None) \<and>
    (\<forall>j r. j \<noteq> i \<and> symrg s c j = Some r \<longrightarrow> symrg s' c j = Some r \<and>
       (user_rg r \<longrightarrow> sym_bytes r \<inter> {b. a \<le> b \<and> b < a + sz} = {})) \<and>
    free_bytes s' c \<inter> {b. a \<le> b \<and> b < a + sz} = {} \<and>
    (\<forall>x b. vbyte w s x b \<noteq> None \<longrightarrow> vbyte w s' x b = vbyte w s x b)"
proof -
  from assms(1) obtain v T where h: "vm_inv w F s" "area_ok w s c v T" "symtab_ok v T" by (auto simp: heap_inv_def)
  have len: "length T = PAGING_MAX_SYMTBL_SZ" using h(3) by (simp add: symtab_ok_def)
  obtain a s' v' where A: "mem_alloc junk s c 0 (int i) sz = Some (Some a, s')" "vm_inv w F s'"
      "area_ok w s' c v' (T[i := new_rg a sz])" "symtab_ok v' (T[i := new_rg a sz])" "a < a + sz" "a + sz \<le> sbrk v'"
      "outside_mm c s s'" "\<And>x b. x \<noteq> c \<or> vbyte w s x b \<noteq> None \<Longrightarrow> vbyte w s' x b = vbyte w s x b"
    using mem_alloc_ok [OF h assms(2,3), of "int i" sz junk] assms(4-7) by auto
  let ?T = "T[i := new_rg a sz]"
  have sr: "symrg s c j = (if j < length T then Some (T ! j) else None)"
    "symrg s' c j = (if j < length T then Some (?T ! j) else None)" for j
    using symrg_area [OF h(2)] symrg_area [OF A(3)] by simp_all
  have nu: "user_rg (new_rg a sz)"
    using A(5,6) area_ok_sbrk [OF A(2,3)] by (simp add: user_rg_def new_rg_def KMEM_VADDR_BASE_def word_less_def word_le_def)
  have nb: "sym_bytes (new_rg a sz) = {b. a \<le> b \<and> b < a + sz}" by (simp add: sym_bytes_def new_rg_def)
  have "?T ! i = new_rg a sz" "i < length ?T" using assms(4) len by simp_all
  then have "free_bytes s' c \<inter> {b. a \<le> b \<and> b < a + sz} = {}"
    using A(4) nu unfolding free_bytes_area [OF A(3)] nb [symmetric] symtab_ok_def by (metis Int_commute)
  moreover from nu nb have dis: "sym_bytes (T ! j) \<inter> {b. a \<le> b \<and> b < a + sz} = {}" if "j < length T" "j \<noteq> i" "user_rg (T ! j)" for j
    using symtab_pair [OF A(4), of j i] that assms(4) len by simp
  have keep: "heap_inv w F s' x" if "heap_inv w F s x" for x
    using heap_inv_step [OF that A(2-4,7)] A(8) by blast
  have "vbyte w s' c b \<noteq> None" if "b < a + sz" for b
    using that A(6) area_okD(7) [OF A(3), of b] by auto
  moreover have "\<forall>x b. vbyte w s x b \<noteq> None \<longrightarrow> vbyte w s' x b = vbyte w s x b" using A(8) by blast
  ultimately show ?thesis using A(1,5) keep sr dis len assms(4) by (auto simp: new_rg_def)
qed

theorem alloc_fresh_region_witness:
  "\<exists>a s'. mem_alloc \<lparr>rg_start = 0, rg_end = 0\<rparr> demo_heap 1 0 3 5000 = Some (Some a, s') \<and> heap_inv 1 {} s' 1 \<and>
     symrg s' 1 3 = Some \<lparr>rg_start = a, rg_end = a + 5000, vmaid = 0\<rparr>"
proof -
  have "pages_of 5000 = 2" by (simp add: pages_of_def)
  then have "pages_of 5000 \<le> int (frames_avail 1 demo_heap 1)" using frames_avail_free [of demo_heap 1 1] demo_heap_inv(4) by linarith
  from alloc_fresh_region [OF demo_heap_inv(1,3,2) _ _ _ this, of 3 "\<lparr>rg_start = 0, rg_end = 0\<rparr>"] demo_heap_inv(1)
  show ?thesis by (auto simp: PAGING_MAX_SYMTBL_SZ_def)
qed

lemma demo_allocated:
  obtains s a where "heap_inv 1 {} s 1" "host_ok (sy_host s)" "symrg s 1 3 = Some (new_rg a 5000)" "user_rg (new_rg a 5000)"
proof -
  obtain v T where h: "vm_inv 1 {} demo_heap" "area_ok 1 demo_heap 1 v T" "symtab_ok v T"
    using demo_heap_inv(1) by (auto simp: heap_inv_def)
  have "pages_of 5000 = 2" by (simp add: pages_of_def)
  then have room: "pages_of 5000 \<le> int (frames_avail 1 demo_heap 1)" using frames_avail_free [of demo_heap 1 1] demo_heap_inv(4) by linarith
  obtain a s v' where s: "vm_inv 1 {} s" "host_ok (sy_host s)" "area_ok 1 s 1 v' (T[3 := new_rg a 5000])"
      "symtab_ok v' (T[3 := new_rg a 5000])" "a < a + 5000" "a + 5000 \<le> sbrk v'"
    using mem_alloc_ok [OF h demo_heap_inv(3,2) _ _ _ _ room, of 3 "\<lparr>rg_start = 0, rg_end = 0\<rparr>"]
    by (auto simp: PAGING_MAX_SYMTBL_SZ_def)
  have "user_rg (new_rg a 5000)"
    using s(5,6) area_ok_sbrk [OF s(1,3)] by (simp add: user_rg_def new_rg_def KMEM_VADDR_BASE_def word_less_def word_le_def)
  moreover have "symrg s 1 3 = Some (new_rg a 5000)"
    using symrg_area [OF s(3)] h(3) by (simp add: symtab_ok_def PAGING_MAX_SYMTBL_SZ_def)
  moreover have "heap_inv 1 {} s 1" using s(1,3,4) by (auto simp: heap_inv_def)
  ultimately show thesis using that s(2) by blast
qed

text \<open>
  C24: Release gives the region back. \<open>__free\<close> of a user region returns 0 and clears the entry. Its bytes,
  none of which was free before, are free afterwards, and no other byte becomes free or stops being
  free, in this process or another. No byte of memory changes and no other entry, the
  invariant of every process is kept, and releasing the same entry again returns -1 and changes nothing.
\<close>

theorem free_returns_region:
  assumes "heap_inv w F s c" "host_ok (sy_host s)" "symrg s c i = Some r" "user_rg r"
  shows "\<exists>s'. mem_free s c 0 (int i) = Some (0, s') \<and> (\<forall>x. heap_inv w F s x \<longrightarrow> heap_inv w F s' x) \<and>
    vbyte w s' = vbyte w s \<and> symrg s' c i = Some (r\<lparr>rg_start := 0, rg_end := 0\<rparr>) \<and>
    (\<forall>x j. x \<noteq> c \<or> j \<noteq> i \<longrightarrow> symrg s' x j = symrg s x j) \<and> sym_bytes r \<inter> free_bytes s c = {} \<and>
    (\<forall>x. free_bytes s' x = (if x = c then free_bytes s c \<union> sym_bytes r else free_bytes s x)) \<and>
    mem_free s' c 0 (int i) = Some (-1, s')"
proof -
  obtain v T where h: "area_ok w s c v T" "symtab_ok v T" "vm_inv w F s" "i < length T" "T ! i = r"
    "length T = PAGING_MAX_SYMTBL_SZ" by (rule heap_region [OF assms(1,3,4)]) blast
  obtain s' v' T' where F: "mem_free s c 0 (int i) = Some (0, s')" "vm_inv w F s'" "area_ok w s' c v' T'" "symtab_ok v' T'"
      "outside_mm c s s'" "vbyte w s' = vbyte w s" "T' = T[i := r\<lparr>rg_start := 0, rg_end := 0\<rparr>]"
      "covered (vm_freerg_list v') = covered (vm_freerg_list v) \<union> sym_bytes r"
    using mem_free_ok [OF h(3,1,2) assms(2), of "int i", OF _ _ _ refl refl] h(4-6) assms(4) by auto
  have sr: "symrg s c j = (if j < length T then Some (T ! j) else None)"
    "symrg s' c j = (if j < length T then Some (T' ! j) else None)" for j
    using symrg_area [OF h(1)] symrg_area [OF F(3)] F(7) by simp_all
  have keep: "heap_inv w F s' x" if "heap_inv w F s x" for x
    using heap_inv_step [OF that F(2-5)] F(6) by simp
  have other: "free_bytes s' x = free_bytes s x" "symrg s' x j = symrg s x j" if "x \<noteq> c" for x j
    using free_bytes_core [OF pcb_core_eqD(2) [OF outside_mmD(2) [OF F(5) that]]] by auto
  have fb: "free_bytes s' x = (if x = c then free_bytes s c \<union> sym_bytes r else free_bytes s x)" for x
    using other(1) F(8) free_bytes_area [OF F(3)] free_bytes_area [OF h(1)] by simp
  have sy: "symrg s' x j = symrg s x j" if "x \<noteq> c \<or> j \<noteq> i" for x j
    using that other(2) [of x j] sr [of j] F(7) by (cases "x = c") auto
  have "sym_bytes r \<inter> free_bytes s c = {}"
    using h(2,4,5) assms(4) unfolding free_bytes_area [OF h(1)] symtab_ok_def by blast
  moreover obtain m where "caller_mm s' c = Some m" "symrgtbl m = T'" by (rule area_ok_mm [OF F(3)])
  then have "mem_free s' c 0 (int i) = Some (-1, s')"
    using h(4,6) by (simp add: mem_free_def get_symrg_byid_def F(7))
  moreover have "symrg s' c i = Some (r\<lparr>rg_start := 0, rg_end := 0\<rparr>)" using sr(2) [of i] F(7) h(4) by simp
  ultimately show ?thesis using F(1,6) keep fb sy by blast
qed

theorem free_returns_region_witness:
  "\<exists>s a s'. heap_inv 1 {} s 1 \<and> symrg s 1 3 = Some (new_rg a 5000) \<and> mem_free s 1 0 3 = Some (0, s') \<and> symrg s' 1 3 = Some no_rg \<and>
     free_bytes s' 1 = free_bytes s 1 \<union> sym_bytes (new_rg a 5000)"
proof -
  obtain a s where s: "heap_inv 1 {} s 1" "host_ok (sy_host s)" "symrg s 1 3 = Some (new_rg a 5000)" "user_rg (new_rg a 5000)"
    by (rule demo_allocated)
  moreover have "(new_rg a 5000)\<lparr>rg_start := 0, rg_end := 0\<rparr> = no_rg" by (simp add: new_rg_def no_rg_def)
  moreover obtain s' where "mem_free s 1 0 (int 3) = Some (0, s')" "symrg s' 1 3 = Some ((new_rg a 5000)\<lparr>rg_start := 0, rg_end := 0\<rparr>)"
    "\<forall>x. free_bytes s' x = (if x = 1 then free_bytes s 1 \<union> sym_bytes (new_rg a 5000) else free_bytes s x)"
    using free_returns_region [OF s] by blast
  ultimately show ?thesis by (metis of_nat_numeral)
qed

lemma heap_inv_calm:
  assumes "heap_inv w F s x" "vm_inv w F s'" "calm s s'" "\<And>b. vbyte w s' x b = None \<longleftrightarrow> vbyte w s x b = None"
  shows "heap_inv w F s' x"
  by (rule heap_inv_keep [OF assms(1,2) calmD(5) [OF assms(3)] assms(4)])

text \<open>
  What an access leaves alone although it may evict pages: the areas with their free lists, the symbol
  tables, and the scheduler.
\<close>

definition books_kept :: "sys \<Rightarrow> sys \<Rightarrow> bool" where
  "books_kept s s' \<longleftrightarrow> sy_sched s' = sy_sched s \<and>
     (\<forall>x. map_option mm_mmap (caller_mm s' x) = map_option mm_mmap (caller_mm s x) \<and> (\<forall>j. symrg s' x j = symrg s x j))"

lemma books_kept_calm: "calm s s' \<Longrightarrow> books_kept s s'"
  unfolding books_kept_def using free_bytes_core(2,3) [OF calmD(5)] calmD(1) by blast

text \<open>A write through an entry, with the invariant of every process.\<close>

lemma write_region:
  assumes "heap_inv w F s c" "symrg s c i = Some r" "user_rg r"
  obtains e s' where "mem_write s c 0 (int i) off u = Some (e, s')" "\<And>x. heap_inv w F s x \<Longrightarrow> heap_inv w F s' x"
    "\<not> off < rg_end r - rg_start r \<Longrightarrow> e = -1 \<and> s' = s" "e = 0 \<Longrightarrow> rg_start r + off \<in> sym_bytes r"
    "\<And>x b. vbyte w s' x b = (if e = 0 \<and> x = c \<and> b = rg_start r + off then Some u else vbyte w s x b)"
    "e = 0 \<or> e = -1" "books_kept s s'"
proof -
  obtain e s' where W: "mem_write s c 0 (int i) off u = Some (e, s')" "vm_inv w F s'" "calm s s'"
      "\<not> off < rg_end r - rg_start r \<longrightarrow> e = -1 \<and> s' = s"
      "\<And>x b. vbyte w s' x b = (if e = 0 \<and> x = c \<and> b = rg_start r + off then Some u else vbyte w s x b)" "e = 0 \<or> e = -1"
    using mem_write_ok [OF assms, of off u] by blast
  have h: "uint (rg_end r) < 2 ^ 55" "\<And>b. b \<in> sym_bytes r \<Longrightarrow> vbyte w s c b \<noteq> None"
    by (rule heap_region [OF assms]; blast)+
  have inside: "rg_start r + off \<in> sym_bytes r" if "e = 0"
    using W(4) that region_addr_user(2) [OF assms(3) h(1)] by auto
  have "heap_inv w F s' x" if "heap_inv w F s x" for x
    using that W(2,3)
  proof (rule heap_inv_calm)
    show "vbyte w s' x b = None \<longleftrightarrow> vbyte w s x b = None" for b
      using W(5) [of x b] inside h(2) by (metis option.distinct(1))
  qed
  with W inside books_kept_calm [OF W(3)] show thesis by (intro that) auto
qed

lemma read_region:
  assumes "heap_inv w F s c" "symrg s c i = Some r" "user_rg r"
  obtains d s' where "mem_read s c 0 (int i) off = Some (d, s')" "\<And>x. heap_inv w F s x \<Longrightarrow> heap_inv w F s' x"
    "vbyte w s' = vbyte w s" "\<not> off < rg_end r - rg_start r \<Longrightarrow> d = None \<and> s' = s"
    "\<And>u. d = Some u \<Longrightarrow> vbyte w s c (rg_start r + off) = Some u" "books_kept s s'"
proof -
  obtain d s' where R: "mem_read s c 0 (int i) off = Some (d, s')" "vm_inv w F s'" "calm s s'" "vbyte w s' = vbyte w s"
      "\<not> off < rg_end r - rg_start r \<longrightarrow> d = None \<and> s' = s" "\<forall>u. d = Some u \<longrightarrow> vbyte w s c (rg_start r + off) = Some u"
    using mem_read_ok [OF assms, of off] by blast
  have "heap_inv w F s' x" if "heap_inv w F s x" for x by (rule heap_inv_calm [OF that R(2,3)]) (simp add: R(4))
  with R books_kept_calm [OF R(3)] show thesis by (intro that [of d s']) auto
qed

text \<open>
  C4: Regions are isolated. A write through an entry of the symbol table either fails and
  changes no byte, or it changes exactly the byte at the offset inside that region; a read delivers
  the current byte and changes none. Offsets past the end of the region are refused and
  change nothing. No byte of another region or of another process is ever touched. An access may
  evict pages, which moves them to other frames and shortens the lists of victims, but the areas and
  free lists, the symbol tables and the scheduler are as before, and the invariant of every
  process is kept.
\<close>

theorem region_isolation:
  assumes "heap_inv w F s c" "symrg s c i = Some r" "user_rg r"
  shows "(\<exists>e s'. mem_write s c 0 (int i) off u = Some (e, s') \<and> (\<forall>x. heap_inv w F s x \<longrightarrow> heap_inv w F s' x) \<and>
      (e = 0 \<or> e = -1) \<and> books_kept s s' \<and> (\<not> off < rg_end r - rg_start r \<longrightarrow> e = -1 \<and> s' = s) \<and>
      (\<forall>x b. vbyte w s' x b = (if e = 0 \<and> x = c \<and> b = rg_start r + off then Some u else vbyte w s x b)) \<and>
      (\<forall>j q b. j \<noteq> i \<and> symrg s c j = Some q \<and> user_rg q \<and> b \<in> sym_bytes q \<longrightarrow> vbyte w s' c b = vbyte w s c b)) \<and>
    (\<exists>d s'. mem_read s c 0 (int i) off = Some (d, s') \<and> (\<forall>x. heap_inv w F s x \<longrightarrow> heap_inv w F s' x) \<and>
      books_kept s s' \<and> vbyte w s' = vbyte w s \<and> (\<not> off < rg_end r - rg_start r \<longrightarrow> d = None \<and> s' = s) \<and>
      (\<forall>u. d = Some u \<longrightarrow> vbyte w s c (rg_start r + off) = Some u))"
proof -
  obtain v T where h: "area_ok w s c v T" "symtab_ok v T" "i < length T" "T ! i = r"
    by (rule heap_region [OF assms]) blast
  obtain e s' where W: "mem_write s c 0 (int i) off u = Some (e, s')" "\<And>x. heap_inv w F s x \<Longrightarrow> heap_inv w F s' x"
      "\<not> off < rg_end r - rg_start r \<Longrightarrow> e = -1 \<and> s' = s" "e = 0 \<Longrightarrow> rg_start r + off \<in> sym_bytes r"
      "\<And>x b. vbyte w s' x b = (if e = 0 \<and> x = c \<and> b = rg_start r + off then Some u else vbyte w s x b)"
      "e = 0 \<or> e = -1" "books_kept s s'"
    by (rule write_region [OF assms]) (rule that; assumption)
  have "vbyte w s' c b = vbyte w s c b" if j: "j \<noteq> i" "symrg s c j = Some q" "user_rg q" "b \<in> sym_bytes q" for j q b
  proof -
    from j(2) symrg_area [OF h(1)] have "j < length T" "T ! j = q" by (auto split: if_splits)
    with symtab_pair [OF h(2), of i j] j h(3,4) assms(3) W(4) have "\<not> (e = 0 \<and> b = rg_start r + off)" by blast
    with W(5) [of c b] show ?thesis by auto
  qed
  moreover obtain d s'' where R: "mem_read s c 0 (int i) off = Some (d, s'')" "\<And>x. heap_inv w F s x \<Longrightarrow> heap_inv w F s'' x"
      "vbyte w s'' = vbyte w s" "\<not> off < rg_end r - rg_start r \<Longrightarrow> d = None \<and> s'' = s"
      "\<And>u. d = Some u \<Longrightarrow> vbyte w s c (rg_start r + off) = Some u" "books_kept s s''"
    by (rule read_region [OF assms]) (rule that; assumption)
  ultimately show ?thesis using W by blast
qed

theorem region_isolation_witness:
  "\<exists>s a e s'. heap_inv 1 {} s 1 \<and> symrg s 1 3 = Some (new_rg a 5000) \<and>
     mem_write s 1 0 3 5000 7 = Some (-1, s) \<and> mem_write s 1 0 3 10 7 = Some (e, s') \<and> heap_inv 1 {} s' 1"
proof -
  obtain a s where s: "heap_inv 1 {} s 1" "symrg s 1 3 = Some (new_rg a 5000)" "user_rg (new_rg a 5000)"
    by (rule demo_allocated)
  have l: "\<not> 5000 < rg_end (new_rg a 5000) - rg_start (new_rg a 5000)" by (simp add: new_rg_def)
  have "mem_write s 1 0 (int 3) 5000 7 = Some (-1, s)"
    using conjunct1 [OF region_isolation [OF s, of 5000 7]] l by auto
  moreover obtain e s' where "mem_write s 1 0 (int 3) 10 7 = Some (e, s')" "\<forall>x. heap_inv 1 {} s x \<longrightarrow> heap_inv 1 {} s' x"
    using conjunct1 [OF region_isolation [OF s, of 10 7]] by blast
  ultimately show ?thesis using s(1,2) by (metis of_nat_numeral)
qed

text \<open>
  C36: A failed mapping is reported as success. When no frame is free in RAM and none on the swap
  device, \<open>inc_vma_limit\<close> returns 0 although it maps no page: the end of the area has moved
  past memory that does not exist, and the region node that goes to the free list has the
  content the allocator of the host happened to leave in it.
\<close>

theorem inc_vma_limit_hides_failure:
  assumes "heap_inv w F s c" "host_ok (sy_host s)" "0 < uint sz" "uint sz \<le> 2 ^ 31"
    and "free_fp_list (devs s 0) = []" "free_fp_list (devs s w) = []"
  shows "\<exists>s' m v'. inc_vma_limit junk s c 0 sz = Some (0, s') \<and> caller_mm s' c = Some m \<and> mm_mmap m = [v'] \<and>
    0 < sbrk v' \<and> vbyte w s' c (sbrk v' - 1) = None \<and>
    (\<exists>v. caller_mm s c \<noteq> None \<and> mm_mmap (the (caller_mm s c)) = [v] \<and>
       vm_freerg_list v' = snd (enlist_vm_rg_node (vm_freerg_list v) junk))"
proof -
  from assms(1) obtain v T where h: "vm_inv w F s" "area_ok w s c v T" by (auto simp: heap_inv_def)
  obtain m0 where m0: "caller_mm s c = Some m0" "mm_mmap m0 = [v]" by (rule area_ok_mm [OF h(2)])
  obtain s' m v' where I: "inc_vma_limit junk s c 0 sz = Some (0, s')" "vbyte w s' = vbyte w s"
    "caller_mm s' c = Some m" "mm_mmap m = [v']" "sbrk v < sbrk v'"
    "vm_freerg_list v' = snd (enlist_vm_rg_node (vm_freerg_list v) junk)"
    using inc_vma_limit_no_frames [OF h(1) assms(2) h(2) assms(3-6), of junk] by auto
  have "0 < sbrk v'" using I(5) by (rule order_le_less_trans [OF word_zero_le])
  moreover have "sbrk v \<le> sbrk v' - 1"
  proof -
    have "uint (sbrk v) < uint (sbrk v')" "0 \<le> uint (sbrk v)" using I(5) by (simp_all add: word_less_def)
    then have "1 \<le> uint (sbrk v')" by linarith
    then have "uint (sbrk v' - 1) = uint (sbrk v') - 1" by (subst uint_sub_if') simp
    with I(5) show ?thesis by (simp add: word_le_def word_less_def)
  qed
  then have "vbyte w s' c (sbrk v' - 1) = None" using area_okD(7) [OF h(2), of "sbrk v' - 1"] I(2) by auto
  ultimately show ?thesis using I m0 by auto
qed

lemma heap_inv_with_free:
  assumes "heap_inv w F s c" "d = 0 \<or> d = w"
  shows "heap_inv w F (with_free d [] s) c" "sy_host (with_free d [] s) = sy_host s"
proof -
  from assms(1) obtain v T where h: "vm_inv w F s" "area_ok w s c v T" "symtab_ok v T" by (auto simp: heap_inv_def)
  have dv: "d = dev_of w (d \<noteq> 0)" using assms(2) vm_invD(4) [OF h(1)] by (auto simp: dev_of_def)
  have i: "vm_inv w F (with_free d [] s)" "vbyte w (with_free d [] s) = vbyte w s"
    using vm_inv_with_free [OF h(1), of "[]" "d \<noteq> 0" F] dv by auto
  have "area_ok w (with_free d [] s) c v T" using h(2) by (simp add: area_ok_def i(2))
  with i(1) h(3) show "heap_inv w F (with_free d [] s) c" by (auto simp: heap_inv_def)
qed (simp add: with_free_def)

theorem inc_vma_limit_hides_failure_witness:
  "\<exists>s s' m v'. inc_vma_limit \<lparr>rg_start = 7, rg_end = 99\<rparr> s 1 0 4096 = Some (0, s') \<and> caller_mm s' 1 = Some m \<and>
     mm_mmap m = [v'] \<and> vbyte 1 s' 1 (sbrk v' - 1) = None"
proof -
  let ?s = "with_free 1 [] (with_free 0 [] demo_heap)"
  have "heap_inv 1 {} ?s 1" by (intro heap_inv_with_free(1) demo_heap_inv(1)) simp_all
  moreover have "host_ok (sy_host ?s)" using demo_heap_inv(3) by (simp add: with_free_def)
  moreover have "free_fp_list (devs ?s 0) = []" "free_fp_list (devs ?s 1) = []" by (simp_all add: with_free_def)
  ultimately show ?thesis
    using inc_vma_limit_hides_failure [of 1 "{}" ?s 1 4096 "\<lparr>rg_start = 7, rg_end = 99\<rparr>"] by auto
qed

end
