(* ===== verification/Kmem.thy ===== *)
theory Kmem
  imports Libmem
begin

text \<open>
  The kernel part of src/libmem.c: contiguous frames for the kernel and their direct mapping
  at \<open>KMEM_VADDR_BASE\<close>, \<open>__kmalloc\<close>, the cache pools with their slabs, copying
  between user and kernel regions, and the release of everything a process holds
  (\<open>free_pcb_memph\<close>).
\<close>

section \<open>Contiguous frames\<close>

text \<open>
  \<open>kernel_get_free_frame_node\<close> and the move to the used list: the nodes of a free list have
  distinct frame numbers, so a node is identified by its number.
\<close>

definition use_frame :: "addr \<Rightarrow> memphy_struct \<Rightarrow> memphy_struct" where
  "use_frame f mp =
     (if f \<in> set (free_fp_list mp)
      then mp\<lparr>free_fp_list := remove1 f (free_fp_list mp), used_fp_list := f # used_fp_list mp\<rparr>
      else mp)"

text \<open>\<open>kernel_get_used_frame_node\<close> and the move back to the free list.\<close>

definition unuse_frame :: "addr \<Rightarrow> memphy_struct \<Rightarrow> memphy_struct" where
  "unuse_frame f mp =
     (if f \<in> set (used_fp_list mp)
      then mp\<lparr>used_fp_list := remove1 f (used_fp_list mp), free_fp_list := f # free_fp_list mp\<rparr>
      else mp)"

text \<open>The search for a run of consecutive numbers in the sorted list: its first index.\<close>

function find_run :: "addr list \<Rightarrow> nat \<Rightarrow> nat \<Rightarrow> nat \<Rightarrow> nat option" where
  "find_run l idx run req =
     (if idx < length l then
        let run' = (if l ! idx = l ! (idx - 1) + 1 then run + 1 else 1) in
        if run' = req then Some (idx + 1 - req) else find_run l (idx + 1) run' req
      else None)"
  by pat_completeness auto
termination by (relation "measure (\<lambda>(l, idx, run, req). length l - idx)") auto

declare find_run.simps [simp del]

text \<open>
  \<open>kernel_allocate_contiguous_frames\<close>. \<open>qsort\<close> with \<open>framephy_compare\<close> sorts by frame number.
\<close>

definition kernel_allocate_contiguous_frames :: "sys \<Rightarrow> pptr \<Rightarrow> int \<Rightarrow> addr option \<times> sys" where
  "kernel_allocate_contiguous_frames s c req_pgnum =
     (case caller_mram s c of None \<Rightarrow> (None, s)
      | Some d \<Rightarrow>
        let count = length (free_fp_list (devs s d)) in
        if req_pgnum \<le> 0 \<or> int count < req_pgnum then (None, s)
        else
          let (ok, s1) = sys_alloc s in
          if \<not> ok then (None, s1)
          else
            let list = sort (free_fp_list (devs s d));
                select_start = (if req_pgnum = 1 then Some 0 else find_run list 1 1 (nat req_pgnum))
            in case select_start of None \<Rightarrow> (None, s1)
               | Some i \<Rightarrow> (Some (list ! i),
                   upd_dev d (fold use_frame (take (nat req_pgnum) (drop i list)) (devs s1 d)) s1))"

section \<open>The kernel page table\<close>

text \<open>
  \<open>kernel_walk_pte\<close>: the same walk as \<open>walk_pte\<close>, always from the kernel root and without
  an address space. The result says whether the entry was reached.
\<close>

definition kernel_walk_pte :: "sys \<Rightarrow> pptr \<Rightarrow> addr \<Rightarrow> bool \<Rightarrow> bool \<times> sys" where
  "kernel_walk_pte s c a create =
     (case caller_krnl s c of None \<Rightarrow> (False, s)
      | Some k \<Rightarrow>
        if fst (get_pd_from_address a) \<noteq> 0 then (False, s)
        else if krnl_pgd k = None \<and> \<not> create then (False, s)
        else
          let (r, k1, s1) = init_kernel_page_table k s;
              s2 = (if krnl_pgd k = None then upd_krnl c (\<lambda>_. k1) s1 else s1)
          in if r \<noteq> 0 then (False, s2)
             else case Option.bind (kroot_of s2 c) (kroots s2) of None \<Rightarrow> (False, s2)
             | Some t \<Rightarrow>
               let (ok, t', h') = walk_dirs create (dir_path a) t (sy_host s2)
               in (ok, s2\<lparr>sy_host := h', kroots := (kroots s2)(the (kroot_of s2 c) \<mapsto> t')\<rparr>))"

definition kernel_load :: "sys \<Rightarrow> pptr \<Rightarrow> addr \<Rightarrow> addr option" where
  "kernel_load s c a = do { r \<leftarrow> kroot_of s c; t \<leftarrow> kroots s r; tab_get t (dir_path a) (pt_index a) }"

definition kernel_store :: "sys \<Rightarrow> pptr \<Rightarrow> addr \<Rightarrow> addr \<Rightarrow> sys" where
  "kernel_store s c a v =
     (case Option.bind (kroot_of s c) (kroots s) of None \<Rightarrow> s
      | Some t \<Rightarrow> s\<lparr>kroots := (kroots s)(the (kroot_of s c) \<mapsto> tab_set t (dir_path a) (pt_index a) v)\<rparr>)"

definition kernel_get_pte :: "sys \<Rightarrow> pptr \<Rightarrow> addr \<Rightarrow> bool \<times> sys" where
  "kernel_get_pte s c a = kernel_walk_pte s c a True"

definition kernel_vaddr_from_fpn :: "addr \<Rightarrow> addr" where
  "kernel_vaddr_from_fpn fpn = KMEM_VADDR_BASE + fpn * PAGING64_PAGESZ"

definition kernel_fpn_from_vaddr :: "addr \<Rightarrow> addr" where
  "kernel_fpn_from_vaddr a = (a - KMEM_VADDR_BASE) div PAGING64_PAGESZ"

definition kernel_pte :: "addr \<Rightarrow> addr" where
  "kernel_pte fpn = PAGING64_PTE_SET_FPN
     (CLRBIT (CLRBIT (SETBIT 0 PAGING64_PTE_PRESENT_MASK) PAGING64_PTE_SWAPPED_MASK) PAGING64_PTE_DIRTY_MASK) fpn"

definition kernel_map_page :: "sys \<Rightarrow> pptr \<Rightarrow> addr \<Rightarrow> addr \<Rightarrow> int \<times> sys" where
  "kernel_map_page s c a fpn =
     (case kernel_get_pte s c a of
        (False, s1) \<Rightarrow> (-1, s1)
      | (True, s1) \<Rightarrow> (0, kernel_store (kernel_store s1 c a 0) c a (kernel_pte fpn)))"

text \<open>
  \<open>kernel_release_contiguous_region\<close>: first the entries, then the frames. \<open>page * KMEM_PAGE_SIZE\<close>
  is a product of two \<open>int\<close>s.
\<close>

fun clear_entries :: "sys \<Rightarrow> pptr \<Rightarrow> addr \<Rightarrow> nat \<Rightarrow> nat \<Rightarrow> sys" where
  "clear_entries s c base page 0 = s"
| "clear_entries s c base page (Suc n) =
     (let vaddr = base + addr_of_int (int32 (int page * 4096));
          (found, s1) = kernel_walk_pte s c vaddr False
      in clear_entries (if found then kernel_store s1 c vaddr 0 else s1) c base (page + 1) n)"

definition kernel_release_contiguous_region :: "sys \<Rightarrow> pptr \<Rightarrow> addr \<Rightarrow> int \<Rightarrow> sys" where
  "kernel_release_contiguous_region s c base pgnum =
     (case caller_mram s c of None \<Rightarrow> s
      | Some d \<Rightarrow>
        if pgnum \<le> 0 then s
        else
          let s1 = clear_entries s c base 0 (nat pgnum);
              first_fpn = kernel_fpn_from_vaddr base
          in upd_dev d (fold unuse_frame (map (\<lambda>page. first_fpn + of_nat page) [0..<nat pgnum]) (devs s1 d)) s1)"

fun map_contiguous :: "sys \<Rightarrow> pptr \<Rightarrow> addr \<Rightarrow> addr \<Rightarrow> nat \<Rightarrow> nat \<Rightarrow> bool \<times> sys" where
  "map_contiguous s c start first_fpn page 0 = (True, s)"
| "map_contiguous s c start first_fpn page (Suc n) =
     (let (r, s1) = kernel_map_page s c (start + addr_of_int (int32 (int page * 4096))) (first_fpn + of_nat page)
      in if r \<noteq> 0 then (False, s1) else map_contiguous s1 c start first_fpn (page + 1) n)"

text \<open>The base address and the allocated size, or \<open>None\<close> for the return value -1.\<close>

definition kernel_alloc_contiguous_region :: "sys \<Rightarrow> pptr \<Rightarrow> addr \<Rightarrow> (addr \<times> addr) option \<times> sys" where
  "kernel_alloc_contiguous_region s c sz =
     (if caller_krnl s c = None \<or> sz = 0 then (None, s)
      else
        let aligned_size = PAGING64_PAGE_ALIGNSZ sz;
            req_pgnum = int_of_addr (aligned_size div PAGING64_PAGESZ)
        in case kernel_allocate_contiguous_frames s c req_pgnum of
             (None, s1) \<Rightarrow> (None, s1)
           | (Some first_fpn, s1) \<Rightarrow>
             let start_addr = kernel_vaddr_from_fpn first_fpn
             in case map_contiguous s1 c start_addr first_fpn 0 (nat req_pgnum) of
                  (False, s2) \<Rightarrow> (None, kernel_release_contiguous_region s2 c start_addr req_pgnum)
                | (True, s2) \<Rightarrow> (Some (start_addr, aligned_size), s2))"

definition kernel_translate_vaddr :: "sys \<Rightarrow> pptr \<Rightarrow> addr \<Rightarrow> addr option" where
  "kernel_translate_vaddr s c a =
     (if \<not> fst (kernel_walk_pte s c a False) then None
      else
        let pte = the (kernel_load s c a) in
        if \<not> PAGING64_PAGE_PRESENT pte then None
        else Some (PAGING64_PTE_FPN pte * PAGING64_PAGESZ + (a AND PAGING64_ADDR_OFFST_MASK)))"

definition kernel_region_valid :: "sys \<Rightarrow> pptr \<Rightarrow> int \<Rightarrow> addr \<Rightarrow> addr \<Rightarrow> vm_rg_struct option" where
  "kernel_region_valid s c rgid sz offset =
     (case caller_mm s c of None \<Rightarrow> None
      | Some m \<Rightarrow>
        (case get_symrg_byid (Some m) rgid of None \<Rightarrow> None
         | Some i \<Rightarrow>
           let rg = symrgtbl m ! i in
           if rg_end rg \<le> rg_start rg then None
           else
             let region_size = rg_end rg - rg_start rg in
             if sz > region_size \<or> offset > region_size - sz then None else Some rg))"

section \<open>Kernel regions\<close>

definition kmalloc :: "sys \<Rightarrow> pptr \<Rightarrow> int \<Rightarrow> addr \<Rightarrow> addr option \<times> sys" where
  "kmalloc s c rgid sz =
     (case caller_mm s c of None \<Rightarrow> (None, s)
      | Some m \<Rightarrow>
        if sz = 0 \<or> rgid < 0 \<or> rgid \<ge> int PAGING_MAX_SYMTBL_SZ then (None, s)
        else
          let symrg = symrgtbl m ! nat rgid in
          if rg_start symrg \<noteq> 0 \<or> rg_end symrg \<noteq> 0 then (None, s)
          else case kernel_alloc_contiguous_region s c sz of
                 (None, s1) \<Rightarrow> (None, s1)
               | (Some (base_addr, _), s1) \<Rightarrow>
                 (Some base_addr, set_symrg c (nat rgid) \<lparr>rg_start = base_addr, rg_end = base_addr + sz, vmaid = 0\<rparr> s1))"

text \<open>
  A result address of \<open>(addr_t)-1\<close> counts as failure. The symbol table has 30 entries and
  the process 10 registers: an index from 10 on is a write past the array.
\<close>

definition set_reg :: "pptr \<Rightarrow> nat \<Rightarrow> addr \<Rightarrow> sys \<Rightarrow> sys option" where
  "set_reg c i v s = do {
     b \<leftarrow> pcbs s c;
     if i < length (regs b) then Some (upd_pcb c (\<lambda>b. b\<lparr>regs := (regs b)[i := v]\<rparr>) s) else None }"

definition libkmem_malloc :: "sys \<Rightarrow> pptr \<Rightarrow> uint32 \<Rightarrow> uint32 \<Rightarrow> (int \<times> sys) option" where
  "libkmem_malloc s c sz reg_index =
     (if caller_krnl s c = None \<or> sz = 0 then Some (-1, s)
      else if unat reg_index \<ge> PAGING_MAX_SYMTBL_SZ then Some (-1, s)
      else case kmalloc s c (sint reg_index) (ucast sz) of
             (None, s1) \<Rightarrow> Some (-1, s1)
           | (Some a, s1) \<Rightarrow>
             if a = addr_of_int (-1) then Some (-1, s1)
             else map_option (Pair 0) (set_reg c (unat reg_index) a s1))"

section \<open>Cache pools\<close>

text \<open>The slots of a slab, each with an allocation of its own.\<close>

fun alloc_slots :: "sys \<Rightarrow> addr \<Rightarrow> int \<Rightarrow> nat \<Rightarrow> nat \<Rightarrow> addr list option \<times> sys" where
  "alloc_slots s base sl idx 0 = (Some [], s)"
| "alloc_slots s base sl idx (Suc n) =
     (let (ok, s1) = sys_alloc s in
      if \<not> ok then (None, s1)
      else case alloc_slots s1 base sl (idx + 1) n of
             (None, s2) \<Rightarrow> (None, s2)
           | (Some l, s2) \<Rightarrow> (Some ((base + addr_of_int (int32 (int idx * sl))) # l), s2))"

definition create_cache_slab :: "sys \<Rightarrow> addr \<Rightarrow> int \<Rightarrow> int \<Rightarrow> kmem_cache_slab_struct option \<times> sys" where
  "create_cache_slab s base slot_sz slot_cnt =
     (let (ok, s1) = sys_alloc s in
      if \<not> ok then (None, s1)
      else case alloc_slots s1 base slot_sz 0 (nat slot_cnt) of
             (None, s2) \<Rightarrow> (None, s2)
           | (Some l, s2) \<Rightarrow>
             (Some \<lparr>slab_start = base, slot_size = slot_sz, slot_count = slot_cnt, free_count = slot_cnt, free_list = l\<rparr>, s2))"

definition zero_pool :: kcache_pool_struct where
  "zero_pool = \<lparr>pool_size = 0, pool_align = 0, pool_slot_count = 0, pool_storage = 0, pool_alloc_size = 0,
     pool_empty = [], pool_partial = [], pool_full = []\<rparr>"

text \<open>The table of pools, allocated or enlarged so that it has the entry.\<close>

definition pool_table :: "kcache_pool_struct list option \<Rightarrow> nat \<Rightarrow> sys \<Rightarrow> kcache_pool_struct list option \<times> sys" where
  "pool_table tbl i s =
     (case tbl of
        None \<Rightarrow> (let (ok, s1) = sys_alloc s in (if ok then Some (replicate (i + 1) zero_pool) else None, s1))
      | Some l \<Rightarrow>
        if i \<ge> length l then
          (let (ok, s1) = sys_alloc s in (if ok then Some (l @ replicate (i + 1 - length l) zero_pool) else None, s1))
        else (Some l, s))"

definition set_pools :: "pptr \<Rightarrow> kcache_pool_struct list option \<Rightarrow> sys \<Rightarrow> sys" where
  "set_pools c l = upd_mm c (\<lambda>m. m\<lparr>kcpooltbl := l\<rparr>)"

definition libkmem_cache_pool_create :: "sys \<Rightarrow> pptr \<Rightarrow> uint32 \<Rightarrow> uint32 \<Rightarrow> uint32 \<Rightarrow> int \<times> sys" where
  "libkmem_cache_pool_create s c sz align cache_pool_id =
     (case caller_mm s c of None \<Rightarrow> (-1, s)
      | Some m \<Rightarrow>
        let i = unat cache_pool_id; usable = sz div align * align; slots = int32 (uint (usable div align)) in
        if i \<ge> PAGING_MAX_SYMTBL_SZ \<or> sz = 0 \<or> align = 0 then (-1, s)
        else if usable = 0 \<or> slots = 0 then (-1, s)
        else case pool_table (kcpooltbl m) i s of
               (None, s1) \<Rightarrow> (-1, s1)
             | (Some l, s1) \<Rightarrow>
               let s2 = set_pools c (Some l) s1 in
               if pool_size (l ! i) \<noteq> 0 then (-1, s2)
               else case kernel_alloc_contiguous_region s2 c (ucast sz) of
                      (None, s3) \<Rightarrow> (-1, s3)
                    | (Some (alloc_addr, alloc_size), s3) \<Rightarrow>
                      (case create_cache_slab s3 alloc_addr (sint align) slots of
                         (None, s4) \<Rightarrow>
                           (-1, set_pools c (Some (l[i := zero_pool]))
                              (kernel_release_contiguous_region s4 c alloc_addr
                                 (int_of_addr (PAGING64_PAGE_ALIGNSZ (ucast sz) div PAGING64_PAGESZ))))
                       | (Some slab, s4) \<Rightarrow>
                           (0, set_pools c (Some (l[i := \<lparr>pool_size = sint usable, pool_align = sint align,
                              pool_slot_count = slots, pool_storage = alloc_addr, pool_alloc_size = alloc_size,
                              pool_empty = [slab], pool_partial = [], pool_full = []\<rparr>])) s4)))"

text \<open>
  The step on the slab lists in \<open>__kmem_cache_alloc\<close>: the slab is the head of the partial list or,
  if that is empty, of the empty list. It moves to the full list when its last slot is
  taken, and from the empty to the partial list otherwise.
\<close>

definition cache_take :: "kcache_pool_struct \<Rightarrow> (addr \<times> kcache_pool_struct) option" where
  "cache_take pool =
     (case (case pool_partial pool of [] \<Rightarrow> pool_empty pool | _ \<Rightarrow> pool_partial pool) of
        [] \<Rightarrow> None
      | slab # rest \<Rightarrow>
        (case free_list slab of [] \<Rightarrow> None
         | a # rest_slots \<Rightarrow>
           let slab' = slab\<lparr>free_list := rest_slots, free_count := free_count slab - 1\<rparr>;
               from_partial = (pool_partial pool \<noteq> []);
               removed = (if from_partial then pool\<lparr>pool_partial := rest\<rparr> else pool\<lparr>pool_empty := rest\<rparr>)
           in Some (a,
                if free_count slab' = 0 then removed\<lparr>pool_full := slab' # pool_full removed\<rparr>
                else removed\<lparr>pool_partial := slab' # pool_partial removed\<rparr>)))"

definition kmem_cache_alloc :: "sys \<Rightarrow> pptr \<Rightarrow> int \<Rightarrow> int \<Rightarrow> addr option \<times> sys" where
  "kmem_cache_alloc s c rgid cache_pool_id =
     (case caller_mm s c of None \<Rightarrow> (None, s)
      | Some m \<Rightarrow>
        if cache_pool_id < 0 \<or> cache_pool_id \<ge> int PAGING_MAX_SYMTBL_SZ \<or> rgid < 0 \<or> rgid \<ge> int PAGING_MAX_SYMTBL_SZ
        then (None, s)
        else case kcpooltbl m of None \<Rightarrow> (None, s)
             | Some l \<Rightarrow>
               if cache_pool_id \<ge> int (length l) then (None, s)
               else
                 let pool = l ! nat cache_pool_id; symrg = symrgtbl m ! nat rgid in
                 if pool_size pool = 0 then (None, s)
                 else if rg_start symrg \<noteq> 0 \<or> rg_end symrg \<noteq> 0 then (None, s)
                 else case cache_take pool of None \<Rightarrow> (None, s)
                      | Some (a, pool') \<Rightarrow>
                        (Some a, set_symrg c (nat rgid)
                            \<lparr>rg_start = a, rg_end = a + addr_of_int (pool_size pool), vmaid = 0\<rparr>
                            (set_pools c (Some (l[nat cache_pool_id := pool'])) s)))"

definition libkmem_cache_alloc :: "sys \<Rightarrow> pptr \<Rightarrow> uint32 \<Rightarrow> uint32 \<Rightarrow> (int \<times> sys) option" where
  "libkmem_cache_alloc s c reg_index cache_pool_id =
     (if caller_mm s c = None then Some (-1, s)
      else if unat cache_pool_id \<ge> PAGING_MAX_SYMTBL_SZ \<or> unat reg_index \<ge> PAGING_MAX_SYMTBL_SZ then Some (-1, s)
      else case kmem_cache_alloc s c (sint reg_index) (sint cache_pool_id) of
             (None, s1) \<Rightarrow> Some (-1, s1)
           | (Some a, s1) \<Rightarrow>
             if a = addr_of_int (-1) then Some (-1, s1)
             else map_option (Pair 0) (set_reg c (unat reg_index) a s1))"

section \<open>Copying between user and kernel regions\<close>

definition read_kernel_mem :: "sys \<Rightarrow> pptr \<Rightarrow> int \<Rightarrow> addr \<Rightarrow> (byte option \<times> sys) option" where
  "read_kernel_mem s c rgid offset =
     (case kernel_region_valid s c rgid 1 offset of None \<Rightarrow> Some (None, s)
      | Some rg \<Rightarrow>
        (case kernel_translate_vaddr s c (rg_start rg + offset) of None \<Rightarrow> Some (None, s)
         | Some phys \<Rightarrow> dev_read (caller_mram s c) phys s))"

definition write_kernel_mem :: "sys \<Rightarrow> pptr \<Rightarrow> int \<Rightarrow> addr \<Rightarrow> byte \<Rightarrow> (int \<times> sys) option" where
  "write_kernel_mem s c rgid offset value =
     (case kernel_region_valid s c rgid 1 offset of None \<Rightarrow> Some (-1, s)
      | Some rg \<Rightarrow>
        (case kernel_translate_vaddr s c (rg_start rg + offset) of None \<Rightarrow> Some (-1, s)
         | Some phys \<Rightarrow> dev_write (caller_mram s c) phys value s))"

text \<open>The checks of \<open>__read_user_mem\<close> and \<open>__write_user_mem\<close>.\<close>

definition user_access :: "sys \<Rightarrow> pptr \<Rightarrow> int \<Rightarrow> addr \<Rightarrow> addr option" where
  "user_access s c rgid offset =
     (case caller_mm s c of None \<Rightarrow> None
      | Some m \<Rightarrow>
        (case get_symrg_byid (Some m) rgid of None \<Rightarrow> None
         | Some i \<Rightarrow>
           let rg = symrgtbl m ! i; access_addr = rg_start rg + offset in
           if rg_end rg \<le> rg_start rg then None
           else if offset \<ge> rg_end rg - rg_start rg then None
           else if access_addr < rg_start rg \<or> \<not> is_user_vaddr_range (rg_start rg) (rg_end rg) \<or>
                   \<not> is_user_vaddr_range access_addr (access_addr + 1) then None
           else Some access_addr))"

definition read_user_mem :: "sys \<Rightarrow> pptr \<Rightarrow> int \<Rightarrow> addr \<Rightarrow> (byte option \<times> sys) option" where
  "read_user_mem s c rgid offset =
     (case user_access s c rgid offset of None \<Rightarrow> Some (None, s) | Some a \<Rightarrow> pg_getval s c a)"

definition write_user_mem :: "sys \<Rightarrow> pptr \<Rightarrow> int \<Rightarrow> addr \<Rightarrow> byte \<Rightarrow> (int \<times> sys) option" where
  "write_user_mem s c rgid offset value =
     (case user_access s c rgid offset of None \<Rightarrow> Some (-1, s) | Some a \<Rightarrow> pg_setval s c a value)"

text \<open>
  The copy loop, over the remaining bytes. The sum of offset and index is a 32-bit sum.
\<close>

fun copy_loop :: "(sys \<Rightarrow> addr \<Rightarrow> (byte option \<times> sys) option) \<Rightarrow> (sys \<Rightarrow> addr \<Rightarrow> byte \<Rightarrow> (int \<times> sys) option) \<Rightarrow>
    sys \<Rightarrow> uint32 \<Rightarrow> nat \<Rightarrow> nat \<Rightarrow> (int \<times> sys) option" where
  "copy_loop rd wr s offset idx 0 = Some (0, s)"
| "copy_loop rd wr s offset idx (Suc n) = do {
     (data, s1) \<leftarrow> rd s (ucast (offset + of_nat idx));
     case data of None \<Rightarrow> Some (-1, s1)
     | Some b \<Rightarrow> do {
         (r, s2) \<leftarrow> wr s1 (ucast (offset + of_nat idx)) b;
         if r \<noteq> 0 then Some (-1, s2) else copy_loop rd wr s2 offset (idx + 1) n } }"

definition libkmem_copy_from_user :: "sys \<Rightarrow> pptr \<Rightarrow> uint32 \<Rightarrow> uint32 \<Rightarrow> uint32 \<Rightarrow> uint32 \<Rightarrow> (int \<times> sys) option" where
  "libkmem_copy_from_user s c source destination offset sz =
     (if caller_mm s c = None then Some (-1, s)
      else if unat source \<ge> PAGING_MAX_SYMTBL_SZ \<or> unat destination \<ge> PAGING_MAX_SYMTBL_SZ then Some (-1, s)
      else if sz = 0 then Some (0, s)
      else copy_loop (\<lambda>s. read_user_mem s c (sint source)) (\<lambda>s. write_kernel_mem s c (sint destination)) s offset 0 (unat sz))"

definition libkmem_copy_to_user :: "sys \<Rightarrow> pptr \<Rightarrow> uint32 \<Rightarrow> uint32 \<Rightarrow> uint32 \<Rightarrow> uint32 \<Rightarrow> (int \<times> sys) option" where
  "libkmem_copy_to_user s c source destination offset sz =
     (if caller_mm s c = None then Some (-1, s)
      else if unat source \<ge> PAGING_MAX_SYMTBL_SZ \<or> unat destination \<ge> PAGING_MAX_SYMTBL_SZ then Some (-1, s)
      else if sz = 0 then Some (0, s)
      else copy_loop (\<lambda>s. read_kernel_mem s c (sint source)) (\<lambda>s. write_user_mem s c (sint destination)) s offset 0 (unat sz))"

section \<open>Releasing what a process holds\<close>

text \<open>\<open>free_kmem_cache_metadata\<close>: slabs, slots and the table are host memory.\<close>

definition free_kmem_cache_metadata :: "mm_struct \<Rightarrow> mm_struct" where
  "free_kmem_cache_metadata m = m\<lparr>kcpooltbl := None\<rparr>"

definition clear_symrg_range :: "mm_struct \<Rightarrow> addr \<Rightarrow> addr \<Rightarrow> mm_struct" where
  "clear_symrg_range m start end' =
     (if \<not> is_kernel_vaddr_range start end' then m
      else m\<lparr>symrgtbl := map (\<lambda>rg. if rg_start rg \<ge> start \<and> rg_end rg \<le> end'
             then \<lparr>rg_start = 0, rg_end = 0, vmaid = 0\<rparr> else rg) (symrgtbl m)\<rparr>)"

text \<open>
  \<open>KMEM_PAGE_ALIGN\<close> of an \<open>int\<close>: sum, quotient and product are those of \<open>int\<close>, with the
  quotient rounded towards zero.
\<close>

definition kmem_page_align_int :: "int \<Rightarrow> int" where
  "kmem_page_align_int sz =
     (let n = int32 (int32 (sz + 4096) - 1) in int32 (sgn n * (\<bar>n\<bar> div 4096) * 4096))"

fun release_pools :: "sys \<Rightarrow> pptr \<Rightarrow> kcache_pool_struct list \<Rightarrow> sys" where
  "release_pools s c [] = s"
| "release_pools s c (pool # ps) =
     (let release_size = (if pool_alloc_size pool = 0 then addr_of_int (kmem_page_align_int (pool_size pool))
                          else pool_alloc_size pool)
      in if pool_size pool = 0 \<or> pool_storage pool = 0 \<or> release_size = 0 then release_pools s c ps
         else
           let s1 = kernel_release_contiguous_region s c (pool_storage pool) (int_of_addr (release_size div PAGING64_PAGESZ));
               s2 = upd_mm c (\<lambda>m. clear_symrg_range m (pool_storage pool) (pool_storage pool + release_size)) s1
           in release_pools s2 c ps)"

definition release_kernel_cache_pools :: "sys \<Rightarrow> pptr \<Rightarrow> sys" where
  "release_kernel_cache_pools s c =
     (case caller_mm s c of None \<Rightarrow> s
      | Some m \<Rightarrow>
        (case kcpooltbl m of None \<Rightarrow> s
         | Some l \<Rightarrow> upd_mm c free_kmem_cache_metadata (release_pools s c l)))"

fun release_symrgs :: "sys \<Rightarrow> pptr \<Rightarrow> nat list \<Rightarrow> sys" where
  "release_symrgs s c [] = s"
| "release_symrgs s c (i # is) =
     (case caller_mm s c of None \<Rightarrow> s
      | Some m \<Rightarrow>
        let rg = symrgtbl m ! i;
            pgnum = int_of_addr (PAGING64_PAGE_ALIGNSZ (rg_end rg - rg_start rg) div PAGING64_PAGESZ)
        in if \<not> is_kernel_vaddr_range (rg_start rg) (rg_end rg) \<or> pgnum \<le> 0 then release_symrgs s c is
           else release_symrgs
                  (set_symrg c i \<lparr>rg_start = 0, rg_end = 0, vmaid = 0\<rparr>
                     (kernel_release_contiguous_region s c (rg_start rg) pgnum)) c is)"

definition release_kernel_symrg_allocations :: "sys \<Rightarrow> pptr \<Rightarrow> sys" where
  "release_kernel_symrg_allocations s c =
     (if caller_mm s c = None then s else release_symrgs s c [0..<PAGING_MAX_SYMTBL_SZ])"

text \<open>
  \<open>pcb_memph_collect_recursive\<close>: the levels below the current one, and the 512 entries of a
  table in order.
\<close>

definition collect_entry :: "pptr \<Rightarrow> addr \<Rightarrow> sys \<Rightarrow> sys" where
  "collect_entry c pte s =
     (if pte = 0 then s
      else if PAGING64_PAGE_PRESENT pte \<and> \<not> PAGING64_PAGE_SWAPPED pte then
        dev_put_freefp (caller_mram s c) (PAGING64_PTE_FPN pte) s
      else if PAGING64_PAGE_SWAPPED pte then dev_put_freefp (caller_mswp s c) (PAGING64_PTE_SWP pte) s
      else s)"

primrec pcb_memph_collect_recursive :: "nat \<Rightarrow> pptr \<Rightarrow> ptab \<Rightarrow> sys \<Rightarrow> sys" where
  "pcb_memph_collect_recursive 0 c table = (case table of
     PT g \<Rightarrow> fold (\<lambda>i. collect_entry c (g (of_nat i))) [0..<512] | Dir f \<Rightarrow> id)"
| "pcb_memph_collect_recursive (Suc n) c table = (case table of
     Dir f \<Rightarrow> fold (\<lambda>i. case f (of_nat i) of None \<Rightarrow> id | Some t \<Rightarrow> pcb_memph_collect_recursive n c t) [0..<512]
   | PT g \<Rightarrow> id)"

text \<open>After the releases, \<open>caller->krnl->mm\<close> is dereferenced without a test.\<close>

definition free_pcb_memph :: "sys \<Rightarrow> pptr \<Rightarrow> (int \<times> sys) option" where
  "free_pcb_memph s c = do {
     let s1 = release_kernel_symrg_allocations (release_kernel_cache_pools s c) c;
     m \<leftarrow> caller_mm s1 c;
     let s2 = (case mm_pgd m of None \<Rightarrow> s1 | Some t \<Rightarrow> pcb_memph_collect_recursive 4 c t s1);
     Some (0, upd_mm c (\<lambda>m. m\<lparr>fifo_pgn := []\<rparr>) s2) }"

end
