(* ===== verification/Kernel_Memory.thy ===== *)
theory Kernel_Memory
  imports Heap Kmem
begin

text \<open>
  Kernel memory is correct: the search for consecutive frames finds a run whenever there is one, the
  frames of the kernel are mapped at the addresses of the direct mapping and belong to no process,
  and reads and writes of kernel regions behave as an array of bytes that no process can see.
\<close>

section \<open>The two walks\<close>

lemma kernel_walk_agrees:
  assumes "is_kernel_address a" "caller_mm s c \<noteq> None"
  shows "kernel_walk_pte s c a create = (case walk_pte s c a create of (l, s') \<Rightarrow> (l \<noteq> None, s'))"
proof -
  from assms(2) obtain k where k: "caller_krnl s c = Some k" using caller_mm_krnl by blast
  show ?thesis
  proof (cases "fst (get_pd_from_address a) = 0")
    case True
    define s1 where "s1 = ensure_root s c a create"
    have er: "s1 = (if krnl_pgd k = None \<and> create
        then let (_, k1, s1) = init_kernel_page_table k s in upd_krnl c (\<lambda>_. k1) s1 else s)"
      using assms(1) k by (simp add: s1_def ensure_root_def)
    have rt: "root_of s1 c a = Option.bind (kroot_of s1 c) (kroots s1)" using assms(1) by (simp add: root_of_def)
    have sr: "set_root c a t' (s1\<lparr>sy_host := h'\<rparr>) = s1\<lparr>sy_host := h', kroots := (kroots s1)(the (kroot_of s1 c) \<mapsto> t')\<rparr>"
      if "root_of s1 c a = Some t" for t t' h'
      using that assms(1) by (auto simp: set_root_def rt kroot_of_def bind_eq_Some_conv)
    have wk: "walk_pte s c a create = (case Option.bind (kroot_of s1 c) (kroots s1) of None \<Rightarrow> (None, s1)
        | Some t \<Rightarrow> let (ok, t', h') = walk_dirs create (dir_path a) t (sy_host s1)
          in (if ok then Some (c, a) else None, s1\<lparr>sy_host := h', kroots := (kroots s1)(the (kroot_of s1 c) \<mapsto> t')\<rparr>))"
      using assms(2) True sr unfolding walk_pte_def s1_def [symmetric] rt [symmetric]
      by (auto simp: Let_def split: option.splits prod.splits)
    show ?thesis
    proof (cases "krnl_pgd k = None")
      case new: True
      show ?thesis
      proof (cases create)
        case False
        with new k er have "s1 = s" "kroot_of s c = None" by (simp_all add: kroot_of_def)
        with wk k True new False show ?thesis by (simp add: kernel_walk_pte_def)
      next
        case cr: True
        obtain r k1 s0 where i: "init_kernel_page_table k s = (r, k1, s0)" by (rule prod_cases3)
        with er new cr have s1: "s1 = upd_krnl c (\<lambda>_. k1) s0" by simp
        have "kroot_of s1 c = None" if "r \<noteq> 0"
        proof -
          from that i new have "k1 = k" "caller_krnl s0 c = caller_krnl s c"
            by (auto simp: init_kernel_page_table_def sys_alloc_def Let_def split: prod.splits if_splits)
          with new k show ?thesis by (simp add: s1 kroot_of_def)
        qed
        with wk k True new cr i s1 show ?thesis
          by (auto simp: kernel_walk_pte_def Let_def split: option.splits prod.splits)
      qed
    next
      case False
      with er have "s1 = s" by simp
      with wk k True False show ?thesis
        by (auto simp: kernel_walk_pte_def init_kernel_page_table_def Let_def split: option.splits prod.splits)
    qed
  qed (use assms k in \<open>simp add: kernel_walk_pte_def walk_pte_def\<close>)
qed

lemma kernel_load_store:
  assumes "is_kernel_address a"
  shows "kernel_load s c a = pte_load s (c, a)" "kernel_store s c a v = pte_store s (c, a) v"
  using assms by (auto simp: kernel_load_def pte_load_def root_of_def kernel_store_def pte_store_def set_root_def
      bind_eq_Some_conv split: option.splits)

lemma kernel_pte_fpn: "kernel_pte fpn = pte_of_fpn fpn"
  by (simp add: kernel_pte_def pte_of_fpn_def c_defs SETBIT_def CLRBIT_def)

section \<open>Runs of frames\<close>

text \<open>A window of \<open>n\<close> consecutive numbers in a list.\<close>

definition run_at :: "addr list \<Rightarrow> nat \<Rightarrow> nat \<Rightarrow> bool" where
  "run_at l i n \<longleftrightarrow> i + n \<le> length l \<and> (\<forall>j. i \<le> j \<and> j + 1 < i + n \<longrightarrow> l ! (j + 1) = l ! j + 1)"

lemma find_run_sound:
  assumes "find_run l idx run req = Some i" "1 \<le> run" "run \<le> idx" "run < req"
    and "\<And>j. idx - run \<le> j \<Longrightarrow> j + 1 < idx \<Longrightarrow> l ! (j + 1) = l ! j + 1"
  shows "run_at l i req"
  using assms
proof (induction l idx run req rule: find_run.induct)
  case (1 l idx run req)
  let ?run = "if l ! idx = l ! (idx - 1) + 1 then run + 1 else 1"
  from "1.prems"(1) have idx: "idx < length l" by (simp add: find_run.simps [of l idx] split: if_splits)
  have run: "l ! (j + 1) = l ! j + 1" if j: "idx + 1 - ?run \<le> j" "j + 1 < idx + 1" for j
  proof (cases "l ! idx = l ! (idx - 1) + 1")
    case True
    with j "1.prems"(3) have "idx - run \<le> j" by simp
    with j(2) True "1.prems"(5) [of j] show ?thesis by (cases "j + 1 = idx") auto
  qed (use j in auto)
  show ?case
  proof (cases "?run = req")
    case True
    with "1.prems"(1) idx have i: "i = idx + 1 - req" by (simp add: find_run.simps [of l idx] Let_def)
    have "req \<le> idx + 1" using True "1.prems"(2-4) by (auto split: if_splits)
    with i idx run True show ?thesis by (auto simp: run_at_def)
  next
    case False
    with "1.prems"(1) idx have "find_run l (idx + 1) ?run req = Some i" by (simp add: find_run.simps [of l idx] Let_def)
    moreover have "?run < req" using False "1.prems"(2,4) by (auto split: if_splits)
    ultimately show ?thesis using "1.IH" [OF idx refl False] run "1.prems"(3) by (auto split: if_splits)
  qed
qed

lemma find_run_complete:
  assumes "run_at l i req" "1 \<le> run" "run \<le> idx" "run < req" "idx - run \<le> i"
  shows "find_run l idx run req \<noteq> None"
  using assms
proof (induction l idx run req rule: find_run.induct)
  case (1 l idx run req)
  let ?run = "if l ! idx = l ! (idx - 1) + 1 then run + 1 else 1"
  have len: "i + req \<le> length l" using "1.prems"(1) by (simp add: run_at_def)
  then have idx: "idx < length l" using "1.prems"(3-5) by simp
  show ?case
  proof (cases "?run = req")
    case False
    have "idx + 1 - ?run \<le> i"
    proof (cases "l ! idx = l ! (idx - 1) + 1")
      case no: False
      have "idx \<le> i"
      proof (rule ccontr)
        assume "\<not> idx \<le> i"
        then have "i \<le> idx - 1" "idx - 1 + 1 < i + req" "idx - 1 + 1 = idx" using "1.prems"(2-5) by auto
        with "1.prems"(1) have "l ! idx = l ! (idx - 1) + 1" unfolding run_at_def by metis
        with no show False by simp
      qed
      then show ?thesis using no by simp
    qed (use "1.prems"(5) in simp)
    moreover have "1 \<le> ?run" "?run \<le> idx + 1" "?run < req" using False "1.prems"(2-4) by (auto split: if_splits)
    ultimately have "find_run l (idx + 1) ?run req \<noteq> None" using "1.IH" [OF idx refl False "1.prems"(1)] by simp
    with idx False show ?thesis by (simp add: find_run.simps [of l idx] Let_def)
  qed (use idx in \<open>simp add: find_run.simps [of l idx] Let_def\<close>)
qed

lemma run_at_nth:
  assumes "run_at l i n" "j < n"
  shows "l ! (i + j) = l ! i + of_nat j"
  using assms(2)
proof (induction j)
  case (Suc j)
  then have "l ! (i + j + 1) = l ! (i + j) + 1" using assms(1) by (simp add: run_at_def)
  with Suc show ?case by simp
qed simp

lemma run_at_window:
  assumes "run_at l i n" "0 < n"
  shows "take n (drop i l) = map (\<lambda>j. l ! i + of_nat j) [0..<n]"
  using assms run_at_nth [OF assms(1)] by (intro nth_equalityI) (auto simp: run_at_def)

text \<open>Consecutive numbers stand side by side in a sorted list.\<close>

lemma sorted_run:
  assumes "sorted l" "distinct l" "\<And>j. j < n \<Longrightarrow> f + of_nat j \<in> set l" "0 < n" "uint f + int n < 2 ^ 64"
  obtains i where "run_at l i n"
proof -
  have u: "uint (f + of_nat j) = uint f + int j" if "j < n" for j
  proof -
    have "0 \<le> uint f" by simp
    moreover have "uint f + int n < 18446744073709551616" using assms(5) by simp
    ultimately have "int j < 18446744073709551616" using that by linarith
    then have "j < 2 ^ 64" by simp
    from uint_of_nat_small [OF this] uint_add_small [of f "of_nat j"] that assms(5) show ?thesis by simp
  qed
  obtain i where i: "i < length l" "l ! i = f" using assms(3) [of 0] assms(4) by (auto simp: in_set_conv_nth)
  have at: "i + j < length l \<and> l ! (i + j) = f + of_nat j" if "j < n" for j
    using that
  proof (induction j)
    case (Suc j)
    then have IH: "i + j < length l" "l ! (i + j) = f + of_nat j" by auto
    from assms(3) [OF Suc.prems] obtain k where k: "k < length l" "l ! k = f + of_nat (Suc j)" by (auto simp: in_set_conv_nth)
    have step: "uint (l ! k) = uint (l ! (i + j)) + 1" using u [OF Suc.prems] u [of j] Suc.prems k(2) IH(2) by simp
    have "i + j < k"
    proof (rule ccontr)
      assume "\<not> i + j < k"
      then have "l ! k \<le> l ! (i + j)" using assms(1) IH(1) by (intro sorted_nth_mono) auto
      with step show False by (simp add: word_le_def)
    qed
    moreover have "\<not> i + j + 1 < k"
    proof
      assume "i + j + 1 < k"
      then have "l ! (i + j) < l ! (i + j + 1)" "l ! (i + j + 1) < l ! k"
        using assms(1,2) k(1) by (auto intro!: order_neq_le_trans sorted_nth_mono simp: nth_eq_iff_index_eq)
      with step show False by (simp add: word_less_def)
    qed
    ultimately have "k = i + Suc j" by simp
    with k show ?case by simp
  qed (use i in simp)
  have "i + n \<le> length l" using conjunct1 [OF at [of "n - 1"]] assms(4) by linarith
  moreover have "l ! (j + 1) = l ! j + 1" if "i \<le> j" "j + 1 < i + n" for j
  proof -
    from that obtain k where "j = i + k" "Suc k < n" by (auto simp: le_iff_add)
    with at [of k] at [of "Suc k"] show ?thesis by simp
  qed
  ultimately have "run_at l i n" by (simp add: run_at_def)
  then show thesis by (rule that)
qed

lemma fold_use_frame:
  assumes "distinct ws" "set ws \<subseteq> set (free_fp_list mp)" "distinct (free_fp_list mp)"
  shows "fold use_frame ws mp = mp\<lparr>free_fp_list := filter (\<lambda>f. f \<notin> set ws) (free_fp_list mp),
    used_fp_list := rev ws @ used_fp_list mp\<rparr>"
  using assms
proof (induction ws arbitrary: mp)
  case (Cons w ws)
  let ?mp = "use_frame w mp"
  have u: "?mp = mp\<lparr>free_fp_list := filter (\<lambda>f. f \<noteq> w) (free_fp_list mp), used_fp_list := w # used_fp_list mp\<rparr>"
    using Cons.prems by (simp add: use_frame_def distinct_remove1_removeAll removeAll_filter_not_eq eq_commute)
  have "fold use_frame ws ?mp = ?mp\<lparr>free_fp_list := filter (\<lambda>f. f \<notin> set ws) (free_fp_list ?mp),
      used_fp_list := rev ws @ used_fp_list ?mp\<rparr>"
    by (rule Cons.IH) (use Cons.prems u in auto)
  moreover have "(\<lambda>f. f \<notin> set ws \<and> f \<noteq> w) = (\<lambda>f. f \<noteq> w \<and> f \<notin> set ws)" by auto
  ultimately show ?case by (simp add: u conj_commute)
qed simp

text \<open>
  With memory on the host, the search succeeds exactly when there are enough consecutive free
  frames, and then exactly the frames of the run move to the used list.
\<close>

definition frames :: "addr \<Rightarrow> int \<Rightarrow> addr set" where
  "frames f n = (\<lambda>j. f + of_nat j) ` {..<nat n}"

definition taken :: "addr \<Rightarrow> int \<Rightarrow> memphy_struct \<Rightarrow> memphy_struct" where
  "taken f n mp = mp\<lparr>free_fp_list := filter (\<lambda>g. g \<notin> frames f n) (free_fp_list mp),
     used_fp_list := rev (map (\<lambda>j. f + of_nat j) [0..<nat n]) @ used_fp_list mp\<rparr>"

lemma contiguous_frames_ok:
  assumes d: "caller_mram s c = Some d" "distinct (free_fp_list (devs s d))" "host_ok (sy_host s)" and n: "0 < n"
    and small: "\<And>f. f \<in> set (free_fp_list (devs s d)) \<Longrightarrow> uint f + n < 2 ^ 64"
  shows "\<exists>h. host_ok h \<and>
    ((\<exists>f. kernel_allocate_contiguous_frames s c n = (Some f, upd_dev d (taken f n (devs s d)) (s\<lparr>sy_host := h\<rparr>)) \<and>
        frames f n \<subseteq> set (free_fp_list (devs s d))) \<or>
     kernel_allocate_contiguous_frames s c n = (None, s\<lparr>sy_host := h\<rparr>) \<and>
       \<not> (\<exists>f. frames f n \<subseteq> set (free_fp_list (devs s d))))"
proof -
  let ?free = "free_fp_list (devs s d)" let ?l = "sort ?free"
  have l: "sorted ?l" "distinct ?l" "set ?l = set ?free" "length ?l = length ?free" using d(2) by simp_all
  have ex: "\<exists>i. run_at ?l i (nat n)" if "frames f n \<subseteq> set ?free" for f
  proof -
    have f: "f + of_nat j \<in> set ?l" if "j < nat n" for j using that \<open>frames f n \<subseteq> _\<close> by (auto simp: frames_def)
    from f [of 0] n small have "uint f + n < 2 ^ 64" by simp
    with sorted_run [OF l(1,2) f] n show ?thesis by (metis int_nat_eq less_imp_le zero_less_nat_eq)
  qed
  show ?thesis
  proof (cases "int (length ?free) < n")
    case True
    have "\<not> frames f n \<subseteq> set ?free" for f
    proof
      assume "frames f n \<subseteq> set ?free"
      from ex [OF this] True l(4) n show False by (auto simp: run_at_def)
    qed
    moreover have "kernel_allocate_contiguous_frames s c n = (None, s\<lparr>sy_host := sy_host s\<rparr>)"
      using d(1) True by (simp add: kernel_allocate_contiguous_frames_def)
    ultimately show ?thesis using d(3) by blast
  next
    case False
    obtain h where h: "sys_alloc s = (True, s\<lparr>sy_host := h\<rparr>)" "host_ok h"
      by (rule sys_alloc_cases [of s]) (use d(3) in \<open>auto simp: host_ok_def\<close>)
    let ?sel = "if n = 1 then Some 0 else find_run ?l 1 1 (nat n)"
    have sel: "case ?sel of None \<Rightarrow> \<not> (\<exists>i. run_at ?l i (nat n)) | Some i \<Rightarrow> run_at ?l i (nat n)"
    proof (cases "n = 1")
      case True
      then show ?thesis using False l(4) by (simp add: run_at_def Suc_le_eq)
    next
      case ne: False
      with n find_run_sound [of ?l 1 1 "nat n"] find_run_complete [of ?l _ "nat n" 1 1] show ?thesis
        by (auto split: option.splits)
    qed
    show ?thesis
    proof (cases ?sel)
      case None
      with d(1) False n h(1) have "kernel_allocate_contiguous_frames s c n = (None, s\<lparr>sy_host := h\<rparr>)"
        by (simp add: kernel_allocate_contiguous_frames_def Let_def)
      with None sel ex h(2) show ?thesis by auto
    next
      case (Some i)
      with sel have r: "run_at ?l i (nat n)" by simp
      let ?f = "?l ! i" and ?w = "take (nat n) (drop i ?l)"
      have w: "?w = map (\<lambda>j. ?f + of_nat j) [0..<nat n]" using run_at_window [OF r] n by simp
      have sub: "set ?w \<subseteq> set ?free" "distinct ?w" using l(2,3) by (auto dest!: in_set_takeD in_set_dropD)
      have fr: "frames ?f n = set ?w" unfolding w by (auto simp: frames_def)
      have "fold use_frame ?w (devs s d) = taken ?f n (devs s d)"
        using fold_use_frame [OF sub(2,1) d(2)] by (simp add: taken_def fr w [symmetric])
      with d(1) False n h(1) Some have "kernel_allocate_contiguous_frames s c n =
          (Some ?f, upd_dev d (taken ?f n (devs s d)) (s\<lparr>sy_host := h\<rparr>))"
        by (simp add: kernel_allocate_contiguous_frames_def Let_def)
      with h(2) fr sub(1) show ?thesis by auto
    qed
  qed
qed

section \<open>Kernel memory and the memory of the processes\<close>

text \<open>
  Frames of the kernel are off the free list and no page of a process is mapped to them: in
  the invariant they belong to the set of slots that running code holds.
\<close>

lemma vm_inv_used:
  assumes "vm_inv w F s" and s': "s' = upd_dev 0 ((devs s 0)\<lparr>used_fp_list := u\<rparr>) s"
  shows "vm_inv w F s'" "vbyte w s' = vbyte w s" "user_slot s' = user_slot s"
proof -
  note inv = vm_invD(1-3) [OF assms(1)]
  have "pte_get_entry s' = pte_get_entry s" using inv(1) by (simp add: s' pte_get_entry_upd_dev)
  then show us: "user_slot s' = user_slot s" by (rule user_slot_cong)
  have st: "storage (devs s' x) = storage (devs s x)" for x by (simp add: s')
  show "vbyte w s' = vbyte w s" by (intro ext) (simp only: vbyte_def us slot_byte_def st)
  have same: "ram_like (devs s' x) = ram_like (devs s x)" "frame_ok (devs s' x) g = frame_ok (devs s x) g"
    "free_fp_list (devs s' x) = free_fp_list (devs s x)" for x g by (simp_all add: s')
  show "vm_inv w F s'"
    by (rule vm_inv_cong [OF assms(1) _ _ _ _ us]) (use inv in \<open>simp_all add: devices_ok_def slot_ok_def same, simp_all add: s'\<close>)
qed

text \<open>New lists of free and used frames of RAM.\<close>

lemma vm_inv_lists:
  assumes "vm_inv w F s" "distinct fl"
    and "\<And>f. f \<in> set fl \<Longrightarrow> f \<in> set (free_fp_list (devs s 0)) \<or> (False, f) \<in> F"
    and "\<And>sl. sl \<in> F' \<Longrightarrow> sl \<in> F \<or> fst sl = False \<and> snd sl \<in> set (free_fp_list (devs s 0))"
    and "\<And>f. f \<in> set fl \<Longrightarrow> (False, f) \<notin> F'"
    and s': "s' = upd_dev 0 ((devs s 0)\<lparr>free_fp_list := fl, used_fp_list := u\<rparr>) s"
  shows "vm_inv w F' s'" "vbyte w s' = vbyte w s" "user_slot s' = user_slot s"
proof -
  let ?s1 = "with_free (dev_of w False) fl s"
  have d0: "dev_of w False = 0" by (simp add: dev_of_def)
  note i = vm_inv_with_free [OF assms(1,2), of False F', unfolded d0, OF assms(3-5)]
  have "s' = upd_dev 0 ((devs (with_free 0 fl s) 0)\<lparr>used_fp_list := u\<rparr>) (with_free 0 fl s)"
    by (simp add: s' with_free_def upd_dev_upd_dev)
  note j = vm_inv_used [OF i(1) this]
  show "vm_inv w F' s'" "vbyte w s' = vbyte w s" "user_slot s' = user_slot s" using i j by simp_all
qed

lemma vm_inv_taken:
  assumes "vm_inv w F s" "frames f n \<subseteq> set (free_fp_list (devs s 0))"
  shows "vm_inv w (F \<union> Pair False ` frames f n) (upd_dev 0 (taken f n (devs s 0)) s)"
    "vbyte w (upd_dev 0 (taken f n (devs s 0)) s) = vbyte w s"
    "user_slot (upd_dev 0 (taken f n (devs s 0)) s) = user_slot s"
proof -
  have dis: "distinct (free_fp_list (devs s 0))" using vm_invD(2) [OF assms(1)] by (simp add: devices_ok_def)
  have out: "(False, g) \<notin> F" if "g \<in> set (free_fp_list (devs s 0))" for g
    using vm_invD(6) [OF assms(1), of "(False, g)"] that by (auto simp: slot_ok_def dev_of_def)
  show "vm_inv w (F \<union> Pair False ` frames f n) (upd_dev 0 (taken f n (devs s 0)) s)"
    "vbyte w (upd_dev 0 (taken f n (devs s 0)) s) = vbyte w s"
    "user_slot (upd_dev 0 (taken f n (devs s 0)) s) = user_slot s"
    unfolding taken_def using dis assms(2) out by (intro vm_inv_lists [OF assms(1) _ _ _ _ refl]; auto)+
qed

text \<open>Writing an entry of the kernel half is invisible to the processes.\<close>

lemma kernel_entry_inv:
  assumes "vm_inv w F s" "is_kernel_address (push_bit 12 p)" "pte_set_entry s c p v = (r, s')"
  shows "vm_inv w F s'" "vbyte w s' = vbyte w s" "user_slot s' = user_slot s" "calm s s'" "devs s' = devs s"
proof -
  note inv = vm_invD(1-3) [OF assms(1)] and pe = pte_set_entry_props [OF vm_invD(1) [OF assms(1)] assms(3)]
  show d: "devs s' = devs s" by (rule forget_ptD(2) [OF pe(2)])
  show "calm s s'" by (rule calm_pte_set_entry [OF inv(1) assms(3)])
  have "user_slot s' x q = user_slot s x q" for x q
  proof (cases "user_page q")
    case True
    then have "push_bit 12 q \<noteq> push_bit 12 p" using assms(2) by (auto simp: user_page_def)
    then have "pte_get_entry s' x q = pte_get_entry s x q" using pe(4,5) [of x q] pe(3) by (cases "r = 0") auto
    then show ?thesis by (simp add: user_slot_def)
  qed (simp add: user_slot_def)
  then show us: "user_slot s' = user_slot s" by (intro ext)
  show "vm_inv w F s'"
    by (rule vm_inv_cong [OF assms(1) pe(1) _ _ _ us])
       (use inv callers_ok_forget [OF pe(2)] in \<open>simp_all add: devices_ok_def slot_ok_def d\<close>)
  show "vbyte w s' = vbyte w s" by (simp add: vbyte_def us slot_byte_def d fun_eq_iff)
qed

lemma kernel_map_page_entry:
  assumes "pt_wf s" "is_kernel_address (push_bit 12 p)" "caller_mm s c \<noteq> None"
  shows "kernel_map_page s c (push_bit 12 p) fpn = pte_set_entry s c p (pte_of_fpn fpn)"
proof -
  obtain l s1 where w: "walk_pte s c (push_bit 12 p) True = (l, s1)" by (cases "walk_pte s c (push_bit 12 p) True")
  note wp = walk_pte_props(4) [OF assms(1) w]
  show ?thesis unfolding pte_set_as_entry(1) [OF assms(1), symmetric] pte_set_fpn_def kernel_map_page_def kernel_get_pte_def
    using w wp kernel_walk_agrees [OF assms(2,3), of True]
    by (cases l) (auto simp: kernel_load_store [OF assms(2)] kernel_pte_fpn)
qed

text \<open>The page of the direct mapping that holds a frame.\<close>

definition kpage :: "addr \<Rightarrow> addr" where
  "kpage f = 0xffff800000000 + f"

lemma kpage_addr: "push_bit 12 (kpage f) = kernel_vaddr_from_fpn f"
  by (simp add: kpage_def kernel_vaddr_from_fpn_def KMEM_VADDR_BASE_def PAGING64_PAGESZ_def push_bit_eq_mult algebra_simps)

lemma kernel_addr_uint:
  assumes "uint x < 2 ^ 40"
  shows "uint (KMEM_VADDR_BASE + x) = 0xffff800000000000 + uint x"
    "is_kernel_address (KMEM_VADDR_BASE + x)" "canonical (KMEM_VADDR_BASE + x)"
proof -
  show u: "uint (KMEM_VADDR_BASE + x) = 0xffff800000000000 + uint x"
    using assms uint_add_small [of KMEM_VADDR_BASE x] by (simp add: KMEM_VADDR_BASE_def)
  have "0 \<le> uint x" by simp
  then have "2 ^ 64 - 2 ^ 56 \<le> uint (KMEM_VADDR_BASE + x)" unfolding u by simp
  then have "canonical (KMEM_VADDR_BASE + x) \<and> is_kernel_address (KMEM_VADDR_BASE + x)" by (simp only: canonical_uint(2))
  then show "is_kernel_address (KMEM_VADDR_BASE + x)" "canonical (KMEM_VADDR_BASE + x)" by simp_all
qed

text \<open>
  Mapping a run of frames is the simultaneous update of the entries of its pages.
\<close>

definition run_entries :: "addr \<Rightarrow> nat \<Rightarrow> nat \<Rightarrow> (addr \<times> addr) list" where
  "run_entries f page n = map (\<lambda>j. (kpage (f + of_nat j), pte_of_fpn (f + of_nat j))) [page..<page + n]"

lemma run_frame_uint:
  fixes f :: addr
  assumes "uint f + int n \<le> 2 ^ 28" "j < n"
  shows "uint (f + of_nat j) = uint f + int j" "uint (f + of_nat j) < 2 ^ 28"
proof -
  have "0 \<le> uint f" by simp
  moreover have "uint f + int n \<le> 268435456" using assms(1) by simp
  ultimately have j: "int j < 268435456" "uint f + int j < 268435456" using assms(2) by linarith+
  then have "uint (of_nat j :: addr) = int j" by (intro uint_of_nat_small) auto
  with j uint_add_small [of f "of_nat j"] show "uint (f + of_nat j) = uint f + int j" by simp
  with j show "uint (f + of_nat j) < 2 ^ 28" by simp
qed

lemma kpage_uint:
  assumes "uint f < 2 ^ 28"
  shows "uint (push_bit 12 (kpage f)) = 0xffff800000000000 + 4096 * uint f"
    "is_kernel_address (push_bit 12 (kpage f))" "canonical (push_bit 12 (kpage f))"
proof -
  have e: "push_bit 12 (kpage f) = KMEM_VADDR_BASE + f * 4096"
    by (simp add: kpage_addr kernel_vaddr_from_fpn_def PAGING64_PAGESZ_def)
  have "uint (f * 4096) = uint f * 4096" using assms by (simp add: uint_word_ariths)
  with kernel_addr_uint [of "f * 4096"] assms e
  show "uint (push_bit 12 (kpage f)) = 0xffff800000000000 + 4096 * uint f"
    "is_kernel_address (push_bit 12 (kpage f))" "canonical (push_bit 12 (kpage f))" by simp_all
qed

lemma run_page_inj:
  assumes "uint f + int n \<le> 2 ^ 28" "i < n" "j < n"
    and "push_bit 12 (kpage (f + of_nat i)) = push_bit 12 (kpage (f + of_nat j))"
  shows "i = j"
proof -
  have u: "uint (push_bit 12 (kpage (f + of_nat l))) = 0xffff800000000000 + 4096 * (uint f + int l)" if "l < n" for l
    using kpage_uint(1) [OF run_frame_uint(2) [OF assms(1) that]] run_frame_uint(1) [OF assms(1) that] by simp
  have "0xffff800000000000 + 4096 * (uint f + int i) = 0xffff800000000000 + 4096 * (uint f + int j)"
    using u [OF assms(2)] u [OF assms(3)] assms(4) by metis
  then show ?thesis by simp
qed

lemma run_page_addr:
  assumes "page < 2 ^ 19"
  shows "kernel_vaddr_from_fpn f + addr_of_int (int32 (int page * 4096)) = push_bit 12 (kpage (f + of_nat page))"
proof -
  have "int page < 524288" using assms by simp
  then have "int32 (int page * 4096) = int page * 4096" by (intro int32_id) auto
  then show ?thesis
    by (simp add: kpage_addr kernel_vaddr_from_fpn_def PAGING64_PAGESZ_def addr_of_int_def algebra_simps)
qed

lemma map_contiguous_set_all:
  assumes "pt_wf s" "caller_mm s c \<noteq> None" "uint f + int (page + n) \<le> 2 ^ 28" "page + n \<le> 2 ^ 19"
  shows "map_contiguous s c (kernel_vaddr_from_fpn f) f page n =
    (case set_all (\<lambda>s. pte_set_entry s c) s (run_entries f page n) of (r, s') \<Rightarrow> (r = 0, s'))"
  using assms
proof (induction n arbitrary: s page)
  case (Suc n)
  have a: "is_kernel_address (push_bit 12 (kpage (f + of_nat page)))"
    using run_frame_uint(2) [OF Suc.prems(3), of page] kpage_uint(2) by simp
  obtain r s1 where e: "pte_set_entry s c (kpage (f + of_nat page)) (pte_of_fpn (f + of_nat page)) = (r, s1)"
    by (cases "pte_set_entry s c (kpage (f + of_nat page)) (pte_of_fpn (f + of_nat page))")
  note pe = pte_set_entry_props(1,2) [OF Suc.prems(1) e]
  have k: "kernel_map_page s c (kernel_vaddr_from_fpn f + addr_of_int (int32 (int page * 4096))) (f + of_nat page) = (r, s1)"
    using kernel_map_page_entry [OF Suc.prems(1) a Suc.prems(2)] run_page_addr [of page f] Suc.prems(4) e by simp
  have re: "run_entries f page (Suc n) =
      (kpage (f + of_nat page), pte_of_fpn (f + of_nat page)) # run_entries f (page + 1) n"
    by (simp add: run_entries_def upt_conv_Cons del: upt_Suc)
  have "map_contiguous s1 c (kernel_vaddr_from_fpn f) f (page + 1) n =
      (case set_all (\<lambda>s. pte_set_entry s c) s1 (run_entries f (page + 1) n) of (r, s') \<Rightarrow> (r = 0, s'))"
    using Suc.prems forget_ptD(6) [OF pe(2), of c] pe(1) by (intro Suc.IH) auto
  with k e re show ?case by simp
qed (simp add: run_entries_def)

lemma set_all_kernel_inv:
  assumes "vm_inv w F s" "\<And>p v. (p, v) \<in> set ps \<Longrightarrow> is_kernel_address (push_bit 12 p)"
    "set_all (\<lambda>s. pte_set_entry s c) s ps = (r, s')"
  shows "vm_inv w F s' \<and> vbyte w s' = vbyte w s \<and> user_slot s' = user_slot s \<and> calm s s' \<and> devs s' = devs s"
  using assms
proof (induction ps arbitrary: s)
  case (Cons pv ps)
  obtain p v where [simp]: "pv = (p, v)" by (cases pv)
  obtain r1 s1 where e: "pte_set_entry s c p v = (r1, s1)" by (cases "pte_set_entry s c p v")
  have "is_kernel_address (push_bit 12 p)" by (rule Cons.prems(2) [of p v]) simp
  note k = kernel_entry_inv [OF Cons.prems(1) this e]
  show ?case
  proof (cases "r1 = 0")
    case True
    have "vm_inv w F s' \<and> vbyte w s' = vbyte w s1 \<and> user_slot s' = user_slot s1 \<and> calm s1 s' \<and> devs s' = devs s1"
      using Cons.prems(2,3) e True by (intro Cons.IH [OF k(1)]) auto
    with k calm_trans [OF k(4)] show ?thesis by auto
  qed (use Cons.prems(3) e k in auto)
qed auto

lemma map_contiguous_ok:
  assumes inv: "vm_inv w F s" and mm: "caller_mm s c \<noteq> None" and host: "host_ok (sy_host s)"
    and small: "uint f + int n \<le> 2 ^ 28" "n \<le> 2 ^ 19"
  obtains s' where "map_contiguous s c (kernel_vaddr_from_fpn f) f 0 n = (True, s')"
    "vm_inv w F s'" "vbyte w s' = vbyte w s" "user_slot s' = user_slot s" "calm s s'" "devs s' = devs s"
    "\<And>j. j < n \<Longrightarrow> pte_get_entry s' c (kpage (f + of_nat j)) = pte_of_fpn (f + of_nat j)"
    "\<And>q. push_bit 12 q \<notin> (push_bit 12 \<circ> kpage) ` frames f (int n) \<Longrightarrow> pte_get_entry s' c q = pte_get_entry s c q"
proof -
  let ?ps = "run_entries f 0 n"
  let ?page = "\<lambda>j. push_bit 12 (kpage (f + of_nat j))"
  obtain r s' where e: "set_all (\<lambda>s. pte_set_entry s c) s ?ps = (r, s')"
    by (cases "set_all (\<lambda>s. pte_set_entry s c) s ?ps")
  have j: "is_kernel_address (?page j)" "canonical (?page j)" if "j < n" for j
    using kpage_uint(2,3) [OF run_frame_uint(2) [OF small(1) that]] by simp_all
  note wf = vm_invD(1) [OF inv]
  have "fst (set_all (\<lambda>s. pte_set_entry s c) s ?ps) = 0 \<and> host_ok (sy_host (snd (set_all (\<lambda>s. pte_set_entry s c) s ?ps)))"
    by (rule pt.set_all_total) (use wf mm host j(2) in \<open>auto simp: run_entries_def\<close>)
  then have r: "r = 0" using e by simp
  have "inj_on ?page {0..<n}" using run_page_inj [OF small(1)] by (intro inj_onI) auto
  then have dis: "distinct (map (push_bit 12 \<circ> fst) ?ps)" by (simp add: run_entries_def distinct_map comp_def)
  have get: "pte_get_entry s' c q =
      (case find (\<lambda>(p, v). push_bit 12 p = push_bit 12 q) ?ps of None \<Rightarrow> pte_get_entry s c q | Some (p, v) \<Rightarrow> v)" for q
    using pt.get_set_all [of s c ?ps q] wf mm dis e r by simp
  have k: "vm_inv w F s' \<and> vbyte w s' = vbyte w s \<and> user_slot s' = user_slot s \<and> calm s s' \<and> devs s' = devs s"
    by (rule set_all_kernel_inv [OF inv _ e]) (use j(1) in \<open>auto simp: run_entries_def\<close>)
  show thesis
  proof (rule that)
    show "map_contiguous s c (kernel_vaddr_from_fpn f) f 0 n = (True, s')"
      using map_contiguous_set_all [OF wf mm, of f 0 n] small e r by simp
    show "pte_get_entry s' c (kpage (f + of_nat i)) = pte_of_fpn (f + of_nat i)" if "i < n" for i
    proof -
      have "find (\<lambda>(p, v). push_bit 12 p = ?page i) ?ps \<noteq> None"
        using that by (auto simp: find_None_iff run_entries_def)
      then obtain p v where f: "find (\<lambda>(p, v). push_bit 12 p = ?page i) ?ps = Some (p, v)" by auto
      then obtain l where l: "l < n" "p = kpage (f + of_nat l)" "v = pte_of_fpn (f + of_nat l)" "push_bit 12 p = ?page i"
        by (auto simp: find_Some_iff run_entries_def)
      then have "l = i" using \<open>inj_on ?page {0..<n}\<close> that by (auto simp: inj_on_def)
      with f l get show ?thesis by simp
    qed
    show "pte_get_entry s' c q = pte_get_entry s c q" if "push_bit 12 q \<notin> (push_bit 12 \<circ> kpage) ` frames f (int n)" for q
    proof -
      have "find (\<lambda>(p, v). push_bit 12 p = push_bit 12 q) ?ps = None"
        using that by (force simp: find_None_iff run_entries_def frames_def)
      with get show ?thesis by simp
    qed
  qed (use k in auto)
qed

section \<open>Kernel addresses\<close>

lemma page_base_kernel:
  assumes "is_kernel_address a" "canonical a"
  shows "is_kernel_address (push_bit 12 (drop_bit 12 a))" "canonical (push_bit 12 (drop_bit 12 a))"
    "dir_path (push_bit 12 (drop_bit 12 a)) = dir_path a" "pt_index (push_bit 12 (drop_bit 12 a)) = pt_index a"
proof -
  let ?b = "push_bit 12 (drop_bit 12 a)"
  have pg: "drop_bit 12 ?b = drop_bit 12 a" by (rule bit_eqI) (auto simp: bit_drop_bit_eq bit_push_bit_iff dest: bit_imp_le_length)
  show "is_kernel_address ?b" using is_kernel_same_page [OF pg] assms(1) by simp
  show c: "canonical ?b" using assms(2) by (auto simp: canonical_bits bit_push_bit_iff bit_drop_bit_eq)
  show "dir_path ?b = dir_path a" "pt_index ?b = pt_index a" using path_eq_iff [OF c assms(2)] pg by auto
qed

text \<open>Translation reads the entry of the page.\<close>

lemma kernel_translate_entry:
  assumes "pt_wf s" "is_kernel_address a" "canonical a" "caller_mm s c \<noteq> None"
  shows "kernel_translate_vaddr s c a =
    (let pte = pte_get_entry s c (drop_bit 12 a) in
     if PAGING64_PAGE_PRESENT pte then Some (cell (PAGING64_PTE_FPN pte) (a AND PAGING64_ADDR_OFFST_MASK)) else None)"
proof -
  let ?b = "push_bit 12 (drop_bit 12 a)"
  note b = page_base_kernel [OF assms(2,3)]
  obtain l s' where w: "walk_pte s c a False = (l, s')" by (cases "walk_pte s c a False")
  note wp = walk_pte_props [OF assms(1) w]
  have root: "root_of s c ?b = root_of s c a" using b(1) assms(2) by (simp add: root_of_def)
  have "walk_pte s c ?b False = (map_option (\<lambda>_. (c, ?b)) l, snd (walk_pte s c ?b False))"
    using w b assms(3) root by (auto simp: walk_pte_def canonical_def ensure_root_id split: option.splits prod.splits if_splits)
  moreover have "snd (walk_pte s c ?b False) = s"
    using walk_pte_props(5) [OF assms(1), of c ?b False] by (cases "walk_pte s c ?b False") auto
  moreover have "pte_load s (c, ?b) = kernel_load s c a"
    using kernel_load_store(1) [OF assms(2)] root b(3,4) by (simp add: pte_load_def)
  ultimately have pte: "pte_get_entry s c (drop_bit 12 a) = (if l = None then 0 else the (kernel_load s c a))"
    by (auto simp: pte_get_entry_def split: option.splits)
  have "fst (kernel_walk_pte s c a False) = (l \<noteq> None)" using kernel_walk_agrees [OF assms(2,4), of False] w by simp
  then show ?thesis unfolding kernel_translate_vaddr_def pte by (cases l) (simp_all add: Let_def cell_def)
qed

lemma kernel_page_split:
  assumes "uint x < 2 ^ 40"
  shows "push_bit 12 (drop_bit 12 (KMEM_VADDR_BASE + x)) = push_bit 12 (kpage (drop_bit 12 x))"
    "(KMEM_VADDR_BASE + x) AND PAGING64_ADDR_OFFST_MASK = x AND PAGING64_ADDR_OFFST_MASK"
    "cell (drop_bit 12 x) (x AND PAGING64_ADDR_OFFST_MASK) = x"
proof -
  have "uint (take_bit 12 (KMEM_VADDR_BASE + x)) = (0xffff800000000000 + uint x) mod 4096"
    using kernel_addr_uint(1) [OF assms] by (simp add: take_bit_eq_mod uint_mod_distrib)
  also have "\<dots> = uint (take_bit 12 x)" by (simp add: take_bit_eq_mod uint_mod_distrib mod_add_eq [symmetric])
  finally show o: "(KMEM_VADDR_BASE + x) AND PAGING64_ADDR_OFFST_MASK = x AND PAGING64_ADDR_OFFST_MASK"
    by (simp only: offset_field word_uint_eq_iff)
  show c: "cell (drop_bit 12 x) (x AND PAGING64_ADDR_OFFST_MASK) = x"
    using bits_ident [of 12 x] by (simp add: cell_def PAGING64_PAGESZ_def offset_field push_bit_eq_mult)
  have "push_bit 12 (drop_bit 12 (KMEM_VADDR_BASE + x)) = KMEM_VADDR_BASE + x - take_bit 12 x"
    using bits_ident [of 12 "KMEM_VADDR_BASE + x"] o by (simp add: offset_field algebra_simps)
  also have "\<dots> = push_bit 12 (kpage (drop_bit 12 x))"
    using bits_ident [of 12 x]
    unfolding kpage_addr by (simp add: kernel_vaddr_from_fpn_def PAGING64_PAGESZ_def push_bit_eq_mult algebra_simps)
  finally show "push_bit 12 (drop_bit 12 (KMEM_VADDR_BASE + x)) = push_bit 12 (kpage (drop_bit 12 x))" .
qed

text \<open>Where the entries of the direct mapping are in place, translation subtracts the base.\<close>

lemma direct_map_translate:
  assumes "pt_wf s" "caller_mm s c \<noteq> None" "uint x < 2 ^ 40"
    "pte_get_entry s c (kpage (drop_bit 12 x)) = pte_of_fpn (drop_bit 12 x)"
  shows "kernel_translate_vaddr s c (KMEM_VADDR_BASE + x) = Some x"
proof -
  note k = kernel_addr_uint [OF assms(3)] and sp = kernel_page_split [OF assms(3)]
  have "pte_get_entry s c (drop_bit 12 (KMEM_VADDR_BASE + x)) = pte_of_fpn (drop_bit 12 x)"
    using assms(4) sp(1) by (simp add: pte_get_entry_def)
  moreover have "take_bit 40 (drop_bit 12 x) = drop_bit 12 x"
  proof -
    have "uint (drop_bit 12 x) < 2 ^ 40" 
      using assms(3) zdiv_mono2 [of "uint x" 1 4096] by (simp add: uint_div_distrib drop_bit_eq_div)
    then show ?thesis by (intro take_bit_id) (simp_all add: word_less_def)
  qed
  ultimately show ?thesis
    using kernel_translate_entry [OF assms(1) k(2,3) assms(2)] sp(2,3) by (simp add: pte_of_fpn_fpn)
qed

section \<open>Allocating kernel regions\<close>

lemma pages_int:
  assumes "uint sz \<le> 2 ^ 31"
  shows "int_of_addr (PAGING64_PAGE_ALIGNSZ sz div PAGING64_PAGESZ) = pages_of sz"
proof -
  note al = align_pages [OF assms]
  have "uint (PAGING64_PAGE_ALIGNSZ sz div PAGING64_PAGESZ) = pages_of sz" using al(2) by (simp add: uint_div_distrib PAGING64_PAGESZ_def)
  then have "unat (PAGING64_PAGE_ALIGNSZ sz div PAGING64_PAGESZ) = nat (pages_of sz)" by (simp add: unat_eq_nat_uint)
  then show ?thesis using int_of_addr_small [of "PAGING64_PAGE_ALIGNSZ sz div PAGING64_PAGESZ"] al(3,4) by simp
qed

lemma free_run_small:
  assumes "vm_inv w F s" "frames f n \<subseteq> set (free_fp_list (devs s 0))" "0 < n" "n \<le> 524288"
  shows "uint f + n \<le> 524288"
proof -
  have small: "uint g < 524288" if "g \<in> frames f n" for g
  proof -
    have "frame_ok (devs s 0) g" using that assms(2) vm_invD(2) [OF assms(1)] by (auto simp: devices_ok_def)
    moreover have "storage_len (devs s 0) < 2 ^ 31"
      using vm_invD(5) [OF assms(1), of False] by (auto simp: dev_of_def ram_like_def memphy_wf_def)
    ultimately have "unat g < 524288" by (simp add: frame_ok_def)
    then have "int (unat g) < int 524288" by (simp only: of_nat_less_iff)
    then show ?thesis by (simp only: uint_nat of_nat_numeral)
  qed
  have mem: "f + of_nat j \<in> frames f n" if "j < nat n" for j using that by (simp add: frames_def)
  from mem [of 0] mem [of "nat (n - 1)"] have f: "f \<in> frames f n" and l: "f + of_nat (nat (n - 1)) \<in> frames f n"
    using assms(3) by simp_all
  have "nat (n - 1) < 2 ^ 64" using assms(4) by simp
  then have u: "uint (of_nat (nat (n - 1)) :: addr) = n - 1" using assms(3) by (simp only: uint_of_nat_small)
  have "uint (f + of_nat (nat (n - 1))) = uint f + (n - 1)"
    using uint_add_small [of f "of_nat (nat (n - 1))"] small [OF f] assms(4) u by simp
  with small [OF l] show ?thesis by simp
qed

text \<open>
  A region of the kernel is a run of free frames, mapped at the addresses of the direct mapping; it
  is found whenever there is one.
\<close>

lemma kernel_alloc_region_ok:
  assumes inv: "vm_inv w F s" "caller_mm s c \<noteq> None" "host_ok (sy_host s)" and sz: "0 < uint sz" "uint sz \<le> 2 ^ 31"
  shows "(\<exists>f s'. kernel_alloc_contiguous_region s c sz = (Some (kernel_vaddr_from_fpn f, PAGING64_PAGE_ALIGNSZ sz), s') \<and>
      frames f (pages_of sz) \<subseteq> set (free_fp_list (devs s 0)) \<and> uint f + pages_of sz \<le> 524288 \<and>
      vm_inv w (F \<union> Pair False ` frames f (pages_of sz)) s' \<and> vbyte w s' = vbyte w s \<and> user_slot s' = user_slot s \<and> calm s s' \<and>
      devs s' = devs (upd_dev 0 (taken f (pages_of sz) (devs s 0)) s) \<and>
      (\<forall>g \<in> frames f (pages_of sz). pte_get_entry s' c (kpage g) = pte_of_fpn g) \<and>
      (\<forall>q. push_bit 12 q \<notin> (push_bit 12 \<circ> kpage) ` frames f (pages_of sz) \<longrightarrow> pte_get_entry s' c q = pte_get_entry s c q)) \<or>
    (\<exists>h. kernel_alloc_contiguous_region s c sz = (None, s\<lparr>sy_host := h\<rparr>) \<and> host_ok h \<and>
      \<not> (\<exists>f. frames f (pages_of sz) \<subseteq> set (free_fp_list (devs s 0))))"
proof -
  let ?n = "pages_of sz" and ?free = "set (free_fp_list (devs s 0))"
  note al = align_pages [OF sz(2)]
  have n: "0 < ?n" "?n \<le> 524288" using al(4,6) sz(1) by auto
  have k: "caller_krnl s c \<noteq> None" using inv(2) caller_mm_krnl by fastforce
  note req = pages_int [OF sz(2)]
  have mram: "caller_mram s c = Some 0" using inv(2) vm_invD(10) [OF inv(1)] by auto
  have dist: "distinct (free_fp_list (devs s 0))" using vm_invD(2) [OF inv(1)] by (simp add: devices_ok_def)
  have small: "uint g + ?n < 2 ^ 64" if "g \<in> ?free" for g
    using free_run_small [OF inv(1), of g 1] that n(2) by (simp add: frames_def lessThan_Suc)
  have run: "kernel_alloc_contiguous_region s c sz = (case kernel_allocate_contiguous_frames s c ?n of
      (None, s1) \<Rightarrow> (None, s1)
    | (Some f, s1) \<Rightarrow> (case map_contiguous s1 c (kernel_vaddr_from_fpn f) f 0 (nat ?n) of
        (False, s2) \<Rightarrow> (None, kernel_release_contiguous_region s2 c (kernel_vaddr_from_fpn f) ?n)
      | (True, s2) \<Rightarrow> (Some (kernel_vaddr_from_fpn f, PAGING64_PAGE_ALIGNSZ sz), s2)))"
    unfolding kernel_alloc_contiguous_region_def Let_def req using k sz(1) by auto
  obtain h where h: "host_ok h"
    "(\<exists>f. kernel_allocate_contiguous_frames s c ?n = (Some f, upd_dev 0 (taken f ?n (devs s 0)) (s\<lparr>sy_host := h\<rparr>)) \<and>
        frames f ?n \<subseteq> ?free) \<or>
     kernel_allocate_contiguous_frames s c ?n = (None, s\<lparr>sy_host := h\<rparr>) \<and> \<not> (\<exists>f. frames f ?n \<subseteq> ?free)"
    using contiguous_frames_ok [OF mram dist inv(3) n(1) small] by blast
  from h(2) show ?thesis
  proof (elim disjE exE conjE)
    fix f assume a: "kernel_allocate_contiguous_frames s c ?n = (Some f, upd_dev 0 (taken f ?n (devs s 0)) (s\<lparr>sy_host := h\<rparr>))"
      and f: "frames f ?n \<subseteq> ?free"
    let ?s0 = "s\<lparr>sy_host := h\<rparr>" let ?s1 = "upd_dev 0 (taken f ?n (devs s 0)) ?s0"
    note sm = free_run_small [OF inv(1) f n]
    have i0: "vm_inv w F ?s0" by (rule vm_inv_host [OF inv(1)])
    have us: "user_slot ?s0 = user_slot s" using vm_invD(1) [OF inv(1)] by (intro user_slot_cong) (simp add: pte_get_entry_host)
    then have v0: "vbyte w ?s0 = vbyte w s" by (simp add: vbyte_def slot_byte_def fun_eq_iff)
    note t = vm_inv_taken [OF i0, of f ?n, simplified, OF f]
    have c1: "calm s ?s1" using h(1) by (simp add: calm_def)
    have e1: "pte_get_entry ?s1 = pte_get_entry s"
      using vm_invD(1) [OF inv(1)] by (simp add: pte_get_entry_upd_dev pte_get_entry_host)
    obtain s' where m: "map_contiguous ?s1 c (kernel_vaddr_from_fpn f) f 0 (nat ?n) = (True, s')"
      "vm_inv w (F \<union> Pair False ` frames f ?n) s'" "vbyte w s' = vbyte w ?s1" "calm ?s1 s'" "devs s' = devs ?s1"
      "user_slot s' = user_slot ?s1"
      "\<And>j. j < nat ?n \<Longrightarrow> pte_get_entry s' c (kpage (f + of_nat j)) = pte_of_fpn (f + of_nat j)"
      "\<And>q. push_bit 12 q \<notin> (push_bit 12 \<circ> kpage) ` frames f (int (nat ?n)) \<Longrightarrow> pte_get_entry s' c q = pte_get_entry ?s1 c q"
      by (rule map_contiguous_ok [OF t(1), of c f "nat ?n"]) (use inv(2) h(1) sm n in auto)
    show ?thesis
      using run a m f sm v0 t(2,3) us calm_trans [OF c1 m(4)] n(1) e1
      by (intro disjI1 exI [of _ f] exI [of _ s']) (auto simp: frames_def)
  next
    assume "kernel_allocate_contiguous_frames s c ?n = (None, s\<lparr>sy_host := h\<rparr>)" "\<not> (\<exists>f. frames f ?n \<subseteq> ?free)"
    with run h(1) show ?thesis by (intro disjI2) auto
  qed
qed

section \<open>Kernel memory as an array\<close>

text \<open>
  The frames \<open>K\<close> of the kernel: no process has them, and each is mapped at its address of the direct
  mapping. \<open>kbyte\<close> is the byte behind a kernel address.
\<close>

definition kernel_ok :: "nat \<Rightarrow> addr set \<Rightarrow> sys \<Rightarrow> pptr \<Rightarrow> bool" where
  "kernel_ok w K s c \<longleftrightarrow> vm_inv w (Pair False ` K) s \<and> caller_mm s c \<noteq> None \<and>
     (\<forall>f \<in> K. pte_get_entry s c (kpage f) = pte_of_fpn f)"

definition kbyte :: "addr set \<Rightarrow> sys \<Rightarrow> addr \<Rightarrow> byte option" where
  "kbyte K s a = (if drop_bit 12 (a - KMEM_VADDR_BASE) \<in> K then Some (storage (devs s 0) (a - KMEM_VADDR_BASE)) else None)"

text \<open>A region of the symbol table that lies in frames of the kernel.\<close>

definition krg :: "addr set \<Rightarrow> vm_rg_struct \<Rightarrow> bool" where
  "krg K r \<longleftrightarrow> rg_start r < rg_end r \<and> (\<forall>a \<in> sym_bytes r. drop_bit 12 (a - KMEM_VADDR_BASE) \<in> K)"

lemma kernel_okD:
  assumes "kernel_ok w K s c"
  shows "vm_inv w (Pair False ` K) s" "caller_mm s c \<noteq> None" "caller_mram s c = Some 0" "ram_like (devs s 0)"
    "\<And>f. f \<in> K \<Longrightarrow> frame_ok (devs s 0) f"
proof -
  show i: "vm_inv w (Pair False ` K) s" and m: "caller_mm s c \<noteq> None" using assms by (auto simp: kernel_ok_def)
  show "caller_mram s c = Some 0" using vm_invD(10) [OF i] m by auto
  show "ram_like (devs s 0)" using vm_invD(5) [OF i, of False] by (simp add: dev_of_def)
  show "frame_ok (devs s 0) f" if "f \<in> K" for f using vm_invD(6) [OF i, of "(False, f)"] that by (auto simp: slot_ok_def dev_of_def)
qed

lemma kernel_address:
  assumes "kernel_ok w K s c" "drop_bit 12 x \<in> K"
  shows "uint x < 2 ^ 31" "unat x < storage_len (devs s 0)" "kernel_translate_vaddr s c (KMEM_VADDR_BASE + x) = Some x"
    "cell (drop_bit 12 x) (x AND PAGING64_ADDR_OFFST_MASK) = x"
proof -
  note k = kernel_okD [OF assms(1)]
  show cx: "cell (drop_bit 12 x) (x AND PAGING64_ADDR_OFFST_MASK) = x"
    using bits_ident [of 12 x] by (simp add: cell_def PAGING64_PAGESZ_def offset_field push_bit_eq_mult)
  show len: "unat x < storage_len (devs s 0)"
    using unat_cell(2) [OF k(4) k(5) [OF assms(2)] offset_less [of x]] by (simp add: cx)
  moreover have "storage_len (devs s 0) < 2 ^ 31" using k(4) by (auto simp: ram_like_def memphy_wf_def)
  ultimately have "unat x < nat (2 ^ 31)" by simp
  then show u: "uint x < 2 ^ 31" by (simp only: unat_less_nat_iff)
  show "kernel_translate_vaddr s c (KMEM_VADDR_BASE + x) = Some x"
    by (rule direct_map_translate) (use vm_invD(1) [OF k(1)] k(2) u assms in \<open>auto simp: kernel_ok_def\<close>)
qed

text \<open>Writing to a frame of the kernel.\<close>

lemma held_write:
  assumes "vm_inv w F s" "(False, drop_bit 12 x) \<in> F"
    and s'_def: "s' = upd_dev 0 ((devs s 0)\<lparr>storage := (storage (devs s 0))(x := v)\<rparr>) s"
  shows "vm_inv w F s'" "vbyte w s' = vbyte w s" "pte_get_entry s' = pte_get_entry s" "calm s s'" "user_slot s' = user_slot s"
proof -
  note inv = vm_invD [OF assms(1)]
  show e: "pte_get_entry s' = pte_get_entry s" using inv(1) by (simp add: s'_def pte_get_entry_upd_dev)
  show us: "user_slot s' = user_slot s" by (rule user_slot_cong [OF e])
  show "calm s s'" by (simp add: s'_def)
  have "devices_ok w s'" "callers_ok w s'" "pt_wf s'" "\<And>sl. slot_ok w s' sl = slot_ok w s sl"
    using inv(1,2,3) by (auto simp: s'_def devices_ok_def slot_ok_def)
  then show "vm_inv w F s'" using vm_inv_cong [OF assms(1)] us by blast
  have d0: "dev_of w False = 0" by (simp add: dev_of_def)
  have ok: "frame_ok (devs s 0) (drop_bit 12 x)" and rl: "ram_like (devs s 0)"
    using inv(6) [OF assms(2)] inv(5) [of False] by (auto simp: slot_ok_def d0)
  have cx: "x = cell (drop_bit 12 x) (x AND PAGING64_ADDR_OFFST_MASK)"
    using bits_ident [of 12 x] by (simp add: cell_def PAGING64_PAGESZ_def offset_field push_bit_eq_mult)
  have "vbyte w s' c a = vbyte w s c a" for c a
  proof (cases "user_slot s c (drop_bit 12 a)")
    case (Some sl)
    have "storage (devs s' (dev_of w (fst sl))) (cell (snd sl) (a AND PAGING64_ADDR_OFFST_MASK)) =
        storage (devs s (dev_of w (fst sl))) (cell (snd sl) (a AND PAGING64_ADDR_OFFST_MASK))"
    proof (cases "fst sl")
      case True
      then show ?thesis using inv(4) by (simp add: s'_def dev_of_def)
    next
      case False
      have "frame_ok (devs s 0) (snd sl)" using inv(7) [OF Some] False by (simp add: slot_ok_def d0)
      moreover have "snd sl \<noteq> drop_bit 12 x" using inv(8) [OF Some] assms(2) False by (cases sl) auto
      ultimately have "cell (snd sl) (a AND PAGING64_ADDR_OFFST_MASK) \<noteq> x"
        using cell_eq_iff [OF rl _ ok offset_less offset_less, of "snd sl" a x] cx by metis
      then show ?thesis using False by (simp add: s'_def d0)
    qed
    then show ?thesis by (simp add: vbyte_def us Some slot_byte_def)
  qed (simp add: vbyte_def us)
  then show "vbyte w s' = vbyte w s" by (simp add: fun_eq_iff)
qed

lemma symrg_calm: "calm s s' \<Longrightarrow> symrg s' c i = symrg s c i"
proof -
  assume "calm s s'"
  from calmD(5) [OF this, of c] have "map_option (symrgtbl \<circ> mm_core) (caller_mm s' c) = map_option (symrgtbl \<circ> mm_core) (caller_mm s c)"
    by (metis option.map_comp)
  then show ?thesis by (cases "caller_mm s' c"; cases "caller_mm s c") (auto simp: symrg_def mm_core_def)
qed

lemma last_offset:
  fixes d :: addr
  assumes "d \<noteq> 0"
  shows "1 \<le> d" "d - 1 < x \<longleftrightarrow> \<not> x < d"
proof -
  have "uint d \<noteq> 0" "0 \<le> uint d" using assms by (simp_all add: uint_0_iff)
  then have "1 \<le> uint d" by linarith
  moreover from this have "uint (d - 1) = uint d - 1" by (simp add: uint_sub_if')
  ultimately have "uint (d - 1) = uint d - 1" "1 \<le> uint d" by simp_all
  then show "1 \<le> d" "d - 1 < x \<longleftrightarrow> \<not> x < d" by (auto simp: word_le_def word_less_def)
qed

lemma kernel_region_offset:
  assumes "symrg s c i = Some r" "i < PAGING_MAX_SYMTBL_SZ" "rg_start r < rg_end r"
  shows "kernel_region_valid s c (int i) 1 off = (if off < rg_end r - rg_start r then Some r else None)"
proof -
  obtain m where m: "caller_mm s c = Some m" "i < length (symrgtbl m)" "symrgtbl m ! i = r"
    using assms(1) by (auto simp: symrg_def split: option.splits if_splits)
  have "rg_end r - rg_start r \<noteq> 0" using assms(3) by auto
  note lo = last_offset [OF this]
  have "\<not> rg_end r \<le> rg_start r" "\<not> rg_end r - rg_start r < 1" using assms(3) lo(1) by simp_all
  then show ?thesis using m assms(2) lo(2) [of off]
    by (simp add: kernel_region_valid_def get_symrg_byid_def Let_def)
qed

lemma frames_page:
  assumes "uint f + n \<le> 524288" "0 < n" "uint y < 4096 * n"
  shows "drop_bit 12 (f * 4096 + y) \<in> frames f n" "uint (f * 4096 + y) = 4096 * uint f + uint y"
proof -
  have "0 \<le> uint f" "0 \<le> uint y" by simp_all
  then have b: "uint f < 524288" "uint y < 2147483648" using assms by linarith+
  then have "uint (f * 4096) = 4096 * uint f" by (simp add: uint_word_ariths)
  then show u: "uint (f * 4096 + y) = 4096 * uint f + uint y" using b by (subst uint_add_small) simp_all
  define j where "j = uint y div 4096"
  have j: "0 \<le> j" "j < n" using assms(3) \<open>0 \<le> uint y\<close> by (auto simp: j_def pos_imp_zdiv_nonneg_iff)
  have "uint (drop_bit 12 (f * 4096 + y)) = uint f + j"
    by (simp add: drop_bit_eq_div uint_div_distrib u j_def)
  also have "\<dots> = uint (f + of_nat (nat j))"
    using run_frame_uint(1) [of f "nat n" "nat j"] assms(1,2) j by simp
  finally have "drop_bit 12 (f * 4096 + y) = f + of_nat (nat j)" by (simp only: word_uint_eq_iff)
  then show "drop_bit 12 (f * 4096 + y) \<in> frames f n" unfolding frames_def by (rule image_eqI) (use j in simp)
qed

text \<open>The bytes of a new region lie in its frames.\<close>

lemma new_region_bytes:
  assumes "uint f + pages_of sz \<le> 524288" "0 < uint sz" "uint sz \<le> 2 ^ 31"
  shows "krg (frames f (pages_of sz)) \<lparr>rg_start = kernel_vaddr_from_fpn f, rg_end = kernel_vaddr_from_fpn f + sz, vmaid = 0\<rparr>"
proof -
  note al = align_pages [OF assms(3)]
  let ?a = "kernel_vaddr_from_fpn f"
  have n: "0 < pages_of sz" using al(6) assms(2) by simp
  have a: "?a = KMEM_VADDR_BASE + f * 4096" by (simp add: kernel_vaddr_from_fpn_def PAGING64_PAGESZ_def)
  have base: "uint ?a = 0xffff800000000000 + 4096 * uint f"
    using kpage_uint(1) [of f] assms(1) n by (simp add: kpage_addr)
  have f: "0 \<le> uint f" "uint f < 524288" using assms(1) n by simp_all
  have e: "uint (?a + sz) = uint ?a + uint sz" using base f assms(3) by (intro uint_add_small) simp
  have "drop_bit 12 (b - KMEM_VADDR_BASE) \<in> frames f (pages_of sz)" if "?a \<le> b" "b < ?a + sz" for b
  proof -
    have u: "uint (b - ?a) = uint b - uint ?a" using that(1) by (simp add: uint_sub_if' word_le_def)
    have "uint b < uint ?a + uint sz" using that(2) e by (simp add: word_less_def)
    then have "uint (b - ?a) < 4096 * pages_of sz" using u al(5) by simp
    from frames_page(1) [OF assms(1) n this] show ?thesis by (simp add: a algebra_simps)
  qed
  then show ?thesis using e assms(2) by (auto simp: krg_def sym_bytes_def word_less_def)
qed

lemma kpage_inj:
  assumes "ram_like mp" "frame_ok mp f" "frame_ok mp g" "push_bit 12 (kpage f) = push_bit 12 (kpage g)"
  shows "f = g"
proof -
  have u: "uint x < 2 ^ 28" if "frame_ok mp x" for x
  proof -
    have "unat x < nat (2 ^ 28)" using that assms(1) by (auto simp: frame_ok_def ram_like_def memphy_wf_def)
    then show ?thesis by (simp only: unat_less_nat_iff)
  qed
  have "uint f = uint g" using assms(4) kpage_uint(1) [OF u [OF assms(2)]] kpage_uint(1) [OF u [OF assms(3)]] by simp
  then show ?thesis by (simp only: word_uint_eq_iff)
qed

text \<open>The frames of the kernel after an allocation.\<close>

lemma kernel_ok_more:
  assumes "kernel_ok w K s c" "N \<subseteq> set (free_fp_list (devs s 0))"
    and "vm_inv w (Pair False ` K \<union> Pair False ` N) s'" "calm s s'"
    and "\<forall>g \<in> N. pte_get_entry s' c (kpage g) = pte_of_fpn g"
    and "\<forall>q. push_bit 12 q \<notin> (push_bit 12 \<circ> kpage) ` N \<longrightarrow> pte_get_entry s' c q = pte_get_entry s c q"
  shows "kernel_ok w (K \<union> N) s' c" "N \<inter> K = {}"
proof -
  note k = kernel_okD [OF assms(1)]
  have out: "g \<notin> N" if "g \<in> K" for g
    using vm_invD(6) [OF k(1), of "(False, g)"] that assms(2) by (auto simp: slot_ok_def dev_of_def)
  then show "N \<inter> K = {}" by blast
  have nok: "frame_ok (devs s 0) g" if "g \<in> N" for g using that assms(2) vm_invD(2) [OF k(1)] by (auto simp: devices_ok_def)
  have "pte_get_entry s' c (kpage g) = pte_of_fpn g" if g: "g \<in> K" for g
  proof -
    have "push_bit 12 (kpage g) \<noteq> push_bit 12 (kpage h)" if "h \<in> N" for h
      using kpage_inj [OF k(4) k(5) [OF g] nok [OF that]] out [OF g] that by blast
    with assms(1,6) g show ?thesis by (auto simp: kernel_ok_def image_iff)
  qed
  moreover have "caller_mm s' c \<noteq> None" using calmD(6) [OF assms(4)] k(2) by simp
  ultimately show "kernel_ok w (K \<union> N) s' c" using assms(3,5) by (auto simp: kernel_ok_def image_Un)
qed

lemma kernel_ok_upd_mm:
  assumes "kernel_ok w K s c" "\<And>m. mm_pgd (f m) = mm_pgd m \<and> fifo_pgn (f m) = fifo_pgn m"
  shows "kernel_ok w K (upd_mm c f s) c" "vbyte w (upd_mm c f s) = vbyte w s" "kbyte L (upd_mm c f s) = kbyte L s"
    "user_slot (upd_mm c f s) = user_slot s"
proof -
  note k = kernel_okD [OF assms(1)]
  note u = vm_inv_upd_mm [OF k(1), of c f, OF assms(2)] and pt = pt_upd_mm [of s c f, OF conjunct1 [OF assms(2)]]
  have "pte_get_entry (upd_mm c f s) = pte_get_entry s"
    using pt vm_invD(1) [OF k(1)] by (intro ext) (simp add: pte_get_entry_view)
  then show "kernel_ok w K (upd_mm c f s) c" using assms(1) u(1) by (simp add: kernel_ok_def)
  show "vbyte w (upd_mm c f s) = vbyte w s" "user_slot (upd_mm c f s) = user_slot s" by (rule u)+
  show "kbyte L (upd_mm c f s) = kbyte L s" by (simp add: kbyte_def fun_eq_iff)
qed

lemma kernel_ok_host:
  assumes "kernel_ok w K s c"
  shows "kernel_ok w K (s\<lparr>sy_host := h\<rparr>) c" "vbyte w (s\<lparr>sy_host := h\<rparr>) = vbyte w s" "kbyte L (s\<lparr>sy_host := h\<rparr>) = kbyte L s"
proof -
  note k = kernel_okD [OF assms]
  have e: "pte_get_entry (s\<lparr>sy_host := h\<rparr>) = pte_get_entry s" using vm_invD(1) [OF k(1)] by (simp add: pte_get_entry_host)
  show "kernel_ok w K (s\<lparr>sy_host := h\<rparr>) c" using assms vm_inv_host [OF k(1), of h] e by (simp add: kernel_ok_def)
  show "vbyte w (s\<lparr>sy_host := h\<rparr>) = vbyte w s" using user_slot_cong [OF e] by (simp add: vbyte_def slot_byte_def fun_eq_iff)
  show "kbyte L (s\<lparr>sy_host := h\<rparr>) = kbyte L s" by (simp add: kbyte_def fun_eq_iff)
qed

lemma kernel_ok_set_symrg:
  assumes "kernel_ok w K s c"
  shows "kernel_ok w K (set_symrg c i r s) c" "vbyte w (set_symrg c i r s) = vbyte w s" "kbyte L (set_symrg c i r s) a = kbyte L s a"
    "symrg s c i \<noteq> None \<Longrightarrow> symrg (set_symrg c i r s) c j = (if j = i then Some r else symrg s c j)"
    "user_slot (set_symrg c i r s) = user_slot s"
proof -
  note u = kernel_ok_upd_mm [OF assms, of "\<lambda>m. m\<lparr>symrgtbl := (symrgtbl m)[i := r]\<rparr>", simplified, folded set_symrg_def]
  show "kernel_ok w K (set_symrg c i r s) c" "vbyte w (set_symrg c i r s) = vbyte w s" "user_slot (set_symrg c i r s) = user_slot s"
    "kbyte L (set_symrg c i r s) a = kbyte L s a" by (simp_all add: u)
  show "symrg (set_symrg c i r s) c j = (if j = i then Some r else symrg s c j)" if "symrg s c i \<noteq> None"
    using that by (auto simp: symrg_def set_symrg_def split: option.splits if_splits)
qed

lemma heap_inv_set_symrg:
  assumes "heap_inv w F s x" "\<not> user_rg r"
  shows "heap_inv w F (set_symrg c i r s) x"
proof -
  from assms(1) have inv: "vm_inv w F s" by (simp add: heap_inv_def)
  let ?f = "\<lambda>m. m\<lparr>symrgtbl := (symrgtbl m)[i := r]\<rparr>"
  note u = vm_inv_upd_mm [OF inv, of c ?f, simplified, folded set_symrg_def]
  show ?thesis
  proof (cases "x = c")
    case True
    from assms(1) obtain v T where a: "area_ok w s x v T" "symtab_ok v T" by (auto simp: heap_inv_def)
    have "area_ok w (set_symrg c i r s) x v (T[i := r])"
      using a(1) True unfolding area_ok_def u(3) by (auto simp: set_symrg_def)
    moreover have "symtab_ok v (T[i := r])"
    proof (cases "i < length T")
      case True
      show ?thesis by (rule symtab_update [OF a(2) True refl order_refl]) (use assms(2) in auto)
    qed (use a(2) in \<open>simp add: list_update_beyond\<close>)
    ultimately show ?thesis using u(1) by (auto simp: heap_inv_def)
  next
    case False
    show ?thesis by (rule heap_inv_other [OF assms(1) u(1) _ False]) (simp_all add: u(3), simp add: set_symrg_def)
  qed
qed

lemma kernel_region_high:
  assumes "uint f + pages_of sz \<le> 524288" "0 < uint sz" "uint sz \<le> 2 ^ 31"
  shows "\<not> user_rg \<lparr>rg_start = kernel_vaddr_from_fpn f, rg_end = e, vmaid = 0\<rparr>"
proof -
  have "0 < pages_of sz" "0 \<le> uint f" using align_pages(6) [OF assms(3)] assms(2) by simp_all
  with kpage_uint(1) [of f] assms(1) have "0xffff800000000000 \<le> uint (kernel_vaddr_from_fpn f)" by (simp add: kpage_addr)
  then show ?thesis by (auto simp: user_rg_def KMEM_VADDR_BASE_def word_less_def)
qed

lemma kernel_ok_translate:
  assumes "kernel_ok w K s c" "kbyte K s a \<noteq> None"
  shows "kernel_translate_vaddr s c a = Some (a - KMEM_VADDR_BASE)"
  using kernel_address(3) [OF assms(1), of "a - KMEM_VADDR_BASE"] assms(2) by (auto simp: kbyte_def Let_def split: if_splits)

lemma kernel_ok_kept:
  assumes "kernel_ok w K s c" "vm_inv w (Pair False ` K) s'" "calm s s'" "kept w (Pair False ` K) s s'"
  shows "kernel_ok w K s' c" "kbyte K s' a = kbyte K s a"
proof -
  note k = kernel_okD [OF assms(1)]
  have "\<not> user_page (kpage f)" if "f \<in> K" for f
  proof -
    have "unat f < nat (2 ^ 28)" using k(4) k(5) [OF that] by (auto simp: frame_ok_def ram_like_def memphy_wf_def)
    then have "uint f < 2 ^ 28" by (simp only: unat_less_nat_iff)
    from kpage_uint(2) [OF this] show ?thesis by (simp add: user_page_def)
  qed
  with assms(1,2,4) calmD(6) [OF assms(3)] show "kernel_ok w K s' c" by (auto simp: kernel_ok_def kept_def)
  show "kbyte K s' a = kbyte K s a"
  proof (cases "drop_bit 12 (a - KMEM_VADDR_BASE) \<in> K")
    case True
    let ?x = "a - KMEM_VADDR_BASE"
    have "slot_byte w s' (False, drop_bit 12 ?x) (?x AND PAGING64_ADDR_OFFST_MASK) =
        slot_byte w s (False, drop_bit 12 ?x) (?x AND PAGING64_ADDR_OFFST_MASK)"
      using assms(4) True offset_less [of ?x] by (auto simp: kept_def)
    then show ?thesis using True kernel_address(4) [OF assms(1) True] by (simp add: kbyte_def slot_byte_def dev_of_def)
  qed (simp add: kbyte_def)
qed

lemma region_offset:
  fixes a b x :: addr
  assumes "a < b" "x < b - a"
  shows "a \<le> a + x" "a + x < b"
proof -
  have "uint (b - a) = uint b - uint a" using assms(1) by (simp add: uint_sub_if' word_less_def)
  then have x: "uint a + uint x < uint b" using assms(2) by (simp add: word_less_def)
  moreover have "uint b < 2 ^ 64" using unsigned_less [of b] by simp
  ultimately have "uint (a + x) = uint a + uint x" by (intro uint_add_small) simp
  then show "a \<le> a + x" "a + x < b" using x by (simp_all add: word_le_def word_less_def)
qed

lemma kmalloc_ok:
  assumes "kernel_ok w K s c" "host_ok (sy_host s)" "symrg s c i = Some r" "rg_start r = 0" "rg_end r = 0"
    and "i < PAGING_MAX_SYMTBL_SZ" "0 < uint sz" "uint sz \<le> 2 ^ 31"
  shows "if \<exists>f. frames f (pages_of sz) \<subseteq> set (free_fp_list (devs s 0))
    then \<exists>f s' R. kmalloc s c (int i) sz = (Some (kernel_vaddr_from_fpn f), s') \<and>
      R = \<lparr>rg_start = kernel_vaddr_from_fpn f, rg_end = kernel_vaddr_from_fpn f + sz, vmaid = 0\<rparr> \<and>
      frames f (pages_of sz) \<subseteq> set (free_fp_list (devs s 0)) - K \<and> kernel_ok w (K \<union> frames f (pages_of sz)) s' c \<and>
      krg (frames f (pages_of sz)) R \<and> (\<forall>j. symrg s' c j = (if j = i then Some R else symrg s c j)) \<and>
      (\<forall>a. kbyte (K \<union> frames f (pages_of sz)) s' a \<noteq> None \<longrightarrow> kernel_translate_vaddr s' c a = Some (a - KMEM_VADDR_BASE)) \<and>
      vbyte w s' = vbyte w s \<and> user_slot s' = user_slot s \<and> (\<forall>a. kbyte K s' a = kbyte K s a) \<and>
      (\<forall>x. heap_inv w (Pair False ` K) s x \<longrightarrow> heap_inv w (Pair False ` (K \<union> frames f (pages_of sz))) s' x)
    else \<exists>s'. kmalloc s c (int i) sz = (None, s') \<and> kernel_ok w K s' c \<and> vbyte w s' = vbyte w s \<and>
      (\<forall>a. kbyte K s' a = kbyte K s a) \<and> (\<forall>j. symrg s' c j = symrg s c j)"
proof -
  note k = kernel_okD [OF assms(1)]
  obtain m where m: "caller_mm s c = Some m" "i < length (symrgtbl m)" "symrgtbl m ! i = r"
    using assms(3) by (auto simp: symrg_def split: option.splits if_splits)
  let ?n = "pages_of sz"
  have run: "kmalloc s c (int i) sz = (case kernel_alloc_contiguous_region s c sz of
      (None, s1) \<Rightarrow> (None, s1)
    | (Some (a, _), s1) \<Rightarrow> (Some a, set_symrg c i \<lparr>rg_start = a, rg_end = a + sz, vmaid = 0\<rparr> s1))"
    unfolding kmalloc_def Let_def nat_int using m assms(4-7) by auto
  from kernel_alloc_region_ok [OF k(1,2) assms(2,7,8)]
  show ?thesis
  proof (elim disjE exE conjE)
    fix f s1 assume A: "kernel_alloc_contiguous_region s c sz = (Some (kernel_vaddr_from_fpn f, PAGING64_PAGE_ALIGNSZ sz), s1)"
      "frames f ?n \<subseteq> set (free_fp_list (devs s 0))" "uint f + ?n \<le> 524288"
      "vm_inv w (Pair False ` K \<union> Pair False ` frames f ?n) s1" "vbyte w s1 = vbyte w s" "user_slot s1 = user_slot s" "calm s s1"
      "devs s1 = devs (upd_dev 0 (taken f ?n (devs s 0)) s)"
      "\<forall>g \<in> frames f ?n. pte_get_entry s1 c (kpage g) = pte_of_fpn g"
      "\<forall>q. push_bit 12 q \<notin> (push_bit 12 \<circ> kpage) ` frames f ?n \<longrightarrow> pte_get_entry s1 c q = pte_get_entry s c q"
    let ?R = "\<lparr>rg_start = kernel_vaddr_from_fpn f, rg_end = kernel_vaddr_from_fpn f + sz, vmaid = 0\<rparr>"
    let ?s = "set_symrg c i ?R s1"
    note more = kernel_ok_more [OF assms(1) A(2,4,7,9,10)]
    note st = kernel_ok_set_symrg [OF more(1), where i = i and r = ?R]
    have sr: "symrg s1 c j = symrg s c j" for j by (rule symrg_calm [OF A(7)])
    have kb: "kbyte K ?s a = kbyte K s a" for a unfolding st(3) using A(8) by (simp add: kbyte_def taken_def)
    have sy: "symrg ?s c j = (if j = i then Some ?R else symrg s c j)" for j using st(4) [of j] sr assms(3) by simp
    have kr: "kmalloc s c (int i) sz = (Some (kernel_vaddr_from_fpn f), ?s)" using run A(1) by simp
    have vb: "vbyte w ?s = vbyte w s" "user_slot ?s = user_slot s" using st(2,5) A(5,6) by simp_all
    have hp: "heap_inv w (Pair False ` (K \<union> frames f ?n)) ?s x" if "heap_inv w (Pair False ` K) s x" for x
      using heap_inv_keep [OF that kernel_okD(1) [OF more(1)] calmD(5) [OF A(7)]] A(5)
        heap_inv_set_symrg [OF _ kernel_region_high [OF A(3) assms(7,8)]] by simp
    have ex: "\<exists>f. frames f ?n \<subseteq> set (free_fp_list (devs s 0))" using A(2) by blast
    have sub: "frames f ?n \<subseteq> set (free_fp_list (devs s 0)) - K" using A(2) more(2) by blast
    show ?thesis unfolding if_P [OF ex]
      by (intro exI [of _ f] exI [of _ ?s] exI [of _ ?R] conjI allI impI refl kr sub st(1) sy vb kb hp
          new_region_bytes [OF A(3) assms(7,8)] kernel_ok_translate [OF st(1)])
  next
    fix h assume "kernel_alloc_contiguous_region s c sz = (None, s\<lparr>sy_host := h\<rparr>)"
      "\<nexists>f. frames f ?n \<subseteq> set (free_fp_list (devs s 0))"
    with run kernel_ok_host [OF assms(1), where h = h] show ?thesis by (auto simp: symrg_def)
  qed
qed

lemma write_kernel_ok:
  assumes "kernel_ok w K s c" "symrg s c i = Some r" "krg K r" "i < PAGING_MAX_SYMTBL_SZ"
  shows "\<exists>e s'. write_kernel_mem s c (int i) off v = Some (e, s') \<and> kernel_ok w K s' c \<and> vbyte w s' = vbyte w s \<and>
      e = (if off < rg_end r - rg_start r then 0 else -1) \<and> (\<forall>j. symrg s' c j = symrg s c j) \<and> user_slot s' = user_slot s \<and>
      (\<forall>a. kbyte K s' a = (if e = 0 \<and> a = rg_start r + off then Some v else kbyte K s a))"
proof -
  note k = kernel_okD [OF assms(1)]
  let ?x = "rg_start r + off - KMEM_VADDR_BASE"
  have valid: "kernel_region_valid s c (int i) 1 off = (if off < rg_end r - rg_start r then Some r else None)"
    using kernel_region_offset assms by (simp add: krg_def)
  show ?thesis
  proof (cases "off < rg_end r - rg_start r")
    case True
    have x: "drop_bit 12 ?x \<in> K"
      using True assms(3) region_offset [of "rg_start r" "rg_end r" off] by (auto simp: krg_def sym_bytes_def)
    note ka = kernel_address [OF assms(1) x, simplified]
    define s' where "s' = upd_dev 0 ((devs s 0)\<lparr>storage := (storage (devs s 0))(?x := v)\<rparr>) s"
    note hw = held_write [OF k(1) imageI [OF x] s'_def]
    have "write_kernel_mem s c (int i) off v = Some (0, s')"
      using valid True ka(3) k(3) dev_write_ok [OF k(4) ka(2)] by (simp add: write_kernel_mem_def s'_def)
    moreover have "kernel_ok w K s' c" using assms(1) hw(1,3) calmD(6) [OF hw(4)] by (simp add: kernel_ok_def)
    moreover have "kbyte K s' a = (if a = rg_start r + off then Some v else kbyte K s a)" for a
      using x by (auto simp: kbyte_def s'_def algebra_simps)
    ultimately show ?thesis using hw(2,5) symrg_calm [OF hw(4)] True by auto
  qed (use valid assms(1) in \<open>simp add: write_kernel_mem_def\<close>)
qed

lemma read_kernel_ok:
  assumes "kernel_ok w K s c" "symrg s c i = Some r" "krg K r" "i < PAGING_MAX_SYMTBL_SZ"
  shows "read_kernel_mem s c (int i) off = Some (if off < rg_end r - rg_start r then kbyte K s (rg_start r + off) else None, s)"
proof -
  note k = kernel_okD [OF assms(1)]
  let ?x = "rg_start r + off - KMEM_VADDR_BASE"
  have valid: "kernel_region_valid s c (int i) 1 off = (if off < rg_end r - rg_start r then Some r else None)"
    using kernel_region_offset assms by (simp add: krg_def)
  have "drop_bit 12 ?x \<in> K" if "off < rg_end r - rg_start r"
    using that assms(3) region_offset [of "rg_start r" "rg_end r" off] by (auto simp: krg_def sym_bytes_def)
  note ka = this kernel_address [OF assms(1) this, simplified]
  show ?thesis using valid ka(1,4) k(3) dev_read_ok [OF k(4) ka(3)] by (simp add: read_kernel_mem_def kbyte_def)
qed

section \<open>Releasing kernel regions\<close>

lemma kernel_clear_page:
  assumes "pt_wf s" "is_kernel_address (push_bit 12 p)" "caller_mm s c \<noteq> None" "pte_get_entry s c p \<noteq> 0"
  shows "kernel_walk_pte s c (push_bit 12 p) False = (True, s)"
    "pte_set_entry s c p 0 = (0, kernel_store s c (push_bit 12 p) 0)"
proof -
  obtain l s1 where w: "walk_pte s c (push_bit 12 p) False = (l, s1)" by (cases "walk_pte s c (push_bit 12 p) False")
  note wp = walk_pte_props(5) [OF assms(1) w]
  have "l \<noteq> None" using assms(4) w by (cases l) (simp_all add: pte_get_entry_def)
  with kernel_walk_agrees [OF assms(2,3), of False] w wp show "kernel_walk_pte s c (push_bit 12 p) False = (True, s)" by simp
  show "pte_set_entry s c p 0 = (0, kernel_store s c (push_bit 12 p) 0)"
    using pte_set_entry_exists [OF assms(1,4), of 0] kernel_load_store(2) [OF assms(2)] by simp
qed

definition run_clear :: "addr \<Rightarrow> nat \<Rightarrow> nat \<Rightarrow> (addr \<times> addr) list" where
  "run_clear f page n = map (\<lambda>j. (kpage (f + of_nat j), 0)) [page..<page + n]"

lemma clear_entries_set_all:
  assumes "pt_wf s" "caller_mm s c \<noteq> None" "uint f + int (page + n) \<le> 2 ^ 28" "page + n \<le> 2 ^ 19"
    and "\<And>j. page \<le> j \<Longrightarrow> j < page + n \<Longrightarrow> pte_get_entry s c (kpage (f + of_nat j)) \<noteq> 0"
  shows "set_all (\<lambda>s. pte_set_entry s c) s (run_clear f page n) = (0, clear_entries s c (kernel_vaddr_from_fpn f) page n)"
  using assms
proof (induction n arbitrary: s page)
  case (Suc n)
  let ?p = "kpage (f + of_nat page)"
  have ka: "is_kernel_address (push_bit 12 ?p)" using run_frame_uint(2) [OF Suc.prems(3), of page] kpage_uint(2) by simp
  let ?s1 = "kernel_store s c (push_bit 12 ?p) 0"
  have kc: "kernel_walk_pte s c (push_bit 12 ?p) False = (True, s)" "pte_set_entry s c ?p 0 = (0, ?s1)"
    using kernel_clear_page [OF Suc.prems(1) ka Suc.prems(2) Suc.prems(5) [of page]] by simp_all
  note pe = pte_set_entry_props [OF Suc.prems(1) kc(2)]
  have "pte_get_entry ?s1 c (kpage (f + of_nat j)) \<noteq> 0" if "page + 1 \<le> j" "j < page + 1 + n" for j
    using pe(4) [of c "kpage (f + of_nat j)"] Suc.prems(5) [of j] run_page_inj [OF Suc.prems(3), of j page] that by auto
  then have "set_all (\<lambda>s. pte_set_entry s c) ?s1 (run_clear f (page + 1) n) =
      (0, clear_entries ?s1 c (kernel_vaddr_from_fpn f) (page + 1) n)"
    using Suc.prems forget_ptD(6) [OF pe(2), of c] pe(1) by (intro Suc.IH) auto
  moreover have "run_clear f page (Suc n) = (?p, 0) # run_clear f (page + 1) n"
    by (simp add: run_clear_def upt_conv_Cons del: upt_Suc)
  ultimately show ?case using kc run_page_addr [of page f] Suc.prems(4) by simp
qed (simp add: run_clear_def)

lemma set_remove1_other: "x \<noteq> y \<Longrightarrow> x \<in> set (remove1 y l) \<longleftrightarrow> x \<in> set l"
  by (induction l) auto

lemma fold_unuse_frame:
  assumes "distinct ws" "set ws \<subseteq> set (used_fp_list mp)"
  shows "fold unuse_frame ws mp =
    mp\<lparr>free_fp_list := rev ws @ free_fp_list mp, used_fp_list := fold remove1 ws (used_fp_list mp)\<rparr>"
  using assms
proof (induction ws arbitrary: mp)
  case (Cons w ws)
  let ?mp = "unuse_frame w mp"
  have u: "?mp = mp\<lparr>free_fp_list := w # free_fp_list mp, used_fp_list := remove1 w (used_fp_list mp)\<rparr>"
    using Cons.prems by (simp add: unuse_frame_def)
  have "fold unuse_frame ws ?mp = ?mp\<lparr>free_fp_list := rev ws @ free_fp_list ?mp, used_fp_list := fold remove1 ws (used_fp_list ?mp)\<rparr>"
  proof (rule Cons.IH)
    show "set ws \<subseteq> set (used_fp_list ?mp)"
    proof
      fix x assume "x \<in> set ws"
      moreover from this have "x \<noteq> w" "x \<in> set (used_fp_list mp)" using Cons.prems by auto
      ultimately show "x \<in> set (used_fp_list ?mp)" by (simp add: u set_remove1_other)
    qed
  qed (use Cons.prems in simp)
  then show ?case by (simp add: u)
qed simp

lemma fold_remove1_rev: "distinct ws \<Longrightarrow> fold remove1 ws (rev ws @ us) = us"
  by (induction ws) (auto simp: remove1_append)

lemma kernel_fpn_vaddr: "uint f < 2 ^ 28 \<Longrightarrow> kernel_fpn_from_vaddr (kernel_vaddr_from_fpn f) = f"
proof -
  assume u: "uint f < 2 ^ 28"
  have "uint (f * 4096) = uint f * 4096" using u by (simp add: uint_word_ariths)
  then show ?thesis
    by (simp add: kernel_fpn_from_vaddr_def kernel_vaddr_from_fpn_def PAGING64_PAGESZ_def word_uint_eq_iff uint_div_distrib)
qed

lemma kernel_release_ok:
  assumes inv: "vm_inv w (F \<union> Pair False ` frames f n) s" "F \<inter> Pair False ` frames f n = {}" and mm: "caller_mm s c \<noteq> None"
    and n: "0 < n" "uint f + n \<le> 524288" and used: "frames f n \<subseteq> set (used_fp_list (devs s 0))"
    and present: "\<And>g. g \<in> frames f n \<Longrightarrow> pte_get_entry s c (kpage g) \<noteq> 0"
    and s': "s' = kernel_release_contiguous_region s c (kernel_vaddr_from_fpn f) n"
  shows "vm_inv w F s'" "vbyte w s' = vbyte w s" "calm s s'"
    "set (free_fp_list (devs s' 0)) = set (free_fp_list (devs s 0)) \<union> frames f n"
    "used_fp_list (devs s' 0) = fold remove1 (map (\<lambda>j. f + of_nat j) [0..<nat n]) (used_fp_list (devs s 0))"
    "pte_get_entry s' c q = (if push_bit 12 q \<in> (push_bit 12 \<circ> kpage) ` frames f n then 0 else pte_get_entry s c q)"
proof -
  let ?ws = "map (\<lambda>j. f + of_nat j) [0..<nat n]" and ?base = "kernel_vaddr_from_fpn f"
  have ws: "set ?ws = frames f n" by (auto simp: frames_def)
  have "0 \<le> uint f" by simp
  with n have "n \<le> 524288" by linarith
  then have small: "uint f + int (0 + nat n) \<le> 2 ^ 28" "0 + nat n \<le> 2 ^ 19" using n by auto
  have dis: "distinct ?ws"
    using run_frame_uint(1) [OF small(1)] by (auto simp: distinct_map intro!: inj_onI dest: arg_cong [of _ _ uint])
  note wf = vm_invD(1) [OF inv(1)]
  define s1 where "s1 = clear_entries s c ?base 0 (nat n)"
  have e: "set_all (\<lambda>s. pte_set_entry s c) s (run_clear f 0 (nat n)) = (0, s1)"
    unfolding s1_def by (rule clear_entries_set_all [OF wf mm small]) (use present in \<open>auto simp: frames_def\<close>)
  have kern: "is_kernel_address (push_bit 12 p)" if "(p, v) \<in> set (run_clear f 0 (nat n))" for p v
    using that run_frame_uint(2) [OF small(1)] kpage_uint(2) by (auto simp: run_clear_def)
  have i1: "vm_inv w (F \<union> Pair False ` frames f n) s1" "vbyte w s1 = vbyte w s" "calm s s1" "devs s1 = devs s"
    using set_all_kernel_inv [OF inv(1) _ e] kern by blast+
  have get: "pte_get_entry s1 c q = (if push_bit 12 q \<in> (push_bit 12 \<circ> kpage) ` frames f n then 0 else pte_get_entry s c q)" for q
  proof -
    have rc: "run_clear f 0 (nat n) = map (\<lambda>p. (p, 0)) (map kpage ?ws)" by (simp add: run_clear_def)
    have "distinct (map (push_bit 12) (map kpage ?ws))"
      using run_page_inj [OF small(1)] by (auto simp: distinct_map intro!: inj_onI)
    from pt.get_set_const [of s c 0 "map kpage ?ws" q, folded rc] this e wf mm
    show ?thesis by (simp add: image_image frames_def atLeast0LessThan)
  qed
  have mram: "caller_mram s c = Some 0" using mm vm_invD(10) [OF inv(1)] by auto
  have fpn: "kernel_fpn_from_vaddr ?base = f" using kernel_fpn_vaddr n by simp
  have fold: "fold unuse_frame ?ws (devs s 0) =
      (devs s 0)\<lparr>free_fp_list := rev ?ws @ free_fp_list (devs s 0), used_fp_list := fold remove1 ?ws (used_fp_list (devs s 0))\<rparr>"
    by (rule fold_unuse_frame [OF dis]) (use used ws in simp)
  have s2: "s' = upd_dev 0 ((devs s1 0)\<lparr>free_fp_list := rev ?ws @ free_fp_list (devs s1 0),
      used_fp_list := fold remove1 ?ws (used_fp_list (devs s1 0))\<rparr>) s1"
    using mram n(1) fold by (simp add: s' kernel_release_contiguous_region_def s1_def [symmetric] fpn i1(4) Let_def)
  have fdis: "distinct (free_fp_list (devs s1 0))" using vm_invD(2) [OF i1(1)] by (simp add: devices_ok_def)
  have held: "g \<notin> set (free_fp_list (devs s1 0))" if "(False, g) \<in> F \<union> Pair False ` frames f n" for g
    using vm_invD(6) [OF i1(1) that] by (simp add: slot_ok_def dev_of_def)
  note l = vm_inv_lists [OF i1(1) _ _ _ _ s2, of F]
  have d1: "distinct (rev ?ws @ free_fp_list (devs s1 0))" using dis fdis held ws by auto
  have d2: "g \<in> set (free_fp_list (devs s1 0)) \<or> (False, g) \<in> F \<union> Pair False ` frames f n"
    if "g \<in> set (rev ?ws @ free_fp_list (devs s1 0))" for g using that ws by auto
  have d3: "(False, g) \<notin> F" if "g \<in> set (rev ?ws @ free_fp_list (devs s1 0))" for g
    using that ws inv(2) held [of g] by auto
  show "vm_inv w F s'" by (rule l(1) [OF d1 d2 _ d3]) auto
  have "vbyte w s' = vbyte w s1" by (rule l(2) [OF d1 d2 _ d3]) auto
  then show "vbyte w s' = vbyte w s" using i1(2) by simp
  show "calm s s'" using calm_trans [OF i1(3)] by (simp add: s2)
  show "set (free_fp_list (devs s' 0)) = set (free_fp_list (devs s 0)) \<union> frames f n"
    using ws i1(4) by (auto simp: s2)
  show "used_fp_list (devs s' 0) = fold remove1 ?ws (used_fp_list (devs s 0))" by (simp add: s2 i1(4))
  show "pte_get_entry s' c q = (if push_bit 12 q \<in> (push_bit 12 \<circ> kpage) ` frames f n then 0 else pte_get_entry s c q)"
    using get [of q] vm_invD(1) [OF i1(1)] by (simp add: s2 pte_get_entry_upd_dev)
qed

lemma small_index:
  assumes "i < PAGING_MAX_SYMTBL_SZ"
  shows "sint (of_nat i :: uint32) = int i" "unat (of_nat i :: uint32) = i"
proof -
  have i: "i < 30" using assms by (simp add: PAGING_MAX_SYMTBL_SZ_def)
  then show "unat (of_nat i :: uint32) = i" by (simp add: unsigned_of_nat take_bit_nat_eq_self)
  show "sint (of_nat i :: uint32) = int i" using i int32_id [of "int i"] by (simp add: int32_def)
qed

section \<open>Properties\<close>

lemma demo_kernel:
  "kernel_ok 1 {} demo_heap 1" "symrg demo_heap 1 3 = Some no_rg" "frames 0 2 \<subseteq> set (free_fp_list (devs demo_heap 0))"
  "set (free_fp_list (devs demo_heap 0)) = {0, 1}"
proof -
  have f: "frames 0 2 = {0, 1}" by (simp add: frames_def lessThan_Suc numeral_2_eq_2) auto
  show "set (free_fp_list (devs demo_heap 0)) = {0, 1}" by (simp add: demo_heap_def demo_sys_def demo_ram_def upd_mm_def upd_krnl_def)
  with f show "frames 0 2 \<subseteq> set (free_fp_list (devs demo_heap 0))" by simp
  have "caller_mm demo_heap 1 \<noteq> None" by (simp add: demo_heap_def demo_sys_caller)
  with demo_heap_inv(1) show "kernel_ok 1 {} demo_heap 1" by (simp add: kernel_ok_def heap_inv_def)
  show "symrg demo_heap 1 3 = Some no_rg"
    by (simp add: symrg_def demo_heap_def demo_sys_caller PAGING_MAX_SYMTBL_SZ_def)
qed

lemma demo_kmalloc:
  obtains s where "kernel_ok 1 (frames 0 2) s 1"
    "symrg s 1 3 = Some \<lparr>rg_start = KMEM_VADDR_BASE, rg_end = KMEM_VADDR_BASE + 5000, vmaid = 0\<rparr>"
    "krg (frames 0 2) \<lparr>rg_start = KMEM_VADDR_BASE, rg_end = KMEM_VADDR_BASE + 5000, vmaid = 0\<rparr>"
proof -
  have p: "pages_of 5000 = 2" by (simp add: pages_of_def)
  have ex: "\<exists>f. frames f (pages_of 5000) \<subseteq> set (free_fp_list (devs demo_heap 0))" unfolding p using demo_kernel(3) by blast
  obtain f s R where k: "kernel_ok 1 (frames f 2) s 1" "R = \<lparr>rg_start = kernel_vaddr_from_fpn f, rg_end = kernel_vaddr_from_fpn f + 5000, vmaid = 0\<rparr>"
    "krg (frames f 2) R" "\<forall>j. symrg s 1 j = (if j = 3 then Some R else symrg demo_heap 1 j)"
    "frames f 2 \<subseteq> set (free_fp_list (devs demo_heap 0))"
    using kmalloc_ok [OF demo_kernel(1) demo_heap_inv(3) demo_kernel(2), of 5000] ex
    unfolding p by (simp add: no_rg_def PAGING_MAX_SYMTBL_SZ_def del: One_nat_def) blast
  have "f + of_nat j \<in> {0, 1}" if "j < 2" for j
    using k(5) that unfolding demo_kernel(4) by (auto simp: frames_def)
  from this [of 0] this [of 1] have "f = 0" by auto
  with k show thesis by (intro that [of s]) (auto simp: kernel_vaddr_from_fpn_def)
qed

text \<open>
  C17: Kernel allocation. With memory on the host, \<open>__kmalloc\<close> for a free entry of the symbol table succeeds
  exactly when RAM has enough consecutive free frames. Then the new region lies in frames
  that neither a process nor the kernel had, translation of every kernel address of old and
  new regions subtracts the base of the direct mapping, and no byte of any process and no byte the
  kernel had changes. Otherwise nothing is allocated and no byte and no entry changes.
\<close>

theorem kmalloc_direct_mapped:
  assumes "kernel_ok w K s c" "host_ok (sy_host s)" "symrg s c i = Some r" "rg_start r = 0" "rg_end r = 0"
    and "i < PAGING_MAX_SYMTBL_SZ" "0 < uint sz" "uint sz \<le> 2 ^ 31"
  shows "if \<exists>f. frames f (pages_of sz) \<subseteq> set (free_fp_list (devs s 0))
    then \<exists>f s' R. kmalloc s c (int i) sz = (Some (kernel_vaddr_from_fpn f), s') \<and>
      R = \<lparr>rg_start = kernel_vaddr_from_fpn f, rg_end = kernel_vaddr_from_fpn f + sz, vmaid = 0\<rparr> \<and>
      frames f (pages_of sz) \<subseteq> set (free_fp_list (devs s 0)) - K \<and> kernel_ok w (K \<union> frames f (pages_of sz)) s' c \<and>
      krg (frames f (pages_of sz)) R \<and> (\<forall>j. symrg s' c j = (if j = i then Some R else symrg s c j)) \<and>
      (\<forall>a. kbyte (K \<union> frames f (pages_of sz)) s' a \<noteq> None \<longrightarrow> kernel_translate_vaddr s' c a = Some (a - KMEM_VADDR_BASE)) \<and>
      vbyte w s' = vbyte w s \<and> user_slot s' = user_slot s \<and> (\<forall>a. kbyte K s' a = kbyte K s a) \<and>
      (\<forall>x. heap_inv w (Pair False ` K) s x \<longrightarrow> heap_inv w (Pair False ` (K \<union> frames f (pages_of sz))) s' x)
    else \<exists>s'. kmalloc s c (int i) sz = (None, s') \<and> kernel_ok w K s' c \<and> vbyte w s' = vbyte w s \<and>
      (\<forall>a. kbyte K s' a = kbyte K s a) \<and> (\<forall>j. symrg s' c j = symrg s c j)"
  using assms by (rule kmalloc_ok)

theorem kmalloc_direct_mapped_witness:
  "\<exists>f s' R. kmalloc demo_heap 1 3 5000 = (Some (kernel_vaddr_from_fpn f), s') \<and> kernel_ok 1 (frames f 2) s' 1 \<and>
     symrg s' 1 3 = Some R \<and> krg (frames f 2) R"
proof -
  have p: "pages_of 5000 = 2" by (simp add: pages_of_def)
  have "\<exists>f. frames f (pages_of 5000) \<subseteq> set (free_fp_list (devs demo_heap 0))" unfolding p using demo_kernel(3) by blast
  with kmalloc_direct_mapped [OF demo_kernel(1) demo_heap_inv(3) demo_kernel(2), of 5000]
  obtain f s' R where "kmalloc demo_heap 1 3 5000 = (Some (kernel_vaddr_from_fpn f), s')" "kernel_ok 1 (frames f 2) s' 1"
    "krg (frames f 2) R" "\<forall>j. symrg s' 1 j = (if j = 3 then Some R else symrg demo_heap 1 j)"
    unfolding p by (simp add: no_rg_def PAGING_MAX_SYMTBL_SZ_def del: One_nat_def) blast
  then show ?thesis by auto
qed

text \<open>
  C16: Kernel memory is memory. A write inside a kernel region succeeds and changes exactly one byte of
  the kernel and none of a process; outside it is refused. A read returns the current byte. The
  kernel bytes survive all accesses of processes.
\<close>

theorem kernel_memory_array:
  assumes "kernel_ok w K s c" "symrg s c i = Some r" "krg K r" "i < PAGING_MAX_SYMTBL_SZ"
  shows "(\<exists>e s'. write_kernel_mem s c (int i) off v = Some (e, s') \<and> kernel_ok w K s' c \<and> vbyte w s' = vbyte w s \<and>
      e = (if off < rg_end r - rg_start r then 0 else -1) \<and> (\<forall>j. symrg s' c j = symrg s c j) \<and>
      (\<forall>a. kbyte K s' a = (if e = 0 \<and> a = rg_start r + off then Some v else kbyte K s a))) \<and>
    read_kernel_mem s c (int i) off = Some (if off < rg_end r - rg_start r then kbyte K s (rg_start r + off) else None, s) \<and>
    (\<forall>a u. \<not> is_kernel_address a \<longrightarrow> (\<exists>e s'. pg_setval s c a u = Some (e, s') \<and> kernel_ok w K s' c \<and>
       (\<forall>b. kbyte K s' b = kbyte K s b)))"
proof -
  have "\<exists>e s'. pg_setval s c a u = Some (e, s') \<and> kernel_ok w K s' c \<and> (\<forall>b. kbyte K s' b = kbyte K s b)"
    if nk: "\<not> is_kernel_address a" for a u
    using pg_setval_ok [OF kernel_okD(1) [OF assms(1)] nk, of c u] kernel_ok_kept [OF assms(1)] by blast
  with write_kernel_ok [OF assms, of off v] read_kernel_ok [OF assms, of off] show ?thesis by auto
qed

theorem kernel_memory_array_witness:
  "\<exists>s K s'. kernel_ok 1 K s 1 \<and> write_kernel_mem s 1 3 77 42 = Some (0, s') \<and> kbyte K s' = (kbyte K s)(KMEM_VADDR_BASE + 77 \<mapsto> 42)"
proof -
  obtain s where s: "kernel_ok 1 (frames 0 2) s 1"
    "symrg s 1 3 = Some \<lparr>rg_start = KMEM_VADDR_BASE, rg_end = KMEM_VADDR_BASE + 5000, vmaid = 0\<rparr>"
    "krg (frames 0 2) \<lparr>rg_start = KMEM_VADDR_BASE, rg_end = KMEM_VADDR_BASE + 5000, vmaid = 0\<rparr>"
    by (rule demo_kmalloc)
  from kernel_memory_array [OF s, of 77 42] obtain s' where
    "write_kernel_mem s 1 3 77 42 = Some (0, s')" "\<forall>a. kbyte (frames 0 2) s' a = (if a = KMEM_VADDR_BASE + 77 then Some 42 else kbyte (frames 0 2) s a)"
    by (auto simp: PAGING_MAX_SYMTBL_SZ_def)
  with s(1) show ?thesis by (intro exI [of _ s] exI [of _ "frames 0 2"] exI [of _ s']) (simp add: fun_eq_iff)
qed

text \<open>
  C30: The two page-table walks agree. On kernel addresses, the walk of the kernel allocator, which never looks at the
  address space, reaches an entry exactly when \<open>walk_pte\<close> does and leaves the same tables behind, and
  mapping a page by it is \<open>pte_set_fpn\<close>.
\<close>

theorem kernel_walk_equivalent:
  assumes "is_kernel_address a" "caller_mm s c \<noteq> None"
  shows "kernel_walk_pte s c a create = (case walk_pte s c a create of (l, s') \<Rightarrow> (l \<noteq> None, s')) \<and>
    (pt_wf s \<and> is_kernel_address (push_bit 12 p) \<longrightarrow> kernel_map_page s c (push_bit 12 p) fpn = pte_set_fpn s c p fpn)"
  using kernel_walk_agrees [OF assms] kernel_map_page_entry [OF _ _ assms(2)] pte_set_as_entry(1) by simp

theorem kernel_walk_equivalent_witness:
  "kernel_walk_pte demo_sys 1 KMEM_VADDR_BASE True =
     (case walk_pte demo_sys 1 KMEM_VADDR_BASE True of (l, s') \<Rightarrow> (l \<noteq> None, s')) \<and>
   kernel_map_page demo_sys 1 (push_bit 12 (kpage 1)) 1 = pte_set_fpn demo_sys 1 (kpage 1) 1"
proof -
  have "is_kernel_address KMEM_VADDR_BASE" "is_kernel_address (push_bit 12 (kpage 1))" "caller_mm demo_sys 1 \<noteq> None"
    using kpage_uint(2) [of 1] by (simp_all add: is_kernel_address_def KMEM_VADDR_BASE_def demo_sys_caller)
  then show ?thesis using kernel_walk_equivalent [of KMEM_VADDR_BASE demo_sys 1] by simp
qed

text \<open>
  Consecutive frames are found whenever there are some. With memory on the host, the search returns a
  frame \<open>f\<close> exactly when the free list has some run of the requested length; the run that starts at \<open>f\<close> then
  moves from the free list to the used list and nothing else changes.
\<close>

theorem contiguous_frames_found:
  assumes "vm_inv w F s" "caller_mm s c \<noteq> None" "host_ok (sy_host s)" "0 < n" "n \<le> 524288"
  shows "case kernel_allocate_contiguous_frames s c n of
     (None, s') \<Rightarrow> \<not> (\<exists>f. frames f n \<subseteq> set (free_fp_list (devs s 0))) \<and> devs s' = devs s
   | (Some f, s') \<Rightarrow> frames f n \<subseteq> set (free_fp_list (devs s 0)) \<and>
       set (free_fp_list (devs s' 0)) = set (free_fp_list (devs s 0)) - frames f n \<and>
       set (used_fp_list (devs s' 0)) = set (used_fp_list (devs s 0)) \<union> frames f n \<and>
       vm_inv w (F \<union> Pair False ` frames f n) s' \<and> vbyte w s' = vbyte w s"
proof -
  have mram: "caller_mram s c = Some 0" using assms(2) vm_invD(10) [OF assms(1)] by auto
  have dist: "distinct (free_fp_list (devs s 0))" using vm_invD(2) [OF assms(1)] by (simp add: devices_ok_def)
  have small: "uint g + n < 2 ^ 64" if "g \<in> set (free_fp_list (devs s 0))" for g
    using free_run_small [OF assms(1), of g 1] that assms(5) by (simp add: frames_def lessThan_Suc)
  obtain h where h: "(\<exists>f. kernel_allocate_contiguous_frames s c n = (Some f, upd_dev 0 (taken f n (devs s 0)) (s\<lparr>sy_host := h\<rparr>)) \<and>
        frames f n \<subseteq> set (free_fp_list (devs s 0))) \<or>
     kernel_allocate_contiguous_frames s c n = (None, s\<lparr>sy_host := h\<rparr>) \<and>
       \<not> (\<exists>f. frames f n \<subseteq> set (free_fp_list (devs s 0)))"
    using contiguous_frames_ok [OF mram dist assms(3,4) small] by blast
  have us: "user_slot (s\<lparr>sy_host := h\<rparr>) = user_slot s"
    using vm_invD(1) [OF assms(1)] by (intro user_slot_cong) (simp add: pte_get_entry_host)
  then have vb: "vbyte w (s\<lparr>sy_host := h\<rparr>) = vbyte w s" by (simp add: vbyte_def slot_byte_def fun_eq_iff)
  from h show ?thesis
  proof (elim disjE exE conjE)
    fix f assume f: "kernel_allocate_contiguous_frames s c n = (Some f, upd_dev 0 (taken f n (devs s 0)) (s\<lparr>sy_host := h\<rparr>))"
      "frames f n \<subseteq> set (free_fp_list (devs s 0))"
    note t = vm_inv_taken [OF vm_inv_host [OF assms(1), of h], of f n, simplified, OF f(2)]
    show ?thesis using f t(1,2) vb by (auto simp: taken_def frames_def)
  qed simp
qed

theorem contiguous_frames_found_witness:
  "\<exists>f s'. kernel_allocate_contiguous_frames demo_heap 1 2 = (Some f, s') \<and> set (free_fp_list (devs s' 0)) = {0, 1} - frames f 2"
proof -
  have "vm_inv 1 {} demo_heap" "caller_mm demo_heap 1 \<noteq> None" using demo_kernel(1) by (auto simp: kernel_ok_def)
  from contiguous_frames_found [OF this demo_heap_inv(3), of 2] demo_kernel(3,4) show ?thesis
    by (cases "kernel_allocate_contiguous_frames demo_heap 1 2"; cases "fst (kernel_allocate_contiguous_frames demo_heap 1 2)")
       (auto simp del: One_nat_def)
qed

text \<open>
  C31: Releasing undoes allocating. After a kernel region was allocated and released, the free frames, the used list and the
  bytes of all processes are as before, the pages of the region are unmapped and no other entry has changed.
\<close>

theorem kernel_region_round_trip:
  assumes "vm_inv w F s" "caller_mm s c \<noteq> None" "host_ok (sy_host s)" "0 < uint sz" "uint sz \<le> 2 ^ 31"
    and "kernel_alloc_contiguous_region s c sz = (Some (a, len), s1)"
    and "s2 = kernel_release_contiguous_region s1 c a (int_of_addr (len div PAGING64_PAGESZ))"
  shows "vm_inv w F s2 \<and> vbyte w s2 = vbyte w s \<and> set (free_fp_list (devs s2 0)) = set (free_fp_list (devs s 0)) \<and>
    used_fp_list (devs s2 0) = used_fp_list (devs s 0) \<and>
    (\<exists>f. a = kernel_vaddr_from_fpn f \<and> (\<forall>q. pte_get_entry s2 c q =
       (if push_bit 12 q \<in> (push_bit 12 \<circ> kpage) ` frames f (pages_of sz) then 0 else pte_get_entry s c q)))"
proof -
  let ?n = "pages_of sz"
  note al = align_pages [OF assms(5)]
  obtain f where f: "a = kernel_vaddr_from_fpn f" "len = PAGING64_PAGE_ALIGNSZ sz" "frames f ?n \<subseteq> set (free_fp_list (devs s 0))"
      "uint f + ?n \<le> 524288" "vm_inv w (F \<union> Pair False ` frames f ?n) s1" "vbyte w s1 = vbyte w s" "calm s s1"
      "devs s1 = devs (upd_dev 0 (taken f ?n (devs s 0)) s)"
      "\<And>g. g \<in> frames f ?n \<Longrightarrow> pte_get_entry s1 c (kpage g) = pte_of_fpn g"
      "\<And>q. push_bit 12 q \<notin> (push_bit 12 \<circ> kpage) ` frames f ?n \<Longrightarrow> pte_get_entry s1 c q = pte_get_entry s c q"
    using kernel_alloc_region_ok [OF assms(1-5)] assms(6) by auto
  have n: "0 < ?n" using al(6) assms(4) by simp
  have req: "int_of_addr (len div PAGING64_PAGESZ) = ?n" unfolding f(2) by (rule pages_int [OF assms(5)])
  have dj: "F \<inter> Pair False ` frames f ?n = {}"
    using f(3) vm_invD(6) [OF assms(1), of "(False, _)"] by (auto simp: slot_ok_def dev_of_def)
  have pres: "pte_get_entry s1 c (kpage g) \<noteq> 0" if "g \<in> frames f ?n" for g
    using f(9) [OF that] pte_of_fpn_present [of g] by (metis pte_zero(1))
  have mm: "caller_mm s1 c \<noteq> None" using calmD(6) [OF f(7)] assms(2) by simp
  have used: "used_fp_list (devs s1 0) = rev (map (\<lambda>j. f + of_nat j) [0..<nat ?n]) @ used_fp_list (devs s 0)"
    by (simp add: f(8) taken_def)
  have us: "frames f ?n \<subseteq> set (used_fp_list (devs s1 0))" unfolding used by (auto simp: frames_def)
  note r = kernel_release_ok [OF f(5) dj mm n f(4) us pres assms(7) [unfolded f(1) req]]
  have "0 \<le> uint f" by simp
  then have "distinct (map (\<lambda>j. f + of_nat j) [0..<nat ?n])"
    using run_frame_uint(1) [of f "nat ?n"] f(4) n by (auto simp: distinct_map intro!: inj_onI dest: arg_cong [of _ _ uint])
  then have us2: "used_fp_list (devs s2 0) = used_fp_list (devs s 0)" using r(5) unfolding used by (simp add: fold_remove1_rev)
  have "vbyte w s2 = vbyte w s" using r(2) f(6) by simp
  moreover have "set (free_fp_list (devs s2 0)) = set (free_fp_list (devs s 0))" using r(4) f(3,8) by (auto simp: taken_def)
  moreover have "\<exists>f. a = kernel_vaddr_from_fpn f \<and> (\<forall>q. pte_get_entry s2 c q =
       (if push_bit 12 q \<in> (push_bit 12 \<circ> kpage) ` frames f (pages_of sz) then 0 else pte_get_entry s c q))"
    using f(1) r(6) f(10) by (intro exI [of _ f]) auto
  ultimately show ?thesis using r(1) us2 by blast
qed

theorem kernel_region_round_trip_witness:
  "\<exists>a len s1. kernel_alloc_contiguous_region demo_heap 1 5000 = (Some (a, len), s1) \<and>
     set (free_fp_list (devs (kernel_release_contiguous_region s1 1 a (int_of_addr (len div PAGING64_PAGESZ))) 0)) = {0, 1}"
proof -
  have p: "pages_of 5000 = 2" by (simp add: pages_of_def)
  have inv: "vm_inv 1 {} demo_heap" "caller_mm demo_heap 1 \<noteq> None" using demo_kernel(1) by (auto simp: kernel_ok_def)
  have "\<exists>f. frames f (pages_of 5000) \<subseteq> set (free_fp_list (devs demo_heap 0))" unfolding p using demo_kernel(3) by blast
  with kernel_alloc_region_ok [OF inv demo_heap_inv(3), of 5000] obtain a len s1
    where a: "kernel_alloc_contiguous_region demo_heap 1 5000 = (Some (a, len), s1)" by auto
  from kernel_region_round_trip [OF inv demo_heap_inv(3) _ _ a refl] a demo_kernel(4) show ?thesis by simp
qed

end
