(* ===== verification/Kernel_Cache.thy ===== *)
theory Kernel_Cache
  imports Kernel_Memory
begin

text \<open>
  The slabs of a cache pool refine a list of free slots: \<open>__kmem_cache_alloc\<close> takes its head, whatever list
  the slab is on. A new pool has the slots of its storage one after the other; but the region that goes
  into the symbol table has the size of the whole pool.
\<close>

section \<open>The abstract pool\<close>

definition pool_slots :: "kcache_pool_struct \<Rightarrow> addr list" where
  "pool_slots p = concat (map free_list (pool_partial p @ pool_empty p))"

text \<open>The invariant of the three lists of slabs.\<close>

definition pool_ok :: "kcache_pool_struct \<Rightarrow> bool" where
  "pool_ok p \<longleftrightarrow>
     (\<forall>sl \<in> set (pool_partial p) \<union> set (pool_empty p). free_count sl = int (length (free_list sl)) \<and> free_list sl \<noteq> []) \<and>
     (\<forall>sl \<in> set (pool_full p). free_count sl = 0 \<and> free_list sl = [])"

lemma cache_take_pop:
  assumes "pool_ok p"
  shows "case cache_take p of
     None \<Rightarrow> pool_slots p = []
   | Some (a, p') \<Rightarrow> pool_slots p = a # pool_slots p' \<and> pool_ok p' \<and> pool_size p' = pool_size p"
proof (cases "pool_partial p")
  case Nil
  show ?thesis
  proof (cases "pool_empty p")
    case e: (Cons sl rest)
    with assms have sl: "free_count sl = int (length (free_list sl))" "free_list sl \<noteq> []" by (auto simp: pool_ok_def)
    then obtain a l where "free_list sl = a # l" by (cases "free_list sl") auto
    with Nil e sl assms show ?thesis by (cases l) (auto simp: cache_take_def pool_slots_def pool_ok_def Let_def)
  qed (use Nil in \<open>simp add: cache_take_def pool_slots_def\<close>)
next
  case p: (Cons sl rest)
  with assms have sl: "free_count sl = int (length (free_list sl))" "free_list sl \<noteq> []" by (auto simp: pool_ok_def)
  then obtain a l where "free_list sl = a # l" by (cases "free_list sl") auto
  with p sl assms show ?thesis by (cases l) (auto simp: cache_take_def pool_slots_def pool_ok_def Let_def)
qed

text \<open>Taking several slots in a row, until the pool is used up.\<close>

fun take_slots :: "nat \<Rightarrow> kcache_pool_struct \<Rightarrow> addr list \<times> kcache_pool_struct" where
  "take_slots 0 p = ([], p)"
| "take_slots (Suc n) p = (case cache_take p of None \<Rightarrow> ([], p)
     | Some (a, p') \<Rightarrow> (case take_slots n p' of (l, q) \<Rightarrow> (a # l, q)))"

lemma take_slots_take:
  assumes "pool_ok p" "take_slots n p = (l, q)"
  shows "l = take n (pool_slots p) \<and> pool_slots q = drop n (pool_slots p) \<and> pool_ok q"
  using assms
proof (induction n arbitrary: p l)
  case (Suc n)
  show ?case
  proof (cases "cache_take p")
    case None
    with Suc.prems cache_take_pop [OF Suc.prems(1)] show ?thesis by auto
  next
    case (Some y)
    obtain a p' where y: "y = (a, p')" by (cases y)
    with Some cache_take_pop [OF Suc.prems(1)] have p: "pool_slots p = a # pool_slots p'" "pool_ok p'" by auto
    obtain l' q' where t: "take_slots n p' = (l', q')" by (cases "take_slots n p'")
    with Suc.prems(2) Some y have l: "l = a # l'" "q' = q" by auto
    from Suc.IH [OF p(2) t [unfolded l(2)]] p l show ?thesis by simp
  qed
qed auto

section \<open>New slabs\<close>

lemma alloc_slots_ok:
  assumes "host_ok (sy_host s)"
  shows "\<exists>h. host_ok h \<and> alloc_slots s base sl idx n =
    (Some (map (\<lambda>i. base + addr_of_int (int32 (int i * sl))) [idx..<idx + n]), s\<lparr>sy_host := h\<rparr>)"
  using assms
proof (induction n arbitrary: s idx)
  case 0
  then show ?case by (intro exI [of _ "sy_host s"]) simp
next
  case (Suc n)
  obtain h where h: "sys_alloc s = (True, s\<lparr>sy_host := h\<rparr>)" "host_ok h"
    by (rule sys_alloc_cases [of s]) (use Suc.prems in \<open>auto simp: host_ok_def\<close>)
  obtain h' where h': "host_ok h'" "alloc_slots (s\<lparr>sy_host := h\<rparr>) base sl (idx + 1) n =
      (Some (map (\<lambda>i. base + addr_of_int (int32 (int i * sl))) [idx + 1..<idx + 1 + n]), s\<lparr>sy_host := h'\<rparr>)"
    using Suc.IH [of "s\<lparr>sy_host := h\<rparr>" "idx + 1"] h(2) by auto
  have "[idx..<idx + Suc n] = idx # [idx + 1..<idx + 1 + n]" by (simp add: upt_conv_Cons del: upt_Suc)
  then have "alloc_slots s base sl idx (Suc n) =
      (Some (map (\<lambda>i. base + addr_of_int (int32 (int i * sl))) [idx..<idx + Suc n]), s\<lparr>sy_host := h'\<rparr>)"
    using h(1) h'(2) by (simp del: upt_Suc)
  with h'(1) show ?case by blast
qed

lemma create_cache_slab_ok:
  assumes "host_ok (sy_host s)" "0 < n"
  shows "\<exists>h. host_ok h \<and> create_cache_slab s base sl n =
    (Some \<lparr>slab_start = base, slot_size = sl, slot_count = n, free_count = n,
       free_list = map (\<lambda>i. base + addr_of_int (int32 (int i * sl))) [0..<nat n]\<rparr>, s\<lparr>sy_host := h\<rparr>)"
proof -
  obtain h where h: "sys_alloc s = (True, s\<lparr>sy_host := h\<rparr>)" "host_ok h"
    by (rule sys_alloc_cases [of s]) (use assms(1) in \<open>auto simp: host_ok_def\<close>)
  with alloc_slots_ok [of "s\<lparr>sy_host := h\<rparr>" base sl 0 "nat n"] show ?thesis
    by (auto simp: create_cache_slab_def)
qed

section \<open>Creating a pool\<close>

definition pool_of :: "sys \<Rightarrow> pptr \<Rightarrow> nat \<Rightarrow> kcache_pool_struct option" where
  "pool_of s c i = (case Option.bind (caller_mm s c) kcpooltbl of None \<Rightarrow> None
     | Some l \<Rightarrow> if i < length l then Some (l ! i) else None)"

text \<open>The arithmetic of the slots.\<close>

lemma slot_arith:
  fixes sz al :: uint32
  assumes "0 < al" "al \<le> sz" "uint sz < 2 ^ 31"
  defines "n \<equiv> unat sz div unat al"
  shows "uint (sz div al * al) = int n * uint al" "int32 (uint (sz div al * al div al)) = int n" "sint al = uint al"
    "sint (sz div al * al) = int n * uint al" "0 < n" "int n * uint al \<le> uint sz" "sz div al * al \<noteq> 0"
proof -
  have al: "0 < unat al" "unat al \<le> unat sz" using assms(1,2) by (simp_all add: word_less_nat_alt word_le_nat_alt)
  have n: "int n = uint sz div uint al" by (simp add: n_def zdiv_int)
  show n0: "0 < n" using al by (simp add: n_def div_greater_zero_iff)
  have "int (unat al) = uint al" by simp
  with al(1) have pos: "0 < uint al" by linarith
  show le: "int n * uint al \<le> uint sz"
  proof -
    have "uint al * (uint sz div uint al) + uint sz mod uint al = uint sz" by (rule mult_div_mod_eq)
    then show ?thesis using pos_mod_sign [OF pos, of "uint sz"] unfolding n by (subst mult.commute) linarith
  qed
  have ge: "0 \<le> int n * uint al" by simp
  show u: "uint (sz div al * al) = int n * uint al"
    using le ge assms(3) n by (simp add: uint_word_ariths uint_div_distrib)
  have "uint al \<le> uint sz" using assms(2) by (simp add: word_le_def)
  then show "sint al = uint al" using assms(3) by (simp add: sint_uint signed_take_bit_int_eq_self_iff order_trans [OF _ unsigned_greater_eq])
  show "sint (sz div al * al) = int n * uint al"
    using u le assms(3) order_trans [OF _ ge, of "- 2147483648"] by (simp add: sint_uint signed_take_bit_int_eq_self_iff)
  have "uint (sz div al * al div al) = int n" using u pos by (simp add: uint_div_distrib)
  moreover have "int n < 2 ^ 31"
  proof -
    have "int n * 1 \<le> int n * uint al" using pos by (intro mult_left_mono) simp_all
    with le assms(3) show ?thesis by simp
  qed
  ultimately show "int32 (uint (sz div al * al div al)) = int n" by (simp add: int32_id)
  show "sz div al * al \<noteq> 0" using u n0 pos by (auto simp: word_uint_eq_iff)
qed

lemma kernel_ok_set_pools:
  assumes "kernel_ok w K s c"
  shows "kernel_ok w K (set_pools c l s) c" "vbyte w (set_pools c l s) = vbyte w s" "kbyte L (set_pools c l s) = kbyte L s"
  unfolding set_pools_def by (rule kernel_ok_upd_mm [OF assms], simp)+

lemma pool_table_ok:
  assumes "host_ok (sy_host s)" "pool_of s c i = None \<or> (\<exists>p. pool_of s c i = Some p \<and> pool_size p = 0)" "caller_mm s c = Some m"
  obtains l h where "pool_table (kcpooltbl m) i s = (Some l, s\<lparr>sy_host := h\<rparr>)" "host_ok h" "i < length l" "pool_size (l ! i) = 0"
    "\<And>j p. pool_of s c j = Some p \<Longrightarrow> j < length l \<and> l ! j = p"
proof -
  obtain h where h: "sys_alloc s = (True, s\<lparr>sy_host := h\<rparr>)" "host_ok h"
    by (rule sys_alloc_cases [of s]) (use assms(1) in \<open>auto simp: host_ok_def\<close>)
  show thesis
  proof (cases "kcpooltbl m")
    case None
    show thesis
      by (rule that [of "replicate (i + 1) zero_pool" h])
         (use None h assms(3) in \<open>auto simp: pool_table_def pool_of_def zero_pool_def nth_append replicate_append_same [symmetric]\<close>)
  next
    case (Some l)
    show thesis
    proof (cases "i < length l")
      case True
      show thesis
        by (rule that [of l "sy_host s"])
           (use True Some assms in \<open>auto simp: pool_table_def pool_of_def split: if_splits\<close>)
    next
      case False
      show thesis
        by (rule that [of "l @ replicate (i + 1 - length l) zero_pool" h])
           (use False Some h assms(3) in \<open>auto simp: pool_table_def pool_of_def zero_pool_def nth_append split: if_splits\<close>)
    qed
  qed
qed

text \<open>
  A new pool: its storage is a kernel region, its slots lie in it one after the other.
\<close>

lemma pool_create_ok:
  assumes "kernel_ok w K s c" "host_ok (sy_host s)" "i < PAGING_MAX_SYMTBL_SZ"
    and "pool_of s c i = None \<or> (\<exists>p. pool_of s c i = Some p \<and> pool_size p = 0)"
    and sz: "0 < al" "al \<le> sz" "uint sz < 2 ^ 31"
    and free: "\<exists>f. frames f (pages_of (ucast sz)) \<subseteq> set (free_fp_list (devs s 0))"
  shows "\<exists>f s' p. libkmem_cache_pool_create s c sz al (of_nat i) = (0, s') \<and>
    frames f (pages_of (ucast sz)) \<subseteq> set (free_fp_list (devs s 0)) - K \<and>
    kernel_ok w (K \<union> frames f (pages_of (ucast sz))) s' c \<and> vbyte w s' = vbyte w s \<and> kbyte K s' = kbyte K s \<and>
    krg (frames f (pages_of (ucast sz))) \<lparr>rg_start = kernel_vaddr_from_fpn f, rg_end = kernel_vaddr_from_fpn f + ucast sz, vmaid = 0\<rparr> \<and>
    pool_of s' c i = Some p \<and> pool_ok p \<and> pool_size p = int (unat sz div unat al) * uint al \<and>
    pool_slots p = map (\<lambda>j. kernel_vaddr_from_fpn f + addr_of_int (int j * uint al)) [0..<unat sz div unat al] \<and>
    (\<forall>j q. j \<noteq> i \<and> pool_of s c j = Some q \<longrightarrow> pool_of s' c j = Some q) \<and> (\<forall>j. symrg s' c j = symrg s c j)"
proof -
  note k = kernel_okD [OF assms(1)] and ar = slot_arith [OF sz]
  let ?t = "ucast sz :: addr" let ?n = "unat sz div unat al" let ?fr = "\<lambda>f. frames f (pages_of ?t)"
  have t: "uint ?t = uint sz" using sz(3) by (simp add: unsigned_ucast_eq take_bit_int_eq_self)
  have t': "0 < uint ?t" "uint ?t \<le> 2 ^ 31" using t sz by (simp_all add: word_less_def word_le_def)
  have sz0: "sz \<noteq> 0" "al \<noteq> 0" using sz(1,2) by auto
  obtain m where m: "caller_mm s c = Some m" using k(2) by auto
  obtain l h where l: "pool_table (kcpooltbl m) i s = (Some l, s\<lparr>sy_host := h\<rparr>)" "host_ok h" "i < length l" "pool_size (l ! i) = 0"
      "\<And>j p. pool_of s c j = Some p \<Longrightarrow> j < length l \<and> l ! j = p"
    by (rule pool_table_ok [OF assms(2,4) m]) (rule that; assumption)
  define s2 where "s2 = set_pools c (Some l) (s\<lparr>sy_host := h\<rparr>)"
  note k2 = kernel_ok_set_pools [OF kernel_ok_host(1) [OF assms(1), of h], where l = "Some l", folded s2_def]
  have ho: "host_ok (sy_host s2)" and dv: "devs s2 = devs s" using l(2) by (simp_all add: s2_def set_pools_def)
  obtain f s3 where A: "kernel_alloc_contiguous_region s2 c ?t = (Some (kernel_vaddr_from_fpn f, PAGING64_PAGE_ALIGNSZ ?t), s3)"
      "?fr f \<subseteq> set (free_fp_list (devs s 0))" "uint f + pages_of ?t \<le> 524288"
      "vm_inv w (Pair False ` K \<union> Pair False ` ?fr f) s3" "vbyte w s3 = vbyte w s2" "calm s2 s3"
      "devs s3 = devs (upd_dev 0 (taken f (pages_of ?t) (devs s 0)) s2)"
      "\<forall>g \<in> ?fr f. pte_get_entry s3 c (kpage g) = pte_of_fpn g"
      "\<forall>q. push_bit 12 q \<notin> (push_bit 12 \<circ> kpage) ` ?fr f \<longrightarrow> pte_get_entry s3 c q = pte_get_entry s2 c q"
    using kernel_alloc_region_ok [OF kernel_okD(1,2) [OF k2(1)] ho t'] free unfolding dv by blast
  note more = kernel_ok_more [OF k2(1) A(2) [folded dv] A(4,6,8,9)]
  let ?base = "kernel_vaddr_from_fpn f"
  let ?slots = "map (\<lambda>j. ?base + addr_of_int (int32 (int j * sint al))) [0..<nat (int ?n)]"
  let ?slab = "\<lparr>slab_start = ?base, slot_size = sint al, slot_count = int ?n, free_count = int ?n, free_list = ?slots\<rparr>"
  obtain h3 where h3: "create_cache_slab s3 ?base (sint al) (int ?n) = (Some ?slab, s3\<lparr>sy_host := h3\<rparr>)"
    using create_cache_slab_ok [of s3 "int ?n" ?base "sint al"] calmD(2) [OF A(6) ho] ar(5) by auto
  let ?p = "\<lparr>pool_size = int ?n * uint al, pool_align = uint al, pool_slot_count = int ?n, pool_storage = ?base,
      pool_alloc_size = PAGING64_PAGE_ALIGNSZ ?t, pool_empty = [?slab], pool_partial = [], pool_full = []\<rparr>"
  define s' where "s' = set_pools c (Some (l[i := ?p])) (s3\<lparr>sy_host := h3\<rparr>)"
  note k' = kernel_ok_set_pools [OF kernel_ok_host(1) [OF more(1), of h3], where l = "Some (l[i := ?p])", folded s'_def]
  have run: "libkmem_cache_pool_create s c sz al (of_nat i) = (0, s')"
    using m assms(3) sz0 ar(2,3,4,5,7) l(1,3,4) A(1) h3
    by (simp add: libkmem_cache_pool_create_def small_index(2) Let_def s2_def [symmetric] s'_def)
  have slots: "?slots = map (\<lambda>j. ?base + addr_of_int (int j * uint al)) [0..<?n]"
  proof -
    have "int32 (int j * uint al) = int j * uint al" if "j < ?n" for j
    proof -
      have "int j * uint al \<le> int ?n * uint al" using that by (intro mult_right_mono) simp_all
      then show ?thesis using ar(6) sz(3) order_trans [of "- 2147483648" 0 "int j * uint al"] by (intro int32_id) simp_all
    qed
    then show ?thesis unfolding ar(3) by simp
  qed
  have mm3: "caller_mm s3 c \<noteq> None" using calmD(6) [OF A(6)] k2(1) by (simp add: kernel_ok_def)
  have po: "pool_of s' c j = (if j < length l then Some (l[i := ?p] ! j) else None)" for j
    using mm3 by (auto simp: pool_of_def s'_def set_pools_def)
  have sy: "symrg s' c j = symrg s c j" for j
  proof -
    have "symrg s' c j = symrg s3 c j" by (auto simp: symrg_def s'_def set_pools_def split: option.splits)
    also have "\<dots> = symrg s2 c j" by (rule symrg_calm [OF A(6)])
    also have "\<dots> = symrg s c j" by (auto simp: symrg_def s2_def set_pools_def split: option.splits)
    finally show ?thesis .
  qed
  have vb: "vbyte w s' = vbyte w s" using k'(2) A(5) k2(2) kernel_ok_host(2) [OF more(1)] kernel_ok_host(2) [OF assms(1)] by simp
  have kb: "kbyte K s' = kbyte K s"
    using k'(3) k2(3) kernel_ok_host(3) [OF more(1)] A(7) by (simp add: kbyte_def taken_def fun_eq_iff)
  have pk: "pool_ok ?p" using ar(5) by (simp add: pool_ok_def)
  have ps: "pool_slots ?p = map (\<lambda>j. ?base + addr_of_int (int j * uint al)) [0..<?n]" unfolding slots [symmetric] by (simp add: pool_slots_def)
  show ?thesis
    by (intro exI [of _ f] exI [of _ s'] exI [of _ ?p] conjI allI impI run k'(1) vb kb pk ps sy new_region_bytes [OF A(3) t'])
       (use A(2) more(2) po l(3,5) in auto)
qed

section \<open>Allocating from a pool\<close>

lemma kmem_cache_alloc_run:
  assumes "pool_of s c i = Some p" "pool_size p \<noteq> 0" "i < PAGING_MAX_SYMTBL_SZ"
    and "symrg s c r = Some q" "rg_start q = 0" "rg_end q = 0" "r < PAGING_MAX_SYMTBL_SZ" "cache_take p = Some (a, p')"
  obtains s' where "kmem_cache_alloc s c (int r) (int i) = (Some a, s')" "pool_of s' c i = Some p'"
    "\<And>j. symrg s' c j = (if j = r then Some \<lparr>rg_start = a, rg_end = a + addr_of_int (pool_size p), vmaid = 0\<rparr> else symrg s c j)"
proof -
  obtain m where m: "caller_mm s c = Some m" "r < length (symrgtbl m)" "symrgtbl m ! r = q"
    using assms(4) by (auto simp: symrg_def split: option.splits if_splits)
  obtain l where l: "kcpooltbl m = Some l" "i < length l" "l ! i = p"
    using assms(1) m(1) by (auto simp: pool_of_def split: option.splits if_splits)
  let ?R = "\<lparr>rg_start = a, rg_end = a + addr_of_int (pool_size p), vmaid = 0\<rparr>"
  let ?s = "set_symrg c r ?R (set_pools c (Some (l[i := p'])) s)"
  have "kmem_cache_alloc s c (int r) (int i) = (Some a, ?s)"
    using m l assms by (simp add: kmem_cache_alloc_def Let_def)
  moreover have "pool_of ?s c i = Some p'" using m l by (simp add: pool_of_def set_symrg_def set_pools_def)
  moreover have "symrg ?s c j = (if j = r then Some ?R else symrg s c j)" for j
    using m by (simp add: symrg_def set_symrg_def set_pools_def)
  ultimately show thesis by (rule that)
qed

section \<open>Properties\<close>

text \<open>
  C25: A cache pool is a list of free slots. However the slabs move between the empty, partial and full list,
  taking a slot from a pool takes the head of its list of free slots and fails exactly when the list is empty; taking \<open>n\<close>
  slots delivers the first \<open>n\<close>, and the invariant of the three lists is kept.
\<close>

theorem cache_pool_refines_list:
  assumes "pool_ok p"
  shows "map_option (\<lambda>(a, p'). (a, pool_slots p')) (cache_take p) = (case pool_slots p of [] \<Rightarrow> None | a # l \<Rightarrow> Some (a, l)) \<and>
    (\<forall>a p'. cache_take p = Some (a, p') \<longrightarrow> pool_ok p') \<and>
    (\<forall>n l q. take_slots n p = (l, q) \<longrightarrow> l = take n (pool_slots p) \<and> pool_slots q = drop n (pool_slots p) \<and> pool_ok q)"
  using cache_take_pop [OF assms] take_slots_take [OF assms] by (cases "cache_take p") (auto split: prod.splits)

definition demo_slab :: kmem_cache_slab_struct where
  "demo_slab = \<lparr>slab_start = 0x1000, slot_size = 32, slot_count = 2, free_count = 2, free_list = [0x1000, 0x1020]\<rparr>"

definition demo_pool :: kcache_pool_struct where
  "demo_pool = \<lparr>pool_size = 64, pool_align = 32, pool_slot_count = 2, pool_storage = 0x1000, pool_alloc_size = 4096,
     pool_empty = [demo_slab], pool_partial = [], pool_full = []\<rparr>"

theorem cache_pool_refines_list_witness:
  "pool_ok demo_pool \<and> (\<exists>q. take_slots 2 demo_pool = ([0x1000, 0x1020], q) \<and> pool_slots q = [] \<and> cache_take q = None)"
proof -
  have ok: "pool_ok demo_pool" and sl: "pool_slots demo_pool = [0x1000, 0x1020]"
    by (simp_all add: pool_ok_def pool_slots_def demo_pool_def demo_slab_def)
  obtain l q where t: "take_slots 2 demo_pool = (l, q)" by (cases "take_slots 2 demo_pool")
  from cache_pool_refines_list [OF ok] t have "l = take 2 (pool_slots demo_pool) \<and> pool_slots q = drop 2 (pool_slots demo_pool) \<and> pool_ok q"
    by blast
  then have q: "l = [0x1000, 0x1020]" "pool_slots q = []" "pool_ok q" by (simp_all add: sl)
  from cache_pool_refines_list [OF q(3)] q(2) have "cache_take q = None" by simp
  with ok t q(1,2) show ?thesis by blast
qed

text \<open>
  C26: Creating a pool. For sizes below 2 GiB, with memory on the host, a free pool number and enough consecutive free
  frames, \<open>libkmem_cache_pool_create\<close> returns 0. The storage of the pool is a fresh kernel region, its free slots are the
  addresses at multiples of the alignment, as many as fit, the other pools and the symbol table stay, and no byte of any
  process or of the kernel changes.
\<close>

theorem cache_pool_created:
  assumes "kernel_ok w K s c" "host_ok (sy_host s)" "i < PAGING_MAX_SYMTBL_SZ"
    and "pool_of s c i = None \<or> (\<exists>p. pool_of s c i = Some p \<and> pool_size p = 0)"
    and "0 < al" "al \<le> sz" "uint sz < 2 ^ 31"
    and "\<exists>f. frames f (pages_of (ucast sz)) \<subseteq> set (free_fp_list (devs s 0))"
  shows "\<exists>f s' p. libkmem_cache_pool_create s c sz al (of_nat i) = (0, s') \<and>
    frames f (pages_of (ucast sz)) \<subseteq> set (free_fp_list (devs s 0)) - K \<and>
    kernel_ok w (K \<union> frames f (pages_of (ucast sz))) s' c \<and> vbyte w s' = vbyte w s \<and> kbyte K s' = kbyte K s \<and>
    krg (frames f (pages_of (ucast sz))) \<lparr>rg_start = kernel_vaddr_from_fpn f, rg_end = kernel_vaddr_from_fpn f + ucast sz, vmaid = 0\<rparr> \<and>
    pool_of s' c i = Some p \<and> pool_ok p \<and> pool_size p = int (unat sz div unat al) * uint al \<and>
    pool_slots p = map (\<lambda>j. kernel_vaddr_from_fpn f + addr_of_int (int j * uint al)) [0..<unat sz div unat al] \<and>
    (\<forall>j q. j \<noteq> i \<and> pool_of s c j = Some q \<longrightarrow> pool_of s' c j = Some q) \<and> (\<forall>j. symrg s' c j = symrg s c j)"
  using assms by (rule pool_create_ok)

theorem cache_pool_created_witness:
  "\<exists>f s' p. libkmem_cache_pool_create demo_heap 1 100 32 7 = (0, s') \<and> pool_of s' 1 7 = Some p \<and>
     pool_slots p = map (\<lambda>j. kernel_vaddr_from_fpn f + addr_of_int (int j * 32)) [0..<3]"
proof -
  have none: "pool_of demo_heap 1 7 = None" by (simp add: pool_of_def demo_heap_def demo_sys_caller demo_mm_def)
  have "frames 0 1 \<subseteq> set (free_fp_list (devs demo_heap 0))" unfolding demo_kernel(4) by (simp add: frames_def lessThan_Suc)
  then have "\<exists>f. frames f (pages_of (ucast (100 :: uint32))) \<subseteq> set (free_fp_list (devs demo_heap 0))"
    by (intro exI [of _ 0]) (simp add: pages_of_def)
  from cache_pool_created [OF demo_kernel(1) demo_heap_inv(3) _ disjI1 [OF none] _ _ _ this, of 32]
  show ?thesis by (simp add: PAGING_MAX_SYMTBL_SZ_def del: One_nat_def upt_rec_numeral) blast
qed

text \<open>
  C37: Slots of a pool overlap. \<open>__kmem_cache_alloc\<close> ends the region of a slot at its address plus the size of the whole
  pool, not of the slot. Two slots taken one after the other are different addresses, but the second lies in the
  region of the first, so writing one object overwrites the other.
\<close>

theorem cache_regions_overlap:
  assumes "pool_of s c i = Some p" "pool_ok p" "i < PAGING_MAX_SYMTBL_SZ"
    and "pool_slots p = a # b # l" "uint a < uint b" "uint b < uint a + pool_size p" "uint b + pool_size p < 2 ^ 64"
    and "r \<noteq> r'" "r < PAGING_MAX_SYMTBL_SZ" "r' < PAGING_MAX_SYMTBL_SZ" "symrg s c r = Some no_rg" "symrg s c r' = Some no_rg"
  shows "\<exists>s1 s2 R R'. kmem_cache_alloc s c (int r) (int i) = (Some a, s1) \<and> kmem_cache_alloc s1 c (int r') (int i) = (Some b, s2) \<and>
    symrg s2 c r = Some R \<and> symrg s2 c r' = Some R' \<and> rg_start R = a \<and> rg_start R' = b \<and> b \<in> sym_bytes R \<inter> sym_bytes R'"
proof -
  have pos: "0 < pool_size p" using assms(5,6) by linarith
  obtain p1 where p1: "cache_take p = Some (a, p1)" "pool_slots p1 = b # l" "pool_ok p1" "pool_size p1 = pool_size p"
    using cache_take_pop [OF assms(2)] assms(4) by (cases "cache_take p") auto
  obtain p2 where p2: "cache_take p1 = Some (b, p2)"
    using cache_take_pop [OF p1(3)] p1(2) by (cases "cache_take p1") auto
  let ?R = "\<lambda>a. \<lparr>rg_start = a, rg_end = a + addr_of_int (pool_size p), vmaid = 0\<rparr>"
  obtain s1 where s1: "kmem_cache_alloc s c (int r) (int i) = (Some a, s1)" "pool_of s1 c i = Some p1"
      "\<And>j. symrg s1 c j = (if j = r then Some (?R a) else symrg s c j)"
    by (rule kmem_cache_alloc_run [OF assms(1) _ assms(3,11) _ _ assms(9) p1(1)]) (use pos in \<open>auto simp: no_rg_def\<close>)
  have n: "symrg s1 c r' = Some no_rg" using s1(3) assms(8,12) by simp
  obtain s2 where s2: "kmem_cache_alloc s1 c (int r') (int i) = (Some b, s2)"
      "\<And>j. symrg s2 c j = (if j = r' then Some (?R b) else symrg s1 c j)"
    by (rule kmem_cache_alloc_run [OF s1(2) _ assms(3) n _ _ assms(10) p2]) (use pos p1(4) in \<open>auto simp: no_rg_def\<close>)
  have "0 \<le> uint b" by simp
  with assms(7) have "pool_size p < 2 ^ 64" by linarith
  with pos have sz: "uint (addr_of_int (pool_size p)) = pool_size p" by (intro uint_addr_of_int) auto
  have "uint (a + addr_of_int (pool_size p)) = uint a + pool_size p" "uint (b + addr_of_int (pool_size p)) = uint b + pool_size p"
    using sz assms(5,7) by (auto intro!: uint_add_small [THEN trans])
  then have "b \<in> sym_bytes (?R a) \<inter> sym_bytes (?R b)"
    using assms(5,6) pos by (simp add: sym_bytes_def word_le_def word_less_def)
  moreover have "symrg s2 c r = Some (?R a)" "symrg s2 c r' = Some (?R b)" using s1(3) s2(2) assms(8) by simp_all
  ultimately show ?thesis using s1(1) s2(1) by fastforce
qed

theorem cache_regions_overlap_witness:
  "\<exists>s s1 s2 R R'. kmem_cache_alloc s 1 3 0 = (Some 0x1000, s1) \<and> kmem_cache_alloc s1 1 4 0 = (Some 0x1020, s2) \<and>
     symrg s2 1 3 = Some R \<and> symrg s2 1 4 = Some R' \<and> 0x1020 \<in> sym_bytes R \<inter> sym_bytes R'"
proof -
  let ?s = "set_pools 1 (Some [demo_pool]) demo_heap"
  have p: "pool_of ?s 1 0 = Some demo_pool" "pool_ok demo_pool" "pool_slots demo_pool = 0x1000 # 0x1020 # []"
    by (simp_all add: pool_of_def set_pools_def demo_heap_def demo_sys_caller pool_ok_def pool_slots_def demo_pool_def demo_slab_def)
  have r: "symrg ?s 1 3 = Some no_rg" "symrg ?s 1 4 = Some no_rg"
    by (simp_all add: symrg_def set_pools_def demo_heap_def demo_sys_caller PAGING_MAX_SYMTBL_SZ_def)
  show ?thesis
    using cache_regions_overlap [OF p(1,2) _ p(3), of 3 4] r by (simp add: PAGING_MAX_SYMTBL_SZ_def demo_pool_def del: One_nat_def) blast
qed

end
