(* ===== verification/Kernel_Copy.thy ===== *)
theory Kernel_Copy
  imports Kernel_Memory
begin

text \<open>
  Copying between user and kernel regions. The loop is proved once, for a source and a destination
  given by their laws, and interpreted for both directions.
\<close>

section \<open>Copying\<close>

text \<open>The offsets of a copy that does not wrap around are distinct.\<close>

lemma copy_offsets:
  fixes off :: uint32
  assumes "unat off + n \<le> 2 ^ 32" "l < n"
  shows "ucast (off + of_nat l) = (ucast off + of_nat l :: addr)"
proof -
  have l: "unat off + l < 4294967296" using assms by simp
  then have "unat (of_nat l :: uint32) = l" by (simp add: unsigned_of_nat take_bit_nat_eq_self)
  then have "unat (off + of_nat l) = unat off + l" using l by (simp add: unat_word_ariths)
  moreover have "unat (ucast off + of_nat l :: addr) = unat off + l"
    using l by (simp add: unat_word_ariths unsigned_of_nat take_bit_nat_eq_self unsigned_ucast_eq)
  ultimately show ?thesis using l by (simp add: word_unat_eq_iff unsigned_ucast_eq take_bit_nat_eq_self)
qed

lemma copy_offsets_inj:
  fixes off :: uint32
  assumes "unat off + n \<le> 2 ^ 32" "j < n" "l < n" "ucast off + of_nat j = (ucast off + of_nat l :: addr)"
  shows "j = l"
proof -
  have "j < 2 ^ 64" "l < 2 ^ 64" using assms(1-3) by simp_all
  moreover have "(of_nat j :: addr) = of_nat l" using assms(4) by (rule add_left_imp_eq)
  ultimately show ?thesis by (simp add: word_unat_eq_iff unsigned_of_nat take_bit_nat_eq_self)
qed

text \<open>
  What the copy loops rely on: a source that delivers the byte of its view and changes neither view, a
  destination that changes the byte at one location of its view or nothing, and accesses that
  cannot fail (\<open>ready\<close>).
\<close>

locale copy_ports =
  fixes rd :: "sys \<Rightarrow> addr \<Rightarrow> (byte option \<times> sys) option"
    and wr :: "sys \<Rightarrow> addr \<Rightarrow> byte \<Rightarrow> (int \<times> sys) option"
    and inv :: "sys \<Rightarrow> bool"
    and sview :: "sys \<Rightarrow> 'k \<Rightarrow> byte option" and sloc :: "addr \<Rightarrow> 'k"
    and dview :: "sys \<Rightarrow> 'l \<Rightarrow> byte option" and dloc :: "addr \<Rightarrow> 'l"
    and ready :: "sys \<Rightarrow> addr \<Rightarrow> bool"
  assumes rd: "inv s \<Longrightarrow> \<exists>d s'. rd s x = Some (d, s') \<and> inv s' \<and> sview s' = sview s \<and> dview s' = dview s \<and>
      (\<forall>b. d = Some b \<longrightarrow> sview s (sloc x) = Some b)"
    and rd_ready: "inv s \<Longrightarrow> ready s x \<Longrightarrow> \<exists>b. rd s x = Some (Some b, s)"
    and wr: "inv s \<Longrightarrow> \<exists>e s'. wr s x b = Some (e, s') \<and> inv s' \<and> sview s' = sview s \<and>
      dview s' = (if e = 0 then (dview s)(dloc x \<mapsto> b) else dview s)"
    and wr_ready: "inv s \<Longrightarrow> ready s x \<Longrightarrow> \<exists>s'. wr s x b = Some (0, s') \<and> (\<forall>y. ready s y \<longrightarrow> ready s' y)"
begin

lemma copy_loop_copies:
  assumes "inv s" "\<And>j l. j < n \<Longrightarrow> l < n \<Longrightarrow> dloc (ucast (off + of_nat (idx + j))) = dloc (ucast (off + of_nat (idx + l))) \<Longrightarrow> j = l"
  shows "\<exists>r s'. copy_loop rd wr s off idx n = Some (r, s') \<and> inv s' \<and> sview s' = sview s \<and> (r = 0 \<or> r = -1) \<and>
    (\<forall>k. (\<forall>j < n. k \<noteq> dloc (ucast (off + of_nat (idx + j)))) \<longrightarrow> dview s' k = dview s k) \<and>
    (r = 0 \<longrightarrow> (\<forall>j < n. sview s (sloc (ucast (off + of_nat (idx + j)))) \<noteq> None \<and>
       dview s' (dloc (ucast (off + of_nat (idx + j)))) = sview s (sloc (ucast (off + of_nat (idx + j)))))) \<and>
    ((\<forall>j < n. ready s (ucast (off + of_nat (idx + j)))) \<longrightarrow> r = 0)"
  using assms
proof (induction n arbitrary: s idx)
  case (Suc n)
  let ?x = "ucast (off + of_nat idx)"
  obtain d s1 where r: "rd s ?x = Some (d, s1)" "inv s1" "sview s1 = sview s" "dview s1 = dview s"
      "\<And>b. d = Some b \<Longrightarrow> sview s (sloc ?x) = Some b"
    using rd [OF Suc.prems(1), of ?x] by blast
  have ready0: "d \<noteq> None \<and> s1 = s" if "\<forall>j < Suc n. ready s (ucast (off + of_nat (idx + j)))"
    using rd_ready [OF Suc.prems(1), of ?x] spec [OF that, of 0] r(1) by auto
  show ?case
  proof (cases d)
    case None
    with r ready0 show ?thesis by auto
  next
    case (Some b)
    obtain e s2 where w: "wr s1 ?x b = Some (e, s2)" "inv s2" "sview s2 = sview s1"
        "dview s2 = (if e = 0 then (dview s1)(dloc ?x \<mapsto> b) else dview s1)"
      using wr [OF r(2), of ?x b] by blast
    have ready1: "e = 0 \<and> (\<forall>j < Suc n. ready s2 (ucast (off + of_nat (idx + j))))"
      if "\<forall>j < Suc n. ready s (ucast (off + of_nat (idx + j)))"
      using wr_ready [OF r(2), of ?x b] spec [OF that, of 0] ready0 [OF that] w(1) that by auto
    show ?thesis
    proof (cases "e = 0")
      case False
      with r w Some ready1 show ?thesis by auto
    next
      case True
      have dis: "j = l" if "j < n" "l < n" "dloc (ucast (off + of_nat (idx + 1 + j))) = dloc (ucast (off + of_nat (idx + 1 + l)))" for j l
        using Suc.prems(2) [of "Suc j" "Suc l"] that by simp
      have new: "dloc (ucast (off + of_nat (idx + 1 + j))) \<noteq> dloc ?x" if "j < n" for j
        using Suc.prems(2) [of "Suc j" 0] that by auto
      obtain r' s' where I: "copy_loop rd wr s2 off (idx + 1) n = Some (r', s')" "inv s'" "sview s' = sview s2" "r' = 0 \<or> r' = -1"
          "\<And>k. (\<forall>j < n. k \<noteq> dloc (ucast (off + of_nat (idx + 1 + j)))) \<Longrightarrow> dview s' k = dview s2 k"
          "r' = 0 \<longrightarrow> (\<forall>j < n. sview s2 (sloc (ucast (off + of_nat (idx + 1 + j)))) \<noteq> None \<and>
             dview s' (dloc (ucast (off + of_nat (idx + 1 + j)))) = sview s2 (sloc (ucast (off + of_nat (idx + 1 + j)))))"
          "(\<forall>j < n. ready s2 (ucast (off + of_nat (idx + 1 + j)))) \<longrightarrow> r' = 0"
        using Suc.IH [OF w(2) dis] by blast
      have run: "copy_loop rd wr s off idx (Suc n) = Some (r', s')" using r(1) w(1) Some True I(1) by simp
      have fst: "dview s' (dloc ?x) = Some b" using I(5) [of "dloc ?x"] new w(4) True by (metis fun_upd_same)
      have out: "dview s' k = dview s k" if "\<forall>j < Suc n. k \<noteq> dloc (ucast (off + of_nat (idx + j)))" for k
      proof -
        have "k \<noteq> dloc (ucast (off + of_nat (idx + 1 + j)))" if "j < n" for j
          using spec [OF \<open>\<forall>j < Suc n. _ j\<close>, of "Suc j"] that by simp
        moreover have "k \<noteq> dloc ?x" using spec [OF that, of 0] by simp
        ultimately show ?thesis using I(5) [of k] w(4) True r(4) by simp
      qed
      have val: "sview s (sloc (ucast (off + of_nat (idx + j)))) \<noteq> None \<and>
          dview s' (dloc (ucast (off + of_nat (idx + j)))) = sview s (sloc (ucast (off + of_nat (idx + j))))"
        if "r' = 0" "j < Suc n" for j
      proof (cases j)
        case 0
        then show ?thesis using r(5) [OF Some] fst by simp
      next
        case (Suc l)
        then have l: "l < n" and j: "idx + j = idx + 1 + l" using that(2) by simp_all
        from mp [OF spec [OF mp [OF I(6) that(1)]] l] show ?thesis unfolding j w(3) r(3) .
      qed
      have "r' = 0" if "\<forall>j < Suc n. ready s (ucast (off + of_nat (idx + j)))"
      proof -
        have "ready s2 (ucast (off + of_nat (idx + 1 + j)))" if "j < n" for j
          using spec [OF conjunct2 [OF ready1 [OF \<open>\<forall>j < Suc n. _ j\<close>]], of "Suc j"] that by simp
        then show ?thesis using I(7) by blast
      qed
      then show ?thesis
        using run I(2,4) I(3) [unfolded w(3) r(3)] out val by (intro exI [of _ r'] exI [of _ s'] conjI) blast+
    qed
  qed
qed auto

lemma copy_all:
  assumes "inv s" "unat off + n \<le> 2 ^ 32" "\<And>x y. dloc x = dloc y \<Longrightarrow> x = y"
  shows "\<exists>r s'. copy_loop rd wr s off 0 n = Some (r, s') \<and> inv s' \<and> sview s' = sview s \<and> (r = 0 \<or> r = -1) \<and>
    (\<forall>k. (\<forall>j < n. k \<noteq> dloc (ucast off + of_nat j)) \<longrightarrow> dview s' k = dview s k) \<and>
    (r = 0 \<longrightarrow> (\<forall>j < n. sview s (sloc (ucast off + of_nat j)) \<noteq> None \<and>
       dview s' (dloc (ucast off + of_nat j)) = sview s (sloc (ucast off + of_nat j)))) \<and>
    ((\<forall>j < n. ready s (ucast off + of_nat j)) \<longrightarrow> r = 0)"
proof -
  note co = copy_offsets [OF assms(2)]
  have inj: "j = l" if "j < n" "l < n" "dloc (ucast (off + of_nat (0 + j))) = dloc (ucast (off + of_nat (0 + l)))" for j l
    using copy_offsets_inj [OF assms(2) that(1,2)] assms(3) [OF that(3)] co [OF that(1)] co [OF that(2)] by simp
  from copy_loop_copies [of s n off 0, OF assms(1) inj] show ?thesis by (simp add: co)
qed

end

text \<open>
  Both directions: entry \<open>i\<close> of the symbol table is a user region, entry \<open>j\<close> a kernel region.
\<close>

definition copy_state :: "nat \<Rightarrow> addr set \<Rightarrow> pptr \<Rightarrow> nat \<Rightarrow> vm_rg_struct \<Rightarrow> nat \<Rightarrow> vm_rg_struct \<Rightarrow> sys \<Rightarrow> bool" where
  "copy_state w K c i u j k s \<longleftrightarrow> kernel_ok w K s c \<and>
     symrg s c i = Some u \<and> i < PAGING_MAX_SYMTBL_SZ \<and> user_rg u \<and> uint (rg_end u) < 2 ^ 55 \<and>
     symrg s c j = Some k \<and> j < PAGING_MAX_SYMTBL_SZ \<and> krg K k"

definition copy_ready :: "pptr \<Rightarrow> vm_rg_struct \<Rightarrow> vm_rg_struct \<Rightarrow> sys \<Rightarrow> addr \<Rightarrow> bool" where
  "copy_ready c u k s x \<longleftrightarrow> x < rg_end u - rg_start u \<and> x < rg_end k - rg_start k \<and>
     (\<exists>f. user_slot s c (drop_bit 12 (rg_start u + x)) = Some (False, f))"

lemma copy_state_step:
  assumes "copy_state w K c i u j k s" "kernel_ok w K s' c" "\<And>l. symrg s' c l = symrg s c l"
  shows "copy_state w K c i u j k s'"
  using assms by (simp add: copy_state_def)

lemma user_access_region:
  assumes "copy_state w K c i u j k s"
  shows "user_access s c (int i) x = (if x < rg_end u - rg_start u then Some (rg_start u + x) else None)"
    "x < rg_end u - rg_start u \<Longrightarrow> \<not> is_kernel_address (rg_start u + x)"
proof -
  from assms have u: "symrg s c i = Some u" "i < PAGING_MAX_SYMTBL_SZ" "user_rg u" "uint (rg_end u) < 2 ^ 55"
    by (auto simp: copy_state_def)
  note ra = region_addr_user [OF u(3,4), of x]
  obtain m where m: "caller_mm s c = Some m" "i < length (symrgtbl m)" "symrgtbl m ! i = u"
    using u(1) by (auto simp: symrg_def split: option.splits if_splits)
  have "rg_start u < rg_end u" using u(3) by (simp add: user_rg_def)
  then have "user_access s c (int i) x = region_addr u x"
    using m u(2) by (auto simp: user_access_def region_addr_def get_symrg_byid_def Let_def)
  then show "user_access s c (int i) x = (if x < rg_end u - rg_start u then Some (rg_start u + x) else None)"
    using ra(1) by simp
  show "\<not> is_kernel_address (rg_start u + x)" if "x < rg_end u - rg_start u" using ra(2) [OF that] by simp
qed

lemma read_user_ok:
  assumes "copy_state w K c i u j k s"
  shows "\<exists>d s'. read_user_mem s c (int i) x = Some (d, s') \<and> copy_state w K c i u j k s' \<and> vbyte w s' = vbyte w s \<and>
    kbyte K s' = kbyte K s \<and> (\<forall>b. d = Some b \<longrightarrow> vbyte w s c (rg_start u + x) = Some b) \<and>
    (copy_ready c u k s x \<longrightarrow> d \<noteq> None \<and> s' = s)"
proof (cases "x < rg_end u - rg_start u")
  case True
  from assms have ok: "kernel_ok w K s c" by (simp add: copy_state_def)
  note ua = user_access_region [OF assms, of x]
  let ?a = "rg_start u + x"
  obtain d s' where p: "pg_getval s c ?a = Some (d, s')" "vm_inv w (Pair False ` K) s'" "vbyte w s' = vbyte w s" "calm s s'"
      "kept w (Pair False ` K) s s'" "\<forall>b. d = Some b \<longrightarrow> vbyte w s c ?a = Some b"
      "\<forall>f. user_slot s c (drop_bit 12 ?a) = Some (False, f) \<longrightarrow> d = vbyte w s c ?a \<and> s' = s"
    using pg_getval_ok [OF kernel_okD(1) [OF ok] ua(2) [OF True], of c] by blast
  note kk = kernel_ok_kept [OF ok p(2,4,5)]
  have "copy_state w K c i u j k s'" by (rule copy_state_step [OF assms kk(1) symrg_calm [OF p(4)]])
  moreover have "kbyte K s' = kbyte K s" using kk(2) by (rule ext)
  moreover have "d \<noteq> None \<and> s' = s" if "copy_ready c u k s x" using that p(7) by (auto simp: copy_ready_def vbyte_def)
  ultimately show ?thesis using ua(1) True p(1,3,6) by (auto simp: read_user_mem_def)
next
  case False
  then show ?thesis using user_access_region(1) [OF assms, of x] assms by (auto simp: read_user_mem_def copy_ready_def)
qed

lemma write_user_ok:
  assumes "copy_state w K c i u j k s"
  shows "\<exists>e s'. write_user_mem s c (int i) x b = Some (e, s') \<and> copy_state w K c i u j k s' \<and> kbyte K s' = kbyte K s \<and>
    (\<forall>y a. vbyte w s' y a = (if e = 0 \<and> y = c \<and> a = rg_start u + x then Some b else vbyte w s y a)) \<and>
    (copy_ready c u k s x \<longrightarrow> e = 0 \<and> user_slot s' = user_slot s)"
proof (cases "x < rg_end u - rg_start u")
  case True
  from assms have ok: "kernel_ok w K s c" by (simp add: copy_state_def)
  note ua = user_access_region [OF assms, of x] and inv = kernel_okD(1) [OF ok]
  let ?a = "rg_start u + x"
  obtain e s' where p: "pg_setval s c ?a b = Some (e, s')" "vm_inv w (Pair False ` K) s'" "calm s s'" "kept w (Pair False ` K) s s'"
      "\<forall>y a. vbyte w s' y a = (if e = 0 \<and> y = c \<and> a = ?a then Some b else vbyte w s y a)"
    using pg_setval_ok [OF inv ua(2) [OF True], of c b] by blast
  note kk = kernel_ok_kept [OF ok p(2-4)]
  have "copy_state w K c i u j k s'" by (rule copy_state_step [OF assms kk(1) symrg_calm [OF p(3)]])
  moreover have "kbyte K s' = kbyte K s" using kk(2) by (rule ext)
  moreover have "e = 0 \<and> user_slot s' = user_slot s" if "copy_ready c u k s x"
  proof -
    from that obtain f where f: "user_slot s c (drop_bit 12 ?a) = Some (False, f)" by (auto simp: copy_ready_def)
    have "pg_getpage s c (drop_bit 12 ?a) = Some (Some f, s)"
      using pg_getpage_ok [OF inv, of "drop_bit 12 ?a" c] f ua(2) [OF True] by (auto simp: user_page_addr)
    moreover obtain s'' where "dev_write (Some 0) (f * PAGING64_PAGESZ + (?a AND PAGING64_ADDR_OFFST_MASK)) b s = Some (0, s'')"
        "user_slot s'' = user_slot s" using write_byte [OF inv f refl, of b] by blast
    ultimately show ?thesis using p(1) kernel_okD(3) [OF ok] by (simp add: pg_setval_def)
  qed
  ultimately show ?thesis using ua(1) True p(1,5) by (auto simp: write_user_mem_def)
next
  case False
  then show ?thesis using user_access_region(1) [OF assms, of x] assms by (auto simp: write_user_mem_def copy_ready_def)
qed

definition user_view :: "nat \<Rightarrow> sys \<Rightarrow> pptr \<times> addr \<Rightarrow> byte option" where
  "user_view w s = (\<lambda>(x, a). vbyte w s x a)"

interpretation from_user: copy_ports
  "\<lambda>s. read_user_mem s c (int i)" "\<lambda>s. write_kernel_mem s c (int j)" "copy_state w K c i u j k"
  "user_view w" "\<lambda>x. (c, rg_start u + x)" "kbyte K" "\<lambda>x. rg_start k + x" "copy_ready c u k"
  for w K c i u j k
proof
  fix s x b assume st: "copy_state w K c i u j k s"
  show "\<exists>d s'. read_user_mem s c (int i) x = Some (d, s') \<and> copy_state w K c i u j k s' \<and> user_view w s' = user_view w s \<and>
      kbyte K s' = kbyte K s \<and> (\<forall>b. d = Some b \<longrightarrow> user_view w s (c, rg_start u + x) = Some b)"
    using read_user_ok [OF st, of x] by (auto simp: user_view_def)
  show "\<exists>b. read_user_mem s c (int i) x = Some (Some b, s)" if "copy_ready c u k s x"
    using read_user_ok [OF st, of x] that by auto
  from st have k: "kernel_ok w K s c" "symrg s c j = Some k" "krg K k" "j < PAGING_MAX_SYMTBL_SZ"
    by (auto simp: copy_state_def)
  obtain e s' where w: "write_kernel_mem s c (int j) x b = Some (e, s')" "kernel_ok w K s' c" "vbyte w s' = vbyte w s"
      "e = (if x < rg_end k - rg_start k then 0 else -1)" "\<forall>l. symrg s' c l = symrg s c l" "user_slot s' = user_slot s"
      "\<forall>a. kbyte K s' a = (if e = 0 \<and> a = rg_start k + x then Some b else kbyte K s a)"
    using write_kernel_ok [OF k, of x b] by blast
  have st': "copy_state w K c i u j k s'" by (rule copy_state_step [OF st w(2)]) (use w(5) in blast)
  have "kbyte K s' = (if e = 0 then (kbyte K s)(rg_start k + x \<mapsto> b) else kbyte K s)"
    using w(7) by (auto simp: fun_eq_iff)
  then show "\<exists>e s'. write_kernel_mem s c (int j) x b = Some (e, s') \<and> copy_state w K c i u j k s' \<and> user_view w s' = user_view w s \<and>
      kbyte K s' = (if e = 0 then (kbyte K s)(rg_start k + x \<mapsto> b) else kbyte K s)"
    using w(1,3) st' by (auto simp: user_view_def)
  show "\<exists>s'. write_kernel_mem s c (int j) x b = Some (0, s') \<and> (\<forall>y. copy_ready c u k s y \<longrightarrow> copy_ready c u k s' y)"
    if "copy_ready c u k s x"
    using that w(1,4,6) by (auto simp: copy_ready_def)
qed

interpretation to_user: copy_ports
  "\<lambda>s. read_kernel_mem s c (int j)" "\<lambda>s. write_user_mem s c (int i)" "copy_state w K c i u j k"
  "kbyte K" "\<lambda>x. rg_start k + x" "user_view w" "\<lambda>x. (c, rg_start u + x)" "copy_ready c u k"
  for w K c i u j k
proof
  fix s x b assume st: "copy_state w K c i u j k s"
  from st have k: "kernel_ok w K s c" "symrg s c j = Some k" "krg K k" "j < PAGING_MAX_SYMTBL_SZ"
    by (auto simp: copy_state_def)
  note rd = read_kernel_ok [OF k, of x]
  show "\<exists>d s'. read_kernel_mem s c (int j) x = Some (d, s') \<and> copy_state w K c i u j k s' \<and> kbyte K s' = kbyte K s \<and>
      user_view w s' = user_view w s \<and> (\<forall>b. d = Some b \<longrightarrow> kbyte K s (rg_start k + x) = Some b)"
    using rd st by auto
  show "\<exists>b. read_kernel_mem s c (int j) x = Some (Some b, s)" if "copy_ready c u k s x"
    using rd that k(3) region_offset [of "rg_start k" "rg_end k" x] by (auto simp: copy_ready_def kbyte_def krg_def sym_bytes_def)
  obtain e s' where w: "write_user_mem s c (int i) x b = Some (e, s')" "copy_state w K c i u j k s'" "kbyte K s' = kbyte K s"
      "\<forall>y a. vbyte w s' y a = (if e = 0 \<and> y = c \<and> a = rg_start u + x then Some b else vbyte w s y a)"
      "copy_ready c u k s x \<longrightarrow> e = 0 \<and> user_slot s' = user_slot s"
    using write_user_ok [OF st, of x b] by blast
  have "user_view w s' = (if e = 0 then (user_view w s)((c, rg_start u + x) \<mapsto> b) else user_view w s)"
    using w(4) by (auto simp: fun_eq_iff user_view_def)
  then show "\<exists>e s'. write_user_mem s c (int i) x b = Some (e, s') \<and> copy_state w K c i u j k s' \<and> kbyte K s' = kbyte K s \<and>
      user_view w s' = (if e = 0 then (user_view w s)((c, rg_start u + x) \<mapsto> b) else user_view w s)"
    using w(1,2,3) by blast
  show "\<exists>s'. write_user_mem s c (int i) x b = Some (0, s') \<and> (\<forall>y. copy_ready c u k s y \<longrightarrow> copy_ready c u k s' y)"
    if "copy_ready c u k s x"
    using that w(1,5) by (auto simp: copy_ready_def)
qed

section \<open>Properties\<close>

definition demo_user_rg :: vm_rg_struct where
  "demo_user_rg = \<lparr>rg_start = 0x2000, rg_end = 0x3000, vmaid = 0\<rparr>"

lemma demo_copy:
  obtains s K k where "copy_state 1 K 1 4 demo_user_rg 3 k s" "\<And>x. x < 100 \<Longrightarrow> copy_ready 1 demo_user_rg k s x"
proof -
  obtain s0 where s0: "vm_inv 1 {} s0" "user_slot s0 1 2 = Some (False, 0)" "caller_mm s0 1 \<noteq> None" "host_ok (sy_host s0)"
    "free_fp_list (devs s0 0) = [1]" by (rule demo_mapped)
  let ?T = "(replicate PAGING_MAX_SYMTBL_SZ no_rg)[4 := demo_user_rg]"
  define s1 where "s1 = upd_mm 1 (\<lambda>m. m\<lparr>symrgtbl := ?T\<rparr>) s0"
  have i: "vm_inv 1 {} s1" "user_slot s1 = user_slot s0" unfolding s1_def by (rule vm_inv_upd_mm [OF s0(1)], simp)+
  have k1: "kernel_ok 1 {} s1 1" using i(1) s0(3) by (simp add: kernel_ok_def s1_def)
  have sy: "symrg s1 1 3 = Some no_rg" "symrg s1 1 4 = Some demo_user_rg"
    using s0(3) by (auto simp: symrg_def s1_def PAGING_MAX_SYMTBL_SZ_def)
  have p: "pages_of 100 = 1" by (simp add: pages_of_def)
  have fr: "\<exists>f. frames f (pages_of 100) \<subseteq> set (free_fp_list (devs s1 0))"
    unfolding p using s0(5) by (intro exI [of _ 1]) (simp add: frames_def lessThan_Suc s1_def)
  obtain f s K k where m: "kernel_ok 1 (frames f (pages_of 100)) s 1" "k = \<lparr>rg_start = kernel_vaddr_from_fpn f, rg_end = kernel_vaddr_from_fpn f + 100, vmaid = 0\<rparr>"
    "krg (frames f (pages_of 100)) k" "\<forall>j. symrg s 1 j = (if j = 3 then Some k else symrg s1 1 j)" "user_slot s = user_slot s1"
    using kmalloc_ok [OF k1 _ sy(1), of 100, simplified if_P [OF fr]] s0(4)
    by (simp add: no_rg_def PAGING_MAX_SYMTBL_SZ_def s1_def del: One_nat_def) blast
  have "copy_state 1 (frames f (pages_of 100)) 1 4 demo_user_rg 3 k s"
    using m sy by (simp add: copy_state_def PAGING_MAX_SYMTBL_SZ_def user_rg_def demo_user_rg_def KMEM_VADDR_BASE_def)
  moreover have "copy_ready 1 demo_user_rg k s x" if "x < 100" for x
  proof -
    have "unat x < 100" using that by (simp add: word_less_nat_alt)
    then have "drop_bit 12 (0x2000 + x) = 2"
      by (simp add: word_unat_eq_iff unsigned_drop_bit_eq drop_bit_eq_div unat_word_ariths)
    moreover have "x < 4096" using that by (rule order.strict_trans) simp
    ultimately show ?thesis using that m(2,5) i(2) s0(2) by (simp add: copy_ready_def demo_user_rg_def)
  qed
  ultimately show thesis by (rule that)
qed

lemma demo_offsets: "l < 10 \<Longrightarrow> (ucast (5 :: uint32) + of_nat l :: addr) < 100"
  by (simp add: word_less_nat_alt unat_word_ariths unsigned_of_nat take_bit_nat_eq_self)

text \<open>
  C19: Copying from user memory. \<open>libkmem_copy_from_user\<close> returns 0 or -1 and changes no byte of any process; it
  changes only the bytes of the destination range in the kernel region. When it returns 0, these are the bytes of
  the source range. It returns 0 whenever the range lies in both regions and the pages of the source are
  resident.
\<close>

theorem copy_from_user_copies:
  assumes "copy_state w K c i u j k s" "unat off + unat n \<le> 2 ^ 32"
  shows "\<exists>r s'. libkmem_copy_from_user s c (of_nat i) (of_nat j) off n = Some (r, s') \<and>
    copy_state w K c i u j k s' \<and> vbyte w s' = vbyte w s \<and> (r = 0 \<or> r = -1) \<and>
    (\<forall>a. (\<forall>l < unat n. a \<noteq> rg_start k + (ucast off + of_nat l)) \<longrightarrow> kbyte K s' a = kbyte K s a) \<and>
    (r = 0 \<longrightarrow> (\<forall>l < unat n. vbyte w s c (rg_start u + (ucast off + of_nat l)) \<noteq> None \<and>
       kbyte K s' (rg_start k + (ucast off + of_nat l)) = vbyte w s c (rg_start u + (ucast off + of_nat l)))) \<and>
    ((\<forall>l < unat n. copy_ready c u k s (ucast off + of_nat l)) \<longrightarrow> r = 0)"
proof -
  have i: "i < PAGING_MAX_SYMTBL_SZ" "j < PAGING_MAX_SYMTBL_SZ" "caller_mm s c \<noteq> None"
    using assms(1) by (auto simp: copy_state_def kernel_ok_def)
  have run: "libkmem_copy_from_user s c (of_nat i) (of_nat j) off n =
      copy_loop (\<lambda>s. read_user_mem s c (int i)) (\<lambda>s. write_kernel_mem s c (int j)) s off 0 (unat n)"
    using i by (auto simp: libkmem_copy_from_user_def small_index)
  have v: "vbyte w s' = vbyte w s \<longleftrightarrow> user_view w s' = user_view w s" for s' by (auto simp: user_view_def fun_eq_iff)
  show ?thesis unfolding run v using from_user.copy_all [OF assms] by (simp add: user_view_def)
qed

theorem copy_from_user_copies_witness:
  "\<exists>s K k s'. copy_state 1 K 1 4 demo_user_rg 3 k s \<and> libkmem_copy_from_user s 1 4 3 5 10 = Some (0, s') \<and>
     kbyte K s' (rg_start k + 5) = vbyte 1 s 1 0x2005"
proof -
  obtain s K k where s: "copy_state 1 K 1 4 demo_user_rg 3 k s" "\<And>x. x < 100 \<Longrightarrow> copy_ready 1 demo_user_rg k s x"
    by (rule demo_copy) (rule that; assumption)
  from copy_from_user_copies [OF s(1), of 5 10] s(2) [OF demo_offsets] obtain s' where
    "libkmem_copy_from_user s 1 4 3 5 10 = Some (0, s')"
    "\<forall>l < 10. kbyte K s' (rg_start k + (5 + of_nat l)) = vbyte 1 s 1 (rg_start demo_user_rg + (5 + of_nat l))"
    by fastforce
  from this(1) spec [OF this(2), of 0] s(1) show ?thesis
    by (intro exI [of _ s] exI [of _ K] exI [of _ k] exI [of _ s']) (simp add: demo_user_rg_def)
qed

text \<open>
  C20: Copying to user memory. \<open>libkmem_copy_to_user\<close> returns 0 or -1 and changes no byte of the kernel; it
  changes only the bytes of the destination range of this process. When it returns 0, these are the bytes of the
  source range. It returns 0 whenever the range lies in both regions and the pages of the destination are
  resident.
\<close>

theorem copy_to_user_copies:
  assumes "copy_state w K c i u j k s" "unat off + unat n \<le> 2 ^ 32"
  shows "\<exists>r s'. libkmem_copy_to_user s c (of_nat j) (of_nat i) off n = Some (r, s') \<and>
    copy_state w K c i u j k s' \<and> kbyte K s' = kbyte K s \<and> (r = 0 \<or> r = -1) \<and>
    (\<forall>x a. (\<forall>l < unat n. (x, a) \<noteq> (c, rg_start u + (ucast off + of_nat l))) \<longrightarrow> vbyte w s' x a = vbyte w s x a) \<and>
    (r = 0 \<longrightarrow> (\<forall>l < unat n. kbyte K s (rg_start k + (ucast off + of_nat l)) \<noteq> None \<and>
       vbyte w s' c (rg_start u + (ucast off + of_nat l)) = kbyte K s (rg_start k + (ucast off + of_nat l)))) \<and>
    ((\<forall>l < unat n. copy_ready c u k s (ucast off + of_nat l)) \<longrightarrow> r = 0)"
proof -
  have i: "i < PAGING_MAX_SYMTBL_SZ" "j < PAGING_MAX_SYMTBL_SZ" "caller_mm s c \<noteq> None"
    using assms(1) by (auto simp: copy_state_def kernel_ok_def)
  have run: "libkmem_copy_to_user s c (of_nat j) (of_nat i) off n =
      copy_loop (\<lambda>s. read_kernel_mem s c (int j)) (\<lambda>s. write_user_mem s c (int i)) s off 0 (unat n)"
    using i by (auto simp: libkmem_copy_to_user_def small_index)
  show ?thesis unfolding run using to_user.copy_all [OF assms] by (simp add: user_view_def split_paired_all)
qed

theorem copy_to_user_copies_witness:
  "\<exists>s K k s'. copy_state 1 K 1 4 demo_user_rg 3 k s \<and> libkmem_copy_to_user s 1 3 4 5 10 = Some (0, s') \<and>
     vbyte 1 s' 1 0x2005 = kbyte K s (rg_start k + 5) \<and> vbyte 1 s' 2 0x2005 = vbyte 1 s 2 0x2005"
proof -
  obtain s K k where s: "copy_state 1 K 1 4 demo_user_rg 3 k s" "\<And>x. x < 100 \<Longrightarrow> copy_ready 1 demo_user_rg k s x"
    by (rule demo_copy) (rule that; assumption)
  from copy_to_user_copies [OF s(1), of 5 10] s(2) [OF demo_offsets] obtain s' where
    "libkmem_copy_to_user s 1 3 4 5 10 = Some (0, s')" "\<forall>x a. x \<noteq> 1 \<longrightarrow> vbyte 1 s' x a = vbyte 1 s x a"
    "\<forall>l < 10. vbyte 1 s' 1 (rg_start demo_user_rg + (5 + of_nat l)) = kbyte K s (rg_start k + (5 + of_nat l))"
    by fastforce
  from this(1,2) spec [OF this(3), of 0] s(1) show ?thesis
    by (intro exI [of _ s] exI [of _ K] exI [of _ k] exI [of _ s']) (simp add: demo_user_rg_def)
qed

end
