(* ===== verification/Timer.thy ===== *)
theory Timer
  imports OS_Prelude
begin

text \<open>
  The timer of src/timer.c: the threads of the CPUs and of the loader are devices that advance in
  common time slots. A device calls \<open>next_slot\<close> when its work of a slot is done and
  \<open>detach_event\<close> when it stops; the timer thread waits for every device, advances the clock
  and lets the devices go on.

  Each critical section of the source, between \<open>pthread_mutex_lock\<close> and
  \<open>pthread_mutex_unlock\<close>, is one atomic step of a thread. A loop around
  \<open>pthread_cond_wait\<close> is a step that is blocked until the awaited condition holds. The program
  counters of the threads are explicit, and an execution is any interleaving of the steps.
\<close>

section \<open>State\<close>

record timer_id_t =
  ev_done :: bool
  ev_fsh :: bool

text \<open>
  Where a device is: working in a slot, inside \<open>next_slot\<close> after the first critical section, or
  detached.
\<close>

datatype dev_pc = Working | Waiting | Detached

text \<open>
  Where the timer is: at the head of its loop, in the loop that waits for the devices that remain
  (with the counters \<open>fsh\<close> and \<open>event\<close>), in the loop that lets them continue, or returned.
\<close>

datatype timer_pc = Idle | Head | Collect "nat list" nat nat | Release "nat list" nat nat | Exited

text \<open>
  \<open>dev_list\<close> is the list of containers, newest first; a container is known by the number
  of its allocation. \<open>ticks\<close> and \<open>slots\<close> are not in the source: they count the turns of
  the timer and the completed calls of \<open>next_slot\<close>, and no step depends on them.
\<close>

record timer =
  dev_list :: "nat list"
  dev :: "nat \<Rightarrow> timer_id_t"
  clock :: "64 word"
  timer_started :: bool
  timer_stop :: bool
  dev_at :: "nat \<Rightarrow> dev_pc"
  timer_at :: timer_pc
  ticks :: nat
  slots :: "nat \<Rightarrow> nat"

section \<open>Operations\<close>

definition current_time :: "timer \<Rightarrow> 64 word" where
  "current_time t = clock t"

definition attach_event :: "timer \<Rightarrow> nat option \<times> timer" where
  "attach_event t =
     (if timer_started t then (None, t)
      else let d = length (dev_list t) in
        (Some d, t\<lparr>dev := (dev t)(d := \<lparr>ev_done = False, ev_fsh = False\<rparr>), dev_list := d # dev_list t\<rparr>))"

definition start_timer :: "timer \<Rightarrow> timer" where
  "start_timer t = t\<lparr>timer_started := True, timer_at := Head\<rparr>"

text \<open>\<open>next_slot\<close> is two steps of the device: it announces that it is done, and goes on when released.\<close>

definition next_slot_done :: "nat \<Rightarrow> timer \<Rightarrow> timer option" where
  "next_slot_done d t =
     (if dev_at t d = Working
      then Some (t\<lparr>dev := (dev t)(d := (dev t d)\<lparr>ev_done := True\<rparr>), dev_at := (dev_at t)(d := Waiting)\<rparr>)
      else None)"

definition next_slot_wait :: "nat \<Rightarrow> timer \<Rightarrow> timer option" where
  "next_slot_wait d t =
     (if dev_at t d = Waiting \<and> \<not> ev_done (dev t d)
      then Some (t\<lparr>dev_at := (dev_at t)(d := Working), slots := (slots t)(d := slots t d + 1)\<rparr>)
      else None)"

definition detach_event :: "nat \<Rightarrow> timer \<Rightarrow> timer option" where
  "detach_event d t =
     (if dev_at t d = Working
      then Some (t\<lparr>dev := (dev t)(d := (dev t d)\<lparr>ev_fsh := True\<rparr>), dev_at := (dev_at t)(d := Detached)\<rparr>)
      else None)"

text \<open>One step of \<open>timer_routine\<close>; \<open>None\<close> when the thread is blocked or has returned.\<close>

definition timer_routine :: "timer \<Rightarrow> timer option" where
  "timer_routine t =
     (case timer_at t of
        Idle \<Rightarrow> None
      | Head \<Rightarrow> Some (if timer_stop t then t\<lparr>timer_at := Exited\<rparr> else t\<lparr>timer_at := Collect (dev_list t) 0 0\<rparr>)
      | Collect temp fsh event \<Rightarrow>
          (case temp of
             [] \<Rightarrow> Some (t\<lparr>clock := clock t + 1, ticks := ticks t + 1, timer_at := Release (dev_list t) fsh event\<rparr>)
           | d # ds \<Rightarrow>
               if \<not> ev_done (dev t d) \<and> \<not> ev_fsh (dev t d) then None
               else Some (t\<lparr>timer_at := Collect ds (if ev_fsh (dev t d) then fsh + 1 else fsh) (event + 1)\<rparr>))
      | Release temp fsh event \<Rightarrow>
          (case temp of
             [] \<Rightarrow> Some (t\<lparr>timer_at := if fsh = event then Exited else Head\<rparr>)
           | d # ds \<Rightarrow> Some (t\<lparr>dev := (dev t)(d := (dev t d)\<lparr>ev_done := False\<rparr>), timer_at := Release ds fsh event\<rparr>))
      | Exited \<Rightarrow> None)"

text \<open>
  \<open>stop_timer\<close>, which \<open>main\<close> calls when it has joined every device thread: the flag is one step,
  and the list is freed when the timer thread has returned.
\<close>

definition stop_timer_flag :: "timer \<Rightarrow> timer option" where
  "stop_timer_flag t =
     (if timer_started t \<and> \<not> timer_stop t \<and> (\<forall>d\<in>set (dev_list t). dev_at t d = Detached) then Some (t\<lparr>timer_stop := True\<rparr>) else None)"

definition stop_timer_free :: "timer \<Rightarrow> timer option" where
  "stop_timer_free t =
     (if timer_stop t \<and> timer_at t = Exited then Some (t\<lparr>dev_list := []\<rparr>) else None)"

section \<open>Executions\<close>

text \<open>
  The steps that no device program has to decide: those of the timer, the return from
  \<open>next_slot\<close>, and the call of \<open>stop_timer\<close>. The steps of a device program are the call of
  \<open>next_slot\<close> and of \<open>detach_event\<close>.
\<close>

inductive internal :: "timer \<Rightarrow> timer \<Rightarrow> bool" where
  timer: "timer_routine t = Some t' \<Longrightarrow> internal t t'"
| resume: "d \<in> set (dev_list t) \<Longrightarrow> next_slot_wait d t = Some t' \<Longrightarrow> internal t t'"
| stop: "stop_timer_flag t = Some t' \<Longrightarrow> internal t t'"

inductive step :: "timer \<Rightarrow> timer \<Rightarrow> bool" where
  internal: "internal t t' \<Longrightarrow> step t t'"
| announce: "d \<in> set (dev_list t) \<Longrightarrow> next_slot_done d t = Some t' \<Longrightarrow> step t t'"
| detach: "d \<in> set (dev_list t) \<Longrightarrow> detach_event d t = Some t' \<Longrightarrow> step t t'"

inductive_cases internalE: "internal t t'"
inductive_cases stepE: "step t t'"

primrec attach_all :: "nat \<Rightarrow> timer \<Rightarrow> timer" where
  "attach_all 0 t = t"
| "attach_all (Suc n) t = attach_all n (snd (attach_event t))"

text \<open>The state in which the program begins, and the state in which \<open>main\<close> has started the timer.\<close>

definition new_timer :: timer where
  "new_timer = \<lparr>dev_list = [], dev = (\<lambda>_. \<lparr>ev_done = False, ev_fsh = False\<rparr>), clock = 0, timer_started = False,
     timer_stop = False, dev_at = (\<lambda>_. Working), timer_at = Idle, ticks = 0, slots = (\<lambda>_. 0)\<rparr>"

definition boot_timer :: "nat \<Rightarrow> timer" where
  "boot_timer n = start_timer (attach_all n new_timer)"

inductive reachable :: "nat \<Rightarrow> timer \<Rightarrow> bool" for n where
  boot: "reachable n (boot_timer n)"
| step: "reachable n t \<Longrightarrow> step t t' \<Longrightarrow> reachable n t'"

section \<open>The barrier invariant\<close>

text \<open>Whether the timer has passed the device in this turn: it is counted and not yet released.\<close>

definition counted :: "timer \<Rightarrow> nat \<Rightarrow> bool" where
  "counted t d \<longleftrightarrow> (case timer_at t of Collect ds _ _ \<Rightarrow> d \<notin> set ds | Release ds _ _ \<Rightarrow> d \<in> set ds | _ \<Rightarrow> False)"

definition releasing :: "timer \<Rightarrow> bool" where
  "releasing t \<longleftrightarrow> (case timer_at t of Release _ _ _ \<Rightarrow> True | _ \<Rightarrow> False)"

definition dev_ok :: "timer \<Rightarrow> nat \<Rightarrow> bool" where
  "dev_ok t d \<longleftrightarrow>
     (ev_fsh (dev t d) \<longleftrightarrow> dev_at t d = Detached) \<and>
     (case dev_at t d of
        Working \<Rightarrow> \<not> counted t d \<and> \<not> ev_done (dev t d) \<and> slots t d = ticks t
      | Waiting \<Rightarrow>
          if counted t d then ev_done (dev t d) \<and> slots t d + (if releasing t then 1 else 0) = ticks t
          else slots t d + (if ev_done (dev t d) then 0 else 1) = ticks t
      | Detached \<Rightarrow> True)"

definition all_detached :: "timer \<Rightarrow> nat set \<Rightarrow> bool" where
  "all_detached t D \<longleftrightarrow> (\<forall>d\<in>D. dev_at t d = Detached)"

definition count_ok :: "timer \<Rightarrow> bool" where
  "count_ok t \<longleftrightarrow>
     (case timer_at t of
        Collect ds f e \<Rightarrow> distinct ds \<and> set ds \<subseteq> set (dev_list t) \<and> f \<le> e \<and> (f = e \<longrightarrow> all_detached t (set (dev_list t) - set ds))
      | Release ds f e \<Rightarrow> distinct ds \<and> set ds \<subseteq> set (dev_list t) \<and> (f = e \<longrightarrow> all_detached t (set (dev_list t)))
      | Exited \<Rightarrow> all_detached t (set (dev_list t))
      | Idle \<Rightarrow> False
      | Head \<Rightarrow> True)"

definition timer_inv :: "nat \<Rightarrow> timer \<Rightarrow> bool" where
  "timer_inv n t \<longleftrightarrow>
     distinct (dev_list t) \<and> set (dev_list t) = {..<n} \<and> timer_started t \<and> clock t = of_nat (ticks t) \<and>
     count_ok t \<and> (\<forall>d<n. dev_ok t d) \<and> (timer_stop t \<longrightarrow> all_detached t {..<n})"

lemmas step_defs = timer_routine_def next_slot_done_def next_slot_wait_def detach_event_def stop_timer_flag_def

lemmas inv_defs = counted_def releasing_def dev_ok_def all_detached_def count_ok_def

lemma attach_all_inv:
  "\<not> timer_started t \<Longrightarrow> distinct (dev_list t) \<Longrightarrow> set (dev_list t) = {..<length (dev_list t)} \<Longrightarrow>
   let t' = attach_all n t in
     distinct (dev_list t') \<and> set (dev_list t') = {..<length (dev_list t) + n} \<and> \<not> timer_started t' \<and>
     dev_at t' = dev_at t \<and> clock t' = clock t \<and> ticks t' = ticks t \<and> slots t' = slots t \<and>
     timer_stop t' = timer_stop t \<and>
     (\<forall>d. dev t' d = dev t d \<or> dev t' d = \<lparr>ev_done = False, ev_fsh = False\<rparr>)"
proof (induction n arbitrary: t)
  case (Suc n)
  let ?t = "snd (attach_event t)"
  have l: "length (dev_list ?t) = Suc (length (dev_list t))" "\<not> timer_started ?t" "distinct (dev_list ?t)"
    "set (dev_list ?t) = {..<length (dev_list ?t)}"
    using Suc.prems by (auto simp: attach_event_def Let_def lessThan_Suc)
  have f: "dev_at ?t = dev_at t" "clock ?t = clock t" "ticks ?t = ticks t" "slots ?t = slots t"
    "timer_stop ?t = timer_stop t" "\<And>d. dev ?t d = dev t d \<or> dev ?t d = \<lparr>ev_done = False, ev_fsh = False\<rparr>"
    using Suc.prems by (auto simp: attach_event_def Let_def)
  show ?case using Suc.IH [OF l(2-4)] l(1) f by (simp add: Let_def) metis
qed simp

lemma boot_inv: "timer_inv n (boot_timer n)"
  using attach_all_inv [of new_timer n]
  by (auto simp: timer_inv_def boot_timer_def start_timer_def inv_defs new_timer_def Let_def)

lemma timer_inv_intro:
  assumes "timer_inv n t" "dev_list t' = dev_list t" "timer_started t'" "clock t' = of_nat (ticks t')" "count_ok t'"
    "\<And>d. d < n \<Longrightarrow> dev_ok t d \<Longrightarrow> dev_ok t' d" "timer_stop t' \<Longrightarrow> all_detached t' {..<n}"
  shows "timer_inv n t'"
  using assms by (auto simp: timer_inv_def)

lemma timer_step_inv:
  assumes i: "timer_inv n t" and m: "timer_routine t = Some t'"
  shows "timer_inv n t'"
proof (rule timer_inv_intro [OF i])
  have l: "distinct (dev_list t)" "set (dev_list t) = {..<n}" "timer_started t" "clock t = of_nat (ticks t)"
    "count_ok t" "timer_stop t \<Longrightarrow> all_detached t {..<n}" "\<And>d. d < n \<Longrightarrow> dev_ok t d"
    using i by (auto simp: timer_inv_def)
  have at: "dev_at t' = dev_at t" "timer_stop t' = timer_stop t"
    using m by (auto simp: timer_routine_def split: timer_pc.splits list.splits if_splits)
  show "dev_list t' = dev_list t" "timer_started t'" "clock t' = of_nat (ticks t')"
    using m l(3,4) by (auto simp: timer_routine_def split: timer_pc.splits list.splits if_splits)
  show "timer_stop t' \<Longrightarrow> all_detached t' {..<n}" using l(6) at by (simp add: all_detached_def)
  show "count_ok t'"
  proof (cases "timer_at t")
    case (Collect ds f e)
    show ?thesis
    proof (cases ds)
      case Nil
      then show ?thesis using m Collect l(1,5) by (auto simp: timer_routine_def count_ok_def all_detached_def)
    next
      case (Cons d ds')
      have "d < n" using l(2,5) Collect Cons by (auto simp: count_ok_def)
      then have "ev_fsh (dev t d) = (dev_at t d = Detached)" using l(7) by (simp add: dev_ok_def)
      then show ?thesis using m Collect Cons l(5)
        by (auto simp: timer_routine_def count_ok_def all_detached_def split: if_splits)
    qed
  next
    case Release
    then show ?thesis using m l(5) at
      by (auto simp: timer_routine_def count_ok_def all_detached_def split: list.splits)
  next
    case Head
    show ?thesis
    proof (cases "timer_stop t")
      case True
      then show ?thesis using m Head l(6) [OF True] l(2) by (auto simp: timer_routine_def count_ok_def all_detached_def)
    next
      case False
      then have "t' = t\<lparr>timer_at := Collect (dev_list t) 0 0\<rparr>" using m Head by (simp add: timer_routine_def)
      then show ?thesis using l(1) by (simp add: count_ok_def all_detached_def)
    qed
  qed (use m in \<open>auto simp: timer_routine_def\<close>)
  fix d assume d: "d < n" "dev_ok t d"
  show "dev_ok t' d"
  proof (cases "timer_at t")
    case (Collect ds f e)
    show ?thesis
    proof (cases ds)
      case Nil
      then have t': "t' = t\<lparr>clock := clock t + 1, ticks := ticks t + 1, timer_at := Release (dev_list t) f e\<rparr>"
        using m Collect by (simp add: timer_routine_def)
      have c: "counted t d" "counted t' d" "releasing t'" "\<not> releasing t"
        using d(1) l(2) Collect Nil by (simp_all add: counted_def releasing_def t')
      show ?thesis using d(2) c by (cases "dev_at t d") (simp_all add: dev_ok_def t')
    next
      case (Cons d' ds')
      then have t': "t' = t\<lparr>timer_at := Collect ds' (if ev_fsh (dev t d') then f + 1 else f) (e + 1)\<rparr>"
        and b: "ev_done (dev t d') \<or> ev_fsh (dev t d')"
        using m Collect by (auto simp: timer_routine_def split: if_splits)
      have c: "counted t' d \<longleftrightarrow> counted t d \<or> d = d'" "\<not> counted t d'" "\<not> releasing t'" "\<not> releasing t"
        using l(5) Collect Cons by (auto simp: counted_def releasing_def count_ok_def t')
      show ?thesis using d(2) b c by (cases "d = d'"; cases "dev_at t d"; cases "counted t d") (auto simp: dev_ok_def t')
    qed
  next
    case (Release ds f e)
    show ?thesis
    proof (cases ds)
      case Nil
      then show ?thesis using m Release d
        by (cases "dev_at t d") (auto simp: timer_routine_def dev_ok_def counted_def releasing_def split: if_splits)
    next
      case (Cons d' ds')
      then have t': "t' = t\<lparr>dev := (dev t)(d' := (dev t d')\<lparr>ev_done := False\<rparr>), timer_at := Release ds' f e\<rparr>"
        using m Release by (simp add: timer_routine_def)
      have c: "counted t d \<longleftrightarrow> counted t' d \<or> d = d'" "\<not> counted t' d'" "releasing t'" "releasing t"
        using l(5) Release Cons by (auto simp: counted_def releasing_def count_ok_def t')
      show ?thesis using d(2) c by (cases "d = d'"; cases "dev_at t d"; cases "counted t d") (auto simp: dev_ok_def t')
    qed
  next
    case Head
    then have t': "t' = t\<lparr>timer_at := if timer_stop t then Exited else Collect (dev_list t) 0 0\<rparr>"
      using m by (auto simp: timer_routine_def)
    have c: "\<not> counted t d" "\<not> counted t' d"
      using d(1) l(2) Head by (simp_all add: counted_def t')
    show ?thesis using d(2) c by (cases "dev_at t d") (simp_all add: dev_ok_def t')
  qed (use m in \<open>auto simp: timer_routine_def\<close>)
qed

text \<open>A step of one device changes nothing that the others depend on.\<close>

lemma device_step_inv:
  assumes i: "timer_inv n t" and d: "d < n"
    and m: "next_slot_done d t = Some t' \<or> next_slot_wait d t = Some t' \<or> detach_event d t = Some t'"
  shows "timer_inv n t'"
proof (rule timer_inv_intro [OF i])
  have l: "set (dev_list t) = {..<n}" "timer_started t" "clock t = of_nat (ticks t)" "count_ok t"
    "timer_stop t \<Longrightarrow> all_detached t {..<n}" "dev_ok t d"
    using i d by (auto simp: timer_inv_def)
  have k: "timer_at t' = timer_at t" "timer_stop t' = timer_stop t" "dev_list t' = dev_list t"
    "ticks t' = ticks t" "dev_at t d \<noteq> Detached" "\<And>x. x \<noteq> d \<Longrightarrow> dev_at t' x = dev_at t x"
    "\<And>x. x \<noteq> d \<Longrightarrow> dev t' x = dev t x" "\<And>x. x \<noteq> d \<Longrightarrow> slots t' x = slots t x"
    using m by (auto simp: step_defs split: if_splits)
  show "dev_list t' = dev_list t" "timer_started t'" "clock t' = of_nat (ticks t')"
    using m l(2,3) by (auto simp: step_defs split: if_splits)
  show "timer_stop t' \<Longrightarrow> all_detached t' {..<n}"
    using l(5) k(2,5) d by (auto simp: all_detached_def)
  have "all_detached t D \<Longrightarrow> all_detached t' D" for D
    using k(5,6) by (auto simp: all_detached_def) metis
  then show "count_ok t'" using l(4) k(1,3) by (auto simp: count_ok_def split: timer_pc.splits)
  fix x assume x: "x < n" "dev_ok t x"
  show "dev_ok t' x"
  proof (cases "x = d")
    case True
    then show ?thesis using m x k(1,4)
      by (auto simp: step_defs dev_ok_def counted_def releasing_def split: if_splits dev_pc.splits)
  next
    case False
    then have "counted t' x = counted t x" "releasing t' = releasing t"
      using k(1) by (simp_all add: counted_def releasing_def)
    then show ?thesis using False x k(4,6-8) by (cases "dev_at t x") (simp_all add: dev_ok_def)
  qed
qed

lemma stop_inv:
  assumes i: "timer_inv n t" and m: "stop_timer_flag t = Some t'"
  shows "timer_inv n t'"
proof (rule timer_inv_intro [OF i])
  have t': "t' = t\<lparr>timer_stop := True\<rparr>" "\<forall>d\<in>set (dev_list t). dev_at t d = Detached"
    using m by (auto simp: stop_timer_flag_def split: if_splits)
  have l: "set (dev_list t) = {..<n}" "timer_started t" "clock t = of_nat (ticks t)" "count_ok t"
    using i by (auto simp: timer_inv_def)
  show "dev_list t' = dev_list t" "timer_started t'" "clock t' = of_nat (ticks t')"
    using l(2,3) by (simp_all add: t'(1))
  show "all_detached t' {..<n}" using t'(2) l(1) by (simp add: all_detached_def t'(1))
  show "count_ok t'" using l(4) by (cases "timer_at t") (simp_all add: count_ok_def all_detached_def t'(1))
  show "dev_ok t' d" if "dev_ok t d" for d
  proof -
    have "counted t' d = counted t d" "releasing t' = releasing t" by (simp_all add: counted_def releasing_def t'(1))
    then show ?thesis using that by (cases "dev_at t d") (simp_all add: dev_ok_def t'(1))
  qed
qed

lemma timer_inv_devices: "timer_inv n t \<Longrightarrow> d \<in> set (dev_list t) \<longleftrightarrow> d < n"
  by (auto simp: timer_inv_def)

lemma internal_inv: "timer_inv n t \<Longrightarrow> internal t t' \<Longrightarrow> timer_inv n t'"
  by (erule internalE) (auto intro: timer_step_inv stop_inv device_step_inv simp: timer_inv_devices)

lemma step_inv: "timer_inv n t \<Longrightarrow> step t t' \<Longrightarrow> timer_inv n t'"
  by (erule stepE) (auto intro: internal_inv device_step_inv simp: timer_inv_devices)

lemma reachable_inv: "reachable n t \<Longrightarrow> timer_inv n t"
  by (induction rule: reachable.induct) (auto intro: boot_inv step_inv)

section \<open>A measure of the internal steps\<close>

definition turn_cost :: "nat \<Rightarrow> nat" where
  "turn_cost n = 3 * n + 3"

definition timer_pos :: "nat \<Rightarrow> timer \<Rightarrow> nat" where
  "timer_pos n t =
     (case timer_at t of
        Head \<Rightarrow> turn_cost n
      | Collect ds f e \<Rightarrow> length ds + 2 * n + 2 + (if f = e then 0 else turn_cost n)
      | Release ds f e \<Rightarrow> 2 * length ds + 1 + (if f = e then 0 else turn_cost n)
      | _ \<Rightarrow> 0)"

definition dev_cost :: "nat \<Rightarrow> timer \<Rightarrow> nat \<Rightarrow> nat" where
  "dev_cost n t d =
     (if dev_at t d \<noteq> Waiting then 0
      else if \<not> ev_done (dev t d) then 1
      else if counted t d then 0 else turn_cost n)"

definition internal_measure :: "nat \<Rightarrow> timer \<Rightarrow> nat" where
  "internal_measure n t = timer_pos n t + (\<Sum>d<n. dev_cost n t d) + (if timer_stop t then 0 else 1)"

lemma sum_one_changed:
  fixes f g :: "nat \<Rightarrow> nat"
  assumes "d < n" "\<And>x. x < n \<Longrightarrow> x \<noteq> d \<Longrightarrow> g x = f x"
  shows "(\<Sum>x<n. g x) + f d = (\<Sum>x<n. f x) + g d"
proof -
  have "(\<Sum>x\<in>{..<n} - {d}. g x) = (\<Sum>x\<in>{..<n} - {d}. f x)" by (rule sum.cong) (use assms in auto)
  then show ?thesis
    using assms(1) by (simp add: sum.remove [of "{..<n}" d f] sum.remove [of "{..<n}" d g])
qed

lemma distinct_below_length: "distinct ds \<Longrightarrow> set ds = {..<n} \<Longrightarrow> length ds = n"
  by (metis card_lessThan distinct_card)

lemma timer_measure:
  assumes i: "timer_inv n t" and m: "timer_routine t = Some t'"
  shows "internal_measure n t' < internal_measure n t"
proof -
  have l: "set (dev_list t) = {..<n}" "length (dev_list t) = n" "count_ok t" "\<And>d. d < n \<Longrightarrow> dev_ok t d"
    using i distinct_below_length by (auto simp: timer_inv_def)
  have at: "dev_at t' = dev_at t" "timer_stop t' = timer_stop t"
    using m by (auto simp: timer_routine_def split: timer_pc.splits list.splits if_splits)
  have same: "(\<Sum>d<n. dev_cost n t' d) = (\<Sum>d<n. dev_cost n t d)"
    if "dev t' = dev t" "\<And>d. d < n \<Longrightarrow> counted t' d = counted t d"
    by (rule sum.cong) (auto simp: dev_cost_def at that)
  show ?thesis
  proof (cases "timer_at t")
    case Head
    then have t': "t' = t\<lparr>timer_at := if timer_stop t then Exited else Collect (dev_list t) 0 0\<rparr>"
      using m by (auto simp: timer_routine_def)
    have "dev t' = dev t" "timer_pos n t' < timer_pos n t" "\<And>d. d < n \<Longrightarrow> counted t' d = counted t d"
      using Head l(1,2) by (simp_all add: t' timer_pos_def turn_cost_def counted_def)
    then show ?thesis using same at(2) by (simp add: internal_measure_def)
  next
    case (Collect ds f e)
    show ?thesis
    proof (cases ds)
      case Nil
      then have t': "t' = t\<lparr>clock := clock t + 1, ticks := ticks t + 1, timer_at := Release (dev_list t) f e\<rparr>"
        using m Collect by (simp add: timer_routine_def)
      have "dev t' = dev t" "timer_pos n t' < timer_pos n t" "\<And>d. d < n \<Longrightarrow> counted t' d = counted t d"
        using Collect Nil l(1,2) by (simp_all add: t' timer_pos_def turn_cost_def counted_def)
      then show ?thesis using same at(2) by (simp add: internal_measure_def)
    next
      case (Cons d ds')
      have d: "d < n" "d \<notin> set ds'" "f \<le> e" using l(1,3) Collect Cons by (auto simp: count_ok_def)
      have e: "ev_done (dev t d) \<or> ev_fsh (dev t d)"
        "t' = t\<lparr>timer_at := Collect ds' (if ev_fsh (dev t d) then f + 1 else f) (e + 1)\<rparr>"
        using m Collect Cons by (auto simp: timer_routine_def split: if_splits)
      have "(\<Sum>x<n. dev_cost n t' x) + dev_cost n t d = (\<Sum>x<n. dev_cost n t x) + dev_cost n t' d"
        by (rule sum_one_changed) (use d in \<open>auto simp: e dev_cost_def counted_def Collect Cons\<close>)
      moreover have "dev_cost n t' d = 0"
        using e(1) l(4) [OF d(1)] d(2) by (auto simp: dev_cost_def e(2) counted_def dev_ok_def)
      moreover have "dev_cost n t d = (if ev_fsh (dev t d) then 0 else turn_cost n)"
        using e(1) l(4) [OF d(1)] d(2) Collect Cons by (cases "dev_at t d") (auto simp: dev_cost_def counted_def dev_ok_def)
      moreover have "timer_pos n t' < timer_pos n t + (if ev_fsh (dev t d) then 0 else turn_cost n)"
        using Collect Cons d(3) by (auto simp: timer_pos_def e(2) turn_cost_def)
      ultimately show ?thesis by (simp add: internal_measure_def at(2))
    qed
  next
    case (Release ds f e)
    show ?thesis
    proof (cases ds)
      case Nil
      then have t': "t' = t\<lparr>timer_at := if f = e then Exited else Head\<rparr>"
        using m Release by (simp add: timer_routine_def)
      have "dev t' = dev t" "timer_pos n t' < timer_pos n t" "\<And>d. d < n \<Longrightarrow> counted t' d = counted t d"
        using Release Nil by (simp_all add: t' timer_pos_def counted_def)
      then show ?thesis using same at(2) by (simp add: internal_measure_def)
    next
      case (Cons d ds')
      have d: "d < n" "d \<notin> set ds'" using l(1,3) Release Cons by (auto simp: count_ok_def)
      have e: "t' = t\<lparr>dev := (dev t)(d := (dev t d)\<lparr>ev_done := False\<rparr>), timer_at := Release ds' f e\<rparr>"
        using m Release Cons by (auto simp: timer_routine_def)
      have "(\<Sum>x<n. dev_cost n t' x) + dev_cost n t d = (\<Sum>x<n. dev_cost n t x) + dev_cost n t' d"
        by (rule sum_one_changed) (use d in \<open>auto simp: e dev_cost_def counted_def Release Cons\<close>)
      moreover have "dev_cost n t' d \<le> 1" by (simp add: dev_cost_def e)
      moreover have "timer_pos n t' + 1 < timer_pos n t" using Release Cons by (simp add: timer_pos_def e)
      ultimately show ?thesis by (simp add: internal_measure_def at(2))
    qed
  qed (use m in \<open>auto simp: timer_routine_def\<close>)
qed

lemma resume_measure:
  assumes "d < n" "next_slot_wait d t = Some t'"
  shows "internal_measure n t' < internal_measure n t"
proof -
  have e: "dev_at t d = Waiting" "\<not> ev_done (dev t d)"
    "t' = t\<lparr>dev_at := (dev_at t)(d := Working), slots := (slots t)(d := slots t d + 1)\<rparr>"
    using assms(2) by (auto simp: next_slot_wait_def split: if_splits)
  have "(\<Sum>x<n. dev_cost n t' x) + dev_cost n t d = (\<Sum>x<n. dev_cost n t x) + dev_cost n t' d"
    by (rule sum_one_changed) (use assms(1) in \<open>auto simp: e dev_cost_def counted_def\<close>)
  then show ?thesis by (simp add: internal_measure_def timer_pos_def dev_cost_def [of _ _ d] e)
qed

lemma stop_measure:
  assumes "stop_timer_flag t = Some t'"
  shows "internal_measure n t' < internal_measure n t"
proof -
  have e: "t' = t\<lparr>timer_stop := True\<rparr>" "\<not> timer_stop t"
    using assms by (auto simp: stop_timer_flag_def split: if_splits)
  then have "dev_cost n t' = dev_cost n t" by (simp add: fun_eq_iff dev_cost_def counted_def)
  then show ?thesis using e by (simp add: internal_measure_def timer_pos_def)
qed

lemma internal_measure_decreases:
  assumes "timer_inv n t" "internal t t'"
  shows "internal_measure n t' < internal_measure n t"
  using assms(2)
proof cases
  case timer then show ?thesis by (rule timer_measure [OF assms(1)])
next
  case (resume d) then show ?thesis using assms(1) by (auto simp: timer_inv_def intro: resume_measure)
next
  case stop then show ?thesis by (rule stop_measure)
qed

lemma internal_measure_bound:
  assumes "timer_inv n t"
  shows "internal_measure n t \<le> (n + 2) * turn_cost n"
proof -
  have "(\<Sum>d<n. dev_cost n t d) \<le> (\<Sum>d<n. turn_cost n)"
    by (rule sum_mono) (auto simp: dev_cost_def turn_cost_def)
  moreover have b: "length ds \<le> n" if "distinct ds" "set ds \<subseteq> set (dev_list t)" for ds
    using that assms by (metis card_lessThan card_mono distinct_card finite_lessThan timer_inv_def)
  have "count_ok t" using assms by (simp add: timer_inv_def)
  then have "timer_pos n t \<le> 2 * turn_cost n - 1"
    using b by (cases "timer_at t") (fastforce simp: count_ok_def timer_pos_def turn_cost_def)+
  ultimately show ?thesis by (auto simp: internal_measure_def turn_cost_def)
qed

lemma internal_run_bound:
  "(internal ^^ k) t t' \<Longrightarrow> timer_inv n t \<Longrightarrow> timer_inv n t' \<and> k + internal_measure n t' \<le> internal_measure n t"
proof (induction k arbitrary: t')
  case (Suc k)
  from Suc.prems(1) obtain u where u: "(internal ^^ k) t u" "internal u t'" by auto
  have "timer_inv n u" "k + internal_measure n u \<le> internal_measure n t" using Suc.IH u(1) Suc.prems(2) by auto
  then show ?case using internal_inv internal_measure_decreases u(2) by fastforce
qed simp

lemma internal_stuck:
  assumes i: "timer_inv n t" and s: "\<not> (\<exists>t'. internal t t')"
  shows "timer_at t = Exited \<or> (\<exists>d<n. dev_at t d = Working)"
proof -
  have n: "timer_routine t = None" "\<And>d. d < n \<Longrightarrow> next_slot_wait d t = None"
    using s internal.timer internal.resume timer_inv_devices [OF i] by (meson not_Some_eq)+
  show ?thesis
  proof (cases "timer_at t")
    case (Collect ds f e)
    then obtain d ds' where ds: "ds = d # ds'" "\<not> ev_done (dev t d)" "\<not> ev_fsh (dev t d)"
      using n(1) by (auto simp: timer_routine_def split: list.splits if_splits)
    then have d: "d < n" using Collect i by (auto simp: timer_inv_def count_ok_def)
    then have "dev_at t d \<noteq> Waiting" "dev_at t d \<noteq> Detached"
      using n(2) [OF d] ds(2,3) i by (auto simp: next_slot_wait_def timer_inv_def dev_ok_def)
    then show ?thesis using d by (cases "dev_at t d") auto
  next
    case (Release ds f e)
    then show ?thesis using n(1) by (cases ds) (auto simp: timer_routine_def)
  qed (use n(1) i in \<open>auto simp: timer_routine_def timer_inv_def count_ok_def\<close>)
qed

text \<open>When every device is detached, only internal steps are left.\<close>

lemma detached_step:
  assumes "timer_inv n t" "all_detached t {..<n}" "step t t'"
  shows "internal t t' \<and> all_detached t' {..<n}"
  using assms(3)
proof cases
  case internal
  moreover have "dev_at t' = dev_at t" using internal
  proof cases
    case timer
    then show ?thesis by (auto simp: timer_routine_def split: timer_pc.splits list.splits if_splits)
  next
    case (resume d)
    then show ?thesis using assms(1,2) by (auto simp: timer_inv_def all_detached_def next_slot_wait_def split: if_splits)
  qed (auto simp: stop_timer_flag_def split: if_splits)
  ultimately show ?thesis using assms(2) by (simp add: all_detached_def)
qed (use assms(1,2) in \<open>auto simp: timer_inv_def all_detached_def step_defs split: if_splits\<close>)

lemma detached_run:
  "(step ^^ k) t t' \<Longrightarrow> timer_inv n t \<Longrightarrow> all_detached t {..<n} \<Longrightarrow>
   (internal ^^ k) t t' \<and> timer_inv n t' \<and> all_detached t' {..<n}"
proof (induction k arbitrary: t')
  case (Suc k)
  from Suc.prems(1) obtain u where u: "(step ^^ k) t u" "step u t'" by auto
  have "(internal ^^ k) t u" "timer_inv n u" "all_detached u {..<n}" using Suc.IH u(1) Suc.prems(2,3) by auto
  then show ?case using detached_step u(2) step_inv by fastforce
qed simp

section \<open>Properties\<close>

text \<open>
  C13: the devices advance in lockstep. When device \<open>d\<close> works, the clock shows the number of
  slots that \<open>d\<close> has completed, and the timer cannot advance it; every other device that works is
  in the same slot, one that waits has finished its work of this slot or has not yet started it, and
  none is further ahead. The timer never writes the flag of a device that works.
\<close>

theorem timer_lockstep:
  assumes "reachable n t" "d < n" "dev_at t d = Working" "d' < n"
  shows "current_time t = of_nat (slots t d) \<and>
    (\<forall>t'. timer_routine t = Some t' \<longrightarrow> current_time t' = current_time t) \<and>
    (dev_at t d' = Working \<longrightarrow> slots t d' = slots t d) \<and>
    (dev_at t d' = Waiting \<longrightarrow> slots t d' = slots t d \<or> slots t d' + 1 = slots t d) \<and>
    (\<forall>ds fsh event. timer_at t = Release (d' # ds) fsh event \<longrightarrow> dev_at t d' \<noteq> Working)"
proof -
  have i: "dev_ok t d" "dev_ok t d'" "count_ok t" "clock t = of_nat (ticks t)"
    using reachable_inv [OF assms(1)] assms(2,4) by (auto simp: timer_inv_def)
  have c: "timer_at t \<noteq> Collect [] f e" for f e
    using i(1) assms(3) by (auto simp: dev_ok_def counted_def)
  have "\<forall>t'. timer_routine t = Some t' \<longrightarrow> current_time t' = current_time t"
    using c by (auto simp: timer_routine_def current_time_def split: timer_pc.splits list.splits if_splits)
  moreover have "slots t d = ticks t" using i(1) assms(3) by (simp add: dev_ok_def)
  moreover have "dev_at t d' = Working \<longrightarrow> slots t d' = ticks t" using i(2) by (auto simp: dev_ok_def)
  moreover have "dev_at t d' = Waiting \<longrightarrow> slots t d' = ticks t \<or> slots t d' + 1 = ticks t"
    using i(2) by (auto simp: dev_ok_def split: if_splits)
  moreover have "\<forall>ds f e. timer_at t = Release (d' # ds) f e \<longrightarrow> dev_at t d' \<noteq> Working"
    using i(2) by (auto simp: dev_ok_def counted_def)
  ultimately show ?thesis using i(4) by (simp add: current_time_def)
qed

lemma demo_turn: "reachable 2 (the (next_slot_done 1 (boot_timer 2)))"
  by (rule reachable.step [OF reachable.boot], rule step.announce [of 1])
    (simp_all add: boot_timer_def start_timer_def attach_event_def new_timer_def next_slot_done_def numeral_2_eq_2)

theorem timer_lockstep_witness:
  "let t = the (next_slot_done 1 (boot_timer 2)) in dev_at t 1 = Waiting \<and> current_time t = of_nat (slots t 0)"
  using timer_lockstep [OF demo_turn, of 0 1]
  by (simp add: Let_def boot_timer_def start_timer_def attach_event_def new_timer_def next_slot_done_def numeral_2_eq_2)

text \<open>
  C14: the timer makes progress. From every reachable state the steps that no device decides end
  after at most \<open>(n + 2) (3 n + 3)\<close> steps, and when none is possible, some device works in the
  current slot or the timer thread has returned: no execution blocks with all devices waiting.
\<close>

theorem timer_progress:
  assumes "reachable n t"
  shows "(\<forall>k t'. (internal ^^ k) t t' \<longrightarrow> k \<le> (n + 2) * (3 * n + 3)) \<and>
    ((\<nexists>t'. internal t t') \<longrightarrow> timer_at t = Exited \<or> (\<exists>d<n. dev_at t d = Working))"
proof -
  have i: "timer_inv n t" by (rule reachable_inv [OF assms])
  have "k \<le> (n + 2) * (3 * n + 3)" if "(internal ^^ k) t t'" for k t'
    using internal_run_bound [OF that i] internal_measure_bound [OF i] by (simp add: turn_cost_def)
  then show ?thesis using internal_stuck [OF i] by blast
qed

theorem timer_progress_witness:
  "\<nexists>k t'. 36 < k \<and> (internal ^^ k) (the (next_slot_done 1 (boot_timer 2))) t'"
  using timer_progress [OF demo_turn] by (auto simp: not_less [symmetric])

text \<open>
  C15: the timer thread ends when every device is detached, and only then. After the last
  \<open>detach_event\<close> every execution ends after at most \<open>(n + 2) (3 n + 3)\<close> steps, with the
  thread returned and \<open>stop_timer\<close> called, so that the join in \<open>stop_timer\<close> returns; and in every
  reachable state with the thread returned, every device is detached.
\<close>

theorem timer_terminates:
  assumes "reachable n t"
  shows "((\<forall>d<n. dev_at t d = Detached) \<longrightarrow>
      (\<forall>k t'. (step ^^ k) t t' \<longrightarrow>
        k \<le> (n + 2) * (3 * n + 3) \<and> ((\<nexists>t''. step t' t'') \<longrightarrow> timer_at t' = Exited \<and> timer_stop t'))) \<and>
    (timer_at t = Exited \<longrightarrow> (\<forall>d<n. dev_at t d = Detached))"
proof (intro conjI impI allI)
  have i: "timer_inv n t" by (rule reachable_inv [OF assms])
  then show "dev_at t d = Detached" if "timer_at t = Exited" "d < n" for d
    using that by (auto simp: timer_inv_def count_ok_def all_detached_def)
  fix k t' assume a: "\<forall>d<n. dev_at t d = Detached" and r: "(step ^^ k) t t'"
  have f: "(internal ^^ k) t t'" "timer_inv n t'" "all_detached t' {..<n}"
    using detached_run [OF r i] a by (auto simp: all_detached_def)
  show "k \<le> (n + 2) * (3 * n + 3)"
    using internal_run_bound [OF f(1) i] internal_measure_bound [OF i] by (simp add: turn_cost_def)
  assume s: "\<nexists>t''. step t' t''"
  then have s': "\<nexists>t''. internal t' t''" using step.internal by blast
  show "timer_at t' = Exited" using internal_stuck [OF f(2) s'] f(3) by (auto simp: all_detached_def)
  show "timer_stop t'"
    using s' f(2,3) internal.stop [of t'] by (auto simp: stop_timer_flag_def timer_inv_def all_detached_def)
qed

lemma demo_detached: "reachable 1 (the (detach_event 0 (boot_timer 1)))"
  by (rule reachable.step [OF reachable.boot], rule step.detach [of 0])
    (simp_all add: boot_timer_def start_timer_def attach_event_def new_timer_def detach_event_def)

theorem timer_terminates_witness:
  "\<nexists>k t'. 18 < k \<and> (step ^^ k) (the (detach_event 0 (boot_timer 1))) t'"
  using timer_terminates [OF demo_detached]
  by (auto simp: not_less [symmetric] boot_timer_def start_timer_def attach_event_def new_timer_def detach_event_def)

end
