(* ===== verification/Sys_Io.thy ===== *)
theory Sys_Io
  imports Heap
begin

text \<open>
  What the byte access operations of the memory system call of src/sys_mem.c promise to a process: access to
  its own address space, and nothing else. The operations \<open>SYSMEM_MAP_OP\<close> and \<open>SYSMEM_SWP_OP\<close> of the
  same call make no such promise: they overwrite entries of page tables and slots of the swap device.
\<close>

lemma io_area_heap:
  assumes "heap_inv w F s c"
  shows "io_area s c a = Some (vbyte w s c a \<noteq> None)"
proof -
  obtain v T where v: "area_ok w s c v T" using assms by (auto simp: heap_inv_def)
  then obtain m where m: "caller_mm s c = Some m" "mm_mmap m = [v]" "vm_id v = 0" "vm_start v = 0"
    and vb: "vbyte w s c a \<noteq> None \<longleftrightarrow> a < sbrk v" unfolding area_ok_def by blast
  have "get_vma_by_num m 0 = Some (Some 0)"
    using m(2,3) by (simp add: get_vma_by_num_def vma_loop.simps int_of_addr_def)
  then show ?thesis using m vb by (simp add: io_area_def not_le)
qed

lemma mapped_user:
  assumes "heap_inv w F s c" "vbyte w s c a \<noteq> None"
  shows "\<not> is_kernel_address a"
  using assms(2) by (auto simp: vbyte_def user_slot_def user_page_addr split: if_splits option.splits)

text \<open>The reads and writes of a process that runs, in terms of its bytes.\<close>

lemma sys_io_write:
  assumes h: "heap_inv w F s c" and r: "find_proc (sy_sched s) (pcbs s) n = c" "c \<noteq> NULL" and op: "int_of_addr (sc_a1 rs) = SYSMEM_IO_WRITE"
  shows "\<exists>r s'. sys_memmap junk s (Some k) n rs = Some (r, rs, s') \<and> (r = 0 \<or> r = -1) \<and> books_kept s s' \<and>
    (\<forall>x. heap_inv w F s x \<longrightarrow> heap_inv w F s' x) \<and> (vbyte w s c (sc_a2 rs) = None \<longrightarrow> r = -1 \<and> s' = s) \<and>
    (\<forall>x a. vbyte w s' x a = (if r = 0 \<and> x = c \<and> a = sc_a2 rs then Some (ucast (sc_a3 rs)) else vbyte w s x a))"
proof (cases "vbyte w s c (sc_a2 rs) = None")
  case True
  then show ?thesis using r op io_area_heap [OF h] books_kept_calm [OF calm_refl] by (simp add: sys_memmap_def c_defs)
next
  case False
  have vi: "vm_inv w F s" using h by (simp add: heap_inv_def)
  have u: "ucast (sc_a3 rs AND 0xFF) = (ucast (sc_a3 rs) :: byte)"
  proof -
    have m: "(0xFF :: addr) = mask 8" by (simp add: mask_eq_exp_minus_1)
    show ?thesis unfolding m by (intro bit_word_eqI) (simp add: bit_simps)
  qed
  obtain r s' where g: "pg_setval s c (sc_a2 rs) (ucast (sc_a3 rs)) = Some (r, s')" "vm_inv w F s'" "r = 0 \<or> r = -1" "calm s s'"
    "\<And>x b. vbyte w s' x b = (if r = 0 \<and> x = c \<and> b = sc_a2 rs then Some (ucast (sc_a3 rs)) else vbyte w s x b)"
    using pg_setval_ok [OF vi mapped_user [OF h False], of c "ucast (sc_a3 rs)"] by blast
  have "heap_inv w F s' x" if "heap_inv w F s x" for x
    by (rule heap_inv_calm [OF that g(2,4)]) (use g(5) False in auto)
  moreover have "sys_memmap junk s (Some k) n rs = Some (if r < 0 then -1 else 0, rs, s')"
    using r op io_area_heap [OF h] False g(1) u by (simp add: sys_memmap_def c_defs)
  ultimately show ?thesis using g(3,5) False books_kept_calm [OF g(4)] by auto
qed

lemma sys_io_read:
  assumes h: "heap_inv w F s c" and r: "find_proc (sy_sched s) (pcbs s) n = c" "c \<noteq> NULL" and op: "int_of_addr (sc_a1 rs) = SYSMEM_IO_READ"
  shows "\<exists>r rs' s'. sys_memmap junk s (Some k) n rs = Some (r, rs', s') \<and> (r = 0 \<or> r = -1) \<and> books_kept s s' \<and>
    (\<forall>x. heap_inv w F s x \<longrightarrow> heap_inv w F s' x) \<and> (vbyte w s c (sc_a2 rs) = None \<longrightarrow> r = -1 \<and> s' = s) \<and>
    vbyte w s' = vbyte w s \<and> (r = 0 \<longrightarrow> (\<exists>b. vbyte w s c (sc_a2 rs) = Some b \<and> rs' = rs\<lparr>sc_a3 := addr_of_byte b\<rparr>)) \<and>
    (r = -1 \<longrightarrow> rs' = rs)"
proof (cases "vbyte w s c (sc_a2 rs) = None")
  case True
  then show ?thesis using r op io_area_heap [OF h] books_kept_calm [OF calm_refl] by (simp add: sys_memmap_def c_defs)
next
  case False
  have vi: "vm_inv w F s" using h by (simp add: heap_inv_def)
  obtain b s' where g: "pg_getval s c (sc_a2 rs) = Some (b, s')" "vm_inv w F s'" "vbyte w s' = vbyte w s" "calm s s'"
    "\<And>v. b = Some v \<Longrightarrow> vbyte w s c (sc_a2 rs) = Some v"
    using pg_getval_ok [OF vi mapped_user [OF h False], of c] by blast
  have "heap_inv w F s' x" if "heap_inv w F s x" for x
    by (rule heap_inv_calm [OF that g(2,4)]) (simp add: g(3))
  moreover have "sys_memmap junk s (Some k) n rs =
      Some (case b of None \<Rightarrow> (-1, rs, s') | Some v \<Rightarrow> (0, rs\<lparr>sc_a3 := addr_of_byte v\<rparr>, s'))"
    using r op io_area_heap [OF h] False g(1) by (simp add: sys_memmap_def c_defs split: option.splits)
  ultimately show ?thesis using g(3,5) False books_kept_calm [OF g(4)] by (cases b) auto
qed

section \<open>Properties\<close>

text \<open>
  C18: Byte access by system call respects the separation of address spaces. For a running process with a
  well-formed heap, system call 17 with \<open>SYSMEM_IO_WRITE\<close> changes at most the addressed byte of that
  process; with \<open>SYSMEM_IO_READ\<close> it changes no byte and returns the byte of that process in the third
  argument, or -1 and leaves the arguments. In both cases an address outside its area is refused
  with -1 and without effect, every heap stays well-formed, and areas, free lists, symbol tables and
  scheduler stay. A memory operation that does not exist, a caller that is not in the process table, and a system
  call that is not in the table are refused with -1 and without effect.
\<close>
theorem syscall_memory_io:
  assumes "heap_inv w F s c" "find_proc (sy_sched s) (pcbs s) n = c" "c \<noteq> NULL"
  shows "(int_of_addr (sc_a1 rs) = SYSMEM_IO_WRITE \<longrightarrow>
      (\<exists>r s'. syscall junk s (Some k) n 17 rs = Some (r, rs, s') \<and> (r = 0 \<or> r = -1) \<and> books_kept s s' \<and>
        (\<forall>x. heap_inv w F s x \<longrightarrow> heap_inv w F s' x) \<and> (vbyte w s c (sc_a2 rs) = None \<longrightarrow> r = -1 \<and> s' = s) \<and>
        (\<forall>x a. vbyte w s' x a = (if r = 0 \<and> x = c \<and> a = sc_a2 rs then Some (ucast (sc_a3 rs)) else vbyte w s x a)))) \<and>
    (int_of_addr (sc_a1 rs) = SYSMEM_IO_READ \<longrightarrow>
      (\<exists>r rs' s'. syscall junk s (Some k) n 17 rs = Some (r, rs', s') \<and> (r = 0 \<or> r = -1) \<and> books_kept s s' \<and>
        (\<forall>x. heap_inv w F s x \<longrightarrow> heap_inv w F s' x) \<and> (vbyte w s c (sc_a2 rs) = None \<longrightarrow> r = -1 \<and> s' = s) \<and>
        vbyte w s' = vbyte w s \<and> (r = 0 \<longrightarrow> (\<exists>b. vbyte w s c (sc_a2 rs) = Some b \<and> rs' = rs\<lparr>sc_a3 := addr_of_byte b\<rparr>)) \<and>
        (r = -1 \<longrightarrow> rs' = rs))) \<and>
    (int_of_addr (sc_a1 rs) \<notin> {1..5} \<longrightarrow> syscall junk s (Some k) n 17 rs = Some (-1, rs, s)) \<and>
    (find_proc (sy_sched s) (pcbs s) n' = NULL \<longrightarrow> syscall junk s (Some k) n' 17 rs = Some (-1, rs, s)) \<and>
    (nr \<notin> {0, 17, 101, 440} \<longrightarrow> syscall junk s (Some k) n nr rs = Some (-1, rs, s))"
proof -
  have e: "syscall junk s (Some k) x 17 rs = sys_memmap junk s (Some k) x rs" for x by (simp add: syscall_def)
  have "int_of_addr (sc_a1 rs) \<notin> {1..5} \<longrightarrow> sys_memmap junk s (Some k) n rs = Some (-1, rs, s)"
    "find_proc (sy_sched s) (pcbs s) n' = NULL \<longrightarrow> sys_memmap junk s (Some k) n' rs = Some (-1, rs, s)"
    by (auto simp: sys_memmap_def Let_def SYSMEM_MAP_OP_def SYSMEM_INC_OP_def SYSMEM_SWP_OP_def SYSMEM_IO_READ_def SYSMEM_IO_WRITE_def)
  moreover have "nr \<notin> {0, 17, 101, 440} \<longrightarrow> syscall junk s (Some k) n nr rs = Some (-1, rs, s)"
    by (simp add: syscall_def sys_ni_syscall_def)
  ultimately show ?thesis
    using sys_io_write [OF assms, of rs junk k] sys_io_read [OF assms, of rs junk k] unfolding e by (intro conjI) blast+
qed

theorem syscall_memory_io_witness:
  "\<exists>b r s'. pcbs demo_heap 1 = Some b \<and>
     syscall \<lparr>rg_start = 0, rg_end = 0\<rparr> demo_heap (Some demo_krnl) (pid b) 17
       \<lparr>sc_a1 = 5, sc_a2 = 0, sc_a3 = 7, sc_a4 = 0, sc_a5 = 0, sc_a6 = 0, orig_ax = 0, sc_flags = 0\<rparr> =
     Some (r, \<lparr>sc_a1 = 5, sc_a2 = 0, sc_a3 = 7, sc_a4 = 0, sc_a5 = 0, sc_a6 = 0, orig_ax = 0, sc_flags = 0\<rparr>, s') \<and>
     heap_inv 1 {} s' 1"
proof -
  let ?rs = "\<lparr>sc_a1 = 5, sc_a2 = 0, sc_a3 = 7, sc_a4 = 0, sc_a5 = 0, sc_a6 = 0, orig_ax = 0, sc_flags = 0\<rparr>"
  obtain b where b: "pcbs demo_heap 1 = Some b" "find_proc (sy_sched demo_heap) (pcbs demo_heap) (pid b) = 1"
    using demo_heap_inv(2) by (auto simp: runs_def)
  have "(1::nat) \<noteq> NULL" "int_of_addr (sc_a1 ?rs) = SYSMEM_IO_WRITE" by (simp_all add: NULL_def SYSMEM_IO_WRITE_def int_of_addr_def)
  with conjunct1 [OF syscall_memory_io [OF demo_heap_inv(1) b(2), of ?rs]] demo_heap_inv(1) b(1) show ?thesis by blast
qed

end
