(* ===== verification/Mem_Keeps.thy ===== *)
theory Mem_Keeps
  imports Kmem
begin

text \<open>
  What the memory code as a whole can and cannot change, once and for all. The locale \<open>memory_invariant\<close>
  takes a property of the state and the closure of it under the elementary updates (devices, host memory, kernel
  roots, registers, and the fields of an address space), together with a property of user page tables that the
  walks and the stores of entries keep. In it, every operation of the libraries that an instruction can call
  is shown to keep the property, on every path, error paths included. The locale is interpreted twice: on the shape
  of the processes and on tidy page tables.
\<close>

named_theorems keep \<open>operations that keep an invariant of the memory code\<close>

section \<open>The contract\<close>

text \<open>An entry that is not marked both present and swapped.\<close>

definition clean :: "addr \<Rightarrow> bool" where
  "clean e \<longleftrightarrow> \<not> (PAGING64_PAGE_PRESENT e \<and> PAGING64_PAGE_SWAPPED e)"

lemma clean_values [simp]: "clean 0" "clean PAGING64_DUMMY_PTE" "clean (pte_of_fpn f)" "clean (pte_of_swap t off)"
proof -
  have "\<not> bit PAGING64_DUMMY_PTE 0" by (simp add: PAGING64_DUMMY_PTE_def)
  then show "clean 0" "clean PAGING64_DUMMY_PTE" "clean (pte_of_fpn f)" "clean (pte_of_swap t off)"
    by (simp_all add: clean_def page_present_bit page_swapped_bit bit_pte_of_fpn bit_pte_of_swap_low)
qed

locale memory_invariant =
  fixes I :: "sys \<Rightarrow> bool"
    and G :: "ptab \<Rightarrow> bool"
  assumes I_host [simp]: "I (s\<lparr>sy_host := h\<rparr>) = I s"
    and I_kroots [simp]: "I (s\<lparr>kroots := rs\<rparr>) = I s"
    and I_next_root [simp]: "I (s\<lparr>next_root := n\<rparr>) = I s"
    and I_dev [simp]: "I (upd_dev d mp s) = I s"
    and I_regs [simp]: "I s \<Longrightarrow> I (upd_pcb c (\<lambda>b. b\<lparr>regs := (regs b)[i := v]\<rparr>) s)"
    and I_kpgd: "I s \<Longrightarrow> I (upd_krnl c (\<lambda>k. k\<lparr>krnl_pgd := r\<rparr>) s)"
    and I_mm: "I s \<Longrightarrow> (\<And>m. mm_pgd (f m) = mm_pgd m \<and> length (symrgtbl (f m)) = length (symrgtbl m)) \<Longrightarrow> I (upd_mm c f s)"
    and I_pgd: "I s \<Longrightarrow> (\<And>t. p = Some t \<Longrightarrow> G t) \<Longrightarrow> I (upd_mm c (\<lambda>m. m\<lparr>mm_pgd := p\<rparr>) s)"
    and I_G: "I s \<Longrightarrow> caller_mm s c = Some m \<Longrightarrow> mm_pgd m = Some t \<Longrightarrow> G t"
    and G_empty: "G (Dir (\<lambda>_. None))"
    and G_walk: "G t \<Longrightarrow> walk_dirs create (dir_path a) t h = (ok, t', h') \<Longrightarrow> canonical a \<Longrightarrow> \<not> is_kernel_address a \<Longrightarrow> G t'"
    and G_set: "G t \<Longrightarrow> clean v \<Longrightarrow> G (tab_set t is j v)"
begin

lemma I_mm_simp [simp]: "(\<And>m. mm_pgd (f m) = mm_pgd m \<and> length (symrgtbl (f m)) = length (symrgtbl m)) \<Longrightarrow> I s \<Longrightarrow> I (upd_mm c f s)"
  by (rule I_mm)

lemma keep_upd_vma [simp]: "I s \<Longrightarrow> I (upd_vma c i f s)"
  by (simp add: upd_vma_def)

lemma keep_set_symrg [simp]: "I s \<Longrightarrow> I (set_symrg c i r s)"
  by (simp add: set_symrg_def)

lemma keep_set_reg [keep]: "set_reg c i v s = Some s' \<Longrightarrow> I s \<longrightarrow> I s'"
  by (auto simp: set_reg_def bind_eq_Some_conv I_regs split: if_splits)

lemma keep_sys_alloc [keep]: "sys_alloc s = (ok, s') \<Longrightarrow> I s \<longrightarrow> I s'"
  by (auto simp: sys_alloc_def split: prod.splits)

section \<open>Page tables\<close>

lemma keep_init_kernel_page_table [keep]: "init_kernel_page_table k s = (r, k', s') \<Longrightarrow> I s \<longrightarrow> I s'"
  by (auto simp: init_kernel_page_table_def Let_def split: option.splits prod.splits if_splits dest: keep)

text \<open>The kernel context is replaced by the one with the new root.\<close>

lemma init_kernel_page_table_krnl:
  "init_kernel_page_table k s = (r, k', s') \<Longrightarrow> (\<exists>p. k' = k\<lparr>krnl_pgd := p\<rparr>) \<and> pcbs s' = pcbs s"
  by (cases k) (auto simp: init_kernel_page_table_def sys_alloc_def Let_def split: option.splits prod.splits if_splits)

lemma keep_new_root:
  assumes "caller_krnl s c = Some k" "init_kernel_page_table k s = (r, k', s')" "I s"
  shows "I (upd_krnl c (\<lambda>_. k') s')"
proof -
  obtain p where p: "k' = k\<lparr>krnl_pgd := p\<rparr>" "pcbs s' = pcbs s" using init_kernel_page_table_krnl [OF assms(2)] by blast
  from assms(1) obtain b where "pcbs s c = Some b" "krnl b = Some k"
    by (auto simp: caller_krnl_def bind_eq_Some_conv split: if_splits)
  then have "upd_krnl c (\<lambda>_. k') s' = upd_krnl c (\<lambda>k. k\<lparr>krnl_pgd := p\<rparr>) s'" by (simp add: upd_krnl_def p)
  then show ?thesis using keep_init_kernel_page_table [OF assms(2)] assms(3) I_kpgd by simp
qed

lemma keep_ensure_root [simp]: "I s \<Longrightarrow> I (ensure_root s c a create)"
  by (auto simp: ensure_root_def Let_def keep_new_root G_empty intro!: I_pgd split: option.splits prod.splits if_splits dest: keep)

lemma keep_set_root: "I s \<Longrightarrow> is_kernel_address a \<or> G t \<Longrightarrow> I (set_root c a t s)"
  by (auto simp: set_root_def intro: I_pgd split: option.splits)

lemma root_of_G: "I s \<Longrightarrow> \<not> is_kernel_address a \<Longrightarrow> root_of s c a = Some t \<Longrightarrow> G t"
  by (auto simp: root_of_def bind_eq_Some_conv intro: I_G)

lemma keep_walk_pte [keep]: "walk_pte s c a create = (l, s') \<Longrightarrow> I s \<longrightarrow> I s'"
proof
  assume w: "walk_pte s c a create = (l, s')" and "I s"
  let ?s = "ensure_root s c a create"
  have i: "I ?s" using \<open>I s\<close> by simp
  show "I s'"
  proof (cases "caller_mm s c = None \<or> fst (get_pd_from_address a) \<noteq> 0 \<or> root_of ?s c a = None")
    case True
    with w i \<open>I s\<close> show ?thesis by (auto simp: walk_pte_def Let_def split: if_splits)
  next
    case False
    then obtain t where t: "root_of ?s c a = Some t" and c: "canonical a" by (auto simp: canonical_def)
    obtain ok t' h' where d: "walk_dirs create (dir_path a) t (sy_host ?s) = (ok, t', h')" by (metis prod.exhaust)
    have "is_kernel_address a \<or> G t'" using G_walk [OF _ d c] root_of_G [OF i _ t] by blast
    with i have "I (set_root c a t' (?s\<lparr>sy_host := h'\<rparr>))" by (simp add: keep_set_root)
    with w False t d show ?thesis by (simp add: walk_pte_def split: if_splits)
  qed
qed

lemma keep_pte_store [simp]: "I s \<Longrightarrow> clean v \<Longrightarrow> I (pte_store s l v)"
  by (auto simp: pte_store_def intro!: keep_set_root intro: G_set root_of_G split: option.splits prod.splits)

lemma keep_pte_set [keep]:
  "pte_set_entry s c p v = (r, s') \<Longrightarrow> clean v \<Longrightarrow> I s \<longrightarrow> I s'"
  "pte_set_fpn s c p v = (r, s') \<Longrightarrow> I s \<longrightarrow> I s'"
  "pte_set_swap s c p t v = (r, s') \<Longrightarrow> I s \<longrightarrow> I s'"
  by (auto simp: pte_set_entry_def pte_set_fpn_def pte_set_swap_def split: option.splits prod.splits dest: keep)

lemma keep_memset_loop: "memset_loop s c p i n = (r, s') \<Longrightarrow> I s \<longrightarrow> I s'"
  by (induction s c p i n rule: memset_loop.induct)
    (subst (asm) (2) memset_loop.simps, auto split: if_splits prod.splits dest: keep)

lemma keep_vmap_pgd_memset [keep]: "vmap_pgd_memset s c a n = (r, s') \<Longrightarrow> I s \<longrightarrow> I s'"
  by (auto simp: vmap_pgd_memset_def split: if_splits dest: keep_memset_loop)

section \<open>Devices and swapping\<close>

lemma keep_dev [keep]:
  "dev_read mp a s = Some (b, s') \<Longrightarrow> I s \<longrightarrow> I s'"
  "dev_write mp a v s = Some (r, s') \<Longrightarrow> I s \<longrightarrow> I s'"
  "dev_get_freefp mp s = (f, s') \<Longrightarrow> I s \<longrightarrow> I s'"
  by (auto simp: dev_read_def dev_write_def dev_get_freefp_def bind_eq_Some_conv split: option.splits prod.splits)

lemma keep_dev_put [simp]: "I s \<Longrightarrow> I (dev_put_freefp mp f s)"
  by (auto simp: dev_put_freefp_def split: option.splits prod.splits)

lemma keep_swap_cp_loop: "swap_cp_loop a f b g i s = Some (r, s') \<Longrightarrow> I s \<longrightarrow> I s'"
proof (induction a f b g i s rule: swap_cp_loop.induct)
  case (1 a f b g i s)
  note run = 1(2) [unfolded swap_cp_loop.simps [of a f b g i s]]
  show ?case
  proof (cases "i < 4096")
    case True
    then obtain d s1 where rd: "dev_read a (f * PAGING64_PAGESZ + addr_of_int i) s = Some (d, s1)"
      using run by (auto simp: bind_eq_Some_conv)
    show ?thesis
    proof (cases d)
      case None
      then show ?thesis using run True rd keep_dev(1) [OF rd] by simp
    next
      case (Some u)
      then obtain r2 s2 where wr: "dev_write b (g * PAGING64_PAGESZ + addr_of_int i) u s1 = Some (r2, s2)"
        using run True rd by (auto simp: bind_eq_Some_conv)
      then have "I s \<longrightarrow> I s2" using keep_dev(1) [OF rd] keep_dev(2) [OF wr] by simp
      then show ?thesis using run True rd Some wr 1(1) [OF True rd refl Some wr refl]
        by (auto split: if_splits)
    qed
  qed (use run in simp)
qed

lemma keep_swap_cp_page [keep]: "swap_cp_page a f b g s = Some (r, s') \<Longrightarrow> I s \<longrightarrow> I s'"
  by (auto simp: swap_cp_page_def dest: keep_swap_cp_loop)

lemma keep_replace_mm:
  assumes "caller_mm s c = Some m" "mm_pgd m' = mm_pgd m" "length (symrgtbl m') = length (symrgtbl m)"
  shows "I s \<Longrightarrow> I (upd_mm c (\<lambda>_. m') s)"
proof -
  from caller_mm_krnl [OF assms(1)] obtain b k where "pcbs s c = Some b" "krnl b = Some k" "k_mm k = Some m"
    by (auto simp: caller_krnl_def bind_eq_Some_conv split: if_splits)
  then have "upd_mm c (\<lambda>_. m') s = upd_mm c (\<lambda>x. if x = m then m' else x) s" by (simp add: upd_mm_def upd_krnl_def)
  then show "I s \<Longrightarrow> I (upd_mm c (\<lambda>_. m') s)" using assms(2,3) by simp
qed

lemma keep_find_present [keep]: "find_present_victim_in_proc s c = (r, s') \<Longrightarrow> I s \<longrightarrow> I s'"
proof (induction s c rule: find_present_victim_in_proc.induct)
  case (1 s c)
  have "I s \<Longrightarrow> I (upd_mm c (\<lambda>_. m') s)"
    if "caller_mm s c = Some m" "find_victim_page m = Some (p, m')" for m p m'
    using that(2) by (intro keep_replace_mm [OF that(1)]) (auto simp: find_victim_page_def split: if_splits)
  with 1 show ?case
    by (subst (asm) (2) find_present_victim_in_proc.simps) (auto simp: Let_def split: option.splits if_splits)
qed

lemma keep_global_victim_loop [keep]: "global_victim_loop s c ps = (r, s') \<Longrightarrow> I s \<longrightarrow> I s'"
  by (induction s c ps rule: global_victim_loop.induct)
    (auto split: if_splits option.splits prod.splits dest: keep)

lemma keep_find_global_victim [keep]: "find_global_victim s c = (r, s') \<Longrightarrow> I s \<longrightarrow> I s'"
  by (auto simp: find_global_victim_def Let_def split: if_splits option.splits prod.splits dest!: keep)

lemma keep_swap_out [keep]: "swap_out_victim_page s c = Some (r, s') \<Longrightarrow> I s \<longrightarrow> I s'"
  by (auto simp: swap_out_victim_page_def Let_def bind_eq_Some_conv split: if_splits option.splits prod.splits dest!: keep)

lemma keep_enlist_pgn_node [keep]: "enlist_pgn_node c p s = (r, s') \<Longrightarrow> I s \<longrightarrow> I s'"
  by (auto simp: enlist_pgn_node_def Let_def split: if_splits prod.splits dest: keep)

lemma keep_pg_getpage [keep]: "pg_getpage s c p = Some (r, s') \<Longrightarrow> I s \<longrightarrow> I s'"
proof -
  have "I s \<Longrightarrow> I (snd (pte_set_fpn s c p v))" "I s \<Longrightarrow> I (snd (enlist_pgn_node c p s))" for s v
    using keep_pte_set(2) [of s c p v, OF prod.collapse [symmetric]] keep_enlist_pgn_node [of c p s, OF prod.collapse [symmetric]]
    by auto
  then show "pg_getpage s c p = Some (r, s') \<Longrightarrow> I s \<longrightarrow> I s'"
    by (auto simp: pg_getpage_def Let_def case_prod_beta bind_eq_Some_conv split: if_splits option.splits dest!: keep)
qed

lemma keep_pg_val [keep]:
  "pg_getval s c a = Some (b, s') \<Longrightarrow> I s \<longrightarrow> I s'"
  "pg_setval s c a v = Some (r, s') \<Longrightarrow> I s \<longrightarrow> I s'"
  by (auto simp: pg_getval_def pg_setval_def Let_def bind_eq_Some_conv split: option.splits dest!: keep)

section \<open>Memory areas and system calls\<close>

lemma keep_get_free_vmrg_area [keep]: "get_free_vmrg_area s c v z = Some (r, s') \<Longrightarrow> I s \<longrightarrow> I s'"
  by (auto simp: get_free_vmrg_area_def Let_def case_prod_beta bind_eq_Some_conv)

lemma keep_release_frame_list [simp]: "I s \<Longrightarrow> I (release_frame_list s c l)"
  by (induction s c l rule: release_frame_list.induct) simp_all

lemma keep_alloc_pages_loop: "alloc_pages_loop s c i n h = Some (r, l, s') \<Longrightarrow> I s \<longrightarrow> I s'"
proof (induction s c i n h rule: alloc_pages_loop.induct)
  case (1 s c i n h)
  let ?get = "case dev_get_freefp (caller_mram s c) s of (None, s') \<Rightarrow> swap_out_victim_page s' c | (Some f, s') \<Rightarrow> Some (Some f, s')"
  have get: "I s \<longrightarrow> I s2" if "?get = Some (f2, s2)" for f2 s2
    using that by (auto split: option.splits prod.splits dest!: keep)
  note run = 1(2) [unfolded alloc_pages_loop.simps [of s c i n h]]
  show ?case
  proof (cases "i < n")
    case True
    then obtain f2 s2 where g: "?get = Some (f2, s2)" using run by (auto simp: bind_eq_Some_conv)
    obtain ok s3 where a: "sys_alloc s2 = (ok, s3)" by fastforce
    have s3: "I s \<longrightarrow> I s3" using get [OF g] keep_sys_alloc [OF a] by simp
    show ?thesis
    proof (cases f2)
      case None
      then show ?thesis using run True g get [OF g] by auto
    next
      case (Some f)
      show ?thesis
      proof (cases ok)
        case False
        then show ?thesis using run True g Some a s3 by auto
      next
        case True
        then have "alloc_pages_loop s3 c (i + 1) n (h @ [f]) = Some (r, l, s')"
          using run \<open>i < n\<close> g Some a by simp
        then show ?thesis using 1(1) [OF \<open>i < n\<close> g refl Some a [symmetric] refl] True s3 by simp
      qed
    qed
  qed (use run in simp)
qed

lemma keep_alloc_pages_range [keep]: "alloc_pages_range s c n = Some (r, l, s') \<Longrightarrow> I s \<longrightarrow> I s'"
  by (auto simp: alloc_pages_range_def split: if_splits dest: keep_alloc_pages_loop)

lemma keep_walk_range [keep]: "walk_range s c p i n = (r, s') \<Longrightarrow> I s \<longrightarrow> I s'"
proof (induction s c p i n rule: walk_range.induct)
  case (1 s c p i n)
  show ?case using 1 unfolding walk_range.simps [of s c p i n]
    by (auto split: if_splits option.splits prod.splits dest: keep)
qed

lemma keep_map_frames [keep]: "map_frames s c p i n l = (ok, j, s') \<Longrightarrow> I s \<longrightarrow> I s'"
proof (induction s c p i n l rule: map_frames.induct)
  case (2 s c p i n f l)
  obtain r1 s1 where e1: "pte_set_fpn s c (p + addr_of_int i) f = (r1, s1)" by fastforce
  obtain r2 s2 where e2: "enlist_pgn_node c (p + addr_of_int i) s1 = (r2, s2)" by fastforce
  obtain r3 s3 where e3: "pte_set_entry s2 c (p + addr_of_int i) 0 = (r3, s3)" by fastforce
  show ?case using 2 e1 e2 e3
    by (auto split: if_splits dest!: keep)
qed simp

lemma keep_vmap_page_range [keep]: "vmap_page_range s c a n l g = (r, g', s') \<Longrightarrow> I s \<longrightarrow> I s'"
  by (auto simp: vmap_page_range_def Let_def split: if_splits prod.splits bool.splits dest!: keep)

lemma keep_vm_map_ram [keep]: "vm_map_ram s c a n g = Some (r, g', s') \<Longrightarrow> I s \<longrightarrow> I s'"
  by (auto simp: vm_map_ram_def Let_def bind_eq_Some_conv split: if_splits prod.splits dest!: keep)

lemma keep_inc_vma_limit [keep]: "inc_vma_limit junk s c v z = Some (r, s') \<Longrightarrow> I s \<longrightarrow> I s'"
  by (auto simp: inc_vma_limit_def Let_def bind_eq_Some_conv split: if_splits option.splits prod.splits dest!: keep)

lemma keep_mm_swap_page [keep]: "mm_swap_page s c v z = Some (r, s') \<Longrightarrow> I s \<longrightarrow> I s'"
  by (auto simp: mm_swap_page_def split: if_splits dest: keep)

lemma keep_sys_memmap [keep]: "sys_memmap junk s k n rs = Some (r, rs', s') \<Longrightarrow> I s \<longrightarrow> I s'"
  by (auto simp: sys_memmap_def Let_def bind_eq_Some_conv split: if_splits option.splits prod.splits dest!: keep)

lemma keep_syscall [keep]: "syscall junk s k n nr rs = Some (r, rs', s') \<Longrightarrow> I s \<longrightarrow> I s'"
  by (auto simp: syscall_def split: if_splits dest: keep)

lemma keep_libsyscall [keep]: "libsyscall junk s c i a b d = Some (r, s') \<Longrightarrow> I s \<longrightarrow> I s'"
  by (auto simp: libsyscall_def Let_def bind_eq_Some_conv split: if_splits option.splits dest!: keep)

section \<open>User memory\<close>

lemma keep_mem_alloc [keep]: "mem_alloc junk s c v i z = Some (r, s') \<Longrightarrow> I s \<longrightarrow> I s'"
  by (auto simp: mem_alloc_def Let_def bind_eq_Some_conv split: if_splits option.splits dest!: keep)

lemma keep_mem_free [keep]: "mem_free s c v i = Some (r, s') \<Longrightarrow> I s \<longrightarrow> I s'"
  by (auto simp: mem_free_def Let_def bind_eq_Some_conv split: if_splits option.splits prod.splits dest!: keep)

lemma keep_mem_access [keep]:
  "mem_read s c v i off = Some (b, s') \<Longrightarrow> I s \<longrightarrow> I s'"
  "mem_write s c v i off u = Some (r, s') \<Longrightarrow> I s \<longrightarrow> I s'"
  by (auto simp: mem_read_def mem_write_def bind_eq_Some_conv split: if_splits option.splits dest!: keep)

lemma keep_user_library [keep]:
  "liballoc junk s c z i = Some (r, s') \<Longrightarrow> I s \<longrightarrow> I s'"
  "libfree s c i = Some (r, s') \<Longrightarrow> I s \<longrightarrow> I s'"
  "libread s c i off d = Some (r, s') \<Longrightarrow> I s \<longrightarrow> I s'"
  "libwrite s c u i off = Some (r, s') \<Longrightarrow> I s \<longrightarrow> I s'"
  by (auto simp: liballoc_def libfree_def libread_def libwrite_def bind_eq_Some_conv
      split: if_splits option.splits dest!: keep)

section \<open>Kernel memory\<close>

lemma keep_contiguous_frames [keep]:
  "kernel_allocate_contiguous_frames s c n = (f, s') \<Longrightarrow> I s \<longrightarrow> I s'"
  by (auto simp: kernel_allocate_contiguous_frames_def Let_def split: if_splits option.splits prod.splits dest!: keep)

lemma keep_kernel_walk_pte [keep]: "kernel_walk_pte s c a create = (ok, s') \<Longrightarrow> I s \<longrightarrow> I s'"
  by (auto simp: kernel_walk_pte_def Let_def keep_new_root split: if_splits option.splits prod.splits dest: keep)

lemma keep_kernel_store [simp]: "I s \<Longrightarrow> I (kernel_store s c a v)"
  by (auto simp: kernel_store_def split: option.splits)

lemma keep_kernel_map_page [keep]: "kernel_map_page s c a f = (r, s') \<Longrightarrow> I s \<longrightarrow> I s'"
  by (auto simp: kernel_map_page_def kernel_get_pte_def split: prod.splits bool.splits dest: keep)

lemma keep_clear_entries [simp]: "I s \<Longrightarrow> I (clear_entries s c b i n)"
proof (induction n arbitrary: s i)
  case (Suc n)
  obtain ok s1 where w: "kernel_walk_pte s c (b + addr_of_int (int32 (int i * 4096))) False = (ok, s1)" by fastforce
  with keep_kernel_walk_pte [OF w] Suc show ?case by (cases ok) (simp_all add: Let_def)
qed simp

lemma keep_kernel_release [simp]: "I s \<Longrightarrow> I (kernel_release_contiguous_region s c b n)"
  by (auto simp: kernel_release_contiguous_region_def Let_def split: option.splits)

lemma keep_map_contiguous [keep]: "map_contiguous s c a f i n = (ok, s') \<Longrightarrow> I s \<longrightarrow> I s'"
  by (induction s c a f i n rule: map_contiguous.induct) (auto simp: Let_def split: prod.splits if_splits dest: keep)

lemma keep_kernel_alloc [keep]: "kernel_alloc_contiguous_region s c z = (r, s') \<Longrightarrow> I s \<longrightarrow> I s'"
  by (auto simp: kernel_alloc_contiguous_region_def Let_def split: if_splits option.splits prod.splits bool.splits dest!: keep)

lemma keep_kmalloc [keep]: "kmalloc s c i z = (r, s') \<Longrightarrow> I s \<longrightarrow> I s'"
  by (auto simp: kmalloc_def Let_def split: if_splits option.splits prod.splits dest!: keep)

lemma keep_libkmem_malloc [keep]: "libkmem_malloc s c z i = Some (r, s') \<Longrightarrow> I s \<longrightarrow> I s'"
  by (auto simp: libkmem_malloc_def split: if_splits option.splits prod.splits dest!: keep)

lemma keep_alloc_slots [keep]: "alloc_slots s b z i n = (r, s') \<Longrightarrow> I s \<longrightarrow> I s'"
  by (induction s b z i n arbitrary: r s' rule: alloc_slots.induct)
    (auto simp: Let_def split: prod.splits if_splits option.splits dest: keep)

lemma keep_create_cache_slab [keep]: "create_cache_slab s b z n = (r, s') \<Longrightarrow> I s \<longrightarrow> I s'"
  by (auto simp: create_cache_slab_def Let_def split: if_splits option.splits prod.splits dest!: keep)

lemma keep_pool_table [keep]: "pool_table t i s = (r, s') \<Longrightarrow> I s \<longrightarrow> I s'"
  by (auto simp: pool_table_def Let_def split: if_splits option.splits prod.splits dest: keep)

lemma keep_set_pools [simp]: "I s \<Longrightarrow> I (set_pools c l s)"
  by (simp add: set_pools_def)

lemma keep_pool_create [keep]: "libkmem_cache_pool_create s c z a i = (r, s') \<Longrightarrow> I s \<longrightarrow> I s'"
  by (auto simp: libkmem_cache_pool_create_def Let_def split: if_splits option.splits prod.splits dest!: keep)

lemma keep_cache_alloc [keep]:
  "kmem_cache_alloc s c i p = (r, s') \<Longrightarrow> I s \<longrightarrow> I s'"
  by (auto simp: kmem_cache_alloc_def Let_def split: if_splits option.splits prod.splits)

lemma keep_libkmem_cache_alloc [keep]: "libkmem_cache_alloc s c i p = Some (r, s') \<Longrightarrow> I s \<longrightarrow> I s'"
  by (auto simp: libkmem_cache_alloc_def split: if_splits option.splits prod.splits dest!: keep)

lemma keep_kernel_access [keep]:
  "read_kernel_mem s c i off = Some (b, s') \<Longrightarrow> I s \<longrightarrow> I s'"
  "write_kernel_mem s c i off u = Some (r, s') \<Longrightarrow> I s \<longrightarrow> I s'"
  "read_user_mem s c i off = Some (b, s') \<Longrightarrow> I s \<longrightarrow> I s'"
  "write_user_mem s c i off u = Some (r, s') \<Longrightarrow> I s \<longrightarrow> I s'"
  by (auto simp: read_kernel_mem_def write_kernel_mem_def read_user_mem_def write_user_mem_def Let_def bind_eq_Some_conv
      split: if_splits option.splits dest!: keep)

lemma keep_copy_loop:
  assumes "\<And>s off b s'. rd s off = Some (b, s') \<Longrightarrow> I s \<longrightarrow> I s'"
    and "\<And>s off b r s'. wr s off b = Some (r, s') \<Longrightarrow> I s \<longrightarrow> I s'"
  shows "copy_loop rd wr s off i n = Some (r, s') \<Longrightarrow> I s \<longrightarrow> I s'"
  using assms by (induction rd wr s off i n rule: copy_loop.induct)
    (fastforce simp: bind_eq_Some_conv split: if_splits option.splits)+

lemma keep_copy [keep]:
  "libkmem_copy_from_user s c a b off n = Some (r, s') \<Longrightarrow> I s \<longrightarrow> I s'"
  "libkmem_copy_to_user s c a b off n = Some (r, s') \<Longrightarrow> I s \<longrightarrow> I s'"
  by (auto simp: libkmem_copy_from_user_def libkmem_copy_to_user_def split: if_splits
      dest!: keep_copy_loop [rotated 2] dest: keep)

section \<open>Releasing what a process holds\<close>

lemma keep_release_pools [simp]: "I s \<Longrightarrow> I (release_pools s c l)"
  by (induction s c l rule: release_pools.induct) (simp_all add: Let_def clear_symrg_range_def)

lemma keep_release_cache_pools [simp]: "I s \<Longrightarrow> I (release_kernel_cache_pools s c)"
  by (simp add: release_kernel_cache_pools_def free_kmem_cache_metadata_def split: option.split)

lemma keep_release_symrgs [simp]: "I s \<Longrightarrow> I (release_symrgs s c l)"
  by (induction s c l rule: release_symrgs.induct) (simp_all add: Let_def split: option.split)

lemma keep_collect_entry [simp]: "I s \<Longrightarrow> I (collect_entry c pte s)"
  by (simp add: collect_entry_def)

lemma keep_fold: "(\<And>x s. I s \<Longrightarrow> I (f x s)) \<Longrightarrow> I s \<Longrightarrow> I (fold f xs s)"
  by (induction xs arbitrary: s) simp_all

lemma keep_collect [simp]: "I s \<Longrightarrow> I (pcb_memph_collect_recursive n c t s)"
  by (induction n arbitrary: t s) (auto split: ptab.split option.split intro!: keep_fold)

lemma keep_free_pcb_memph [keep]: "free_pcb_memph s c = Some (r, s') \<Longrightarrow> I s \<longrightarrow> I s'"
  by (auto simp: free_pcb_memph_def release_kernel_symrg_allocations_def Let_def bind_eq_Some_conv split: option.splits if_splits)

end

end
