(* ===== verification/Proc_Shape.thy ===== *)
theory Proc_Shape
  imports Mem_Keeps
begin

text \<open>
  What no memory operation changes. \<open>shape_of\<close> is the scheduler and, for every process, its
  number, priorities, code and program counter, the length of its register array and of its
  symbol table. Every operation of the libraries that an instruction can call keeps it, on every
  path and without any assumption on the state: the memory code never touches the queues and
  never moves the program counter of any process.
\<close>

section \<open>The shape\<close>

definition pcb_shape :: "pcb_t \<Rightarrow> (uint32 \<times> uint32 \<times> uint32 \<times> code_seg_t option \<times> uint32) \<times> uint32 \<times> nat \<times> nat option option" where
  "pcb_shape b = ((pid b, priority b, prio b, code b, pc b), bp b, length (regs b),
     map_option (\<lambda>k. map_option (\<lambda>m. length (symrgtbl m)) (k_mm k)) (krnl b))"

definition shape_of :: "sys \<Rightarrow> sched \<times> (pptr \<Rightarrow> ((uint32 \<times> uint32 \<times> uint32 \<times> code_seg_t option \<times> uint32) \<times> uint32 \<times> nat \<times> nat option option) option)" where
  "shape_of s = (sy_sched s, \<lambda>c. map_option pcb_shape (pcbs s c))"

lemma shape_upd_krnl:
  assumes "\<And>k. caller_krnl s c = Some k \<or> c = NULL \<Longrightarrow> map_option (\<lambda>m. length (symrgtbl m)) (k_mm (f k)) = map_option (\<lambda>m. length (symrgtbl m)) (k_mm k)"
  shows "shape_of (upd_krnl c f s) = shape_of s"
  using assms
  by (cases "pcbs s c"; cases "c = NULL")
    (auto simp: shape_of_def upd_krnl_def pcb_shape_def fun_eq_iff caller_krnl_def option.map_comp comp_def intro!: option.map_cong0)

lemma shape_upd_mm [simp]:
  "(\<And>m. length (symrgtbl (f m)) = length (symrgtbl m)) \<Longrightarrow> shape_of (upd_mm c f s) = shape_of s"
  unfolding upd_mm_def by (rule shape_upd_krnl) (simp add: option.map_comp comp_def)

lemma shape_fields [simp]:
  "shape_of (s\<lparr>sy_host := h\<rparr>) = shape_of s" "shape_of (s\<lparr>kroots := r\<rparr>) = shape_of s"
  "shape_of (s\<lparr>next_root := n\<rparr>) = shape_of s" "shape_of (upd_dev d mp s) = shape_of s"
  by (simp_all add: shape_of_def upd_dev_def)

lemma shape_upd_regs [simp]: "shape_of (upd_pcb c (\<lambda>b. b\<lparr>regs := (regs b)[i := v]\<rparr>) s) = shape_of s"
  by (cases "pcbs s c") (auto simp: shape_of_def upd_pcb_def pcb_shape_def fun_eq_iff)

section \<open>No memory operation changes it\<close>

interpretation shp: memory_invariant "\<lambda>t. shape_of t = x" "\<lambda>_. True" for x
proof (unfold_locales, goal_cases)
  case (6 s c r)
  then show ?case by (simp add: shape_upd_krnl)
next
  case (7 s f c)
  then show ?case by simp
qed simp_all

lemma shape_free_pcb_memph: "free_pcb_memph s c = Some (r, s') \<Longrightarrow> shape_of s' = shape_of s"
  using shp.keep_free_pcb_memph [where x = "shape_of s"] by blast

lemma shape_mem_read: "mem_read s c v i off = Some (b, s') \<Longrightarrow> shape_of s' = shape_of s"
  using shp.keep_mem_access(1) [where x = "shape_of s"] by blast

end
