(* ===== verification/Tidy.thy ===== *)
theory Tidy
  imports Mem_Keeps
begin

text \<open>
  Tidy page tables: the user table of a process has entries in the lower half only, and no entry is marked
  both present and swapped. No operation of the memory code breaks this, so the walk over the whole
  table at the end of a process (theory \<open>Exit\<close>) meets user pages only and knows for each entry what it names.
\<close>

section \<open>Tidy tables\<close>

definition tidy_tab :: "ptab \<Rightarrow> bool" where
  "tidy_tab t \<longleftrightarrow> (\<forall>i is j e. tab_get t (i # is) j = Some e \<longrightarrow> i < 256 \<and> clean e)"

definition tidy :: "sys \<Rightarrow> bool" where
  "tidy s \<longleftrightarrow> (\<forall>c m t. caller_mm s c = Some m \<longrightarrow> mm_pgd m = Some t \<longrightarrow> tidy_tab t)"

text \<open>A store changes an entry that was there.\<close>

lemma tab_get_set:
  "tab_get (tab_set t is j v) ks k = Some e \<Longrightarrow> \<exists>e0. tab_get t ks k = Some e0 \<and> (e = e0 \<or> e = v)"
proof (induction t "is" j v arbitrary: ks rule: tab_set.induct)
  case (1 g j v)
  then show ?case by (cases ks) (auto split: if_splits)
next
  case (2 f i "is" j v)
  then show ?case by (cases ks) (auto split: option.splits if_splits)
qed auto

text \<open>A walk adds entries below its first index only, and they are null.\<close>

lemma tab_get_empty: "tab_get (empty_table is) ks k = Some e \<Longrightarrow> e = 0"
  by (cases "is"; cases ks) auto

lemma tab_get_walk_below:
  "walk_dirs create is t h = (ok, t', h') \<Longrightarrow> tab_get t' ks k = Some e \<Longrightarrow> tab_get t ks k = Some e \<or> e = 0"
proof (induction create "is" t h arbitrary: ks ok t' h' rule: walk_dirs.induct)
  case (2 create i "is" f h)
  then show ?case
    by (cases ks) (force simp: Let_def split: option.splits if_splits prod.splits dest: tab_get_empty)+
qed auto

lemma tab_get_walk:
  assumes "walk_dirs create (i # is) t h = (ok, t', h')" "tab_get t' (k # ks) j = Some e"
  shows "tab_get t (k # ks) j = Some e \<or> e = 0 \<and> k = i"
  using assms tab_get_walk_below [of create "is"]
  by (cases t) (fastforce simp: Let_def split: option.splits if_splits prod.splits dest: tab_get_empty)+

lemma dir_path_fields:
  "dir_path a = [take_bit 9 (drop_bit 48 a), take_bit 9 (drop_bit 39 a), take_bit 9 (drop_bit 30 a), take_bit 9 (drop_bit 21 a)]"
  "pt_index a = take_bit 9 (drop_bit 12 a)"
  using get_pd_from_address_fields [of a] by (auto simp: dir_path_def pt_index_def split: prod.splits)

lemma user_first_index:
  assumes "\<not> is_kernel_address a"
  shows "take_bit 9 (drop_bit 48 a) < 256"
proof -
  have "take_bit 9 (drop_bit 48 a) = take_bit 8 (drop_bit 48 a)"
  proof (rule bit_word_eqI)
    fix n :: nat
    have "n < 9 \<longleftrightarrow> n < 8 \<or> n = 8" by auto
    then show "bit (take_bit 9 (drop_bit 48 a)) n = bit (take_bit 8 (drop_bit 48 a)) n"
      using assms by (auto simp: bit_take_bit_iff bit_drop_bit_eq is_kernel_address_bit)
  qed
  moreover have "take_bit 8 (drop_bit 48 a) < 256"
    using take_bit_nat_less_exp [of 8 "unat (drop_bit 48 a)"] by (simp add: word_less_nat_alt unsigned_take_bit_eq)
  ultimately show ?thesis by simp
qed

section \<open>The memory code keeps tables tidy\<close>

lemma tidy_cong:
  assumes "\<And>c. map_option mm_pgd (caller_mm s' c) = map_option mm_pgd (caller_mm s c)"
  shows "tidy s' = tidy s"
proof -
  have "tidy u \<longleftrightarrow> (\<forall>c t. map_option mm_pgd (caller_mm u c) = Some (Some t) \<longrightarrow> tidy_tab t)" for u
    by (auto simp: tidy_def)
  note eq = this
  show ?thesis unfolding eq assms ..
qed

lemma tidy_tab_walk:
  assumes "tidy_tab t" "walk_dirs create (dir_path a) t h = (ok, t', h')" "\<not> is_kernel_address a"
  shows "tidy_tab t'"
  unfolding tidy_tab_def
proof (intro allI impI)
  fix i "is" j e
  assume "tab_get t' (i # is) j = Some e"
  from tab_get_walk [OF assms(2) [unfolded dir_path_fields] this] assms(1) user_first_index [OF assms(3)]
  show "i < 256 \<and> clean e" by (auto simp: tidy_tab_def)
qed

interpretation tidy: memory_invariant tidy tidy_tab
proof (unfold_locales, goal_cases)
  case (5 s c i v)
  have "caller_mm (upd_pcb c (\<lambda>b. b\<lparr>regs := (regs b)[i := v]\<rparr>) s) x = caller_mm s x" for x
    by (cases "pcbs s c") (auto simp: caller_mm_def caller_krnl_def upd_pcb_def)
  with 5 show ?case by (subst tidy_cong [of _ s]) simp_all
next
  case (6 s c r)
  have "caller_mm (upd_krnl c (\<lambda>k. k\<lparr>krnl_pgd := r\<rparr>) s) x = caller_mm s x" for x
    by (cases "caller_krnl s c") (auto simp: caller_mm_def)
  with 6 show ?case by (subst tidy_cong [of _ s]) simp_all
next
  case (7 s f c)
  then show ?case using tidy_cong [of "upd_mm c f s" s] by (simp add: option.map_comp comp_def)
next
  case (8 s p c)
  then show ?case by (auto simp: tidy_def split: if_splits)
next
  case (9 s c m t)
  then show ?case by (simp add: tidy_def)
next
  case 10
  then show ?case by (simp add: tidy_tab_def)
next
  case (11 t create a h ok t' h')
  then show ?case by (blast intro: tidy_tab_walk)
next
  case (12 t v "is" j)
  then show ?case using tab_get_set [of t "is" j v] by (fastforce simp: tidy_tab_def)
qed (simp_all add: tidy_def)

end
