(* ===== verification/Cpu.thy ===== *)
theory Cpu
  imports Proc_Shape Tidy Heap
begin

text \<open>
  The instruction interpreter of src/cpu.c, in the configuration of include/os-cfg.h (MM_PAGING):
  \<open>run\<close> fetches the instruction at the program counter, advances the counter and calls the library
  function of the opcode. The arguments are 64-bit; the conversions to the parameter types of the
  library functions are written out. \<open>alloc\<close>, \<open>free_data\<close>, \<open>read\<close> and \<open>write\<close> of the
  source are only called without MM_PAGING and are not modelled.
\<close>

section \<open>Execution of one instruction\<close>

definition calc :: "pptr \<Rightarrow> int" where
  "calc proc = int_of_addr (of_nat proc AND 0)"

definition dispatch_inst :: "rg_node \<Rightarrow> sys \<Rightarrow> pptr \<Rightarrow> inst_t \<Rightarrow> (int \<times> sys) option" where
  "dispatch_inst junk s c ins =
     (case opcode ins of
        CALC \<Rightarrow> Some (calc c, s)
      | ALLOC \<Rightarrow> liballoc junk s c (arg_0 ins) (ucast (arg_1 ins))
      | KMALLOC \<Rightarrow> libkmem_malloc s c (ucast (arg_0 ins)) (ucast (arg_1 ins))
      | KMEM_CACHE_CREATE \<Rightarrow> Some (libkmem_cache_pool_create s c (ucast (arg_0 ins)) (ucast (arg_1 ins)) (ucast (arg_2 ins)))
      | KMEM_CACHE_ALLOC \<Rightarrow> libkmem_cache_alloc s c (ucast (arg_1 ins)) (ucast (arg_0 ins))
      | COPY_FROM_USER \<Rightarrow> libkmem_copy_from_user s c (ucast (arg_0 ins)) (ucast (arg_1 ins)) (ucast (arg_2 ins)) (ucast (arg_3 ins))
      | COPY_TO_USER \<Rightarrow> libkmem_copy_to_user s c (ucast (arg_0 ins)) (ucast (arg_1 ins)) (ucast (arg_2 ins)) (ucast (arg_3 ins))
      | FREE \<Rightarrow> libfree s c (ucast (arg_0 ins))
      | READ \<Rightarrow> libread s c (ucast (arg_0 ins)) (arg_1 ins) (ucast (arg_2 ins))
      | WRITE \<Rightarrow> libwrite s c (ucast (arg_0 ins)) (ucast (arg_1 ins)) (arg_2 ins)
      | SYSCALL \<Rightarrow> libsyscall junk s c (ucast (arg_0 ins)) (arg_1 ins) (arg_2 ins) (arg_3 ins))"

text \<open>
  \<open>run\<close>. The text of a code segment has as many instructions as were allocated; an access past
  them, or to a process without code, is a fault.
\<close>

definition run :: "rg_node \<Rightarrow> sys \<Rightarrow> pptr \<Rightarrow> (int \<times> sys) option" where
  "run junk s c = do {
     b \<leftarrow> pcbs s c;
     cs \<leftarrow> code b;
     if pc b \<ge> code_size cs then Some (1, s)
     else if unat (pc b) < length (code_text cs) then
       let ins = code_text cs ! unat (pc b);
           s1 = upd_pcb c (\<lambda>b. b\<lparr>pc := pc b + 1\<rparr>) s
       in dispatch_inst junk s1 c ins
     else None }"

section \<open>Program counter and code\<close>

context memory_invariant
begin

lemma keep_dispatch_inst: "dispatch_inst junk s c ins = Some (r, s') \<Longrightarrow> I s \<longrightarrow> I s'"
  by (auto simp: dispatch_inst_def split: ins_opcode_t.splits dest: keep)

end

lemma shape_dispatch_inst: "dispatch_inst junk s c ins = Some (r, s') \<Longrightarrow> shape_of s' = shape_of s"
  using shp.keep_dispatch_inst [where x = "shape_of s"] by blast

lemma tidy_run: "run junk s c = Some (r, s') \<Longrightarrow> tidy s \<Longrightarrow> tidy s'"
proof -
  assume r: "run junk s c = Some (r, s')" and t: "tidy s"
  let ?s = "upd_pcb c (\<lambda>b. b\<lparr>pc := pc b + 1\<rparr>) s"
  have "caller_mm ?s x = caller_mm s x" for x
    by (cases "pcbs s c") (auto simp: caller_mm_def caller_krnl_def upd_pcb_def)
  then have "tidy ?s = tidy s" by (intro tidy_cong) simp
  with t r show "tidy s'"
    by (auto simp: run_def Let_def bind_eq_Some_conv split: if_splits dest: tidy.keep_dispatch_inst)
qed

lemma shape_pcb:
  assumes "shape_of s' = shape_of s"
  shows "map_option pcb_shape (pcbs s' c) = map_option pcb_shape (pcbs s c)" "sy_sched s' = sy_sched s"
  using assms by (auto simp: shape_of_def dest: fun_cong)

text \<open>
  A process as the CPU sees it: its code is as long as it says, the counter is inside or at the end,
  there are ten registers and, with an address space, thirty symbol table entries.
\<close>

definition pcb_wf :: "pcb_t \<Rightarrow> bool" where
  "pcb_wf b \<longleftrightarrow> (\<exists>cs. code b = Some cs \<and> length (code_text cs) = unat (code_size cs) \<and> pc b \<le> code_size cs) \<and>
     length (regs b) = 10 \<and>
     (\<forall>k m. krnl b = Some k \<and> k_mm k = Some m \<longrightarrow> length (symrgtbl m) = PAGING_MAX_SYMTBL_SZ)"

definition procs_wf :: "sys \<Rightarrow> bool" where
  "procs_wf s \<longleftrightarrow> (\<forall>c b. pcbs s c = Some b \<longrightarrow> pcb_wf b)"

lemma pcb_wf_shape:
  assumes "pcb_shape b = pcb_shape b'"
  shows "pcb_wf b = pcb_wf b'"
proof -
  have e: "code b = code b'" "pc b = pc b'" "length (regs b) = length (regs b')"
    "map_option (\<lambda>k. map_option (\<lambda>m. length (symrgtbl m)) (k_mm k)) (krnl b) =
     map_option (\<lambda>k. map_option (\<lambda>m. length (symrgtbl m)) (k_mm k)) (krnl b')"
    using assms by (simp_all add: pcb_shape_def)
  have *: "(\<forall>k m. krnl x = Some k \<and> k_mm k = Some m \<longrightarrow> length (symrgtbl m) = z) \<longleftrightarrow>
      (\<forall>l. map_option (\<lambda>k. map_option (\<lambda>m. length (symrgtbl m)) (k_mm k)) (krnl x) = Some (Some l) \<longrightarrow> l = z)" for x z
    by auto
  show ?thesis unfolding pcb_wf_def * e ..
qed

lemma procs_wf_shape: "shape_of s' = shape_of s \<Longrightarrow> procs_wf s' = procs_wf s"
proof -
  have "(\<forall>b. pcbs t x = Some b \<longrightarrow> pcb_wf b) \<longrightarrow> (\<forall>b. pcbs t' x = Some b \<longrightarrow> pcb_wf b)"
    if "shape_of t' = shape_of t" for t t' x
    using shape_pcb(1) [OF that, of x] by (cases "pcbs t x") (auto dest: pcb_wf_shape)
  from this [of s' s] this [of s s'] show "shape_of s' = shape_of s \<Longrightarrow> procs_wf s' = procs_wf s"
    unfolding procs_wf_def by (metis (no_types))
qed

text \<open>One instruction: the counter of the process moves by one, and no other part of a shape changes.\<close>

lemma run_cases:
  assumes "run junk s c = Some (r, s')" "pcbs s c = Some b" "code b = Some cs"
  obtains "pc b \<ge> code_size cs" "r = 1" "s' = s"
  | "pc b < code_size cs" "unat (pc b) < length (code_text cs)"
    "dispatch_inst junk (upd_pcb c (\<lambda>b. b\<lparr>pc := pc b + 1\<rparr>) s) c (code_text cs ! unat (pc b)) = Some (r, s')"
    "shape_of s' = shape_of (upd_pcb c (\<lambda>b. b\<lparr>pc := pc b + 1\<rparr>) s)"
  using assms by (auto simp: run_def Let_def not_le split: if_splits dest: shape_dispatch_inst)

lemma run_pcb:
  assumes "run junk s c = Some (r, s')" "pcbs s c = Some b" "code b = Some cs"
  shows "sy_sched s' = sy_sched s"
    "\<exists>b'. pcbs s' c = Some b' \<and> pcb_shape b' = pcb_shape (if pc b < code_size cs then b\<lparr>pc := pc b + 1\<rparr> else b)"
    "x \<noteq> c \<Longrightarrow> map_option pcb_shape (pcbs s' x) = map_option pcb_shape (pcbs s x)"
proof (goal_cases)
  case 1 show ?case by (rule run_cases [OF assms]) (auto simp: upd_pcb_def dest: shape_pcb(2))
next
  case 2 show ?case
    by (rule run_cases [OF assms]) (use assms(2) in \<open>auto simp: upd_pcb_def not_le dest!: shape_pcb(1) [of _ _ c]\<close>)
next
  case 3 then show ?case by (cases rule: run_cases [OF assms]) (auto simp: upd_pcb_def dest!: shape_pcb(1) [of _ _ x])
qed

section \<open>Changing only registers and the counter\<close>

lemma upd_pcb_frame [simp]:
  "sy_sched (upd_pcb c f s) = sy_sched s" "devs (upd_pcb c f s) = devs s" "kroots (upd_pcb c f s) = kroots s"
  "next_root (upd_pcb c f s) = next_root s" "sy_host (upd_pcb c f s) = sy_host s"
  by (simp_all add: upd_pcb_def)

lemma upd_pcb_caller:
  assumes "\<And>b. krnl (f b) = krnl b"
  shows "caller_krnl (upd_pcb c f s) = caller_krnl s" "caller_mm (upd_pcb c f s) = caller_mm s"
    "caller_mram (upd_pcb c f s) = caller_mram s" "caller_mswp (upd_pcb c f s) = caller_mswp s"
proof -
  show k: "caller_krnl (upd_pcb c f s) = caller_krnl s"
    by (rule ext, cases "pcbs s c") (auto simp: caller_krnl_def upd_pcb_def assms)
  show "caller_mm (upd_pcb c f s) = caller_mm s" "caller_mram (upd_pcb c f s) = caller_mram s"
    "caller_mswp (upd_pcb c f s) = caller_mswp s"
    by (simp_all add: fun_eq_iff caller_mm_def caller_mram_def caller_mswp_def k)
qed

lemma upd_pcb_pt:
  assumes "\<And>b. krnl (f b) = krnl b" "pt_wf s"
  shows "pt_wf (upd_pcb c f s)" "pte_get_entry (upd_pcb c f s) = pte_get_entry s"
proof -
  note cl = upd_pcb_caller [OF assms(1), where c = c and s = s]
  show pt: "pt_wf (upd_pcb c f s)"
    using assms(2) by (simp add: pt_wf_def pte_view_def root_of_def kroot_of_def cl fun_eq_iff)
  have "pte_view (upd_pcb c f s) = pte_view s" by (simp add: pte_view_def root_of_def kroot_of_def cl fun_eq_iff)
  then show "pte_get_entry (upd_pcb c f s) = pte_get_entry s"
    by (intro ext) (simp add: pte_get_entry_view pt assms(2))
qed

lemma upd_pcb_inv:
  assumes "\<And>b. krnl (f b) = krnl b" "vm_inv w F s"
  shows "vm_inv w F (upd_pcb c f s)" "vbyte w (upd_pcb c f s) = vbyte w s"
proof -
  note cl = upd_pcb_caller [OF assms(1), where c = c and s = s]
  note pt = upd_pcb_pt [OF assms(1) vm_invD(1) [OF assms(2)], where c = c]
  have us: "user_slot (upd_pcb c f s) = user_slot s" by (rule user_slot_cong [OF pt(2)])
  show "vm_inv w F (upd_pcb c f s)"
    using assms(2) pt(1) _ _ _ us
    by (rule vm_inv_cong) (use vm_invD(2,3) [OF assms(2)] in \<open>simp_all add: devices_ok_def callers_ok_def slot_ok_def cl\<close>)
  show "vbyte w (upd_pcb c f s) = vbyte w s"
    by (simp add: fun_eq_iff vbyte_def us slot_byte_def)
qed

lemma upd_pcb_heap:
  assumes "\<And>b. krnl (f b) = krnl b" "heap_inv w F s x"
  shows "heap_inv w F (upd_pcb c f s) x"
proof -
  have i: "vm_inv w F s" using assms(2) by (simp add: heap_inv_def)
  show ?thesis
    by (rule heap_inv_keep [OF assms(2) upd_pcb_inv(1) [OF assms(1) i]])
      (simp_all add: upd_pcb_caller [OF assms(1)] upd_pcb_inv(2) [OF assms(1) i])
qed

lemma upd_pcb_symrg: "(\<And>b. krnl (f b) = krnl b) \<Longrightarrow> symrg (upd_pcb c f s) = symrg s"
  by (simp add: fun_eq_iff symrg_def upd_pcb_caller)

section \<open>Access through an entry that names no user memory\<close>

lemma region_addr_not_user:
  assumes "\<not> user_rg r"
  shows "region_addr r off = None"
proof (cases "rg_start r < rg_end r")
  case True
  then have "KMEM_VADDR_BASE \<le> rg_start r" using assms by (simp add: user_rg_def not_less)
  then have "2 ^ 56 * 0xff \<le> uint (rg_start r)" "uint (rg_start r) < 2 ^ 64"
    using uint_lt2p [of "rg_start r"] by (simp_all add: KMEM_VADDR_BASE_def word_le_def)
  then have "uint (rg_start r) div 2 ^ 56 = 0xff" by auto
  then have "drop_bit 56 (rg_start r) = 0xff"
    by (intro word_uint_eqI) (simp add: drop_bit_eq_div uint_div)
  then show ?thesis by (simp add: region_addr_def Let_def is_user_vaddr_range_def)
next
  case False
  then show ?thesis by (simp add: region_addr_def Let_def is_user_vaddr_range_def not_less)
qed

text \<open>
  Reads and writes with any index: they go through an entry that names user memory, or they are
  refused and change nothing.
\<close>

lemma access_refused:
  assumes "heap_inv w F s c" "\<And>i r. rgid = int i \<Longrightarrow> symrg s c i = Some r \<Longrightarrow> \<not> user_rg r"
  shows "mem_write s c 0 rgid off u = Some (-1, s)" "mem_read s c 0 rgid off = Some (None, s)"
proof -
  from assms(1) obtain v T where a: "area_ok w s c v T" "symtab_ok v T" by (auto simp: heap_inv_def)
  obtain m where m: "caller_mm s c = Some m" "mm_mmap m = [v]" "symrgtbl m = T" by (rule area_ok_mm [OF a(1)])
  have T: "length T = PAGING_MAX_SYMTBL_SZ" using a(2) by (simp add: symtab_ok_def)
  have no: "region_addr (T ! nat rgid) off = None" if "0 \<le> rgid" "rgid < int PAGING_MAX_SYMTBL_SZ"
    using assms(2) [of "nat rgid" "T ! nat rgid"] that symrg_area [OF a(1), of "nat rgid"] T
    by (intro region_addr_not_user) auto
  from caller_mm_krnl [OF m(1)] obtain k where k: "caller_krnl s c = Some k" "k_mm k = Some m" by blast
  show "mem_write s c 0 rgid off u = Some (-1, s)"
    using m get_vma_single [OF m(2) area_okD(1) [OF a(1)]] no
    by (auto simp: mem_write_def get_symrg_byid_def)
  show "mem_read s c 0 rgid off = Some (None, s)"
    using m(3) k no by (auto simp: mem_read_def get_symrg_byid_def)
qed

section \<open>User instructions\<close>

text \<open>
  What an instruction of a user program needs: a register to read into, an allocation that can be
  served, a release of an entry that names user memory or is free.
\<close>

definition user_ready :: "nat \<Rightarrow> sys \<Rightarrow> pptr \<Rightarrow> inst_t \<Rightarrow> bool" where
  "user_ready w s c ins \<longleftrightarrow>
     (case opcode ins of
        CALC \<Rightarrow> True
      | READ \<Rightarrow> unat (ucast (arg_2 ins) :: uint32) < 10
      | WRITE \<Rightarrow> True
      | ALLOC \<Rightarrow> host_ok (sy_host s) \<and> unat (ucast (arg_1 ins) :: uint32) < PAGING_MAX_SYMTBL_SZ \<and>
          0 < uint (arg_0 ins) \<and> uint (arg_0 ins) < 2 ^ 31 \<and> pages_of (arg_0 ins) \<le> int (frames_avail w s c)
      | FREE \<Rightarrow> host_ok (sy_host s) \<and>
          (\<forall>r. symrg s c (unat (ucast (arg_0 ins) :: uint32)) = Some r \<longrightarrow> user_rg r \<or> rg_start r = 0 \<and> rg_end r = 0)
      | _ \<Rightarrow> False)"

text \<open>
  The bytes that an instruction may change: the one it writes, in the region it names.
\<close>

definition written :: "sys \<Rightarrow> pptr \<Rightarrow> inst_t \<Rightarrow> addr set" where
  "written s c ins =
     (case opcode ins of
        WRITE \<Rightarrow> {a. \<exists>r. symrg s c (unat (ucast (arg_1 ins) :: uint32)) = Some r \<and> user_rg r \<and>
                    a = rg_start r + arg_2 ins \<and> a \<in> sym_bytes r}
      | _ \<Rightarrow> {})"

definition isolated :: "nat \<Rightarrow> slot set \<Rightarrow> sys \<Rightarrow> pptr \<Rightarrow> addr set \<Rightarrow> sys \<Rightarrow> bool" where
  "isolated w F s c A s' \<longleftrightarrow> (\<forall>x. heap_inv w F s x \<longrightarrow> heap_inv w F s' x) \<and>
     (\<forall>x a. x \<noteq> c \<or> vbyte w s x a \<noteq> None \<and> a \<notin> A \<longrightarrow> vbyte w s' x a = vbyte w s x a)"

lemma isolated_refl: "isolated w F s c A s"
  by (simp add: isolated_def)

lemma isolated_regs:
  assumes "isolated w F s c A s'" "heap_inv w F s c" "\<And>b. krnl (f b) = krnl b"
  shows "isolated w F s c A (upd_pcb c f s')"
proof -
  have "vm_inv w F s'" using assms(1,2) by (auto simp: isolated_def heap_inv_def)
  then show ?thesis
    using assms(1) upd_pcb_heap [OF assms(3)] upd_pcb_inv(2) [OF assms(3)] by (auto simp: isolated_def)
qed

lemma rgid_cases:
  fixes x :: uint32
  obtains "sint x < 0 \<or> sint x \<ge> int PAGING_MAX_SYMTBL_SZ" "unat x \<ge> PAGING_MAX_SYMTBL_SZ"
  | "sint x = int (unat x)" "unat x < PAGING_MAX_SYMTBL_SZ" "0 \<le> sint x" "sint x < int PAGING_MAX_SYMTBL_SZ" "nat (sint x) = unat x"
proof (cases "uint x < 2 ^ 31")
  case True
  then have "sint x = uint x"
    by (simp add: sint_uint signed_take_bit_int_eq_self_iff order_trans [OF _ unsigned_greater_eq])
  then have e: "sint x = int (unat x)" by simp
  show thesis
  proof (cases "unat x < PAGING_MAX_SYMTBL_SZ")
    case True
    then show thesis unfolding e by (intro that(2)) (simp_all only: e of_nat_0_le_iff of_nat_less_iff nat_int)
  next
    case False
    then show thesis by (intro that(1)) (simp_all only: e of_nat_le_iff not_less simp_thms)
  qed
next
  case False
  moreover have "uint x < 2 ^ 32" using uint_lt2p [of x] by simp
  ultimately have "uint x div 2 ^ 31 = 1" by auto
  then have "bit (uint x) 31" by (simp add: bit_iff_odd)
  then have "sint x < 0" by (simp add: sint_uint signed_take_bit_negative_iff)
  moreover have "nat 30 \<le> nat (uint x)" using False by (intro nat_mono) simp
  then have "unat x \<ge> PAGING_MAX_SYMTBL_SZ" by (simp add: PAGING_MAX_SYMTBL_SZ_def)
  ultimately show thesis using that(1) by simp
qed

text \<open>An index names an entry of user memory, or every access through it is refused.\<close>

lemma entry_cases:
  fixes x :: uint32
  assumes "heap_inv w F s c"
  obtains r where "sint x = int (unat x)" "symrg s c (unat x) = Some r" "user_rg r"
  | "\<And>i r. sint x = int i \<Longrightarrow> symrg s c i = Some r \<Longrightarrow> \<not> user_rg r"
proof (cases rule: rgid_cases [of x])
  case 1
  from assms obtain v T where a: "area_ok w s c v T" "length T = PAGING_MAX_SYMTBL_SZ"
    by (auto simp: heap_inv_def symtab_ok_def)
  have "symrg s c i = None" if "sint x = int i" for i
    using that 1(1) a(2) by (auto simp: symrg_area [OF a(1)])
  then show thesis using that(2) by auto
next
  case 2
  then show thesis using that(1) by (metis of_nat_eq_iff that(2))
qed

lemma write_isolated:
  assumes "heap_inv w F s c" "opcode ins = WRITE"
  shows "\<exists>r s'. dispatch_inst junk s c ins = Some (r, s') \<and> isolated w F s c (written s c ins) s'"
proof -
  let ?x = "ucast (arg_1 ins) :: uint32"
  have run: "dispatch_inst junk s c ins = mem_write s c 0 (sint ?x) (arg_2 ins) (ucast (arg_0 ins))"
    by (simp add: dispatch_inst_def libwrite_def assms(2))
  show ?thesis
  proof (cases rule: entry_cases [OF assms(1), of ?x])
    case (1 r)
    obtain e s' where W: "mem_write s c 0 (int (unat ?x)) (arg_2 ins) (ucast (arg_0 ins)) = Some (e, s')"
      "\<And>x. heap_inv w F s x \<Longrightarrow> heap_inv w F s' x" "e = 0 \<Longrightarrow> rg_start r + arg_2 ins \<in> sym_bytes r"
      "\<And>x b. vbyte w s' x b = (if e = 0 \<and> x = c \<and> b = rg_start r + arg_2 ins then Some (ucast (arg_0 ins)) else vbyte w s x b)"
      by (rule write_region [OF assms(1) 1(2,3)]) (rule that; assumption)
    have "isolated w F s c (written s c ins) s'"
      unfolding isolated_def using W(2,3) 1(2,3) by (auto simp: W(4) written_def assms(2))
    then show ?thesis using W(1) 1(1) run by auto
  next
    case 2
    then show ?thesis using run access_refused(1) [OF assms(1) 2] isolated_refl by auto
  qed
qed

lemma read_isolated:
  assumes "heap_inv w F s c" "opcode ins = READ" "pcbs s c = Some b" "length (regs b) = 10"
    and "unat (ucast (arg_2 ins) :: uint32) < 10"
  shows "\<exists>r s'. dispatch_inst junk s c ins = Some (r, s') \<and> isolated w F s c (written s c ins) s'"
proof -
  let ?x = "ucast (arg_0 ins) :: uint32"
  obtain d s1 where R: "mem_read s c 0 (sint ?x) (arg_1 ins) = Some (d, s1)" "isolated w F s c (written s c ins) s1"
  proof (cases rule: entry_cases [OF assms(1), of ?x])
    case (1 r)
    obtain d s' where R: "mem_read s c 0 (int (unat ?x)) (arg_1 ins) = Some (d, s')"
      "\<And>x. heap_inv w F s x \<Longrightarrow> heap_inv w F s' x" "vbyte w s' = vbyte w s"
      by (rule read_region [OF assms(1) 1(2,3)]) (rule that; assumption)
    then show thesis using that 1(1) by (auto simp: isolated_def)
  next
    case 2
    then show thesis using that access_refused(2) [OF assms(1) 2] isolated_refl by auto
  qed
  have "map_option pcb_shape (pcbs s1 c) = Some (pcb_shape b)"
    using shape_pcb(1) [OF shape_mem_read [OF R(1)], of c] assms(3) by simp
  then obtain b1 where "pcbs s1 c = Some b1" "length (regs b1) = 10"
    using assms(4) by (auto simp: pcb_shape_def)
  then show ?thesis using R assms(5) isolated_regs [OF R(2) assms(1)]
    by (auto simp: dispatch_inst_def libread_def assms(2) split: option.split)
qed

lemma alloc_isolated:
  assumes "heap_inv w F s c" "opcode ins = ALLOC" "runs s c" "user_ready w s c ins"
  shows "\<exists>r s'. dispatch_inst junk s c ins = Some (r, s') \<and> isolated w F s c (written s c ins) s'"
proof -
  let ?x = "ucast (arg_1 ins) :: uint32"
  have u: "host_ok (sy_host s)" "unat ?x < PAGING_MAX_SYMTBL_SZ" "0 < uint (arg_0 ins)" "uint (arg_0 ins) < 2 ^ 31"
    "pages_of (arg_0 ins) \<le> int (frames_avail w s c)"
    using assms(4) by (simp_all add: user_ready_def assms(2))
  from u(2) have x: "0 \<le> sint ?x" "sint ?x < int PAGING_MAX_SYMTBL_SZ" "nat (sint ?x) = unat ?x"
    by (cases rule: rgid_cases [of ?x]; simp)+
  from assms(1) obtain v T where h: "vm_inv w F s" "area_ok w s c v T" "symtab_ok v T" by (auto simp: heap_inv_def)
  obtain a s' v' where A: "mem_alloc junk s c 0 (sint ?x) (arg_0 ins) = Some (Some a, s')" "vm_inv w F s'"
      "area_ok w s' c v' (T[unat ?x := new_rg a (arg_0 ins)])" "symtab_ok v' (T[unat ?x := new_rg a (arg_0 ins)])"
      "outside_mm c s s'" "\<And>x b. x \<noteq> c \<or> vbyte w s x b \<noteq> None \<Longrightarrow> vbyte w s' x b = vbyte w s x b"
    using mem_alloc_ok [OF h u(1) assms(3) x(1,2) u(3-5), where junk = junk] unfolding x(3) by blast
  have "heap_inv w F s' y" if "heap_inv w F s y" for y
    using heap_inv_step [OF that A(2-5)] A(6) by blast
  then have "isolated w F s c (written s c ins) s'" using A(6) unfolding isolated_def by blast
  then show ?thesis using A(1) by (auto simp: dispatch_inst_def liballoc_def assms(2))
qed

lemma free_isolated:
  assumes "heap_inv w F s c" "opcode ins = FREE" "user_ready w s c ins"
  shows "\<exists>r s'. dispatch_inst junk s c ins = Some (r, s') \<and> isolated w F s c (written s c ins) s'"
proof -
  let ?x = "ucast (arg_0 ins) :: uint32"
  have u: "host_ok (sy_host s)" "\<And>r. symrg s c (unat ?x) = Some r \<Longrightarrow> user_rg r \<or> rg_start r = 0 \<and> rg_end r = 0"
    using assms(3) by (simp_all add: user_ready_def assms(2))
  from assms(1) obtain v T where h: "vm_inv w F s" "area_ok w s c v T" "symtab_ok v T" by (auto simp: heap_inv_def)
  obtain m where m: "caller_mm s c = Some m" "symrgtbl m = T" by (rule area_ok_mm [OF h(2)])
  have T: "length T = PAGING_MAX_SYMTBL_SZ" using h(3) by (simp add: symtab_ok_def)
  have run: "dispatch_inst junk s c ins = libfree s c ?x" by (simp add: dispatch_inst_def assms(2))
  show ?thesis
  proof (cases rule: rgid_cases [of ?x])
    case 1
    then have "mem_free s c 0 (sint ?x) = Some (-1, s)" using m by (auto simp: mem_free_def get_symrg_byid_def)
    then show ?thesis using run isolated_refl by (auto simp: libfree_def)
  next
    case 2
    then have sr: "symrg s c (unat ?x) = Some (T ! unat ?x)" using T by (simp add: symrg_area [OF h(2)])
    show ?thesis
    proof (cases "user_rg (T ! unat ?x)")
      case True
      obtain s' v' T' where f: "mem_free s c 0 (sint ?x) = Some (0, s')" "vm_inv w F s'" "area_ok w s' c v' T'" "symtab_ok v' T'"
          "outside_mm c s s'" "vbyte w s' = vbyte w s"
        using mem_free_ok [OF h u(1) 2(3,4) _ refl refl] True unfolding 2(5) by blast
      have "isolated w F s c (written s c ins) s'"
        unfolding isolated_def using heap_inv_step [OF _ f(2-5)] f(6) by simp
      then show ?thesis using run f(1) by (auto simp: libfree_def)
    next
      case False
      then have "mem_free s c 0 (sint ?x) = Some (-1, s)" using m u(2) [OF sr] 2 by (auto simp: mem_free_def get_symrg_byid_def)
      then show ?thesis using run isolated_refl by (auto simp: libfree_def)
    qed
  qed
qed

lemma dispatch_isolated:
  assumes "heap_inv w F s c" "runs s c" "pcbs s c = Some b" "length (regs b) = 10" "user_ready w s c ins"
  shows "\<exists>r s'. dispatch_inst junk s c ins = Some (r, s') \<and> isolated w F s c (written s c ins) s'"
proof (cases "opcode ins")
  case CALC
  then show ?thesis using isolated_refl by (auto simp: dispatch_inst_def)
next
  case READ
  then show ?thesis using read_isolated [OF assms(1) _ assms(3,4)] assms(5) by (simp add: user_ready_def)
qed (use assms(5) write_isolated [OF assms(1)] alloc_isolated [OF assms(1) _ assms(2,5)]
    free_isolated [OF assms(1) _ assms(5)] in \<open>simp_all add: user_ready_def\<close>)

lemma runs_upd_pcb:
  assumes "\<And>b. pid (f b) = pid b" "runs s x"
  shows "runs (upd_pcb c f s) x"
proof -
  have e: "map_option pid (pcbs (upd_pcb c f s) y) = map_option pid (pcbs s y)" for y
    by (cases "pcbs s c") (auto simp: upd_pcb_def assms(1))
  from assms(2) obtain b where b: "pcbs s x = Some b" "find_proc (sy_sched s) (pcbs s) (pid b) = x"
    by (auto simp: runs_def)
  from e [of x] b(1) obtain b' where b': "pcbs (upd_pcb c f s) x = Some b'" "pid b' = pid b" by auto
  have "find_proc (sy_sched s) (pcbs (upd_pcb c f s)) (pid b) = find_proc (sy_sched s) (pcbs s) (pid b)"
    by (simp add: find_proc_def find_pid_cong [OF e])
  with b b' show ?thesis by (simp add: runs_def)
qed

lemma frames_avail_upd_pcb:
  assumes "\<And>b. krnl (f b) = krnl b" "pt_wf s"
  shows "frames_avail w (upd_pcb c f s) = frames_avail w s"
proof -
  note cl = upd_pcb_caller [OF assms(1), where c = c and s = s]
  have "pte_get_entry (upd_pcb c f s) = pte_get_entry s" by (rule upd_pcb_pt(2) [OF assms])
  then have "victims (upd_pcb c f s) = victims s"
    by (intro ext) (simp only: victims_def evictable_def resident_def fifo_of_def owners_def cl upd_pcb_frame)
  then show ?thesis by (simp add: fun_eq_iff frames_avail_def)
qed

lemma user_ready_upd_pcb:
  assumes "\<And>b. krnl (f b) = krnl b"
  shows "pt_wf s \<Longrightarrow> user_ready w (upd_pcb c f s) = user_ready w s" "written (upd_pcb c f s) = written s"
  by (auto simp: fun_eq_iff user_ready_def written_def upd_pcb_symrg [OF assms] frames_avail_upd_pcb [OF assms]
      split: ins_opcode_t.split)

lemma counter_step:
  fixes x y :: uint32
  assumes "x < y"
  shows "unat (x + 1) = unat x + 1" "x + 1 \<le> y"
proof -
  have "unat x < unat y" "unat y < 2 ^ 32" using assms unsigned_less [of y] by (simp_all add: word_less_nat_alt)
  then show u: "unat (x + 1) = unat x + 1" by (simp add: unat_word_ariths)
  then show "x + 1 \<le> y" using \<open>unat x < unat y\<close> by (simp add: word_le_nat_alt)
qed

text \<open>One instruction, on all processes.\<close>

lemma run_all:
  assumes "procs_wf s" "run junk s c = Some (r, s')"
  shows "procs_wf s' \<and> sy_sched s' = sy_sched s \<and> dom (pcbs s') = dom (pcbs s) \<and>
    (\<forall>x b cs. pcbs s x = Some b \<and> code b = Some cs \<longrightarrow> (\<exists>b'. pcbs s' x = Some b' \<and> code b' = Some cs \<and>
       pid b' = pid b \<and> prio b' = prio b \<and>
       unat (pc b') = (if x = c \<and> pc b < code_size cs then unat (pc b) + 1 else unat (pc b)) \<and>
       (x = c \<and> pc b \<ge> code_size cs \<longrightarrow> r = 1 \<and> s' = s)))"
proof -
  from assms(2) obtain b cs where b: "pcbs s c = Some b" "code b = Some cs"
    by (auto simp: run_def bind_eq_Some_conv)
  note R = run_pcb [OF assms(2) b]
  have wf: "pcb_wf b" using assms(1) b(1) by (simp add: procs_wf_def)
  obtain b' where b': "pcbs s' c = Some b'" "pcb_shape b' = pcb_shape (if pc b < code_size cs then b\<lparr>pc := pc b + 1\<rparr> else b)"
    using R(2) by blast
  have up: "unat (pc b + 1) = unat (pc b) + 1" "pc b + 1 \<le> code_size cs" if "pc b < code_size cs"
    using that counter_step by auto
  have "pcb_wf (if pc b < code_size cs then b\<lparr>pc := pc b + 1\<rparr> else b)"
    using wf up(2) b(2) by (auto simp: pcb_wf_def)
  then have "pcb_wf b'" using pcb_wf_shape [OF b'(2)] by simp
  moreover have "pcb_wf y" if "x \<noteq> c" "pcbs s' x = Some y" for x y
    using R(3) [OF that(1)] that(2) assms(1) by (cases "pcbs s x") (auto simp: procs_wf_def dest: pcb_wf_shape)
  ultimately have "procs_wf s'" using b'(1) by (metis option.inject procs_wf_def)
  moreover have fin: "pc b \<ge> code_size cs \<longrightarrow> r = 1 \<and> s' = s"
    by (rule run_cases [OF assms(2) b]) auto
  moreover have "\<exists>y'. pcbs s' x = Some y' \<and> code y' = Some ds \<and> pid y' = pid y \<and> prio y' = prio y \<and>
       unat (pc y') = (if x = c \<and> pc y < code_size ds then unat (pc y) + 1 else unat (pc y)) \<and>
       (x = c \<and> pc y \<ge> code_size ds \<longrightarrow> r = 1 \<and> s' = s)" if y: "pcbs s x = Some y" "code y = Some ds" for x y ds
  proof (cases "x = c")
    case True
    then have "y = b" "ds = cs" using y b by simp_all
    then show ?thesis using True b' b(2) up(1) fin by (auto simp: pcb_shape_def)
  next
    case False
    then obtain y' where "pcbs s' x = Some y'" "pcb_shape y' = pcb_shape y" using R(3) [OF False] y(1) by auto
    then show ?thesis using False y(2) by (auto simp: pcb_shape_def)
  qed
  moreover have "dom (pcbs s') = dom (pcbs s)"
  proof -
    have "pcbs s' x = None \<longleftrightarrow> pcbs s x = None" for x
      using R(3) [of x] b(1) b'(1) by (cases "x = c") (auto simp: map_option_case split: option.splits)
    then show ?thesis by (simp add: dom_def)
  qed
  ultimately show ?thesis using R(1) by blast
qed

lemma run_step:
  assumes "procs_wf s" "run junk s c = Some (r, s')" "pcbs s c = Some b" "code b = Some cs"
  shows "procs_wf s' \<and> sy_sched s' = sy_sched s \<and> (\<exists>b'. pcbs s' c = Some b' \<and> code b' = Some cs \<and> prio b' = prio b \<and>
    unat (pc b') = (if pc b < code_size cs then unat (pc b) + 1 else unat (pc b)))"
  using run_all [OF assms(1,2)] assms(3,4) by fastforce

section \<open>Properties\<close>

text \<open>A process of the demonstration heap with a program.\<close>

definition demo_program :: "inst_t list \<Rightarrow> sys" where
  "demo_program is = upd_pcb 1 (\<lambda>b. b\<lparr>code := Some \<lparr>code_text = is, code_size = of_nat (length is)\<rparr>, pc := 0,
     regs := replicate 10 0\<rparr>) demo_heap"

lemma demo_heap_pcb: "\<exists>b. pcbs demo_heap 1 = Some b"
  using demo_heap_inv(2) by (auto simp: runs_def)

lemma demo_program_facts:
  assumes "length is < 2 ^ 32"
  shows "heap_inv 1 {} (demo_program is) 1" "runs (demo_program is) 1" "sy_host (demo_program is) = sy_host demo_heap"
    "devs (demo_program is) = devs demo_heap"
    "\<exists>b. pcbs (demo_program is) 1 = Some b \<and> pcb_wf b \<and> pc b = 0 \<and>
       code b = Some \<lparr>code_text = is, code_size = of_nat (length is)\<rparr>"
proof -
  show "heap_inv 1 {} (demo_program is) 1" "runs (demo_program is) 1" "sy_host (demo_program is) = sy_host demo_heap"
    "devs (demo_program is) = devs demo_heap"
    unfolding demo_program_def by (intro upd_pcb_heap demo_heap_inv(1) runs_upd_pcb demo_heap_inv(2) | simp)+
  obtain b where b: "pcbs demo_heap 1 = Some b" using demo_heap_pcb by blast
  from demo_heap_inv(1) obtain v T where a: "area_ok 1 demo_heap 1 v T" "length T = PAGING_MAX_SYMTBL_SZ"
    by (auto simp: heap_inv_def symtab_ok_def)
  obtain m where m: "caller_mm demo_heap 1 = Some m" "symrgtbl m = T" by (rule area_ok_mm [OF a(1)])
  have u: "unat (of_nat (length is) :: uint32) = length is"
    using assms by (simp add: unsigned_of_nat take_bit_nat_eq_self)
  have "length (symrgtbl m') = PAGING_MAX_SYMTBL_SZ" if "krnl b = Some k" "k_mm k = Some m'" for k m'
    using that m a(2) b by (auto simp: caller_mm_def caller_krnl_def NULL_def)
  then show "\<exists>b. pcbs (demo_program is) 1 = Some b \<and> pcb_wf b \<and> pc b = 0 \<and>
       code b = Some \<lparr>code_text = is, code_size = of_nat (length is)\<rparr>"
    using b u by (auto simp: demo_program_def upd_pcb_def pcb_wf_def)
qed

text \<open>
  C32: one instruction moves one counter by one. For well-formed processes every run of an
  instruction that returns leaves all processes well-formed (counter inside the code, ten registers,
  thirty entries), leaves the scheduler and the set of processes alone, and moves the counter of the running process by
  exactly one, without wrap-around; at the end of the code it returns 1 and changes nothing. Code,
  number and priority of every process and the counters of the others stay.
\<close>

theorem run_keeps_processes:
  assumes "procs_wf s" "run junk s c = Some (r, s')"
  shows "procs_wf s' \<and> sy_sched s' = sy_sched s \<and> dom (pcbs s') = dom (pcbs s) \<and>
    (\<forall>x b cs. pcbs s x = Some b \<and> code b = Some cs \<longrightarrow> (\<exists>b'. pcbs s' x = Some b' \<and> code b' = Some cs \<and>
       pid b' = pid b \<and> prio b' = prio b \<and>
       unat (pc b') = (if x = c \<and> pc b < code_size cs then unat (pc b) + 1 else unat (pc b)) \<and>
       (x = c \<and> pc b \<ge> code_size cs \<longrightarrow> r = 1 \<and> s' = s)))"
  using assms by (rule run_all)

theorem run_keeps_processes_witness:
  "\<exists>s r s' b. run \<lparr>rg_start = 0, rg_end = 0\<rparr> s 1 = Some (r, s') \<and> procs_wf s' \<and> pcbs s' 1 = Some b \<and> unat (pc b) = 1"
proof -
  let ?cs = "\<lparr>code_text = [\<lparr>opcode = CALC, arg_0 = 0, arg_1 = 0, arg_2 = 0, arg_3 = 0\<rparr>], code_size = 1\<rparr>"
  let ?s = "demo_sys\<lparr>pcbs := [1 \<mapsto> demo_pcb\<lparr>code := Some ?cs, krnl := None\<rparr>]\<rparr>"
  have "procs_wf ?s" by (simp add: procs_wf_def pcb_wf_def demo_pcb_def)
  moreover have "run \<lparr>rg_start = 0, rg_end = 0\<rparr> ?s 1 = Some (0, upd_pcb 1 (\<lambda>b. b\<lparr>pc := pc b + 1\<rparr>) ?s)"
    by (simp add: run_def Let_def demo_pcb_def dispatch_inst_def calc_def int_of_addr_def)
  ultimately show ?thesis
    using run_keeps_processes [of ?s "\<lparr>rg_start = 0, rg_end = 0\<rparr>" 1 0 "upd_pcb 1 (\<lambda>b. b\<lparr>pc := pc b + 1\<rparr>) ?s"]
    by (fastforce simp: demo_pcb_def)
qed

text \<open>
  C5: user instructions are isolated. For a running process with a well-formed heap, every
  instruction of a user program whose needs are met (calc and write always; read with a register to
  read into; alloc of a size below 2 GiB with frames to serve it, free ones or those of pages that
  can be evicted; free of an entry of user memory or of a free entry)
  returns, keeps the heap invariant of every process, and leaves every byte of every other process
  and every byte of its own except the one that a write names.
\<close>

theorem run_isolated:
  assumes "heap_inv w F s c" "runs s c" "pcbs s c = Some b" "pcb_wf b" "code b = Some cs" "pc b < code_size cs"
    and "user_ready w s c (code_text cs ! unat (pc b))"
  shows "\<exists>r s'. run junk s c = Some (r, s') \<and> (\<forall>x. heap_inv w F s x \<longrightarrow> heap_inv w F s' x) \<and>
    (\<forall>x a. x \<noteq> c \<or> vbyte w s x a \<noteq> None \<and> a \<notin> written s c (code_text cs ! unat (pc b)) \<longrightarrow> vbyte w s' x a = vbyte w s x a)"
proof -
  let ?f = "\<lambda>b. b\<lparr>pc := pc b + 1\<rparr>" let ?ins = "code_text cs ! unat (pc b)" let ?s = "upd_pcb c ?f s"
  have inv: "vm_inv w F s" using assms(1) by (simp add: heap_inv_def)
  have f: "\<And>b. krnl (?f b) = krnl b" by simp
  have b: "pcbs ?s c = Some (?f b)" "length (regs (?f b)) = 10" using assms(3,4) by (auto simp: upd_pcb_def pcb_wf_def)
  have "runs ?s c" "user_ready w ?s c ?ins" using runs_upd_pcb [OF _ assms(2)] assms(7) by (simp_all add: user_ready_upd_pcb vm_invD(1) [OF inv])
  from dispatch_isolated [OF upd_pcb_heap [OF f assms(1)] this(1) b this(2), of junk]
  obtain r s' where d: "dispatch_inst junk ?s c ?ins = Some (r, s')" "isolated w F ?s c (written s c ?ins) s'"
    by (auto simp: user_ready_upd_pcb)
  have "unat (pc b) < length (code_text cs)" using assms(4-6) by (auto simp: pcb_wf_def word_less_nat_alt)
  then have "run junk s c = Some (r, s')" using assms(3,5,6) d(1) by (simp add: run_def Let_def not_le [symmetric])
  moreover have "\<forall>x. heap_inv w F s x \<longrightarrow> heap_inv w F s' x" using d(2) upd_pcb_heap [OF f] by (auto simp: isolated_def)
  moreover have "vbyte w ?s = vbyte w s" by (rule upd_pcb_inv(2) [OF f inv])
  ultimately show ?thesis using d(2) unfolding isolated_def by auto
qed

theorem run_isolated_witness:
  "\<exists>r s'. run \<lparr>rg_start = 0, rg_end = 0\<rparr> (demo_program [\<lparr>opcode = ALLOC, arg_0 = 5000, arg_1 = 3, arg_2 = 0, arg_3 = 0\<rparr>]) 1 = Some (r, s') \<and>
     heap_inv 1 {} s' 1"
proof -
  let ?i = "\<lparr>opcode = ALLOC, arg_0 = 5000, arg_1 = 3, arg_2 = 0, arg_3 = 0\<rparr>"
  have l: "length [?i] < 2 ^ 32" by simp
  note f = demo_program_facts [OF l]
  obtain b where b: "pcbs (demo_program [?i]) 1 = Some b" "pcb_wf b" "pc b = 0"
    "code b = Some \<lparr>code_text = [?i], code_size = of_nat (length [?i])\<rparr>" using f(5) by blast
  have "user_ready 1 (demo_program [?i]) 1 ?i"
    using demo_heap_inv(3,4) f(3,4) frames_avail_free [of "demo_program [?i]" 1 1] by (simp add: user_ready_def pages_of_def PAGING_MAX_SYMTBL_SZ_def)
  with run_isolated [OF f(1,2) b(1,2,4), of "\<lparr>rg_start = 0, rg_end = 0\<rparr>"] f(1) b(3) show ?thesis by auto
qed

end
