(* ===== verification/Os.thy ===== *)
theory Os
  imports Cpu
begin

text \<open>
  The top level of the simulator, src/os.c: creation of the devices and of the kernel page table, the
  loop of a CPU thread (\<open>cpu_routine\<close>) and of the loader thread (\<open>ld_routine\<close>), and
  the end of a process (\<open>free_pcb_all\<close>). A thread is modelled by the function of one turn of its
  loop, up to \<open>next_slot\<close> or the end of the thread; \<open>next_slot\<close> itself and the
  interleaving of the threads at slot boundaries are in the theory of the timer. Messages are left out.
\<close>

section \<open>Start\<close>

text \<open>
  Devices: number 0 is the RAM, numbers 1 to 4 are the swap devices; the active one is number 1. The
  structures are uninitialised memory before (\<open>devs\<close> of the given state).
\<close>

definition PAGING_MAX_MMSWP :: nat where [c_defs]: "PAGING_MAX_MMSWP = 4"

definition init_device :: "nat \<Rightarrow> addr \<Rightarrow> sys \<Rightarrow> sys option" where
  "init_device d sz s = do {
     (_, mp, h) \<leftarrow> init_memphy (sy_host s) (devs s d) sz 1;
     Some ((upd_dev d mp s)\<lparr>sy_host := h\<rparr>) }"

primrec init_swaps :: "nat \<Rightarrow> addr list \<Rightarrow> sys \<Rightarrow> sys option" where
  "init_swaps d [] s = Some s"
| "init_swaps d (sz # szs) s = do { s1 \<leftarrow> init_device d sz s; init_swaps (d + 1) szs s1 }"

definition zero_krnl :: krnl_t where
  "zero_krnl = \<lparr>k_ready_queue = False, k_running_list = False, k_mlq_ready_queue = False, k_mm = None,
     k_mram = None, k_active_mswp = None, k_active_mswp_id = 0, krnl_pgd = None\<rparr>"

text \<open>\<open>main\<close> up to the start of the threads, and the first part of \<open>ld_routine\<close>.\<close>

definition os_init :: "addr \<Rightarrow> addr list \<Rightarrow> sys \<Rightarrow> (krnl_t \<times> sys) option" where
  "os_init memramsz memswpsz s = do {
     s1 \<leftarrow> init_device 0 memramsz s;
     s2 \<leftarrow> init_swaps 1 memswpsz s1;
     let s3 = s2\<lparr>sy_sched := init_scheduler (sy_sched s2)\<rparr>;
     let (_, k, s4) = init_kernel_page_table zero_krnl s3;
     Some (k, s4) }"

section \<open>The loader thread\<close>

text \<open>\<open>validate_mlq_priority\<close> ends the program for a priority that has no queue.\<close>

definition validate_mlq_priority :: "addr \<Rightarrow> unit option" where
  "validate_mlq_priority pr = (if uint pr < int MAX_PRIO then Some () else None)"

text \<open>
  One process of \<open>ld_routine\<close>, with the PCB that \<open>load\<close> returned at address \<open>p\<close> and
  the priority from the configuration. The results of the two allocations, for the kernel context and
  for the address space, are used without a test, and so is the result of \<open>init_mm\<close>: a null
  pointer or a structure left uninitialised is a fault.
\<close>

definition untested_alloc :: "sys \<Rightarrow> sys option" where
  "untested_alloc s = (case sys_alloc s of (ok, s') \<Rightarrow> if ok then Some s' else None)"

definition ld_process :: "krnl_t \<Rightarrow> pptr \<Rightarrow> pcb_t \<Rightarrow> addr \<Rightarrow> sys \<Rightarrow> sys option" where
  "ld_process os p proc pr s = do {
     s1 \<leftarrow> untested_alloc s;
     _ \<leftarrow> validate_mlq_priority pr;
     s2 \<leftarrow> untested_alloc s1;
     (_, mm, k, s3) \<leftarrow> init_mm s2 (Some os);
     m \<leftarrow> mm;
     k1 \<leftarrow> k;
     let k2 = k1\<lparr>k_mm := Some m, k_mram := Some 0, k_active_mswp := Some 1\<rparr>;
     let s4 = s3\<lparr>pcbs := (pcbs s3)(p \<mapsto> proc\<lparr>prio := ucast pr, krnl := Some k2\<rparr>)\<rparr>;
     case add_proc (sy_sched s4) (pcbs s4) p of Inl _ \<Rightarrow> None
     | Inr (sc, P) \<Rightarrow> Some (s4\<lparr>sy_sched := sc, pcbs := P\<rparr>) }"

lemma untested_alloc_frame: "untested_alloc s = Some s' \<Longrightarrow> \<exists>h. s' = s\<lparr>sy_host := h\<rparr>"
  by (auto simp: untested_alloc_def sys_alloc_def split: prod.splits if_splits)

lemma untested_alloc_ok: "host_ok (sy_host s) \<Longrightarrow> \<exists>h. untested_alloc s = Some (s\<lparr>sy_host := h\<rparr>) \<and> host_ok h"
  by (auto simp: untested_alloc_def sys_alloc_def halloc_def host_ok_def)

text \<open>The loader waits until the start time of the process has come.\<close>

definition ld_waits :: "64 word \<Rightarrow> 64 word \<Rightarrow> bool" where
  "ld_waits now start_time \<longleftrightarrow> now < start_time"

section \<open>The end of a process\<close>

text \<open>\<open>free_mm\<close>: tables, areas and region lists are host memory, which goes with the structure.\<close>

definition free_mm :: "pptr \<Rightarrow> sys \<Rightarrow> sys" where
  "free_mm c = upd_krnl c (\<lambda>k. k\<lparr>k_mm := None\<rparr>)"

definition free_kernel_page_table :: "krnl_t \<Rightarrow> sys \<Rightarrow> krnl_t \<times> sys" where
  "free_kernel_page_table k s =
     (case krnl_pgd k of None \<Rightarrow> (k, s)
      | Some r \<Rightarrow> (k\<lparr>krnl_pgd := None\<rparr>, s\<lparr>kroots := (kroots s)(r := None)\<rparr>))"

definition free_pcb_all :: "pptr \<Rightarrow> sys \<Rightarrow> sys option" where
  "free_pcb_all c s =
     (if c = NULL then Some s
      else do {
        b \<leftarrow> pcbs s c;
        s1 \<leftarrow> (case krnl b of None \<Rightarrow> Some s
              | Some k \<Rightarrow> do {
                  (_, s') \<leftarrow> free_pcb_memph s c;
                  Some (if caller_mm s' c \<noteq> None then free_mm c s' else s') });
        Some (s1\<lparr>pcbs := (pcbs s1)(c := None)\<rparr>) })"

section \<open>A CPU thread\<close>

record cpu =
  cpu_proc :: pptr
  time_left :: int

text \<open>
  A turn of the loop of \<open>cpu_routine\<close> ends in \<open>next_slot\<close>, or the loop is left. The first
  case distinction gives the process to run, if there is one; \<open>True\<close> stands for the \<open>continue\<close> of an
  idle CPU, which skips the test of \<open>is_done\<close>.
\<close>

datatype turn = Next_slot cpu sys | Stopped sys

definition next_proc :: "sys \<Rightarrow> pptr \<times> sys" where
  "next_proc s = (let (p, sc) = get_proc (sy_sched s) in (p, s\<lparr>sy_sched := sc\<rparr>))"

definition choose_proc :: "sys \<Rightarrow> cpu \<Rightarrow> (bool \<times> cpu \<times> sys) option" where
  "choose_proc s u =
     (if cpu_proc u = NULL then
        let (p, s1) = next_proc s in Some (p = NULL, u\<lparr>cpu_proc := p\<rparr>, s1)
      else do {
        b \<leftarrow> pcbs s (cpu_proc u);
        cs \<leftarrow> code b;
        if pc b = code_size cs then do {
          s1 \<leftarrow> free_pcb_all (cpu_proc u) (s\<lparr>sy_sched := finish_proc (sy_sched s) (cpu_proc u)\<rparr>);
          let (p, s2) = next_proc s1;
          Some (False, \<lparr>cpu_proc = p, time_left = 0\<rparr>, s2) }
        else if time_left u = 0 then
          (case put_proc (sy_sched s) (pcbs s) (cpu_proc u) of Inl _ \<Rightarrow> None
           | Inr (sc, P) \<Rightarrow>
             let (p, s2) = next_proc (s\<lparr>sy_sched := sc, pcbs := P\<rparr>)
             in Some (False, u\<lparr>cpu_proc := p\<rparr>, s2))
        else Some (False, u, s) })"

definition cpu_turn :: "rg_node \<Rightarrow> int \<Rightarrow> bool \<Rightarrow> sys \<Rightarrow> cpu \<Rightarrow> turn option" where
  "cpu_turn junk time_slot is_done s u = do {
     (skip, u1, s1) \<leftarrow> choose_proc s u;
     if skip then Some (Next_slot u1 s1)
     else if cpu_proc u1 = NULL \<and> is_done then Some (Stopped s1)
     else if cpu_proc u1 = NULL then Some (Next_slot u1 s1)
     else
       let left = (if time_left u1 = 0 then time_slot else time_left u1) in do {
         (_, s2) \<leftarrow> run junk s1 (cpu_proc u1);
         Some (Next_slot (u1\<lparr>time_left := int32 (left - 1)\<rparr>) s2) } }"

text \<open>A number of turns of one CPU, as long as it does not stop.\<close>

primrec cpu_turns :: "rg_node \<Rightarrow> int \<Rightarrow> bool \<Rightarrow> nat \<Rightarrow> sys \<Rightarrow> cpu \<Rightarrow> turn option" where
  "cpu_turns junk time_slot is_done 0 s u = Some (Next_slot u s)"
| "cpu_turns junk time_slot is_done (Suc n) s u = do {
     t \<leftarrow> cpu_turn junk time_slot is_done s u;
     case t of Stopped s' \<Rightarrow> Some (Stopped s') | Next_slot u' s' \<Rightarrow> cpu_turns junk time_slot is_done n s' u' }"

section \<open>Turns of a busy CPU\<close>

lemma busy_turn:
  assumes "cpu_proc u \<noteq> NULL" "pcbs s (cpu_proc u) = Some b" "code b = Some cs" "pc b \<noteq> code_size cs" "time_left u \<noteq> 0"
  shows "cpu_turn junk ts fin s u = do { (_, s2) \<leftarrow> run junk s (cpu_proc u);
     Some (Next_slot (u\<lparr>time_left := int32 (time_left u - 1)\<rparr>) s2) }"
  using assms by (simp add: cpu_turn_def choose_proc_def Let_def)


text \<open>Inside a slice the CPU runs one instruction of its process per turn.\<close>

lemma busy_turns:
  "cpu_turns junk ts fin n s \<lparr>cpu_proc = p, time_left = z\<rparr> = Some t \<Longrightarrow> procs_wf s \<Longrightarrow> p \<noteq> NULL \<Longrightarrow>
   pcbs s p = Some b \<Longrightarrow> code b = Some cs \<Longrightarrow> unat (pc b) + n \<le> unat (code_size cs) \<Longrightarrow> int n \<le> z \<Longrightarrow> z < 2 ^ 31 \<Longrightarrow>
   \<exists>s' b'. t = Next_slot \<lparr>cpu_proc = p, time_left = z - int n\<rparr> s' \<and> procs_wf s' \<and> sy_sched s' = sy_sched s \<and>
     pcbs s' p = Some b' \<and> code b' = Some cs \<and> unat (pc b') = unat (pc b) + n"
proof (induction n arbitrary: s z b)
  case (Suc n)
  let ?u = "\<lparr>cpu_proc = p, time_left = z\<rparr>"
  have lt: "pc b < code_size cs" "pc b \<noteq> code_size cs" using Suc.prems(6) by (auto simp: word_less_nat_alt)
  have i: "int32 (z - 1) = z - 1" using Suc.prems(7,8) by (intro int32_id) simp_all
  have turn: "cpu_turn junk ts fin s ?u = do { (_, s2) \<leftarrow> run junk s p; Some (Next_slot \<lparr>cpu_proc = p, time_left = z - 1\<rparr> s2) }"
    using busy_turn [of ?u s b cs] Suc.prems(3-5,7) lt i by simp
  then obtain r s2 where r: "run junk s p = Some (r, s2)" using Suc.prems(1) by (auto simp: bind_eq_Some_conv)
  from run_step [OF Suc.prems(2) r Suc.prems(4,5)] lt(1)
  obtain b2 where b2: "procs_wf s2" "sy_sched s2 = sy_sched s" "pcbs s2 p = Some b2" "code b2 = Some cs" "unat (pc b2) = unat (pc b) + 1"
    by auto
  have "cpu_turns junk ts fin n s2 \<lparr>cpu_proc = p, time_left = z - 1\<rparr> = Some t"
    using Suc.prems(1) turn r by simp
  from Suc.IH [OF this b2(1) Suc.prems(3) b2(3,4)] Suc.prems(6-8) b2(2,5) show ?case by auto
qed auto

section \<open>The scheduler over a turn\<close>

lemma next_proc_conserves:
  assumes "sched_wf (sy_sched s)" "next_proc s = (p, s')"
  shows "sched_wf (sy_sched s')" "pcbs s' = pcbs s" "p = NULL \<longleftrightarrow> waiting (sy_sched s) = []"
    "mset (waiting (sy_sched s)) = mset (waiting (sy_sched s')) + (if p = NULL then {#} else {#p#})"
proof -
  obtain sc where g: "get_proc (sy_sched s) = (p, sc)" "s' = s\<lparr>sy_sched := sc\<rparr>"
    using assms(2) by (auto simp: next_proc_def split: prod.splits)
  have e: "queue_empty (sy_sched s) \<longleftrightarrow> waiting (sy_sched s) = []"
    using assms(1) by (intro waiting_nil_queue_empty) (simp add: sched_wf_def)
  show "sched_wf (sy_sched s')" using sched_wf_get_mlq_proc [OF assms(1)] g by (simp add: get_proc_def)
  show "pcbs s' = pcbs s" by (simp add: g)
  show "p = NULL \<longleftrightarrow> waiting (sy_sched s) = []"
    "mset (waiting (sy_sched s)) = mset (waiting (sy_sched s')) + (if p = NULL then {#} else {#p#})"
    using get_proc_conserves [OF assms(1)] g e by (auto split: if_splits)
qed

lemma free_pcb_all_frame:
  assumes "free_pcb_all c s = Some s'" "c \<noteq> NULL"
  shows "sy_sched s' = sy_sched s" "pcbs s' c = None"
    "x \<noteq> c \<Longrightarrow> map_option pcb_shape (pcbs s' x) = map_option pcb_shape (pcbs s x)"
proof -
  from assms obtain b s1 where b: "pcbs s c = Some b" "s' = s1\<lparr>pcbs := (pcbs s1)(c := None)\<rparr>"
    and s1: "s1 = s \<or> (\<exists>s2 r. free_pcb_memph s c = Some (r, s2) \<and> (s1 = s2 \<or> s1 = free_mm c s2))"
    by (auto simp: free_pcb_all_def bind_eq_Some_conv split: option.splits if_splits)
  have eq: "sy_sched s1 = sy_sched s \<and> (x \<noteq> c \<longrightarrow> map_option pcb_shape (pcbs s1 x) = map_option pcb_shape (pcbs s x))" for x
    using s1
  proof (elim disjE exE conjE)
    fix s2 r assume "free_pcb_memph s c = Some (r, s2)" "s1 = free_mm c s2"
    then show ?thesis using shape_pcb [OF shape_free_pcb_memph] by (auto simp: free_mm_def upd_krnl_def)
  next
    fix s2 r assume "free_pcb_memph s c = Some (r, s2)" "s1 = s2"
    then show ?thesis using shape_pcb [OF shape_free_pcb_memph] by auto
  qed simp
  then show "sy_sched s' = sy_sched s" "pcbs s' c = None"
    "x \<noteq> c \<Longrightarrow> map_option pcb_shape (pcbs s' x) = map_option pcb_shape (pcbs s x)"
    by (simp_all add: b(2))
qed

text \<open>The processes that wait or run on this CPU; a process at the end of its code leaves.\<close>

definition held :: "sys \<Rightarrow> cpu \<Rightarrow> pptr multiset" where
  "held s u = mset (waiting (sy_sched s)) + (if cpu_proc u = NULL then {#} else {#cpu_proc u#})"

definition at_end :: "sys \<Rightarrow> pptr \<Rightarrow> bool" where
  "at_end s p \<longleftrightarrow> p \<noteq> NULL \<and> (case pcbs s p of None \<Rightarrow> False | Some b \<Rightarrow> (case code b of None \<Rightarrow> False | Some cs \<Rightarrow> pc b = code_size cs))"

text \<open>The three things that can happen to the process of a CPU.\<close>

definition conserved :: "sys \<Rightarrow> cpu \<Rightarrow> bool \<times> cpu \<times> sys \<Rightarrow> bool" where
  "conserved s u = (\<lambda>(skip, u', s'). sched_wf (sy_sched s') \<and>
     held s u = held s' u' + (if at_end s (cpu_proc u) then {#cpu_proc u#} else {#}) \<and>
     (at_end s (cpu_proc u) \<longrightarrow> pcbs s' (cpu_proc u) = None) \<and> (skip \<longleftrightarrow> cpu_proc u = NULL \<and> cpu_proc u' = NULL) \<and>
     (cpu_proc u' = NULL \<longrightarrow> waiting (sy_sched s') = []))"

lemma choose_finish:
  assumes wf: "sched_wf (sy_sched s)" and c: "choose_proc s u = Some t"
    and b: "cpu_proc u \<noteq> NULL" "pcbs s (cpu_proc u) = Some b" "code b = Some cs" "pc b = code_size cs"
  shows "conserved s u t"
proof -
  let ?s0 = "s\<lparr>sy_sched := finish_proc (sy_sched s) (cpu_proc u)\<rparr>"
  obtain s1 where f: "free_pcb_all (cpu_proc u) ?s0 = Some s1" using c b by (auto simp: choose_proc_def bind_eq_Some_conv)
  obtain p s2 where n: "next_proc s1 = (p, s2)" by fastforce
  have t: "t = (False, \<lparr>cpu_proc = p, time_left = 0\<rparr>, s2)" using c b f n by (simp add: choose_proc_def)
  have fin: "sched_wf (sy_sched s1)" "waiting (sy_sched s1) = waiting (sy_sched s)"
    using finish_proc_running [OF wf, of "cpu_proc u"] free_pcb_all_frame(1) [OF f b(1)] by (simp_all add: waiting_def)
  note n = next_proc_conserves [OF fin(1) n]
  have "pcbs s2 (cpu_proc u) = None" using n(2) free_pcb_all_frame(2) [OF f b(1)] by simp
  moreover have "at_end s (cpu_proc u)" using b by (simp add: at_end_def)
  ultimately show ?thesis using n(1,3,4) fin(2) b(1) by (auto simp: held_def t conserved_def)
qed

lemma choose_requeue:
  assumes wf: "sched_wf (sy_sched s)" and c: "choose_proc s u = Some t"
    and b: "cpu_proc u \<noteq> NULL" "pcbs s (cpu_proc u) = Some b" "code b = Some cs" "pc b \<noteq> code_size cs" "time_left u = 0"
  shows "conserved s u t"
proof -
  obtain sc P where q: "put_proc (sy_sched s) (pcbs s) (cpu_proc u) = Inr (sc, P)"
    using c b by (auto simp: choose_proc_def bind_eq_Some_conv split: sum.splits)
  obtain p s2 where n: "next_proc (s\<lparr>sy_sched := sc, pcbs := P\<rparr>) = (p, s2)" by fastforce
  have t: "t = (False, u\<lparr>cpu_proc := p\<rparr>, s2)" using c b q n by (simp add: choose_proc_def)
  obtain bb :: pcb_t and qq where e: "unat (prio bb) < MAX_PRIO" "enqueue (mlq_ready_queue (sy_sched s) ! unat (prio bb)) (cpu_proc u) = (0, qq)"
      "sc = (sy_sched s)\<lparr>mlq_ready_queue := (mlq_ready_queue (sy_sched s))[unat (prio bb) := qq]\<rparr>"
    by (rule put_mlq_procD [OF q [unfolded put_proc_def]]) (use b(1) that in blast)+
  have w: "queues_wf (sy_sched s)" "slots_wf (slot (sy_sched s))" using wf by (auto simp: sched_wf_def)
  note a = queues_wf_append [OF w(1) e(1) b(1) e(2), folded e(3)]
  have "sched_wf sc" using a(1) w(2) by (simp add: sched_wf_def e(3))
  then have "sched_wf (sy_sched s2)" "p = NULL \<longleftrightarrow> waiting sc = []"
      "mset (waiting sc) = mset (waiting (sy_sched s2)) + (if p = NULL then {#} else {#p#})"
    using next_proc_conserves [OF _ n] by simp_all
  moreover have "\<not> at_end s (cpu_proc u)" using b by (simp add: at_end_def)
  ultimately show ?thesis using a(3) b(1) by (auto simp: held_def t conserved_def)
qed

lemma choose_proc_conserves:
  assumes "sched_wf (sy_sched s)" "choose_proc s u = Some t"
  shows "conserved s u t"
proof (cases "cpu_proc u = NULL")
  case True
  obtain p s2 where n: "next_proc s = (p, s2)" by fastforce
  then have "t = (p = NULL, u\<lparr>cpu_proc := p\<rparr>, s2)" using assms(2) True by (simp add: choose_proc_def)
  then show ?thesis using next_proc_conserves [OF assms(1) n] True by (auto simp: held_def at_end_def conserved_def)
next
  case False
  then obtain b cs where b: "pcbs s (cpu_proc u) = Some b" "code b = Some cs"
    using assms(2) by (auto simp: choose_proc_def bind_eq_Some_conv)
  show ?thesis
  proof (cases "pc b \<noteq> code_size cs \<and> time_left u \<noteq> 0")
    case True
    then have "t = (False, u, s)" using assms(2) False b by (simp add: choose_proc_def)
    then show ?thesis using assms(1) False b True by (simp add: at_end_def conserved_def)
  qed (use choose_finish [OF assms False b] choose_requeue [OF assms False b] in blast)
qed

text \<open>A CPU in the middle of the slice of a process.\<close>

lemma demo_busy:
  obtains s b cs s' where "procs_wf s" "(2::nat) \<noteq> NULL" "pcbs s 2 = Some b" "code b = Some cs" "code_size cs = 1" "pc b = 0"
    "cpu_turn \<lparr>rg_start = 0, rg_end = 0\<rparr> 2 False s \<lparr>cpu_proc = 2, time_left = 2\<rparr> = Some (Next_slot \<lparr>cpu_proc = 2, time_left = 1\<rparr> s')"
    "sched_wf (sy_sched s)" "waiting (sy_sched s) = []"
proof -
  let ?cs = "\<lparr>code_text = [\<lparr>opcode = CALC, arg_0 = 0, arg_1 = 0, arg_2 = 0, arg_3 = 0\<rparr>], code_size = 1\<rparr>"
  let ?b = "demo_pcb\<lparr>code := Some ?cs, krnl := None\<rparr>" let ?j = "\<lparr>rg_start = 0, rg_end = 0\<rparr>"
  let ?s = "demo_sys\<lparr>pcbs := [2 \<mapsto> ?b]\<rparr>" let ?t = "upd_pcb 2 (\<lambda>b. b\<lparr>pc := pc b + 1\<rparr>) ?s"
  have wf: "procs_wf ?s" by (simp add: procs_wf_def pcb_wf_def demo_pcb_def)
  have b: "(2::nat) \<noteq> NULL" "pcbs ?s 2 = Some ?b" "code ?b = Some ?cs" "code_size ?cs = 1" "pc ?b = 0"
    by (simp_all add: NULL_def demo_pcb_def)
  have "run ?j ?s 2 = Some (0, ?t)" by (simp add: run_def Let_def demo_pcb_def dispatch_inst_def calc_def int_of_addr_def)
  moreover have "int32 1 = 1" by (simp add: int32_def)
  ultimately have "cpu_turn ?j 2 False ?s \<lparr>cpu_proc = 2, time_left = 2\<rparr> = Some (Next_slot \<lparr>cpu_proc = 2, time_left = 1\<rparr> ?t)"
    using busy_turn [of "\<lparr>cpu_proc = 2, time_left = 2\<rparr>" ?s ?b ?cs ?j 2 False] b by simp
  moreover have "sched_wf (sy_sched ?s)" "waiting (sy_sched ?s) = []"
    using boot_sched_wf by (simp_all add: demo_sys_def waiting_def boot_sched_fields new_queue_def queue_items_def)
  ultimately show thesis using that [of ?s ?b ?cs ?t] wf b by blast
qed

text \<open>
  The turn after a slice is used up: the process goes to the end of the queue of its level, and
  the CPU runs the process that \<open>get_proc\<close> then chooses, with a full slice.
\<close>

lemma slice_over_turn:
  assumes wf: "sched_wf (sy_sched s)" and p: "p \<noteq> NULL" "pcbs s p = Some b" "code b = Some cs" "pc b \<noteq> code_size cs"
    and t: "cpu_turn junk ts fin s \<lparr>cpu_proc = p, time_left = 0\<rparr> = Some t"
  obtains sc P q sc' s' where "put_proc (sy_sched s) (pcbs s) p = Inr (sc, P)"
    "waiting_at sc (unat (prio b)) = waiting_at (sy_sched s) (unat (prio b)) @ [p]"
    "get_proc sc = (q, sc')" "q \<noteq> NULL" "t = Next_slot \<lparr>cpu_proc = q, time_left = int32 (ts - 1)\<rparr> s'" "sy_sched s' = sc'"
proof -
  let ?u = "\<lparr>cpu_proc = p, time_left = 0\<rparr>"
  obtain skip u1 s1 where c: "choose_proc s ?u = Some (skip, u1, s1)" using t by (auto simp: cpu_turn_def bind_eq_Some_conv)
  then obtain sc P where q: "put_proc (sy_sched s) (pcbs s) p = Inr (sc, P)"
    using p by (auto simp: choose_proc_def bind_eq_Some_conv split: sum.splits)
  obtain x sc' where g: "get_proc sc = (x, sc')" by fastforce
  have e: "skip = False" "u1 = \<lparr>cpu_proc = x, time_left = 0\<rparr>" "sy_sched s1 = sc'"
    using c p q g by (auto simp: choose_proc_def next_proc_def)
  obtain qq where qq: "unat (prio b) < MAX_PRIO" "enqueue (mlq_ready_queue (sy_sched s) ! unat (prio b)) p = (0, qq)"
      "sc = (sy_sched s)\<lparr>mlq_ready_queue := (mlq_ready_queue (sy_sched s))[unat (prio b) := qq]\<rparr>"
    by (rule put_mlq_procD [OF q [unfolded put_proc_def]]) (use p(1,2) that in auto)
  have "queues_wf (sy_sched s)" using wf by (simp add: sched_wf_def)
  note a = queues_wf_append [OF this qq(1) p(1) qq(2), folded qq(3)]
  have "sched_wf sc" using sched_wf_put_mlq_proc [OF wf] q by (simp add: put_proc_def)
  from next_proc_conserves(3) [of "s1\<lparr>sy_sched := sc\<rparr>" x "s1\<lparr>sy_sched := sc'\<rparr>"] this g a(3)
  have n: "x \<noteq> NULL" by (auto simp: next_proc_def)
  then obtain r s2 where r: "run junk s1 x = Some (r, s2)" "t = Next_slot \<lparr>cpu_proc = x, time_left = int32 (ts - 1)\<rparr> s2"
    using t c e by (auto simp: cpu_turn_def bind_eq_Some_conv)
  then obtain bb ds where "pcbs s1 x = Some bb" "code bb = Some ds" by (auto simp: run_def bind_eq_Some_conv)
  from run_pcb(1) [OF r(1) this] e(3) have "sy_sched s2 = sc'" by simp
  then show thesis using that [OF q a(2) g n r(2)] by blast
qed

text \<open>The turn after the last instruction: the process is gone.\<close>

lemma ended_turn:
  assumes "sched_wf (sy_sched s)" "at_end s (cpu_proc u)" "cpu_turn junk ts fin s u = Some t"
  shows "case t of Next_slot u' s' \<Rightarrow> pcbs s' (cpu_proc u) = None | Stopped s' \<Rightarrow> pcbs s' (cpu_proc u) = None"
proof -
  obtain skip u1 s1 where c: "choose_proc s u = Some (skip, u1, s1)"
    using assms(3) by (auto simp: cpu_turn_def bind_eq_Some_conv)
  have g: "pcbs s1 (cpu_proc u) = None"
    using choose_proc_conserves [OF assms(1) c] assms(2) by (simp add: conserved_def)
  have "pcbs s2 (cpu_proc u) = None" if r: "run junk s1 (cpu_proc u1) = Some (r, s2)" for r s2
  proof -
    obtain b cs where b: "pcbs s1 (cpu_proc u1) = Some b" "code b = Some cs" using r by (auto simp: run_def bind_eq_Some_conv)
    then have "cpu_proc u \<noteq> cpu_proc u1" using g by auto
    then show ?thesis using run_pcb(3) [OF r b, of "cpu_proc u"] g by simp
  qed
  then show ?thesis using assms(3) c g by (auto simp: cpu_turn_def Let_def bind_eq_Some_conv split: if_splits)
qed

section \<open>Properties of the CPU loop\<close>

text \<open>
  C11: the time slice is kept and ends. A CPU that holds a process with \<open>z\<close> slots left runs exactly
  one instruction per turn, for \<open>n\<close> turns up to the end of the slice or of the code, whichever
  comes first: it keeps the process, the queues do not change, the counter moves by \<open>n\<close> and
  \<open>n\<close> slots are used. When the slice is used up before the end of the code, the next turn gives the
  process up: it goes to the end of the queue of its level, and the CPU runs the
  process that \<open>get_proc\<close> then chooses, with a full slice. When the code has ended, the next turn
  removes the process.
\<close>

theorem time_slice:
  assumes "procs_wf s" "sched_wf (sy_sched s)" "p \<noteq> NULL" "pcbs s p = Some b" "code b = Some cs"
    and "n \<le> unat (code_size cs) - unat (pc b)" "int n \<le> z" "z < 2 ^ 31" "pc b \<le> code_size cs"
    and "cpu_turns junk ts fin n s \<lparr>cpu_proc = p, time_left = z\<rparr> = Some t"
  shows "\<exists>s' b'. t = Next_slot \<lparr>cpu_proc = p, time_left = z - int n\<rparr> s' \<and> procs_wf s' \<and> sy_sched s' = sy_sched s \<and>
    pcbs s' p = Some b' \<and> code b' = Some cs \<and> unat (pc b') = unat (pc b) + n \<and>
    (\<forall>t'. cpu_turn junk ts fin s' \<lparr>cpu_proc = p, time_left = z - int n\<rparr> = Some t' \<longrightarrow>
       (z = int n \<and> pc b' \<noteq> code_size cs \<longrightarrow>
          (\<exists>sc P q sc' s''. put_proc (sy_sched s') (pcbs s') p = Inr (sc, P) \<and>
             waiting_at sc (unat (prio b')) = waiting_at (sy_sched s') (unat (prio b')) @ [p] \<and> get_proc sc = (q, sc') \<and> q \<noteq> NULL \<and>
             t' = Next_slot \<lparr>cpu_proc = q, time_left = int32 (ts - 1)\<rparr> s'' \<and> sy_sched s'' = sc')) \<and>
       (pc b' = code_size cs \<longrightarrow> (case t' of Next_slot u'' s'' \<Rightarrow> pcbs s'' p = None | Stopped s'' \<Rightarrow> pcbs s'' p = None)))"
proof -
  have "unat (pc b) + n \<le> unat (code_size cs)" using assms(6,9) by (simp add: word_le_nat_alt)
  from busy_turns [OF assms(10,1,3-5) this assms(7,8)] obtain s' b' where
    r: "t = Next_slot \<lparr>cpu_proc = p, time_left = z - int n\<rparr> s'" "procs_wf s'" "sy_sched s' = sy_sched s"
      "pcbs s' p = Some b'" "code b' = Some cs" "unat (pc b') = unat (pc b) + n" by blast
  let ?u = "\<lparr>cpu_proc = p, time_left = z - int n\<rparr>"
  have wf: "sched_wf (sy_sched s')" using assms(2) r(3) by simp
  have "\<exists>sc P q sc' s''. put_proc (sy_sched s') (pcbs s') p = Inr (sc, P) \<and>
      waiting_at sc (unat (prio b')) = waiting_at (sy_sched s') (unat (prio b')) @ [p] \<and> get_proc sc = (q, sc') \<and> q \<noteq> NULL \<and>
      t' = Next_slot \<lparr>cpu_proc = q, time_left = int32 (ts - 1)\<rparr> s'' \<and> sy_sched s'' = sc'"
    if t': "cpu_turn junk ts fin s' ?u = Some t'" and z: "z = int n" "pc b' \<noteq> code_size cs" for t'
    by (rule slice_over_turn [OF wf assms(3) r(4,5) z(2), of junk ts fin t']) (use t' z(1) in auto)
  moreover have "case t' of Next_slot u'' s'' \<Rightarrow> pcbs s'' p = None | Stopped s'' \<Rightarrow> pcbs s'' p = None"
    if t': "cpu_turn junk ts fin s' ?u = Some t'" and e: "pc b' = code_size cs" for t'
  proof -
    have "at_end s' (cpu_proc ?u)" using assms(3) r(4,5) e by (simp add: at_end_def)
    from ended_turn [OF wf this t'] show ?thesis by (simp split: turn.splits)
  qed
  ultimately show ?thesis using r by blast
qed

text \<open>A process of two instructions with one slot left.\<close>

definition demo_two :: sys where
  "demo_two = demo_sys\<lparr>pcbs := [2 \<mapsto> demo_pcb\<lparr>code := Some \<lparr>code_text = replicate 2 \<lparr>opcode = CALC, arg_0 = 0, arg_1 = 0, arg_2 = 0, arg_3 = 0\<rparr>, code_size = 2\<rparr>\<rparr>]\<rparr>"

theorem time_slice_witness:
  "\<exists>s' t'. cpu_turns \<lparr>rg_start = 0, rg_end = 0\<rparr> 5 False 1 demo_two \<lparr>cpu_proc = 2, time_left = 1\<rparr> = Some (Next_slot \<lparr>cpu_proc = 2, time_left = 0\<rparr> s') \<and>
     cpu_turn \<lparr>rg_start = 0, rg_end = 0\<rparr> 5 False s' \<lparr>cpu_proc = 2, time_left = 0\<rparr> = Some t' \<and>
     (\<exists>q s''. t' = Next_slot \<lparr>cpu_proc = q, time_left = 4\<rparr> s'' \<and> q \<noteq> NULL)"
proof -
  let ?j = "\<lparr>rg_start = 0, rg_end = 0\<rparr>" and ?i = "\<lparr>opcode = CALC, arg_0 = 0, arg_1 = 0, arg_2 = 0, arg_3 = 0\<rparr>"
  let ?cs = "\<lparr>code_text = replicate 2 ?i, code_size = 2\<rparr>" let ?b = "demo_pcb\<lparr>code := Some ?cs\<rparr>"
  have wf: "procs_wf demo_two" "sched_wf (sy_sched demo_two)" "(2::nat) \<noteq> NULL" "pcbs demo_two 2 = Some ?b" "code ?b = Some ?cs"
    by (simp_all add: demo_two_def procs_wf_def pcb_wf_def demo_pcb_def demo_krnl_def demo_sys_def NULL_def)
  let ?s = "upd_pcb 2 (\<lambda>b. b\<lparr>pc := pc b + 1\<rparr>) demo_two"
  have r: "run ?j demo_two 2 = Some (0, ?s)"
    by (simp add: run_def Let_def wf(4) dispatch_inst_def calc_def int_of_addr_def demo_pcb_def)
  have one: "cpu_turns ?j 5 False 1 demo_two \<lparr>cpu_proc = 2, time_left = 1\<rparr> = Some (Next_slot \<lparr>cpu_proc = 2, time_left = 0\<rparr> ?s)"
    using busy_turn [of "\<lparr>cpu_proc = 2, time_left = 1\<rparr>" demo_two ?b ?cs ?j 5 False] wf r
    by (simp add: int32_def demo_pcb_def)
  have b1: "pcbs ?s 2 = Some (?b\<lparr>pc := 1\<rparr>)" "sy_sched ?s = boot_sched"
    by (simp_all add: upd_pcb_def wf(4) demo_pcb_def) (simp add: demo_two_def demo_sys_def)
  obtain q where q: "enqueue new_queue 2 = (0, q)" using pq.enq_room [of new_queue 2] by (auto simp: MAX_QUEUE_SIZE_def)
  obtain sc P where put: "put_proc boot_sched (pcbs ?s) 2 = Inr (sc, P)" "P = (pcbs ?s)(2 \<mapsto> ?b\<lparr>pc := 1, krnl := Some (attach_queues demo_krnl)\<rparr>)"
    using b1(1) q by (simp add: put_proc_def put_mlq_proc_def NULL_def valid_mlq_prio_def demo_pcb_def MAX_PRIO_def boot_sched_fields)
  let ?s1 = "?s\<lparr>sy_sched := sc, pcbs := P\<rparr>"
  have w: "mset (waiting sc) = {#2#}" "sched_wf sc"
  proof -
    show "sched_wf sc" using sched_wf_put_mlq_proc [OF boot_sched_wf] put(1) by (simp add: put_proc_def)
    have "mset (waiting sc) = add_mset 2 (mset (waiting boot_sched))"
      using put_mlq_proc_waiting [of boot_sched "pcbs ?s" 2 sc P] put(1) by (simp add: put_proc_def NULL_def)
    then show "mset (waiting sc) = {#2#}" by (simp add: waiting_def boot_sched_fields new_queue_def queue_items_def)
  qed
  obtain p s2 where n: "next_proc ?s1 = (p, s2)" by fastforce
  have p: "p = 2" "pcbs s2 = P" using next_proc_conserves [OF _ n] w by (auto split: if_splits)
  have "run ?j s2 2 = Some (0, upd_pcb 2 (\<lambda>b. b\<lparr>pc := pc b + 1\<rparr>) s2)"
    by (simp add: run_def Let_def p(2) put(2) dispatch_inst_def calc_def int_of_addr_def word_le_nat_alt)
  then have "\<exists>t'. cpu_turn ?j 5 False ?s \<lparr>cpu_proc = 2, time_left = 0\<rparr> = Some t'"
    using b1 put(1) n p(1) by (simp add: cpu_turn_def choose_proc_def NULL_def)
  then obtain t' where t': "cpu_turn ?j 5 False ?s \<lparr>cpu_proc = 2, time_left = 0\<rparr> = Some t'" ..
  have le: "1 \<le> unat (code_size ?cs) - unat (pc ?b)" "int 1 \<le> (1::int)" "(1::int) < 2 ^ 31" "pc ?b \<le> code_size ?cs"
    by (simp_all add: demo_pcb_def)
  have "int32 (5 - 1) = 4" by (simp add: int32_def)
  with time_slice [OF wf le one] t' b1(1) have "\<exists>q s''. t' = Next_slot \<lparr>cpu_proc = q, time_left = 4\<rparr> s'' \<and> q \<noteq> NULL" by auto
  with one t' show ?thesis by blast
qed

text \<open>
  C12: a turn loses and duplicates no process. With a well-formed scheduler, what waits and runs on
  this CPU after the turn is what waited and ran before, less the process that was at the end of its
  code, whose PCB is gone; the scheduler stays well-formed. The loop is left only in the turn that
  ends the last process, after the loader is done, with all queues empty.
\<close>

theorem turn_conserves_processes:
  assumes "sched_wf (sy_sched s)" "cpu_turn junk ts fin s u = Some t"
  shows "case t of
      Next_slot u' s' \<Rightarrow> sched_wf (sy_sched s') \<and>
        held s u = held s' u' + (if at_end s (cpu_proc u) then {#cpu_proc u#} else {#}) \<and>
        (at_end s (cpu_proc u) \<longrightarrow> pcbs s' (cpu_proc u) = None)
    | Stopped s' \<Rightarrow> fin \<and> at_end s (cpu_proc u) \<and> held s u = {#cpu_proc u#} \<and> waiting (sy_sched s') = []"
proof -
  obtain skip u1 s1 where c: "choose_proc s u = Some (skip, u1, s1)"
    using assms(2) by (auto simp: cpu_turn_def bind_eq_Some_conv)
  note k = choose_proc_conserves [OF assms(1) c, unfolded conserved_def prod.case]
  show ?thesis
  proof (cases "cpu_proc u1 = NULL")
    case True
    show ?thesis
    proof (cases "\<not> skip \<and> fin")
      case True': True
      then have "t = Stopped s1" using assms(2) c True by (simp add: cpu_turn_def)
      moreover have "cpu_proc u \<noteq> NULL" using k True True' by blast
      then have "at_end s (cpu_proc u)" using k True by (auto simp: held_def split: if_splits)
      ultimately show ?thesis using k True True' by (simp add: held_def [of s1])
    next
      case False
      then have "t = Next_slot u1 s1" using assms(2) c True by (auto simp: cpu_turn_def split: if_splits)
      then show ?thesis using k by auto
    qed
  next
    case False
    then obtain r s2 z where r: "run junk s1 (cpu_proc u1) = Some (r, s2)" "t = Next_slot (u1\<lparr>time_left := z\<rparr>) s2"
      using assms(2) c k by (auto simp: cpu_turn_def Let_def bind_eq_Some_conv)
    then obtain b cs where b: "pcbs s1 (cpu_proc u1) = Some b" "code b = Some cs"
      by (auto simp: run_def bind_eq_Some_conv)
    note p = run_pcb [OF r(1) b]
    have "pcbs s2 (cpu_proc u) = None" if "pcbs s1 (cpu_proc u) = None"
      using that p(3) [of "cpu_proc u"] b(1) by (cases "cpu_proc u = cpu_proc u1") auto
    then show ?thesis using k p(1) r(2) by (simp add: held_def)
  qed
qed

theorem turn_conserves_processes_witness:
  "\<exists>s s'. cpu_turn \<lparr>rg_start = 0, rg_end = 0\<rparr> 2 False s \<lparr>cpu_proc = 2, time_left = 2\<rparr> = Some (Next_slot \<lparr>cpu_proc = 2, time_left = 1\<rparr> s') \<and>
     held s \<lparr>cpu_proc = 2, time_left = 2\<rparr> = {#2#} \<and> held s' \<lparr>cpu_proc = 2, time_left = 1\<rparr> = {#2#}"
proof -
  obtain s b cs s' where s: "(2::nat) \<noteq> NULL" "pcbs s 2 = Some b" "code b = Some cs" "code_size cs = 1" "pc b = 0"
    "cpu_turn \<lparr>rg_start = 0, rg_end = 0\<rparr> 2 False s \<lparr>cpu_proc = 2, time_left = 2\<rparr> = Some (Next_slot \<lparr>cpu_proc = 2, time_left = 1\<rparr> s')"
    "sched_wf (sy_sched s)" "waiting (sy_sched s) = []" by (rule demo_busy) (rule that; assumption)
  have "\<not> at_end s 2" "held s \<lparr>cpu_proc = 2, time_left = 2\<rparr> = {#2#}" using s(1-5,8) by (simp_all add: at_end_def held_def)
  then show ?thesis using turn_conserves_processes [OF s(7,6)] s(6) by auto
qed

text \<open>
  C38: an idle CPU never stops. A CPU without a process, with empty queues, takes the
  \<open>continue\<close> before the test of \<open>is_done\<close>: even when the loader is done, it asks for the next slot
  forever, so the join in \<open>main\<close> waits forever for every CPU that runs out of work before the end.
\<close>

theorem idle_cpu_never_stops:
  assumes "sched_wf (sy_sched s)" "waiting (sy_sched s) = []" "cpu_proc u = NULL"
  shows "\<exists>s'. cpu_turns junk ts True n s u = Some (Next_slot u s') \<and> waiting (sy_sched s') = []"
  using assms
proof (induction n arbitrary: s)
  case (Suc n)
  obtain p s1 where n: "next_proc s = (p, s1)" by fastforce
  note k = next_proc_conserves [OF Suc.prems(1) n]
  have "p = NULL" using k(3) Suc.prems(2) by simp
  then have "cpu_turn junk ts True s u = Some (Next_slot u s1)" "waiting (sy_sched s1) = []"
    using Suc.prems(2,3) n k(4) by (simp_all add: cpu_turn_def choose_proc_def)
  with Suc.IH [of s1] k(1) Suc.prems(3) show ?case by simp
qed simp

theorem idle_cpu_never_stops_witness:
  "\<exists>s'. cpu_turns \<lparr>rg_start = 0, rg_end = 0\<rparr> 2 True 1000 demo_sys \<lparr>cpu_proc = NULL, time_left = 0\<rparr> =
     Some (Next_slot \<lparr>cpu_proc = NULL, time_left = 0\<rparr> s')"
proof -
  have "sched_wf (sy_sched demo_sys)" "waiting (sy_sched demo_sys) = []"
    using boot_sched_wf by (simp_all add: demo_sys_def waiting_def boot_sched_fields new_queue_def queue_items_def)
  from idle_cpu_never_stops [OF this, where u = "\<lparr>cpu_proc = NULL, time_left = 0\<rparr>" and n = 1000 and ts = 2
      and junk = "\<lparr>rg_start = 0, rg_end = 0\<rparr>"] show ?thesis by fastforce
qed

end
