(* ===== verification/Os_Start.thy ===== *)
theory Os_Start
  imports Os
begin

text \<open>
  How the invariants of the memory system come about: the start of the simulator establishes them for
  no process (\<open>os_init\<close>), and the loader establishes them for every process it adds
  (\<open>ld_process\<close>), whatever the other processes have done in the meantime.
\<close>

section \<open>Devices\<close>

definition device_ok :: "nat \<Rightarrow> memphy_struct \<Rightarrow> bool" where
  "device_ok n mp \<longleftrightarrow> ram_like mp \<and> free_fp_list mp = frames_of n \<and> distinct (free_fp_list mp) \<and>
     (\<forall>f \<in> set (free_fp_list mp). frame_ok mp f)"

lemma init_device_ok:
  assumes "host_ok (sy_host s)" "unat sz < 2 ^ 31"
  shows "\<exists>mp h. init_device d sz s = Some ((upd_dev d mp s)\<lparr>sy_host := h\<rparr>) \<and> host_ok h \<and> device_ok (unat sz) mp"
proof -
  obtain mp h where m: "init_memphy (sy_host s) (devs s d) sz 1 = Some (0, mp, h)" "host_ok h" "memphy_wf mp"
    "maxsz mp = int (unat sz)" "free_fp_list mp = frames_of (unat sz)" "rdmflg mp"
    using init_memphy_ok [OF assms, of "devs s d" 1] by auto
  have "distinct (frames_of (unat sz))" using assms(2) by (intro frames_of_distinct) simp
  moreover have "unat (of_nat i :: addr) * 4096 + 4096 \<le> unat sz" if "i < unat sz div 4096" for i
  proof -
    have "i < 2 ^ 64" using that assms(2) by simp
    then show ?thesis using that by (simp add: unsigned_of_nat take_bit_nat_eq_self)
  qed
  ultimately have "device_ok (unat sz) mp"
    using m(3-6) by (auto simp: device_ok_def ram_like_def memphy_wf_def frame_ok_def frames_of_def)
  then show ?thesis using m(1,2) by (auto simp: init_device_def)
qed

text \<open>Initialising devices changes nothing else.\<close>

lemma init_swaps_ok:
  "host_ok (sy_host s) \<Longrightarrow> \<forall>sz \<in> set szs. unat sz < 2 ^ 31 \<Longrightarrow>
   \<exists>s'. init_swaps d szs s = Some s' \<and> host_ok (sy_host s') \<and> sy_sched s' = sy_sched s \<and> pcbs s' = pcbs s \<and>
     kroots s' = kroots s \<and> next_root s' = next_root s \<and> (\<forall>x < d. devs s' x = devs s x) \<and>
     (\<forall>i < length szs. device_ok (unat (szs ! i)) (devs s' (d + i)))"
proof (induction szs arbitrary: d s)
  case (Cons sz szs)
  obtain mp h where m: "init_device d sz s = Some ((upd_dev d mp s)\<lparr>sy_host := h\<rparr>)" "host_ok h" "device_ok (unat sz) mp"
    using init_device_ok [OF Cons.prems(1), of sz d] Cons.prems(2) by auto
  obtain s' where s': "init_swaps (d + 1) szs ((upd_dev d mp s)\<lparr>sy_host := h\<rparr>) = Some s'" "host_ok (sy_host s')"
    "sy_sched s' = sy_sched s" "pcbs s' = pcbs s" "kroots s' = kroots s" "next_root s' = next_root s"
    "\<forall>x < d + 1. devs s' x = (if x = d then mp else devs s x)" "\<forall>i < length szs. device_ok (unat (szs ! i)) (devs s' (d + 1 + i))"
    using Cons.IH [of "(upd_dev d mp s)\<lparr>sy_host := h\<rparr>" "d + 1"] m(2) Cons.prems(2) by (auto simp: fun_upd_def)
  have "device_ok (unat ((sz # szs) ! i)) (devs s' (d + i))" if "i < length (sz # szs)" for i
    using that s'(7,8) m(3) by (cases i) auto
  with s' m(1) show ?case by auto
qed simp

section \<open>A new process\<close>

lemma no_caller_slot: "caller_mm s c = None \<Longrightarrow> user_slot s c q = None"
  by (simp add: user_slot_def pte_get_entry_def walk_pte_def slot_of_def)

lemma empty_table_wf: "tab_wf 4 (empty_table [()])" "tab_val (empty_table [()]) (dir_path a) (pt_index a) = 0"
  using tab_wf_empty [of "[(), (), (), ()]"] tab_val_empty [of "dir_path a" "[(), (), (), ()]" "pt_index a"]
  by (simp_all add: numeral_eq_Suc [of "num.Bit0 num.One", symmetric] eval_nat_numeral(3) [symmetric] del: tab_wf.simps)

lemma vm_inv_new_process:
  assumes inv: "vm_inv w F s" and p: "pcbs s p = None" "p \<noteq> NULL"
    and b: "krnl b = Some k" "k_mm k = Some m" "mm_pgd m = Some (empty_table [()])" "fifo_pgn m = []"
      "k_mram k = Some 0" "k_active_mswp k = Some w" "krnl_pgd k = Some r" "kroots s r \<noteq> None"
  defines "s' \<equiv> s\<lparr>pcbs := (pcbs s)(p \<mapsto> b)\<rparr>"
  shows "vm_inv w F s'" "user_slot s' = user_slot s" "vbyte w s' = vbyte w s"
    "caller_mm s' p = Some m" "\<And>x. x \<noteq> p \<Longrightarrow> caller_mm s' x = caller_mm s x"
proof -
  have k: "caller_krnl s' x = (if x = p then Some k else caller_krnl s x)" for x
    using p(2) b(1) by (simp add: s'_def caller_krnl_def)
  have none: "caller_krnl s p = None" using p(1) by (simp add: caller_krnl_def)
  then have np: "caller_mm s p = None" by (simp add: caller_mm_def)
  have c: "caller_mm s' x = (if x = p then Some m else caller_mm s x)" for x using b(2) by (simp add: caller_mm_def k)
  then show "caller_mm s' p = Some m" "\<And>x. x \<noteq> p \<Longrightarrow> caller_mm s' x = caller_mm s x" by simp_all
  have kr: "kroot_of s' x = (if x = p then Some r else kroot_of s x)" for x using b(7) by (simp add: kroot_of_def k)
  have f: "kroots s' = kroots s" "next_root s' = next_root s" "devs s' = devs s" by (simp_all add: s'_def)
  note i = vm_invD(1-3) [OF inv]
  have wf: "pt_wf s'" using i(1) b(3,8) empty_table_wf(1) by (auto simp: pt_wf_def c kr f)
  have view: "pte_view s' x a = pte_view s x a" if "\<not> is_kernel_address a" for x a
    using that b(3) np by (auto simp: pte_view_def c root_of_def empty_table_wf(2))
  have "slot_of (pte_get_entry s' x q) = slot_of (pte_get_entry s x q)" if "user_page q" for x q
    using view that by (simp add: pte_get_entry_view [OF wf] pte_get_entry_view [OF i(1)] user_page_def)
  then show us: "user_slot s' = user_slot s" by (simp add: user_slot_def fun_eq_iff)
  show "vbyte w s' = vbyte w s" by (simp add: vbyte_def us slot_byte_def f fun_eq_iff)
  have "callers_ok w s'" using i(3) b(4-6) by (auto simp: callers_ok_def c caller_mram_def caller_mswp_def k)
  then show "vm_inv w F s'" using i(2) by (intro vm_inv_cong [OF inv wf _ _ _ us]) (simp_all add: devices_ok_def slot_ok_def f)
qed

lemma vm_inv_alloc:
  assumes "vm_inv w F s"
  shows "vm_inv w F (s\<lparr>sy_host := h\<rparr>)" "vbyte w (s\<lparr>sy_host := h\<rparr>) = vbyte w s"
proof -
  note i = vm_invD(1-3) [OF assms]
  have us: "user_slot (s\<lparr>sy_host := h\<rparr>) = user_slot s" by (rule user_slot_cong [OF pte_get_entry_host [OF i(1)]])
  show "vbyte w (s\<lparr>sy_host := h\<rparr>) = vbyte w s" by (simp add: vbyte_def us slot_byte_def fun_eq_iff)
  have "pt_wf (s\<lparr>sy_host := h\<rparr>)" using i(1) by (simp add: pt_wf_def kroot_of_def)
  then show "vm_inv w F (s\<lparr>sy_host := h\<rparr>)"
    using i by (intro vm_inv_cong [OF assms _ _ _ _ us]) (simp_all add: devices_ok_def slot_ok_def)
qed

text \<open>\<open>init_mm\<close> with enough host memory, for a kernel context that has a root.\<close>

definition fresh_mm :: mm_struct where
  "fresh_mm = \<lparr>mm_pgd = Some (empty_table [()]),
     mm_mmap = [\<lparr>vm_id = 0, vm_start = 0, vm_end = 0, sbrk = 0, vm_freerg_list = []\<rparr>],
     symrgtbl = replicate PAGING_MAX_SYMTBL_SZ no_rg, fifo_pgn = [], kcpooltbl = None\<rparr>"

lemma init_mm_ok:
  assumes "host_ok (sy_host s)" "krnl_pgd os = Some r"
  shows "\<exists>h. init_mm s (Some os) = Some (0, Some fresh_mm, Some os, s\<lparr>sy_host := h\<rparr>) \<and> host_ok h"
proof -
  have a: "\<exists>h'. sys_alloc (s\<lparr>sy_host := h\<rparr>) = (True, s\<lparr>sy_host := h'\<rparr>) \<and> host_ok h'" if "host_ok h" for h
    using that by (auto simp: sys_alloc_def halloc_def host_ok_def)
  obtain h1 where h1: "sys_alloc s = (True, s\<lparr>sy_host := h1\<rparr>)" "host_ok h1" using a [OF assms(1)] by auto
  obtain h2 where h2: "sys_alloc (s\<lparr>sy_host := h1\<rparr>) = (True, s\<lparr>sy_host := h2\<rparr>)" "host_ok h2" using a [OF h1(2)] by auto
  obtain h3 where h3: "sys_alloc (s\<lparr>sy_host := h2\<rparr>) = (True, s\<lparr>sy_host := h3\<rparr>)" "host_ok h3" using a [OF h2(2)] by auto
  then show ?thesis
    using h1 h2 assms(2)
    by (auto simp: init_mm_def init_vm_rg_def init_kernel_page_table_def enlist_vm_rg_node_def fresh_mm_def no_rg_def)
qed

lemma fresh_heap:
  assumes "vm_inv w F s" "caller_mm s p = Some fresh_mm" "\<And>a. vbyte w s p a = None"
  shows "heap_inv w F s p"
proof -
  let ?v = "\<lparr>vm_id = 0, vm_start = 0, vm_end = 0, sbrk = 0, vm_freerg_list = []\<rparr>"
  have "area_ok w s p ?v (replicate PAGING_MAX_SYMTBL_SZ no_rg)"
    using assms(2,3) by (simp add: area_ok_def fresh_mm_def rg_list_ok_def covered_def)
  moreover have "symtab_ok ?v (replicate PAGING_MAX_SYMTBL_SZ no_rg)"
    by (simp add: symtab_ok_def user_rg_def no_rg_def)
  ultimately show ?thesis using assms(1) by (auto simp: heap_inv_def)
qed

lemma find_append_none: "\<forall>x \<in> set xs. \<not> P x \<Longrightarrow> find P (xs @ ys) = find P ys"
  by (induction xs) simp_all

lemma add_proc_room:
  assumes "sched_wf sc" "p \<noteq> NULL" "P p = Some b" "krnl b = Some k" "unat (prio b) < MAX_PRIO"
    and "length (waiting_at sc (unat (prio b))) < MAX_QUEUE_SIZE" "length (queue_items (running_list sc)) < MAX_QUEUE_SIZE"
  shows "\<exists>sc'. add_proc sc P p = Inr (sc', P(p \<mapsto> b\<lparr>krnl := Some (attach_queues k)\<rparr>)) \<and> sched_wf sc' \<and>
    waiting_at sc' (unat (prio b)) = waiting_at sc (unat (prio b)) @ [p] \<and>
    queue_items (running_list sc') = queue_items (running_list sc) @ [p]"
proof -
  let ?i = "unat (prio b)"
  have w: "queues_wf sc" using assms(1) by (simp add: sched_wf_def)
  then have q: "queue_wf (mlq_ready_queue sc ! ?i)" "queue_wf (running_list sc)" "length (mlq_ready_queue sc) = MAX_PRIO"
    using queues_wf_nth [OF w assms(5)] by (auto simp: queues_wf_def)
  obtain q' where e: "enqueue (mlq_ready_queue sc ! ?i) p = (0, q')" "queue_items q' = waiting_at sc ?i @ [p]"
    using pq.enq_room [OF q(1), of p] assms(6) by (auto simp: waiting_at_def)
  obtain l where l: "enqueue (running_list sc) p = (0, l)" "queue_items l = queue_items (running_list sc) @ [p]"
    using pq.enq_room [OF q(2) assms(7), of p] by auto
  let ?sc = "sc\<lparr>mlq_ready_queue := (mlq_ready_queue sc)[?i := q'], running_list := l\<rparr>"
  have a: "add_mlq_proc sc P p = Inr (?sc, P(p \<mapsto> b\<lparr>krnl := Some (attach_queues k)\<rparr>))"
    using assms(2-5) e(1) l(1) by (simp add: add_mlq_proc_def valid_mlq_prio_def)
  moreover have "waiting_at ?sc ?i = waiting_at sc ?i @ [p]" using e(2) q(3) assms(5) by (simp add: waiting_at_def)
  ultimately show ?thesis using sched_wf_add_mlq_proc [OF assms(1) a] l(2) by (simp add: add_proc_def)
qed

section \<open>Properties\<close>

text \<open>The state before \<open>main\<close>: static data is zero, the device structures are arbitrary.\<close>

definition static_sys :: "host \<Rightarrow> (nat \<Rightarrow> memphy_struct) \<Rightarrow> sys" where
  "static_sys h dv = \<lparr>sy_sched = \<lparr>ready_queue = new_queue, run_queue = new_queue, running_list = new_queue,
       mlq_ready_queue = replicate MAX_PRIO new_queue, slot = replicate MAX_PRIO 0\<rparr>,
     pcbs = Map.empty, devs = dv, kroots = Map.empty, next_root = 0, sy_host = h\<rparr>"

lemma os_start:
  assumes "host_ok h" "unat ram < 2 ^ 31" "szs \<noteq> []" "\<forall>sz \<in> set szs. unat sz < 2 ^ 31"
  shows "\<exists>k s r. os_init ram szs (static_sys h dv) = Some (k, s) \<and> vm_inv 1 {} s \<and> sched_wf (sy_sched s) \<and>
    waiting (sy_sched s) = [] \<and> krnl_pgd k = Some r \<and> kroots s r \<noteq> None \<and> k_mm k = None \<and> host_ok (sy_host s) \<and>
    free_fp_list (devs s 0) = map of_nat [0..<unat ram div 4096] \<and>
    free_fp_list (devs s 1) = map of_nat [0..<unat (hd szs) div 4096]"
proof -
  let ?s = "static_sys h dv"
  obtain mp h1 where m: "init_device 0 ram ?s = Some ((upd_dev 0 mp ?s)\<lparr>sy_host := h1\<rparr>)" "host_ok h1" "device_ok (unat ram) mp"
    using init_device_ok [of ?s ram 0] assms(1,2) by (auto simp: static_sys_def)
  obtain s2 where s2: "init_swaps 1 szs ((upd_dev 0 mp ?s)\<lparr>sy_host := h1\<rparr>) = Some s2" "host_ok (sy_host s2)"
    "sy_sched s2 = sy_sched ?s" "pcbs s2 = Map.empty" "kroots s2 = Map.empty" "devs s2 0 = mp" "device_ok (unat (hd szs)) (devs s2 1)"
    using init_swaps_ok [of "(upd_dev 0 mp ?s)\<lparr>sy_host := h1\<rparr>" szs 1] m(2) assms(3,4) by (auto simp: static_sys_def hd_conv_nth)
  let ?s3 = "s2\<lparr>sy_sched := init_scheduler (sy_sched s2)\<rparr>"
  have sc: "init_scheduler (sy_sched s2) = boot_sched" by (simp add: s2(3) static_sys_def boot_sched_def)
  obtain h3 where a: "sys_alloc ?s3 = (True, ?s3\<lparr>sy_host := h3\<rparr>)" "host_ok h3"
    using s2(2) by (auto simp: sys_alloc_def halloc_def host_ok_def)
  let ?k = "zero_krnl\<lparr>krnl_pgd := Some (next_root s2)\<rparr>"
  let ?s4 = "?s3\<lparr>sy_host := h3, kroots := [next_root s2 \<mapsto> empty_table [()]], next_root := next_root s2 + 1\<rparr>"
  have run: "os_init ram szs ?s = Some (?k, ?s4)"
    using m(1) s2(1,5) a(1) by (simp add: os_init_def init_kernel_page_table_def zero_krnl_def)
  have none: "caller_krnl s2 c = None" "caller_mm s2 c = None" for c using s2(4) by (simp_all add: caller_krnl_def caller_mm_def)
  have "pt_wf ?s4" using empty_table_wf(1) by (simp add: pt_wf_def none kroot_of_def)
  moreover have "devices_ok 1 ?s4" using m(3) s2(6,7) by (auto simp: devices_ok_def device_ok_def)
  moreover have "callers_ok 1 ?s4" by (simp add: callers_ok_def none)
  ultimately have "vm_inv 1 {} ?s4" by (simp add: vm_inv_def no_caller_slot none)
  moreover have "waiting boot_sched = []" by (simp add: waiting_def boot_sched_fields new_queue_def queue_items_def)
  ultimately show ?thesis using run boot_sched_wf sc a(2) m(3) s2(6,7) by (auto simp: zero_krnl_def device_ok_def frames_of_def)
qed

text \<open>
  C6: the start establishes the invariants. With host memory and device sizes below 2 GiB,
  \<open>os_init\<close> returns a kernel context with a page-table root and a state in which the memory
  invariant holds with the RAM and the first swap device, every frame of both is free, and the scheduler
  is well-formed with empty queues.
\<close>

theorem start_establishes_invariant:
  assumes "host_ok h" "unat ram < 2 ^ 31" "szs \<noteq> []" "\<forall>sz \<in> set szs. unat sz < 2 ^ 31"
  shows "\<exists>k s r. os_init ram szs (static_sys h dv) = Some (k, s) \<and> vm_inv 1 {} s \<and> sched_wf (sy_sched s) \<and>
    waiting (sy_sched s) = [] \<and> krnl_pgd k = Some r \<and> kroots s r \<noteq> None \<and> k_mm k = None \<and> host_ok (sy_host s) \<and>
    free_fp_list (devs s 0) = map of_nat [0..<unat ram div 4096] \<and>
    free_fp_list (devs s 1) = map of_nat [0..<unat (hd szs) div 4096]"
  using assms by (rule os_start)

theorem start_establishes_invariant_witness:
  "\<exists>k s. os_init 8192 [12288, 0, 0, 0] (static_sys (\<lambda>_. True) (\<lambda>_. blank_memphy)) = Some (k, s) \<and> vm_inv 1 {} s \<and>
     free_fp_list (devs s 0) = [0, 1]"
  using start_establishes_invariant [of "\<lambda>_. True" 8192 "[12288, 0, 0, 0]" "\<lambda>_. blank_memphy"]
  by (auto simp: host_ok_def upt_rec)

text \<open>A process added at the end of the running list is found by its number.\<close>

lemma new_process_runs:
  assumes "sched_wf (sy_sched s)" "p \<noteq> NULL" "find_proc (sy_sched s) (pcbs s) n = NULL"
    "p \<notin> set (queue_items (running_list (sy_sched s)))"
    and "sched_wf (sy_sched s')" "queue_items (running_list (sy_sched s')) = queue_items (running_list (sy_sched s)) @ [p]"
    "pcbs s' = (pcbs s)(p \<mapsto> b)" "pid b = n"
  shows "runs s' p"
proof -
  have ql: "queue_wf (running_list (sy_sched s))" "queue_wf (running_list (sy_sched s'))"
    using assms(1,5) by (auto simp: sched_wf_def queues_wf_def)
  have "find (has_pid (pcbs s) n) (queue_items (running_list (sy_sched s))) = None"
    using assms(3) by (auto simp: find_proc_find [OF ql(1)] find_Some_iff has_pid_def split: option.splits)
  then have "\<not> has_pid (pcbs s') n x" if "x \<in> set (queue_items (running_list (sy_sched s)))" for x
    using that assms(4,7) by (auto simp: find_None_iff has_pid_def)
  then have "find (has_pid (pcbs s') n) (queue_items (running_list (sy_sched s'))) = Some p"
    using assms(2,6-8) by (simp add: find_append_none has_pid_def)
  then show ?thesis using assms(7,8) by (simp add: runs_def find_proc_find [OF ql(2)])
qed

lemma load_process_ok:
  assumes "vm_inv 1 F s" "host_ok (sy_host s)" "sched_wf (sy_sched s)" "pcbs s p = None" "p \<noteq> NULL"
    and "krnl_pgd os = Some r" "kroots s r \<noteq> None" "find_proc (sy_sched s) (pcbs s) (pid proc) = NULL"
    and "length (waiting_at (sy_sched s) (unat pr)) < MAX_QUEUE_SIZE" "length (queue_items (running_list (sy_sched s))) < MAX_QUEUE_SIZE"
    and "p \<notin> set (queue_items (running_list (sy_sched s)))"
  shows "if unat pr < MAX_PRIO
    then \<exists>s'. ld_process os p proc pr s = Some s' \<and> heap_inv 1 F s' p \<and> (\<forall>x. heap_inv 1 F s x \<longrightarrow> heap_inv 1 F s' x) \<and>
      vbyte 1 s' = vbyte 1 s \<and> (\<forall>a. vbyte 1 s' p a = None) \<and> sched_wf (sy_sched s') \<and> runs s' p \<and>
      waiting_at (sy_sched s') (unat pr) = waiting_at (sy_sched s) (unat pr) @ [p]
    else ld_process os p proc pr s = None"
proof (cases "unat pr < MAX_PRIO")
  case True
  then have "uint pr < int MAX_PRIO" by (simp only: uint_nat of_nat_less_iff)
  moreover have "unat pr < 2 ^ 32" using True by (simp add: MAX_PRIO_def)
  ultimately have pr: "validate_mlq_priority pr = Some ()" "unat (ucast pr :: uint32) = unat pr"
    by (simp_all add: validate_mlq_priority_def unsigned_ucast_eq take_bit_nat_eq_self)
  obtain h1 where h1: "untested_alloc s = Some (s\<lparr>sy_host := h1\<rparr>)" "host_ok h1" using untested_alloc_ok [OF assms(2)] by blast
  obtain h2 where h2: "untested_alloc (s\<lparr>sy_host := h1\<rparr>) = Some (s\<lparr>sy_host := h2\<rparr>)" "host_ok h2"
    using untested_alloc_ok [of "s\<lparr>sy_host := h1\<rparr>"] h1(2) by auto
  obtain h where h: "init_mm (s\<lparr>sy_host := h2\<rparr>) (Some os) = Some (0, Some fresh_mm, Some os, s\<lparr>sy_host := h\<rparr>)" "host_ok h"
    using init_mm_ok [of "s\<lparr>sy_host := h2\<rparr>" os r] h2(2) assms(6) by auto
  define k where "k = os\<lparr>k_mm := Some fresh_mm, k_mram := Some 0, k_active_mswp := Some 1\<rparr>"
  define b where "b = proc\<lparr>prio := ucast pr, krnl := Some k\<rparr>"
  let ?P = "(pcbs s)(p \<mapsto> b)" let ?b = "b\<lparr>krnl := Some (attach_queues k)\<rparr>"
  have bf: "krnl b = Some k" "prio b = ucast pr" "pid b = pid proc" by (simp_all add: b_def)
  obtain sc where sc: "add_proc (sy_sched s) ?P p = Inr (sc, ?P(p \<mapsto> ?b))" "sched_wf sc"
      "waiting_at sc (unat pr) = waiting_at (sy_sched s) (unat pr) @ [p]"
      "queue_items (running_list sc) = queue_items (running_list (sy_sched s)) @ [p]"
    using add_proc_room [OF assms(3,5), of ?P b k] True assms(9,10) bf pr(2) by auto
  define t where "t = (s\<lparr>sy_host := h\<rparr>)\<lparr>pcbs := (pcbs (s\<lparr>sy_host := h\<rparr>))(p \<mapsto> ?b)\<rparr>"
  let ?s = "t\<lparr>sy_sched := sc\<rparr>"
  have run: "ld_process os p proc pr s = Some ?s"
    using pr(1) h1(1) h2(1) h(1) sc(1) by (simp add: ld_process_def b_def k_def t_def)
  have q: "pcbs (s\<lparr>sy_host := h\<rparr>) p = None" "krnl ?b = Some (attach_queues k)" "k_mm (attach_queues k) = Some fresh_mm"
    "mm_pgd fresh_mm = Some (empty_table [()])" "fifo_pgn fresh_mm = []" "k_mram (attach_queues k) = Some 0"
    "k_active_mswp (attach_queues k) = Some 1" "krnl_pgd (attach_queues k) = Some r" "kroots (s\<lparr>sy_host := h\<rparr>) r \<noteq> None"
    using assms(4,6,7) by (simp_all add: attach_queues_def k_def fresh_mm_def)
  note n = vm_inv_new_process [OF vm_inv_alloc(1) [OF assms(1), of h] q(1) assms(5) q(2-9), folded t_def]
  have nn: "vbyte 1 t = vbyte 1 s" "\<And>x. x \<noteq> p \<Longrightarrow> caller_mm t x = caller_mm s x"
    using n(3,5) by (simp_all add: vm_inv_alloc(2) [OF assms(1)] del: One_nat_def)
  note v = vm_inv_sched [OF n(1), of sc]
  have none: "vbyte 1 s p a = None" for a
    using no_caller_slot [of s p] assms(4) by (simp add: vbyte_def caller_mm_def caller_krnl_def)
  have hp: "heap_inv 1 F ?s p" by (rule fresh_heap [OF v(1)]) (simp_all add: nn(1) n(4) v(2) none del: One_nat_def)
  have ho: "heap_inv 1 F ?s x" if "heap_inv 1 F s x" for x
  proof (cases "x = p")
    case False
    then show ?thesis by (intro heap_inv_keep [OF that v(1)]) (simp_all add: nn v(2) del: One_nat_def)
  qed (use hp in simp)
  have "runs ?s p"
    using sc(2,4) bf(3) by (intro new_process_runs [OF assms(3,5,8,11), where b = ?b]) (simp_all add: t_def)
  then show ?thesis using True run hp ho sc(2,3) none by (auto simp: v(2) nn(1) simp del: One_nat_def)
next
  case False
  then have "\<not> uint pr < int MAX_PRIO" by (simp only: uint_nat of_nat_less_iff not_False_eq_True)
  then show ?thesis using False by (cases "untested_alloc s") (simp_all add: ld_process_def validate_mlq_priority_def)
qed

text \<open>
  C7: the loader adds a process without disturbing the others. In a state with the memory invariant,
  with host memory and room in the queues, for a priority below 140 and an unused number, the new
  process gets an empty, well-formed heap, waits last in the queue of its priority, is found in the running
  list by its number, and no byte and no heap of another process changes; a priority from 140 on ends the program.
\<close>

theorem load_process_ready:
  assumes "vm_inv 1 F s" "host_ok (sy_host s)" "sched_wf (sy_sched s)" "pcbs s p = None" "p \<noteq> NULL"
    and "krnl_pgd os = Some r" "kroots s r \<noteq> None" "find_proc (sy_sched s) (pcbs s) (pid proc) = NULL"
    and "length (waiting_at (sy_sched s) (unat pr)) < MAX_QUEUE_SIZE" "length (queue_items (running_list (sy_sched s))) < MAX_QUEUE_SIZE"
    and "p \<notin> set (queue_items (running_list (sy_sched s)))"
  shows "if unat pr < MAX_PRIO
    then \<exists>s'. ld_process os p proc pr s = Some s' \<and> heap_inv 1 F s' p \<and> (\<forall>x. heap_inv 1 F s x \<longrightarrow> heap_inv 1 F s' x) \<and>
      vbyte 1 s' = vbyte 1 s \<and> (\<forall>a. vbyte 1 s' p a = None) \<and> sched_wf (sy_sched s') \<and> runs s' p \<and>
      waiting_at (sy_sched s') (unat pr) = waiting_at (sy_sched s) (unat pr) @ [p]
    else ld_process os p proc pr s = None"
  using assms by (rule load_process_ok)

theorem load_process_ready_witness:
  "\<exists>s'. ld_process demo_krnl 3 (demo_pcb\<lparr>pid := 9\<rparr>) 100 demo_sys = Some s' \<and> heap_inv 1 {} s' 3 \<and> runs s' 3"
proof -
  have f: "sy_sched demo_sys = boot_sched" "host_ok (sy_host demo_sys)" "pcbs demo_sys 3 = None" "kroots demo_sys 0 \<noteq> None"
    by (simp_all add: demo_sys_def host_ok_def)
  have e: "queue_items (running_list boot_sched) = []" "waiting_at boot_sched 100 = []"
    by (simp_all add: waiting_at_def boot_sched_fields MAX_PRIO_def queue_items_def new_queue_def)
  have q: "queue_wf (running_list boot_sched)" using boot_sched_wf by (simp add: sched_wf_def queues_wf_def)
  have n: "find_proc boot_sched P n = NULL" for P n by (simp add: find_proc_find [OF q] e)
  have k: "krnl_pgd demo_krnl = Some 0" "(3::nat) \<noteq> NULL" "unat (100 :: addr) < MAX_PRIO" by (simp_all add: demo_krnl_def NULL_def MAX_PRIO_def)
  from load_process_ready [OF demo_sys_inv f(2) _ f(3) k(2,1) f(4), of "demo_pcb\<lparr>pid := 9\<rparr>" 100] k(3)
  show ?thesis by (auto simp: f(1) e n boot_sched_wf MAX_QUEUE_SIZE_def)
qed

end
