(* ===== verification/Simulation.thy ===== *)
theory Simulation
  imports Os_Start
begin

text \<open>
  The threads of the simulator together: any number of CPU threads and the loader thread over the shared
  state. A turn of a CPU is cut at the critical sections of the scheduler, so steps of different threads
  interleave between giving back a process, fetching the next one, the test of \<open>is_done\<close> and the
  instruction. The clock is left out: every order of steps is allowed, which includes the orders that the
  timer admits. A fault or an exit of the program has no step.

  The granularity is coarser than the locks. One step executes a whole instruction, loads a whole process, or
  takes a process off the process table and releases its memory. The code does not make these atomic:
  \<open>mmvm_lock\<close> covers the sections of libmem.c, but \<open>__alloc\<close> drops it around the system call
  that grows the area (src/libmem.c:464-472), the system calls of src/sys_mem.c take no lock, and
  \<open>finish_proc\<close> and the release of the memory are two separate steps. Orders in which two threads are inside
  such a section at once are not among the executions of this model. What is shown of the queues does not depend on
  it, since the memory code never touches them.
\<close>

section \<open>The steps of a CPU thread\<close>

text \<open>
  Where a CPU thread is: at the head of the loop, before \<open>get_proc\<close> (\<open>True\<close> in the branch of an idle
  CPU), before \<open>is_done\<close>, before \<open>run\<close>, or after the loop. From the head until \<open>get_proc\<close>
  returns, the variable \<open>proc\<close> is not used again and counts as null.
\<close>

datatype cpu_pc = Check | Fetch bool | Test | Execute | Stop

definition cpu_check :: "sys \<Rightarrow> cpu \<Rightarrow> (cpu_pc \<times> cpu \<times> sys) option" where
  "cpu_check s u =
     (if cpu_proc u = NULL then Some (Fetch True, u, s)
      else do {
        b \<leftarrow> pcbs s (cpu_proc u);
        cs \<leftarrow> code b;
        if pc b = code_size cs then do {
          s1 \<leftarrow> free_pcb_all (cpu_proc u) (s\<lparr>sy_sched := finish_proc (sy_sched s) (cpu_proc u)\<rparr>);
          Some (Fetch False, \<lparr>cpu_proc = NULL, time_left = 0\<rparr>, s1) }
        else if time_left u = 0 then
          (case put_proc (sy_sched s) (pcbs s) (cpu_proc u) of Inl _ \<Rightarrow> None
           | Inr (sc, P) \<Rightarrow> Some (Fetch False, u\<lparr>cpu_proc := NULL\<rparr>, s\<lparr>sy_sched := sc, pcbs := P\<rparr>))
        else Some (Execute, u, s) })"

definition cpu_fetch :: "bool \<Rightarrow> sys \<Rightarrow> cpu \<Rightarrow> cpu_pc \<times> cpu \<times> sys" where
  "cpu_fetch idle s u =
     (let (p, s1) = next_proc s
      in (if p \<noteq> NULL then Execute else if idle then Check else Test, u\<lparr>cpu_proc := p\<rparr>, s1))"

definition cpu_test :: "bool \<Rightarrow> cpu_pc" where
  "cpu_test is_done = (if is_done then Stop else Check)"

definition cpu_execute :: "rg_node \<Rightarrow> int \<Rightarrow> sys \<Rightarrow> cpu \<Rightarrow> (cpu \<times> sys) option" where
  "cpu_execute junk time_slot s u = do {
     (_, s1) \<leftarrow> run junk s (cpu_proc u);
     Some (u\<lparr>time_left := int32 ((if time_left u = 0 then time_slot else time_left u) - 1)\<rparr>, s1) }"

section \<open>The system\<close>

text \<open>
  \<open>sm_loads\<close> are the processes the loader has still to add, as \<open>load\<close> returns them, with their priorities.
  The last three fields observe the execution and have no influence on it. \<open>sm_loaded\<close> counts the processes
  added, \<open>sm_serial\<close> says which of them a live process is, and \<open>sm_trace\<close> holds for each of them
  what its instructions did, in the order of execution: the process, and the shared state before and after.
\<close>

record sim =
  sm_sys :: sys
  sm_cpu :: "nat \<Rightarrow> cpu_pc \<times> cpu"
  sm_loads :: "(pcb_t \<times> addr) list"
  sm_done :: bool
  sm_loaded :: nat
  sm_serial :: "pptr \<Rightarrow> nat"
  sm_trace :: "nat \<Rightarrow> (pptr \<times> sys \<times> sys) list"

text \<open>A call of \<open>run\<close> at the end of the code executes no instruction.\<close>

definition traced :: "sim \<Rightarrow> pptr \<Rightarrow> sys \<Rightarrow> nat \<Rightarrow> (pptr \<times> sys \<times> sys) list" where
  "traced m p s' =
     (if at_end (sm_sys m) p then sm_trace m
      else (sm_trace m)(sm_serial m p := sm_trace m (sm_serial m p) @ [(p, sm_sys m, s')]))"

inductive sim_step :: "rg_node \<Rightarrow> int \<Rightarrow> krnl_t \<Rightarrow> nat \<Rightarrow> sim \<Rightarrow> sim \<Rightarrow> bool"
  for junk ts os n
where
  check: "i < n \<Longrightarrow> sm_cpu m i = (Check, u) \<Longrightarrow> cpu_check (sm_sys m) u = Some (a, u', s') \<Longrightarrow>
    sim_step junk ts os n m (m\<lparr>sm_sys := s', sm_cpu := (sm_cpu m)(i := (a, u'))\<rparr>)"
| fetch: "i < n \<Longrightarrow> sm_cpu m i = (Fetch idle, u) \<Longrightarrow> cpu_fetch idle (sm_sys m) u = (a, u', s') \<Longrightarrow>
    sim_step junk ts os n m (m\<lparr>sm_sys := s', sm_cpu := (sm_cpu m)(i := (a, u'))\<rparr>)"
| test: "i < n \<Longrightarrow> sm_cpu m i = (Test, u) \<Longrightarrow>
    sim_step junk ts os n m (m\<lparr>sm_cpu := (sm_cpu m)(i := (cpu_test (sm_done m), u))\<rparr>)"
| execute: "i < n \<Longrightarrow> sm_cpu m i = (Execute, u) \<Longrightarrow> cpu_execute junk ts (sm_sys m) u = Some (u', s') \<Longrightarrow>
    sim_step junk ts os n m (m\<lparr>sm_sys := s', sm_cpu := (sm_cpu m)(i := (Check, u')),
      sm_trace := traced m (cpu_proc u) s'\<rparr>)"
| load: "sm_loads m = (b, pr) # ls \<Longrightarrow> p \<noteq> NULL \<Longrightarrow> pcbs (sm_sys m) p = None \<Longrightarrow>
    ld_process os p b pr (sm_sys m) = Some s' \<Longrightarrow>
    sim_step junk ts os n m (m\<lparr>sm_sys := s', sm_loads := ls, sm_loaded := sm_loaded m + 1,
      sm_serial := (sm_serial m)(p := sm_loaded m)\<rparr>)"
| all_loaded: "sm_loads m = [] \<Longrightarrow> sim_step junk ts os n m (m\<lparr>sm_done := True\<rparr>)"

inductive_cases sim_stepE: "sim_step junk ts os n m m'"

definition boot_sim :: "sys \<Rightarrow> (pcb_t \<times> addr) list \<Rightarrow> sim" where
  "boot_sim s ls = \<lparr>sm_sys = s, sm_cpu = (\<lambda>_. (Check, \<lparr>cpu_proc = NULL, time_left = 0\<rparr>)), sm_loads = ls,
     sm_done = False, sm_loaded = 0, sm_serial = (\<lambda>_. 0), sm_trace = (\<lambda>_. [])\<rparr>"

section \<open>Places of processes\<close>

definition own :: "cpu \<Rightarrow> pptr multiset" where
  "own u = (if cpu_proc u = NULL then {#} else {#cpu_proc u#})"

definition placed :: "nat \<Rightarrow> sim \<Rightarrow> pptr multiset" where
  "placed n m = mset (waiting (sy_sched (sm_sys m))) + (\<Sum>i<n. own (snd (sm_cpu m i)))"

fun at_ok :: "cpu_pc \<times> cpu \<Rightarrow> bool" where
  "at_ok (a, u) \<longleftrightarrow> (case a of Check \<Rightarrow> True | Execute \<Rightarrow> cpu_proc u \<noteq> NULL | _ \<Rightarrow> cpu_proc u = NULL)"

text \<open>
  The invariant: every live process is in exactly one place, once in one ready queue or on one CPU, and
  once in the process table.
\<close>

definition sim_inv :: "nat \<Rightarrow> sim \<Rightarrow> bool" where
  "sim_inv n m \<longleftrightarrow> (let s = sm_sys m in
     sched_wf (sy_sched s) \<and> procs_wf s \<and> finite (dom (pcbs s)) \<and> placed n m = mset_set (dom (pcbs s)) \<and>
     mset (queue_items (running_list (sy_sched s))) = mset_set (dom (pcbs s)) \<and>
     (\<forall>i<n. at_ok (sm_cpu m i)) \<and> list_all (\<lambda>(b, _). pcb_wf (b\<lparr>krnl := None\<rparr>)) (sm_loads m))"

section \<open>What a step does to places\<close>

lemma sum_own_update:
  fixes i n :: nat
  assumes "i < n"
  shows "(\<Sum>j<n. own (snd ((f(i := x)) j))) + own (snd (f i)) = (\<Sum>j<n. own (snd (f j))) + own (snd x)"
proof -
  have "(\<Sum>j<n. own (snd ((f(i := x)) j))) = own (snd x) + (\<Sum>j\<in>{..<n} - {i}. own (snd (f j)))"
    using assms by (subst sum.remove [of _ i]) (auto intro: sum.cong)
  moreover have "(\<Sum>j<n. own (snd (f j))) = own (snd (f i)) + (\<Sum>j\<in>{..<n} - {i}. own (snd (f j)))"
    using assms by (subst sum.remove [of _ i]) auto
  ultimately show ?thesis by simp
qed

text \<open>
  A step of a CPU or of the loader in terms of the shared state: \<open>gone\<close> are the processes that leave,
  \<open>got\<close> those that come.
\<close>

definition moves :: "sys \<Rightarrow> pptr multiset \<Rightarrow> sys \<Rightarrow> pptr multiset \<Rightarrow> pptr set \<Rightarrow> pptr set \<Rightarrow> bool" where
  "moves s hs s' hs' gone got \<longleftrightarrow> sched_wf (sy_sched s') \<and> procs_wf s' \<and>
     finite gone \<and> finite got \<and> gone \<subseteq> dom (pcbs s) \<and> got \<inter> dom (pcbs s) = {} \<and>
     dom (pcbs s') = dom (pcbs s) - gone \<union> got \<and>
     mset (waiting (sy_sched s')) + hs' + mset_set gone = mset (waiting (sy_sched s)) + hs + mset_set got \<and>
     mset (queue_items (running_list (sy_sched s'))) + mset_set gone = mset (queue_items (running_list (sy_sched s))) + mset_set got"

lemma moves_inv:
  assumes "sim_inv n m" "moves (sm_sys m) (\<Sum>i<n. own (snd (sm_cpu m i))) (sm_sys m') (\<Sum>i<n. own (snd (sm_cpu m' i))) gone got"
    and "\<forall>i<n. at_ok (sm_cpu m' i)" "list_all (\<lambda>(b, _). pcb_wf (b\<lparr>krnl := None\<rparr>)) (sm_loads m')"
  shows "sim_inv n m'"
proof -
  let ?s' = "sm_sys m'" and ?c' = "sm_cpu m'"
  let ?s = "sm_sys m" and ?D = "dom (pcbs (sm_sys m))"
  have i: "sched_wf (sy_sched ?s)" "finite ?D" "placed n m = mset_set ?D"
      "mset (queue_items (running_list (sy_sched ?s))) = mset_set ?D" using assms(1) by (auto simp: sim_inv_def Let_def)
  have v: "sched_wf (sy_sched ?s')" "procs_wf ?s'" "finite gone" "finite got" "gone \<subseteq> ?D" "got \<inter> ?D = {}"
      "dom (pcbs ?s') = ?D - gone \<union> got"
      "mset (waiting (sy_sched ?s')) + (\<Sum>i<n. own (snd (?c' i))) + mset_set gone = placed n m + mset_set got"
      "mset (queue_items (running_list (sy_sched ?s'))) + mset_set gone = mset (queue_items (running_list (sy_sched ?s))) + mset_set got"
    using assms(2) by (auto simp: moves_def placed_def ac_simps)
  have "mset_set (dom (pcbs ?s')) + mset_set gone = mset_set ?D + mset_set got"
  proof -
    have "mset_set (dom (pcbs ?s')) = mset_set (?D - gone) + mset_set got"
      unfolding v(7) using v(4,6) i(2) by (intro mset_set_Union) auto
    moreover have "mset_set (?D - gone) + mset_set gone = mset_set ?D"
      using mset_set_Union [of "?D - gone" gone] v(3,5) i(2) by (simp add: Un_absorb2 Diff_Int_distrib2)
    ultimately show ?thesis by (simp add: ac_simps)
  qed
  then have "mset (waiting (sy_sched ?s')) + (\<Sum>i<n. own (snd (?c' i))) = mset_set (dom (pcbs ?s'))"
      "mset (queue_items (running_list (sy_sched ?s'))) = mset_set (dom (pcbs ?s'))"
    using v(8,9) i(3,4) by (metis add_right_cancel)+
  then show ?thesis using v(1,2,3,4,7) i(2) assms(3,4) by (simp add: sim_inv_def Let_def placed_def)
qed

lemma moves_cpu:
  fixes i n :: nat
  assumes "moves s (own (snd (f i))) s' (own u') gone got" "i < n"
  shows "moves s (\<Sum>j<n. own (snd (f j))) s' (\<Sum>j<n. own (snd ((f(i := (a, u'))) j))) gone got"
proof -
  let ?S = "\<Sum>j<n. own (snd (f j))" and ?S' = "\<Sum>j<n. own (snd ((f(i := (a, u'))) j))"
  let ?W = "mset (waiting (sy_sched s))" and ?W' = "mset (waiting (sy_sched s'))"
  have u: "?S' + own (snd (f i)) = ?S + own u'" using sum_own_update [OF assms(2), of f "(a, u')"] by simp
  have w: "?W' + own u' + mset_set gone = ?W + own (snd (f i)) + mset_set got" using assms(1) by (simp add: moves_def)
  have "?W' + ?S' + mset_set gone + own (snd (f i)) = ?W + ?S + mset_set got + own (snd (f i))"
    using arg_cong2 [OF u w, of "(+)"] by (simp add: ac_simps)
  then show ?thesis using assms(1) unfolding moves_def by (metis add_right_cancel)
qed

section \<open>The steps\<close>

text \<open>
  How far a process is. A step lets the processes in \<open>gone\<close> end, which are at the end of their code,
  and leaves the code and the counter of the others.
\<close>

definition progress :: "sys \<Rightarrow> pptr \<Rightarrow> (code_seg_t option \<times> uint32) option" where
  "progress s x = map_option (\<lambda>b. (code b, pc b)) (pcbs s x)"

definition ends :: "sys \<Rightarrow> sys \<Rightarrow> pptr set \<Rightarrow> bool" where
  "ends s s' gone \<longleftrightarrow> (\<forall>x\<in>gone. at_end s x \<and> pcbs s' x = None) \<and> (\<forall>x. x \<notin> gone \<longrightarrow> progress s' x = progress s x)"

lemma progress_dom: "progress s' x = progress s x \<Longrightarrow> x \<in> dom (pcbs s') \<longleftrightarrow> x \<in> dom (pcbs s)"
  by (cases "pcbs s' x"; cases "pcbs s x") (simp_all add: progress_def domIff)

lemma shape_opt:
  assumes "map_option pcb_shape (pcbs s' x) = map_option pcb_shape (pcbs s x)"
  shows "progress s' x = progress s x" "pcbs s' x = Some b' \<Longrightarrow> \<exists>b. pcbs s x = Some b \<and> pcb_wf b' = pcb_wf b"
proof -
  show "progress s' x = progress s x"
    using assms by (cases "pcbs s' x"; cases "pcbs s x") (simp_all add: progress_def pcb_shape_def)
  assume "pcbs s' x = Some b'"
  with assms obtain b where "pcbs s x = Some b" "pcb_shape b' = pcb_shape b" by (cases "pcbs s x") simp_all
  then show "\<exists>b. pcbs s x = Some b \<and> pcb_wf b' = pcb_wf b" using pcb_wf_shape by blast
qed

lemma get_proc_frame: "sched_wf sc \<Longrightarrow> running_list (snd (get_proc sc)) = running_list sc"
  by (cases rule: get_mlq_proc_cases [of sc]) (simp_all add: get_proc_def)

lemma fetch_moves:
  assumes "sched_wf (sy_sched s)" "procs_wf s" "cpu_proc u = NULL" "cpu_fetch idle s u = (a, u', s')"
  shows "moves s (own u) s' (own u') {} {}" "at_ok (a, u')" "pcbs s' = pcbs s"
proof -
  obtain p where n: "next_proc s = (p, s')" "u' = u\<lparr>cpu_proc := p\<rparr>" "a = (if p \<noteq> NULL then Execute else if idle then Check else Test)"
    using assms(4) by (auto simp: cpu_fetch_def split: prod.splits)
  note k = next_proc_conserves [OF assms(1) n(1)]
  have r: "running_list (sy_sched s') = running_list (sy_sched s)"
    using n(1) get_proc_frame [OF assms(1)] by (auto simp: next_proc_def split: prod.splits)
  have "procs_wf s'" using assms(2) k(2) by (simp add: procs_wf_def)
  then show "moves s (own u) s' (own u') {} {}"
    using k r assms(3) n(2) by (auto simp: moves_def own_def)
  show "at_ok (a, u')" by (simp add: n)
  show "pcbs s' = pcbs s" by (rule k(2))
qed

text \<open>Giving a process back, or ending it.\<close>

lemma end_moves:
  assumes wf: "sched_wf (sy_sched s)" "procs_wf s" "finite (dom (pcbs s))" and p: "p \<noteq> NULL"
    "p \<in> set (queue_items (running_list (sy_sched s)))" and b: "pcbs s p = Some b" "at_end s p"
    and f: "free_pcb_all p (s\<lparr>sy_sched := finish_proc (sy_sched s) p\<rparr>) = Some s'"
  shows "moves s {#p#} s' {#} {p} {} \<and> ends s s' {p}"
proof -
  note r = finish_proc_running [OF wf(1), of p] and k = free_pcb_all_frame [OF f p(1)]
  have o: "map_option pcb_shape (pcbs s' x) = map_option pcb_shape (pcbs s x)" if "x \<noteq> p" for x
    using k(3) [OF that] by simp
  have e: "ends s s' {p}" using b(2) k(2) shape_opt(1) [OF o] by (simp add: ends_def)
  have d: "dom (pcbs s') = dom (pcbs s) - {p}"
  proof (rule set_eqI)
    show "x \<in> dom (pcbs s') \<longleftrightarrow> x \<in> dom (pcbs s) - {p}" for x
      using progress_dom [of s' x s] e k(2) by (cases "x = p") (simp_all add: ends_def domIff)
  qed
  have "pcb_wf b'" if "pcbs s' x = Some b'" for x b'
  proof (cases "x = p")
    case False
    from shape_opt(2) [OF o [OF False] that] show ?thesis using wf(2) by (auto simp: procs_wf_def)
  qed (use that k(2) in simp)
  then have "procs_wf s'" by (simp add: procs_wf_def)
  moreover have "waiting (sy_sched s') = waiting (sy_sched s)" using r k(1) by (simp add: waiting_def)
  moreover have "mset (queue_items (running_list (sy_sched s'))) + {#p#} = mset (queue_items (running_list (sy_sched s)))"
    using r k(1) p(2) by simp
  ultimately show ?thesis using r k(1) d b(1) e by (auto simp: moves_def)
qed

lemma requeue_moves:
  assumes wf: "sched_wf (sy_sched s)" "procs_wf s" "finite (dom (pcbs s))" and p: "p \<noteq> NULL"
    and q: "put_proc (sy_sched s) (pcbs s) p = Inr (sc, P)"
  shows "moves s {#p#} (s\<lparr>sy_sched := sc, pcbs := P\<rparr>) {#} {} {} \<and> ends s (s\<lparr>sy_sched := sc, pcbs := P\<rparr>) {}"
proof -
  let ?s = "s\<lparr>sy_sched := sc, pcbs := P\<rparr>"
  obtain b k qq where b: "pcbs s p = Some b" "krnl b = Some k" "unat (prio b) < MAX_PRIO"
    "enqueue (mlq_ready_queue (sy_sched s) ! unat (prio b)) p = (0, qq)"
    "sc = (sy_sched s)\<lparr>mlq_ready_queue := (mlq_ready_queue (sy_sched s))[unat (prio b) := qq]\<rparr>"
    "P = (pcbs s)(p \<mapsto> b\<lparr>krnl := Some (attach_queues k)\<rparr>)"
    by (rule put_mlq_procD [OF q [unfolded put_proc_def]]) (use p that in blast)+
  have w: "queues_wf (sy_sched s)" "slots_wf (slot (sy_sched s))" using wf(1) by (auto simp: sched_wf_def)
  note a = queues_wf_append [OF w(1) b(3) p b(4), folded b(5)]
  have sc: "sched_wf sc" using a(1) w(2) by (simp add: sched_wf_def b(5))
  have "pcb_wf (b\<lparr>krnl := Some (attach_queues k)\<rparr>)"
    using wf(2) b(1,2) by (auto simp: procs_wf_def pcb_wf_def attach_queues_def)
  then have "procs_wf ?s" using wf(2) by (auto simp: procs_wf_def b(6) split: if_splits)
  moreover have "dom P = dom (pcbs s)" using b(1) by (auto simp: b(6))
  moreover have "running_list sc = running_list (sy_sched s)" by (simp add: b(5))
  moreover have "ends s ?s {}" using b(1) by (simp add: ends_def progress_def b(6))
  ultimately show ?thesis using sc a(3) by (simp add: moves_def)
qed

lemma check_moves:
  assumes wf: "sched_wf (sy_sched s)" "procs_wf s" "finite (dom (pcbs s))"
    and r: "cpu_proc u \<noteq> NULL \<Longrightarrow> cpu_proc u \<in> set (queue_items (running_list (sy_sched s)))"
    and c: "cpu_check s u = Some (a, u', s')"
  shows "(\<exists>gone. moves s (own u) s' (own u') gone {} \<and> ends s s' gone) \<and> at_ok (a, u')"
proof -
  have same: "moves s (own u) s (own u) {} {} \<and> ends s s {}" using wf(1,2) by (simp add: moves_def ends_def)
  show ?thesis
  proof (cases "cpu_proc u = NULL")
    case True
    then show ?thesis using c same by (auto simp: cpu_check_def)
  next
    case False
    then obtain b cs where b: "pcbs s (cpu_proc u) = Some b" "code b = Some cs"
      using c by (auto simp: cpu_check_def bind_eq_Some_conv)
    have o: "own u = {#cpu_proc u#}" using False by (simp add: own_def)
    consider "pc b = code_size cs" | "pc b \<noteq> code_size cs" "time_left u = 0" | "pc b \<noteq> code_size cs" "time_left u \<noteq> 0" by blast
    then show ?thesis
    proof cases
      case 1
      then have "a = Fetch False" "u' = \<lparr>cpu_proc = NULL, time_left = 0\<rparr>"
          "free_pcb_all (cpu_proc u) (s\<lparr>sy_sched := finish_proc (sy_sched s) (cpu_proc u)\<rparr>) = Some s'"
        using c False b by (auto simp: cpu_check_def bind_eq_Some_conv)
      moreover have "at_end s (cpu_proc u)" using 1 False b by (simp add: at_end_def)
      ultimately show ?thesis using end_moves [OF wf False r [OF False] b(1)] unfolding o by (auto simp: own_def)
    next
      case 2
      then obtain sc P where "put_proc (sy_sched s) (pcbs s) (cpu_proc u) = Inr (sc, P)"
          "a = Fetch False" "u' = u\<lparr>cpu_proc := NULL\<rparr>" "s' = s\<lparr>sy_sched := sc, pcbs := P\<rparr>"
        using c False b by (auto simp: cpu_check_def bind_eq_Some_conv split: sum.splits)
      then show ?thesis using requeue_moves [OF wf False] unfolding o by (auto simp: own_def)
    next
      case 3
      then show ?thesis using c False b same by (auto simp: cpu_check_def)
    qed
  qed
qed

text \<open>An instruction, and a new process.\<close>

text \<open>
  \<open>did junk p i b e\<close>: the event \<open>e\<close> is the instruction number \<open>i\<close> of the program with
  which the process \<open>b\<close> was loaded, fetched with the counter at it.
\<close>

definition did :: "rg_node \<Rightarrow> pcb_t \<Rightarrow> nat \<Rightarrow> pptr \<times> sys \<times> sys \<Rightarrow> bool" where
  "did junk b i = (\<lambda>(p, s, s').
     case (code b, pcbs s p) of
       (Some cs, Some c) \<Rightarrow> i < length (code_text cs) \<and> unat (pc c) = i \<and>
         map_option snd (dispatch_inst junk (upd_pcb p (\<lambda>b. b\<lparr>pc := pc b + 1\<rparr>) s) p (code_text cs ! i)) = Some s'
     | _ \<Rightarrow> False)"

lemma execute_moves:
  assumes wf: "sched_wf (sy_sched s)" "procs_wf s" "cpu_proc u \<noteq> NULL"
    and c: "cpu_execute junk ts s u = Some (u', s')"
  shows "moves s (own u) s' (own u') {} {}"
    and "\<exists>b b'. pcbs s (cpu_proc u) = Some b \<and> pcbs s' (cpu_proc u) = Some b' \<and> code b' = code b \<and>
      (if at_end s (cpu_proc u) then pc b' = pc b
       else unat (pc b') = unat (pc b) + 1 \<and> did junk b (unat (pc b)) (cpu_proc u, s, s'))"
    and "x \<noteq> cpu_proc u \<Longrightarrow> progress s' x = progress s x"
proof -
  let ?p = "cpu_proc u"
  obtain r where r: "run junk s ?p = Some (r, s')" "cpu_proc u' = ?p"
    using c by (auto simp: cpu_execute_def bind_eq_Some_conv)
  then obtain b cs where b: "pcbs s ?p = Some b" "code b = Some cs"
    by (auto simp: run_def bind_eq_Some_conv)
  note k = run_pcb [OF r(1) b] and t = run_all [OF wf(2) r(1)]
  obtain b' where b': "pcbs s' ?p = Some b'" "code b' = Some cs"
      "unat (pc b') = (if pc b < code_size cs then unat (pc b) + 1 else unat (pc b))" using run_step [OF wf(2) r(1) b] by blast
  show "moves s (own u) s' (own u') {} {}" using t wf(1) r(2) by (auto simp: moves_def own_def)
  show "x \<noteq> ?p \<Longrightarrow> progress s' x = progress s x" by (rule shape_opt(1) [OF k(3)])
  have "pcb_wf b" using wf(2) b(1) by (simp add: procs_wf_def)
  then have "pc b \<le> code_size cs" using b(2) by (auto simp: pcb_wf_def)
  then have e: "at_end s ?p \<longleftrightarrow> \<not> pc b < code_size cs" using b wf(3) by (auto simp: at_end_def)
  have "did junk b (unat (pc b)) (?p, s, s')" if "pc b < code_size cs"
    by (rule run_cases [OF r(1) b]) (use that b in \<open>auto simp: did_def\<close>)
  then show "\<exists>b b'. pcbs s ?p = Some b \<and> pcbs s' ?p = Some b' \<and> code b' = code b \<and>
      (if at_end s ?p then pc b' = pc b else unat (pc b') = unat (pc b) + 1 \<and> did junk b (unat (pc b)) (?p, s, s'))"
    using b b' e by (auto simp: word_unat_eq_iff)
qed

lemma ld_process_result:
  assumes "ld_process os p b pr s = Some s'" "pcbs s p = None" "p \<noteq> NULL"
  obtains s1 sc P b1 where "sy_sched s1 = sy_sched s" "pcbs s1 = (pcbs s)(p \<mapsto> b1)" "add_proc (sy_sched s1) (pcbs s1) p = Inr (sc, P)"
    "s' = s1\<lparr>sy_sched := sc, pcbs := P\<rparr>" "code b1 = code b" "pc b1 = pc b" "pcb_wf (b\<lparr>krnl := None\<rparr>) \<Longrightarrow> pcb_wf b1"
proof -
  let ?c = "\<lambda>m k. b\<lparr>prio := ucast pr, krnl := Some (k\<lparr>k_mm := Some m, k_mram := Some 0, k_active_mswp := Some 1\<rparr>)\<rparr>"
  obtain u0 u1 r m k s0 where u: "untested_alloc s = Some u0" "untested_alloc u0 = Some u1"
      and m: "init_mm u1 (Some os) = Some (r, Some m, Some k, s0)"
    using assms(1) by (auto simp: ld_process_def bind_eq_Some_conv)
  obtain sc P where a: "add_proc (sy_sched s0) ((pcbs s0)(p \<mapsto> ?c m k)) p = Inr (sc, P)" "s' = s0\<lparr>pcbs := P, sy_sched := sc\<rparr>"
    using assms(1) u m by (cases "add_proc (sy_sched s0) ((pcbs s0)(p \<mapsto> ?c m k)) p") (auto simp: ld_process_def bind_eq_Some_conv Let_def)
  obtain h where "u1 = s\<lparr>sy_host := h\<rparr>" using u by (auto dest!: untested_alloc_frame)
  then have f: "sy_sched s0 = sy_sched s" "pcbs s0 = pcbs s" "length (symrgtbl m) = PAGING_MAX_SYMTBL_SZ"
    using m by (auto simp: init_mm_def init_vm_rg_def init_kernel_page_table_def sys_alloc_def halloc_def Let_def bind_eq_Some_conv
      split: if_splits option.splits prod.splits)
  have "pcb_wf (b\<lparr>krnl := None\<rparr>) \<Longrightarrow> pcb_wf (?c m k)" using f(3) by (auto simp: pcb_wf_def)
  then show thesis using that [of "s0\<lparr>pcbs := (pcbs s0)(p \<mapsto> ?c m k)\<rparr>" "?c m k" sc P] a f(1,2) by simp
qed

lemma load_moves:
  assumes wf: "sched_wf (sy_sched s)" "procs_wf s" and p: "p \<noteq> NULL" "pcbs s p = None"
    and l: "ld_process os p b pr s = Some s'" "pcb_wf (b\<lparr>krnl := None\<rparr>)"
  shows "moves s hs s' hs {} {p}" "\<exists>b'. pcbs s' = (pcbs s)(p \<mapsto> b') \<and> code b' = code b \<and> pc b' = pc b"
proof -
  obtain s1 sc P b1 where r: "sy_sched s1 = sy_sched s" "pcbs s1 = (pcbs s)(p \<mapsto> b1)" "add_proc (sy_sched s1) (pcbs s1) p = Inr (sc, P)"
    "s' = s1\<lparr>sy_sched := sc, pcbs := P\<rparr>" "code b1 = code b" "pc b1 = pc b" "pcb_wf b1"
    using ld_process_result [OF l(1) p(2,1)] l(2) by metis
  have a: "add_mlq_proc (sy_sched s) ((pcbs s)(p \<mapsto> b1)) p = Inr (sc, P)" using r(1-3) by (simp add: add_proc_def)
  then obtain k q lq where q: "krnl b1 = Some k" "unat (prio b1) < MAX_PRIO"
    "enqueue (mlq_ready_queue (sy_sched s) ! unat (prio b1)) p = (0, q)" "enqueue (running_list (sy_sched s)) p = (0, lq)"
    "sc = (sy_sched s)\<lparr>mlq_ready_queue := (mlq_ready_queue (sy_sched s))[unat (prio b1) := q], running_list := lq\<rparr>"
    "P = (pcbs s)(p \<mapsto> b1\<lparr>krnl := Some (attach_queues k)\<rparr>)"
    by (rule add_mlq_procD) (use p(1) in auto)
  have w: "queues_wf (sy_sched s)" using wf(1) by (simp add: sched_wf_def)
  then have rl: "queue_items lq = queue_items (running_list (sy_sched s)) @ [p]"
    using enqueue_result [OF _ q(4)] by (simp add: queues_wf_def)
  have wt: "mset (waiting sc) = add_mset p (mset (waiting (sy_sched s)))"
    using queues_wf_append(3) [OF w q(2) p(1) q(3)] by (simp add: q(5) waiting_def)
  let ?b = "b1\<lparr>krnl := Some (attach_queues k)\<rparr>"
  have "pcb_wf ?b" using r(7) q(1) by (auto simp: pcb_wf_def attach_queues_def)
  then have "procs_wf s'" using wf(2) by (auto simp: procs_wf_def r(4) q(6) split: if_splits)
  then show "moves s hs s' hs {} {p}"
    using sched_wf_add_mlq_proc [OF wf(1) a] wt rl p(2) by (auto simp: moves_def r(4) q(5,6))
  show "\<exists>b'. pcbs s' = (pcbs s)(p \<mapsto> b') \<and> code b' = code b \<and> pc b' = pc b"
    using r(5,6) by (intro exI [of _ ?b]) (simp add: r(4) q(6))
qed

section \<open>Every step keeps the invariant\<close>

lemma sim_invD:
  assumes "sim_inv n m" "i < n"
  shows "cpu_proc (snd (sm_cpu m i)) \<noteq> NULL \<Longrightarrow> cpu_proc (snd (sm_cpu m i)) \<in> set (queue_items (running_list (sy_sched (sm_sys m))))"
    "at_ok (sm_cpu m i)"
proof -
  let ?p = "cpu_proc (snd (sm_cpu m i))" and ?D = "dom (pcbs (sm_sys m))"
  have i: "finite ?D" "placed n m = mset_set ?D" "mset (queue_items (running_list (sy_sched (sm_sys m)))) = mset_set ?D"
      "at_ok (sm_cpu m i)" using assms by (auto simp: sim_inv_def Let_def)
  show "at_ok (sm_cpu m i)" by (rule i)
  assume "?p \<noteq> NULL"
  then have "?p \<in># own (snd (sm_cpu m i))" by (simp add: own_def)
  moreover have "own (snd (sm_cpu m i)) \<subseteq># (\<Sum>j<n. own (snd (sm_cpu m j)))"
    using assms(2) by (subst sum.remove [of _ i]) auto
  ultimately have "?p \<in># mset_set ?D" unfolding i(2) [symmetric] placed_def by (auto dest: mset_subset_eqD)
  then show "?p \<in> set (queue_items (running_list (sy_sched (sm_sys m))))" using i(3) by (metis set_mset_mset)
qed

lemma sim_step_inv:
  assumes "sim_step junk ts os n m m'" "sim_inv n m"
  shows "sim_inv n m'"
proof -
  let ?s = "sm_sys m"
  have wf: "sched_wf (sy_sched ?s)" "procs_wf ?s" "finite (dom (pcbs ?s))"
    and at: "\<forall>i<n. at_ok (sm_cpu m i)" and ls: "list_all (\<lambda>(b, _). pcb_wf (b\<lparr>krnl := None\<rparr>)) (sm_loads m)"
    using assms(2) by (auto simp: sim_inv_def Let_def)
  note inv = moves_inv [OF assms(2), of m']
  show ?thesis
    using assms(1)
  proof cases
    case (check i u a u' s')
    have "cpu_proc u \<noteq> NULL \<Longrightarrow> cpu_proc u \<in> set (queue_items (running_list (sy_sched ?s)))"
      using sim_invD(1) [OF assms(2) check(2)] check(3) by simp
    from check_moves [OF wf this check(4)] obtain gone where
      k: "moves ?s (own (snd (sm_cpu m i))) s' (own u') gone {}" "at_ok (a, u')" using check(3) by auto
    from inv [of gone "{}"] moves_cpu [of ?s "sm_cpu m" i s' u' gone "{}" n a, OF k(1) check(2)] at ls k(2) check(1) show ?thesis by simp
  next
    case (fetch i idle u a u' s')
    have "cpu_proc u = NULL" using sim_invD(2) [OF assms(2) fetch(2)] fetch(3) by simp
    from fetch_moves [OF wf(1,2) this fetch(4)] have
      k: "moves ?s (own (snd (sm_cpu m i))) s' (own u') {} {}" "at_ok (a, u')" using fetch(3) by auto
    from inv [of "{}" "{}"] moves_cpu [of ?s "sm_cpu m" i s' u' "{}" "{}" n a, OF k(1) fetch(2)] at ls k(2) fetch(1) show ?thesis by simp
  next
    case (test i u)
    have u: "cpu_proc u = NULL" using sim_invD(2) [OF assms(2) test(2)] test(3) by simp
    have k: "moves ?s (own (snd (sm_cpu m i))) ?s (own u) {} {}" using wf test(3) by (simp add: moves_def)
    have "at_ok (cpu_test (sm_done m), u)" using u by (simp add: cpu_test_def)
    with inv [of "{}" "{}"] moves_cpu [of ?s "sm_cpu m" i ?s u "{}" "{}" n "cpu_test (sm_done m)", OF k test(2)] at ls test(1) show ?thesis by simp
  next
    case (execute i u u' s')
    have "cpu_proc u \<noteq> NULL" using sim_invD(2) [OF assms(2) execute(2)] execute(3) by simp
    from execute_moves(1) [OF wf(1,2) this execute(4)] have
      k: "moves ?s (own (snd (sm_cpu m i))) s' (own u') {} {}" using execute(3) by auto
    from inv [of "{}" "{}"] moves_cpu [of ?s "sm_cpu m" i s' u' "{}" "{}" n Check, OF k execute(2)] at ls execute(1) show ?thesis by simp
  next
    case (load b pr ls' p s')
    have "pcb_wf (b\<lparr>krnl := None\<rparr>)" using ls load(2) by simp
    from inv [of "{}" "{p}"] load_moves(1) [OF wf(1,2) load(3-5) this] at ls load(1,2) show ?thesis by simp
  next
    case all_loaded
    have "moves ?s hs ?s hs {} {}" for hs using wf by (simp add: moves_def)
    with inv [of "{}" "{}"] at ls all_loaded(1) show ?thesis by simp
  qed
qed

section \<open>Every step keeps the account of the instructions\<close>

text \<open>
  The account: the events of a program are its instructions in their order from the first on; a live process is
  as far as its events, no two live processes are of one program, and a program that was loaded and has
  no process any more has been executed to its end.
\<close>

definition remaining :: "pcb_t \<Rightarrow> nat" where
  "remaining b = (case code b of None \<Rightarrow> 0 | Some cs \<Rightarrow> unat (code_size cs) - unat (pc b))"

definition in_order :: "rg_node \<Rightarrow> pcb_t \<Rightarrow> (pptr \<times> sys \<times> sys) list \<Rightarrow> bool" where
  "in_order junk b tr \<longleftrightarrow> (\<forall>i<length tr. did junk b (unat (pc b) + i) (tr ! i))"

definition follows :: "pcb_t \<Rightarrow> nat \<Rightarrow> pcb_t \<Rightarrow> bool" where
  "follows b0 k b \<longleftrightarrow> code b = code b0 \<and> unat (pc b) = unat (pc b0) + k"

definition trace_inv :: "rg_node \<Rightarrow> (pcb_t \<times> addr) list \<Rightarrow> sim \<Rightarrow> bool" where
  "trace_inv junk ls m \<longleftrightarrow> sm_loaded m \<le> length ls \<and> sm_loads m = drop (sm_loaded m) ls \<and>
     (\<forall>k. in_order junk (fst (ls ! k)) (sm_trace m k)) \<and> (\<forall>k\<ge>sm_loaded m. sm_trace m k = []) \<and>
     inj_on (sm_serial m) (dom (pcbs (sm_sys m))) \<and>
     (\<forall>p b. pcbs (sm_sys m) p = Some b \<longrightarrow> sm_serial m p < sm_loaded m \<and>
        follows (fst (ls ! sm_serial m p)) (length (sm_trace m (sm_serial m p))) b) \<and>
     (\<forall>k < sm_loaded m. k \<notin> sm_serial m ` dom (pcbs (sm_sys m)) \<longrightarrow> length (sm_trace m k) = remaining (fst (ls ! k)))"

lemma trace_invD:
  assumes "trace_inv junk ls m"
  shows "sm_loaded m \<le> length ls" "sm_loads m = drop (sm_loaded m) ls" "in_order junk (fst (ls ! k)) (sm_trace m k)"
    "sm_loaded m \<le> k \<Longrightarrow> sm_trace m k = []" "inj_on (sm_serial m) (dom (pcbs (sm_sys m)))"
    "pcbs (sm_sys m) p = Some b \<Longrightarrow> sm_serial m p < sm_loaded m"
    "pcbs (sm_sys m) p = Some b \<Longrightarrow> follows (fst (ls ! sm_serial m p)) (length (sm_trace m (sm_serial m p))) b"
    "k < sm_loaded m \<Longrightarrow> k \<notin> sm_serial m ` dom (pcbs (sm_sys m)) \<Longrightarrow> length (sm_trace m k) = remaining (fst (ls ! k))"
  using assms by (auto simp: trace_inv_def)

lemma in_order_snoc: "in_order junk b (tr @ [e]) \<longleftrightarrow> in_order junk b tr \<and> did junk b (unat (pc b) + length tr) e"
  by (auto simp: in_order_def nth_append less_Suc_eq)

lemma follows_progress:
  assumes "progress s' x = progress s x" "pcbs s' x = Some b'"
  obtains b where "pcbs s x = Some b" "follows b0 k b' = follows b0 k b"
  using assms by (cases "pcbs s x") (auto simp: progress_def follows_def)

lemma trace_inv_keep:
  assumes t: "trace_inv junk ls m" and e: "ends (sm_sys m) (sm_sys m') gone"
    and m: "sm_loaded m' = sm_loaded m" "sm_loads m' = sm_loads m" "sm_serial m' = sm_serial m" "sm_trace m' = sm_trace m"
  shows "trace_inv junk ls m'"
proof -
  let ?D = "dom (pcbs (sm_sys m))" and ?D' = "dom (pcbs (sm_sys m'))"
  note T = trace_invD [OF t]
  have same: "progress (sm_sys m') x = progress (sm_sys m) x" if "x \<notin> gone" for x using e that by (simp add: ends_def)
  have out: "x \<notin> gone" if "x \<in> ?D'" for x using e that by (auto simp: ends_def)
  have D: "?D' \<subseteq> ?D" using progress_dom [OF same [OF out]] by blast
  have live: "sm_serial m p < sm_loaded m \<and> follows (fst (ls ! sm_serial m p)) (length (sm_trace m (sm_serial m p))) b"
    if b: "pcbs (sm_sys m') p = Some b" for p b
    by (rule follows_progress [OF same [OF out] b]) (use T(6,7) b in auto)
  have "length (sm_trace m k) = remaining (fst (ls ! k))" if k: "k < sm_loaded m" "k \<notin> sm_serial m ` ?D'" for k
  proof (cases "k \<in> sm_serial m ` ?D")
    case True
    then obtain p b where p: "pcbs (sm_sys m) p = Some b" "k = sm_serial m p" by auto
    then have "p \<in> gone" using k(2) progress_dom [OF same, of p] by blast
    then have "at_end (sm_sys m) p" using e by (simp add: ends_def)
    then show ?thesis using T(7) [OF p(1)] p by (auto simp: at_end_def follows_def remaining_def split: option.splits)
  next
    case False
    then show ?thesis using T(8) k(1) by blast
  qed
  with T(1-4) live inj_on_subset [OF T(5) D] show ?thesis unfolding trace_inv_def m by blast
qed

lemma ends_refl: "ends s s {}"
  by (simp add: ends_def)

lemma trace_inv_execute:
  assumes t: "trace_inv junk ls m" and wf: "sched_wf (sy_sched (sm_sys m))" "procs_wf (sm_sys m)" "cpu_proc u \<noteq> NULL"
    and c: "cpu_execute junk ts (sm_sys m) u = Some (u', s')"
  shows "trace_inv junk ls (m\<lparr>sm_sys := s', sm_cpu := f, sm_trace := traced m (cpu_proc u) s'\<rparr>)"
proof -
  let ?s = "sm_sys m" and ?p = "cpu_proc u" and ?k = "sm_serial m (cpu_proc u)"
  note T = trace_invD [OF t] and E = execute_moves [OF wf c]
  obtain b b' where b: "pcbs ?s ?p = Some b" "pcbs s' ?p = Some b'" "code b' = code b"
    "if at_end ?s ?p then pc b' = pc b else unat (pc b') = unat (pc b) + 1 \<and> did junk b (unat (pc b)) (?p, ?s, s')"
    using E(2) by blast
  show ?thesis
  proof (cases "at_end ?s ?p")
    case True
    have "progress s' x = progress ?s x" for x
      using E(3) b True by (cases "x = ?p") (simp_all add: progress_def)
    then have "ends ?s s' {}" by (simp add: ends_def)
    then show ?thesis using True by (intro trace_inv_keep [OF t]) (simp_all add: traced_def)
  next
    case False
    let ?b0 = "fst (ls ! ?k)" and ?tr = "(sm_trace m)(?k := sm_trace m ?k @ [(?p, ?s, s')])"
    have fb: "follows ?b0 (length (sm_trace m ?k)) b" by (rule T(7) [OF b(1)])
    then have "did junk ?b0 (unat (pc ?b0) + length (sm_trace m ?k)) (?p, ?s, s')"
      using b(4) False by (simp add: follows_def did_def)
    then have ord: "in_order junk (fst (ls ! j)) (?tr j)" for j using T(3) by (simp add: in_order_snoc)
    have D: "dom (pcbs s') = dom (pcbs ?s)" using E(1) by (simp add: moves_def)
    have live: "sm_serial m x < sm_loaded m \<and> follows (fst (ls ! sm_serial m x)) (length (?tr (sm_serial m x))) y"
      if y: "pcbs s' x = Some y" for x y
    proof (cases "x = ?p")
      case True
      then show ?thesis using y b False fb T(6) [OF b(1)] by (simp add: follows_def)
    next
      case x: False
      obtain z where z: "pcbs ?s x = Some z" "follows (fst (ls ! sm_serial m x)) (length (sm_trace m (sm_serial m x))) y"
        by (rule follows_progress [OF E(3) [OF x] y]) (use T(7) in blast)
      have "sm_serial m x \<noteq> ?k" using inj_onD [OF T(5), of x ?p] x z(1) b(1) by auto
      then show ?thesis using T(6) z by simp
    qed
    have old: "length (?tr k) = remaining (fst (ls ! k))" if "k < sm_loaded m" "k \<notin> sm_serial m ` dom (pcbs ?s)" for k
      using T(8) [OF that] that(2) b(1) by auto
    have new: "?tr k = []" if "sm_loaded m \<le> k" for k using T(4) [OF that] T(6) [OF b(1)] that by simp
    have tr: "traced m ?p s' = ?tr" using False by (simp add: traced_def)
    show ?thesis unfolding trace_inv_def tr using T(1,2,5) ord live old new by (simp add: D del: fun_upd_apply)
  qed
qed

lemma trace_inv_load:
  assumes t: "trace_inv junk ls m" and l: "sm_loads m = (b, pr) # rest"
    and s': "pcbs s' = (pcbs (sm_sys m))(p \<mapsto> b')" "code b' = code b" "pc b' = pc b" "pcbs (sm_sys m) p = None"
  shows "trace_inv junk ls (m\<lparr>sm_sys := s', sm_loads := rest, sm_loaded := sm_loaded m + 1,
    sm_serial := (sm_serial m)(p := sm_loaded m)\<rparr>)"
proof -
  let ?n = "sm_loaded m" and ?ser = "(sm_serial m)(p := sm_loaded m)" and ?D = "dom (pcbs (sm_sys m))"
  note T = trace_invD [OF t]
  have n: "?n < length ls" using l T(2) by (metis drop_eq_Nil list.distinct(1) not_less)
  then have d: "ls ! ?n = (b, pr)" "rest = drop (Suc ?n) ls" using l T(2) by (simp_all add: Cons_nth_drop_Suc [symmetric])
  have lt: "sm_serial m x < ?n" if "x \<in> ?D" for x using T(6) that by blast
  have p: "p \<notin> ?D" using s'(4) by blast
  then have img: "?ser ` insert p ?D = insert ?n (sm_serial m ` ?D)" by (auto simp: image_iff)
  have inj: "inj_on ?ser (insert p ?D)"
    using T(5) lt p unfolding inj_on_insert by (fastforce simp: inj_on_def image_iff)
  have live: "?ser x < ?n + 1 \<and> follows (fst (ls ! ?ser x)) (length (sm_trace m (?ser x))) y" if "pcbs s' x = Some y" for x y
  proof (cases "x = p")
    case True
    then show ?thesis using that s' d(1) T(4) by (simp add: follows_def)
  next
    case False
    then show ?thesis using that s'(1) T(6,7) [of x y] by simp
  qed
  have dm: "dom (pcbs s') = insert p ?D" using s'(1) by auto
  have "length (sm_trace m k) = remaining (fst (ls ! k))" if "k < ?n + 1" "k \<notin> ?ser ` insert p ?D" for k
    using that T(8) [of k] unfolding img by auto
  then show ?thesis unfolding trace_inv_def using T(3,4) n d(2) live inj by (simp add: dm del: fun_upd_apply image_insert)
qed

lemma sim_step_trace:
  assumes "sim_step junk ts os n m m'" "sim_inv n m" "trace_inv junk ls m"
  shows "trace_inv junk ls m'"
proof -
  let ?s = "sm_sys m"
  have wf: "sched_wf (sy_sched ?s)" "procs_wf ?s" "finite (dom (pcbs ?s))"
    and w: "list_all (\<lambda>(b, _). pcb_wf (b\<lparr>krnl := None\<rparr>)) (sm_loads m)"
    using assms(2) by (auto simp: sim_inv_def Let_def)
  show ?thesis
    using assms(1)
  proof cases
    case (check i u a u' s')
    have "cpu_proc u \<noteq> NULL \<Longrightarrow> cpu_proc u \<in> set (queue_items (running_list (sy_sched ?s)))"
      using sim_invD(1) [OF assms(2) check(2)] check(3) by simp
    from check_moves [OF wf this check(4)] show ?thesis using check(1) by (auto intro: trace_inv_keep [OF assms(3)])
  next
    case (fetch i idle u a u' s')
    have "cpu_proc u = NULL" using sim_invD(2) [OF assms(2) fetch(2)] fetch(3) by simp
    from fetch_moves(3) [OF wf(1,2) this fetch(4)] have "ends ?s s' {}" by (simp add: ends_def progress_def)
    then show ?thesis using fetch(1) by (auto intro: trace_inv_keep [OF assms(3)])
  next
    case (execute i u u' s')
    have "cpu_proc u \<noteq> NULL" using sim_invD(2) [OF assms(2) execute(2)] execute(3) by simp
    from trace_inv_execute [OF assms(3) wf(1,2) this execute(4)] execute(1) show ?thesis by simp
  next
    case (load b pr rest p s')
    have "pcb_wf (b\<lparr>krnl := None\<rparr>)" using w load(2) by simp
    from load_moves(2) [OF wf(1,2) load(3-5) this] obtain b' where
      "pcbs s' = (pcbs ?s)(p \<mapsto> b')" "code b' = code b" "pc b' = pc b" by blast
    from trace_inv_load [OF assms(3) load(2) this load(4)] load(1) show ?thesis by simp
  qed (use trace_inv_keep [OF assms(3), of m' "{}"] ends_refl in simp_all)
qed

lemma sim_steps_inv:
  assumes "(sim_step junk ts os n)\<^sup>*\<^sup>* m m'" "sim_inv n m"
  shows "sim_inv n m' \<and> (trace_inv junk ls m \<longrightarrow> trace_inv junk ls m')"
  using assms by (induction rule: rtranclp_induct) (auto dest: sim_step_inv sim_step_trace)

section \<open>From the start of the program\<close>

lemma init_swaps_frame: "init_swaps d szs s = Some s' \<Longrightarrow> sy_sched s' = sy_sched s \<and> pcbs s' = pcbs s"
  by (induction szs arbitrary: d s) (auto simp: bind_eq_Some_conv init_device_def)

lemma os_init_frame:
  assumes "os_init ram szs (static_sys h dv) = Some (os, s)"
  shows "sy_sched s = boot_sched" "pcbs s = Map.empty"
proof -
  obtain s1 s2 r where s: "init_device 0 ram (static_sys h dv) = Some s1" "init_swaps 1 szs s1 = Some s2"
      "init_kernel_page_table zero_krnl (s2\<lparr>sy_sched := init_scheduler (sy_sched s2)\<rparr>) = (r, os, s)"
  proof -
    obtain s1 s2 where "init_device 0 ram (static_sys h dv) = Some s1" "init_swaps 1 szs s1 = Some s2"
      using assms by (auto simp: os_init_def bind_eq_Some_conv)
    moreover obtain r k t where "init_kernel_page_table zero_krnl (s2\<lparr>sy_sched := init_scheduler (sy_sched s2)\<rparr>) = (r, k, t)"
      by (metis surj_pair)
    ultimately show thesis using that assms by (simp add: os_init_def)
  qed
  have "sy_sched s2 = sy_sched (static_sys h dv)" "pcbs s2 = Map.empty"
    using init_swaps_frame [OF s(2)] s(1) by (auto simp: init_device_def bind_eq_Some_conv static_sys_def)
  then have "init_scheduler (sy_sched s2) = boot_sched" "pcbs s2 = Map.empty" by (simp_all add: static_sys_def boot_sched_def)
  then show "sy_sched s = boot_sched" "pcbs s = Map.empty"
    using s(3) by (auto simp: init_kernel_page_table_def sys_alloc_def halloc_def Let_def split: if_splits option.splits prod.splits)
qed

lemma boot_sim_inv:
  assumes "sy_sched s = boot_sched" "pcbs s = Map.empty" "list_all (\<lambda>(b, _). pcb_wf (b\<lparr>krnl := None\<rparr>)) ls"
  shows "sim_inv n (boot_sim s ls)" "trace_inv junk ls (boot_sim s ls)"
proof -
  have "waiting boot_sched = []" "queue_items (running_list boot_sched) = []"
    by (simp_all add: waiting_def boot_sched_fields new_queue_def queue_items_def)
  then show "sim_inv n (boot_sim s ls)"
    using assms boot_sched_wf by (simp add: sim_inv_def boot_sim_def placed_def own_def procs_wf_def)
  show "trace_inv junk ls (boot_sim s ls)"
    by (simp add: trace_inv_def in_order_def boot_sim_def assms(2))
qed

lemma count_own_sum:
  fixes n :: nat
  shows "p \<noteq> NULL \<Longrightarrow> count (\<Sum>i<n. own (snd (f i))) p = card {i. i < n \<and> cpu_proc (snd (f i)) = p}"
proof (induction n)
  case (Suc n)
  have "{i. i < Suc n \<and> cpu_proc (snd (f i)) = p} =
      (if cpu_proc (snd (f n)) = p then insert n {i. i < n \<and> cpu_proc (snd (f i)) = p} else {i. i < n \<and> cpu_proc (snd (f i)) = p})"
    by (auto simp: less_Suc_eq)
  with Suc show ?case by (simp add: own_def)
qed simp

text \<open>A process of one instruction, loaded into a fresh system.\<close>

definition demo_calc :: pcb_t where
  "demo_calc = demo_pcb\<lparr>code := Some \<lparr>code_text = [\<lparr>opcode = CALC, arg_0 = 0, arg_1 = 0, arg_2 = 0, arg_3 = 0\<rparr>], code_size = 1\<rparr>\<rparr>"

lemma demo_calc_wf: "pcb_wf (demo_calc\<lparr>krnl := None\<rparr>)"
  by (simp add: demo_calc_def demo_pcb_def pcb_wf_def)

lemma demo_loaded:
  obtains os s m1 where "os_init 8192 [12288, 0, 0, 0] (static_sys (\<lambda>_. True) (\<lambda>_. blank_memphy)) = Some (os, s)"
    "sim_step \<lparr>rg_start = 0, rg_end = 0\<rparr> 2 os 2 (boot_sim s [(demo_calc, 100)]) m1"
    "sm_cpu m1 = (\<lambda>_. (Check, \<lparr>cpu_proc = NULL, time_left = 0\<rparr>))" "sm_loaded m1 = 1" "sm_trace m1 = (\<lambda>_. [])"
    "sched_wf (sy_sched (sm_sys m1))" "waiting (sy_sched (sm_sys m1)) \<noteq> []"
proof -
  obtain os s r where o: "os_init 8192 [12288, 0, 0, 0] (static_sys (\<lambda>_. True) (\<lambda>_. blank_memphy)) = Some (os, s)"
    "vm_inv 1 {} s" "krnl_pgd os = Some r" "kroots s r \<noteq> None" "host_ok (sy_host s)"
    using os_start [of "\<lambda>_. True" 8192 "[12288, 0, 0, 0]" "\<lambda>_. blank_memphy"] by (auto simp: host_ok_def)
  note f = os_init_frame [OF o(1)]
  have e: "queue_items (running_list boot_sched) = []" "waiting_at boot_sched 100 = []"
    by (simp_all add: waiting_at_def boot_sched_fields MAX_PRIO_def queue_items_def new_queue_def)
  have q: "queue_wf (running_list boot_sched)" using boot_sched_wf by (simp add: sched_wf_def queues_wf_def)
  have n: "find_proc boot_sched P k = NULL" for P k by (simp add: find_proc_find [OF q] e)
  have k: "(3::nat) \<noteq> NULL" "unat (100 :: addr) < MAX_PRIO" by (simp_all add: NULL_def MAX_PRIO_def)
  have "\<exists>s1. ld_process os 3 demo_calc 100 s = Some s1 \<and> sched_wf (sy_sched s1) \<and> waiting_at (sy_sched s1) 100 = [3]"
    using load_process_ok [OF o(2,5) _ _ k(1) o(3,4), of demo_calc 100] k(2)
    by (auto simp: f e n boot_sched_wf MAX_QUEUE_SIZE_def)
  then obtain s1 where s1: "ld_process os 3 demo_calc 100 s = Some s1" "sched_wf (sy_sched s1)" "waiting_at (sy_sched s1) 100 = [3]" by blast
  have "waiting (sy_sched s1) \<noteq> []"
    using waiting_nil_iff [of "sy_sched s1"] s1(2,3) by (force simp: sched_wf_def MAX_PRIO_def)
  moreover define m1 where "m1 = (boot_sim s [(demo_calc, 100)])\<lparr>sm_sys := s1, sm_loads := [],
      sm_loaded := sm_loaded (boot_sim s [(demo_calc, 100)]) + 1,
      sm_serial := (sm_serial (boot_sim s [(demo_calc, 100)]))(3 := sm_loaded (boot_sim s [(demo_calc, 100)]))\<rparr>"
  moreover have "sim_step \<lparr>rg_start = 0, rg_end = 0\<rparr> 2 os 2 (boot_sim s [(demo_calc, 100)]) m1"
    unfolding m1_def by (rule sim_step.load [OF _ k(1)]) (use f s1(1) in \<open>simp_all add: boot_sim_def\<close>)
  ultimately show thesis using that [OF o(1), of m1] s1(2) by (simp add: boot_sim_def)
qed

text \<open>The process gets to a CPU.\<close>

lemma demo_dispatched:
  obtains os s m p where "os_init 8192 [12288, 0, 0, 0] (static_sys (\<lambda>_. True) (\<lambda>_. blank_memphy)) = Some (os, s)"
    "(sim_step \<lparr>rg_start = 0, rg_end = 0\<rparr> 2 os 2)\<^sup>*\<^sup>* (boot_sim s [(demo_calc, 100)]) m" "p \<noteq> NULL"
    "sm_cpu m 0 = (Execute, \<lparr>cpu_proc = p, time_left = 0\<rparr>)" "sm_loaded m = 1" "sm_trace m = (\<lambda>_. [])"
proof -
  let ?j = "\<lparr>rg_start = 0, rg_end = 0\<rparr>" and ?u = "\<lparr>cpu_proc = NULL, time_left = 0\<rparr>"
  obtain os s m1 where d: "os_init 8192 [12288, 0, 0, 0] (static_sys (\<lambda>_. True) (\<lambda>_. blank_memphy)) = Some (os, s)"
    "sim_step ?j 2 os 2 (boot_sim s [(demo_calc, 100)]) m1" "sm_cpu m1 = (\<lambda>_. (Check, ?u))" "sm_loaded m1 = 1" "sm_trace m1 = (\<lambda>_. [])"
    "sched_wf (sy_sched (sm_sys m1))" "waiting (sy_sched (sm_sys m1)) \<noteq> []" by (rule demo_loaded)
  obtain p s2 where n: "next_proc (sm_sys m1) = (p, s2)" by fastforce
  have p: "p \<noteq> NULL" using next_proc_conserves(3) [OF d(6) n] d(7) by simp
  let ?m2 = "m1\<lparr>sm_sys := sm_sys m1, sm_cpu := (sm_cpu m1)(0 := (Fetch True, ?u))\<rparr>"
  let ?m3 = "?m2\<lparr>sm_sys := s2, sm_cpu := (sm_cpu ?m2)(0 := (Execute, ?u\<lparr>cpu_proc := p\<rparr>))\<rparr>"
  have "sim_step ?j 2 os 2 m1 ?m2" by (rule sim_step.check [where u = ?u]) (simp_all add: d(3) cpu_check_def)
  moreover have "sim_step ?j 2 os 2 ?m2 ?m3"
    by (rule sim_step.fetch [where u = ?u and idle = True]) (simp_all add: cpu_fetch_def n p)
  ultimately have "(sim_step ?j 2 os 2)\<^sup>*\<^sup>* (boot_sim s [(demo_calc, 100)]) ?m3"
    using d(2) by (meson converse_rtranclp_into_rtranclp rtranclp.rtrancl_refl)
  then show thesis by (rule that [OF d(1) _ p]) (simp_all add: d(4,5))
qed

section \<open>Properties of the whole system\<close>

lemma cpu_execute_run:
  "do { (u3, s3) \<leftarrow> cpu_execute junk ts s u; Some (Next_slot u3 s3) } =
   do { (_, s2) \<leftarrow> run junk s (cpu_proc u);
        Some (Next_slot (u\<lparr>time_left := int32 ((if time_left u = 0 then ts else time_left u) - 1)\<rparr>) s2) }"
  by (cases "run junk s (cpu_proc u)") (auto simp: cpu_execute_def)

lemmas turn_defs = cpu_turn_def choose_proc_def cpu_check_def cpu_fetch_def cpu_test_def cpu_execute_run Let_def

text \<open>
  A turn of \<open>cpu_routine\<close> is the sequence of its steps without interleaving, so the two forms of the
  loop in this development agree.
\<close>

lemma cpu_turn_sequence:
  "cpu_turn junk ts fin s u = do {
     (a1, u1, s1) \<leftarrow> cpu_check s u;
     let (a2, u2, s2) = (case a1 of Fetch idle \<Rightarrow> cpu_fetch idle s1 u1 | _ \<Rightarrow> (a1, u1, s1));
     case (if a2 = Test then cpu_test fin else a2) of
       Stop \<Rightarrow> Some (Stopped s2)
     | Execute \<Rightarrow> do { (u3, s3) \<leftarrow> cpu_execute junk ts s2 u2; Some (Next_slot u3 s3) }
     | _ \<Rightarrow> Some (Next_slot u2 s2) }"
proof (cases "cpu_proc u = NULL")
  case True
  obtain p s1 where "next_proc s = (p, s1)" by fastforce
  then show ?thesis using True by (cases "p = NULL") (simp_all add: turn_defs)
next
  case False
  consider "pcbs s (cpu_proc u) = None" | b where "pcbs s (cpu_proc u) = Some b" "code b = None"
    | b cs where "pcbs s (cpu_proc u) = Some b" "code b = Some cs" by fastforce
  then show ?thesis
  proof cases
    case (3 b cs)
    note b = 3
    consider "pc b = code_size cs" | "pc b \<noteq> code_size cs" "time_left u = 0" | "pc b \<noteq> code_size cs" "time_left u \<noteq> 0" by blast
    then show ?thesis
    proof cases
      case 1
      let ?f = "free_pcb_all (cpu_proc u) (s\<lparr>sy_sched := finish_proc (sy_sched s) (cpu_proc u)\<rparr>)"
      obtain p s2 where n: "next_proc (the ?f) = (p, s2)" by fastforce
      show ?thesis using 1 False b n
        by (cases ?f; cases "p = NULL") (simp_all add: turn_defs)
    next
      case 2
      show ?thesis
      proof (cases "put_proc (sy_sched s) (pcbs s) (cpu_proc u)")
        case (Inr q)
        obtain sc P where q: "q = (sc, P)" by fastforce
        obtain p s2 where "next_proc (s\<lparr>sy_sched := sc, pcbs := P\<rparr>) = (p, s2)" by fastforce
        then show ?thesis using 2 False b Inr q
          by (cases "p = NULL") (simp_all add: turn_defs)
      qed (use 2 False b in \<open>simp add: turn_defs\<close>)
    next
      case 3
      then show ?thesis using False b by (simp add: turn_defs)
    qed
  qed (use False in \<open>simp_all add: turn_defs\<close>)
qed

text \<open>
  C2: No process runs on two CPUs, and none is lost. From the start of the program, for any number of CPUs,
  any processes and any interleaving of the threads, a live process is in exactly one place: once in the ready
  queues or on exactly one CPU. A process that has ended is nowhere. The process table has every live process
  once and nothing else, and the scheduler stays well-formed.
\<close>
theorem process_exclusive:
  assumes "os_init ram szs (static_sys h dv) = Some (os, s)" "list_all (\<lambda>(b, _). pcb_wf (b\<lparr>krnl := None\<rparr>)) ls"
    and "(sim_step junk ts os n)\<^sup>*\<^sup>* (boot_sim s ls) m" "p \<noteq> NULL"
  shows "count_list (waiting (sy_sched (sm_sys m))) p + card {i. i < n \<and> cpu_proc (snd (sm_cpu m i)) = p} =
      (if pcbs (sm_sys m) p = None then 0 else 1) \<and>
    mset (queue_items (running_list (sy_sched (sm_sys m)))) = mset_set (dom (pcbs (sm_sys m))) \<and>
    sched_wf (sy_sched (sm_sys m))"
proof -
  let ?D = "dom (pcbs (sm_sys m))"
  have i: "sim_inv n m" using sim_steps_inv [OF assms(3) boot_sim_inv(1)] os_init_frame [OF assms(1)] assms(2) by blast
  then have pl: "placed n m = mset_set ?D" "finite ?D" by (auto simp: sim_inv_def Let_def)
  have "count (placed n m) p = (if pcbs (sm_sys m) p = None then 0 else 1)"
    using pl(2) unfolding pl(1) by (auto simp: domIff)
  then have "count_list (waiting (sy_sched (sm_sys m))) p + card {i. i < n \<and> cpu_proc (snd (sm_cpu m i)) = p} =
      (if pcbs (sm_sys m) p = None then 0 else 1)"
    unfolding placed_def count_union count_own_sum [OF assms(4)] by (simp only: count_mset)
  then show ?thesis using i by (simp add: sim_inv_def Let_def)
qed

theorem process_exclusive_witness:
  "\<exists>os s m p. os_init 8192 [12288, 0, 0, 0] (static_sys (\<lambda>_. True) (\<lambda>_. blank_memphy)) = Some (os, s) \<and>
     (sim_step \<lparr>rg_start = 0, rg_end = 0\<rparr> 2 os 2)\<^sup>*\<^sup>* (boot_sim s [(demo_calc, 100)]) m \<and> p \<noteq> NULL \<and>
     cpu_proc (snd (sm_cpu m 0)) = p \<and> p \<notin> set (waiting (sy_sched (sm_sys m))) \<and> card {i. i < 2 \<and> cpu_proc (snd (sm_cpu m i)) = p} = 1"
proof -
  obtain os s m p where d: "os_init 8192 [12288, 0, 0, 0] (static_sys (\<lambda>_. True) (\<lambda>_. blank_memphy)) = Some (os, s)"
    and r: "(sim_step \<lparr>rg_start = 0, rg_end = 0\<rparr> 2 os 2)\<^sup>*\<^sup>* (boot_sim s [(demo_calc, 100)]) m"
    and p: "p \<noteq> NULL" and a: "sm_cpu m 0 = (Execute, \<lparr>cpu_proc = p, time_left = 0\<rparr>)" by (rule demo_dispatched)
  have "list_all (\<lambda>(b, _). pcb_wf (b\<lparr>krnl := None\<rparr>)) [(demo_calc, 100 :: addr)]" by (simp add: demo_calc_wf)
  note x = process_exclusive [OF d this r p]
  have c: "cpu_proc (snd (sm_cpu m 0)) = p" by (simp add: a)
  let ?I = "{i. i < 2 \<and> cpu_proc (snd (sm_cpu m i)) = p}"
  have "0 \<in> ?I" "finite ?I" using c by simp_all
  then have "card ?I \<noteq> 0" by (metis card_0_eq empty_iff)
  moreover have "count_list (waiting (sy_sched (sm_sys m))) p + card ?I \<le> 1"
    using conjunct1 [OF x] by (simp only:) simp
  ultimately have "card ?I = 1" "count_list (waiting (sy_sched (sm_sys m))) p = 0" by linarith+
  then have "card ?I = 1" "p \<notin> set (waiting (sy_sched (sm_sys m)))" by (simp_all only: count_list_0_iff) simp
  then show ?thesis using d r p c by blast
qed

text \<open>
  C3: Every instruction is executed exactly once and in order. In every execution from the start, what the
  instructions of a program did is, event by event, what the instructions of the loaded program do, from the first on
  and without a gap or a repetition, whatever preemption, requeueing and moves to another CPU there were. The counter
  of a live process has advanced by the number of events of its program, two live processes are never of one program,
  and a program that was loaded and whose process is gone has been executed to its last instruction. The
  programs are loaded in the order of the configuration.
\<close>
theorem instructions_executed_once:
  assumes "os_init ram szs (static_sys h dv) = Some (os, s)" "list_all (\<lambda>(b, _). pcb_wf (b\<lparr>krnl := None\<rparr>)) ls"
    and "(sim_step junk ts os n)\<^sup>*\<^sup>* (boot_sim s ls) m"
  shows "sm_loads m = drop (sm_loaded m) ls \<and>
    (\<forall>k<length ls. \<forall>i<length (sm_trace m k). did junk (fst (ls ! k)) (unat (pc (fst (ls ! k))) + i) (sm_trace m k ! i)) \<and>
    inj_on (sm_serial m) (dom (pcbs (sm_sys m))) \<and>
    (\<forall>p b. pcbs (sm_sys m) p = Some b \<longrightarrow> sm_serial m p < sm_loaded m \<and> code b = code (fst (ls ! sm_serial m p)) \<and>
       unat (pc b) = unat (pc (fst (ls ! sm_serial m p))) + length (sm_trace m (sm_serial m p))) \<and>
    (\<forall>k < sm_loaded m. k \<notin> sm_serial m ` dom (pcbs (sm_sys m)) \<longrightarrow> length (sm_trace m k) = remaining (fst (ls ! k)))"
proof -
  note b = boot_sim_inv [OF os_init_frame [OF assms(1)] assms(2)]
  have "trace_inv junk ls m" using sim_steps_inv [OF assms(3) b(1)] b(2) by blast
  note T = trace_invD [OF this]
  show ?thesis using T(2,3,5,6,7,8) by (auto simp: in_order_def follows_def)
qed

theorem instructions_executed_once_witness:
  "\<exists>os s m. os_init 8192 [12288, 0, 0, 0] (static_sys (\<lambda>_. True) (\<lambda>_. blank_memphy)) = Some (os, s) \<and>
     (sim_step \<lparr>rg_start = 0, rg_end = 0\<rparr> 2 os 2)\<^sup>*\<^sup>* (boot_sim s [(demo_calc, 100)]) m \<and>
     length (sm_trace m 0) = 1 \<and> did \<lparr>rg_start = 0, rg_end = 0\<rparr> demo_calc 0 (sm_trace m 0 ! 0)"
proof -
  let ?j = "\<lparr>rg_start = 0, rg_end = 0\<rparr>" and ?ls = "[(demo_calc, 100 :: addr)]"
  obtain os s m p where d: "os_init 8192 [12288, 0, 0, 0] (static_sys (\<lambda>_. True) (\<lambda>_. blank_memphy)) = Some (os, s)"
    and r: "(sim_step ?j 2 os 2)\<^sup>*\<^sup>* (boot_sim s ?ls) m"
    and p: "p \<noteq> NULL" and a: "sm_cpu m 0 = (Execute, \<lparr>cpu_proc = p, time_left = 0\<rparr>)" "sm_loaded m = 1" "sm_trace m = (\<lambda>_. [])" by (rule demo_dispatched)
  have wf: "list_all (\<lambda>(b, _). pcb_wf (b\<lparr>krnl := None\<rparr>)) ?ls" by (simp add: demo_calc_wf)
  note b = boot_sim_inv [OF os_init_frame [OF d] wf]
  have inv: "sim_inv 2 m" "trace_inv ?j ?ls m" using sim_steps_inv [OF r b(1)] b(2) by blast+
  have "p \<in> set (queue_items (running_list (sy_sched (sm_sys m))))" using sim_invD(1) [OF inv(1), of 0] a(1) p by simp
  moreover have "finite (dom (pcbs (sm_sys m)))" "mset (queue_items (running_list (sy_sched (sm_sys m)))) = mset_set (dom (pcbs (sm_sys m)))"
    using inv(1) by (simp_all add: sim_inv_def Let_def)
  ultimately obtain c where c: "pcbs (sm_sys m) p = Some c" by (metis domD finite_set_mset_mset_set set_mset_mset)
  note T = trace_invD(6,7) [OF inv(2) c]
  have c: "pcbs (sm_sys m) p = Some c" "code c = code demo_calc" "pc c = 0" and z: "sm_serial m p = 0"
    using c T a(2,3) by (auto simp: follows_def demo_calc_def demo_pcb_def unat_eq_0)
  let ?s = "upd_pcb p (\<lambda>b. b\<lparr>pc := pc b + 1\<rparr>) (sm_sys m)" and ?u = "\<lparr>cpu_proc = p, time_left = 0\<rparr>"
  have "cpu_execute ?j 2 (sm_sys m) ?u = Some (?u\<lparr>time_left := 1\<rparr>, ?s)"
    using c by (simp add: cpu_execute_def run_def demo_calc_def Let_def dispatch_inst_def int32_def)
  note x = sim_step.execute [OF _ a(1) this, of 2 os]
  let ?m = "m\<lparr>sm_sys := ?s, sm_cpu := (sm_cpu m)(0 := (Check, ?u\<lparr>time_left := 1\<rparr>)), sm_trace := traced m p ?s\<rparr>"
  have x: "(sim_step ?j 2 os 2)\<^sup>*\<^sup>* (boot_sim s ?ls) ?m" using x r by simp
  have l: "length (sm_trace ?m 0) = 1" using c a(3) z by (simp add: traced_def at_end_def demo_calc_def)
  then have "did ?j demo_calc 0 (sm_trace ?m 0 ! 0)"
    using instructions_executed_once [OF d wf x] by (simp add: demo_calc_def demo_pcb_def)
  then show ?thesis using d x l by blast
qed

end
