(* ===== verification/Scan.thy ===== *)
theory Scan
  imports Os_Types
begin

text \<open>
  Formatted input as the program uses it, from the C standard (7.21.6.2) and POSIX: the
  conversions \<open>%u\<close>, \<open>%lu\<close>, \<open>%d\<close> and \<open>%<n>s\<close> of \<open>fscanf\<close> and \<open>sscanf\<close>, white space
  in a format, and \<open>fgets\<close>. A stream is the list of the characters not yet read. A conversion
  gives \<open>None\<close> when it fails; then the call ends and later arguments are not assigned.
\<close>

section \<open>Characters and numbers\<close>

text \<open>\<open>isspace\<close> in the C locale: tab to carriage return, and space.\<close>

definition is_space :: "char \<Rightarrow> bool" where
  "is_space c \<longleftrightarrow> (let n = of_char c :: nat in 9 \<le> n \<and> n \<le> 13 \<or> n = 32)"

definition is_digit :: "char \<Rightarrow> bool" where
  "is_digit c \<longleftrightarrow> (let n = of_char c :: nat in 48 \<le> n \<and> n \<le> 57)"

definition digit_val :: "char \<Rightarrow> nat" where
  "digit_val c = of_char c - 48"

definition skip_ws :: "string \<Rightarrow> string" where
  "skip_ws = dropWhile is_space"

definition digits_val :: "string \<Rightarrow> nat" where
  "digits_val ds = foldl (\<lambda>v d. 10 * v + digit_val d) 0 ds"

text \<open>
  The text of a number: an optional sign and decimal digits. A sign without digits is consumed
  and the conversion fails.
\<close>

definition scan_number :: "string \<Rightarrow> (bool \<times> nat) option \<times> string" where
  "scan_number xs =
     (let ys = skip_ws xs;
          neg = (ys \<noteq> [] \<and> hd ys = CHR ''-'');
          zs = (if ys \<noteq> [] \<and> (hd ys = CHR ''-'' \<or> hd ys = CHR ''+'') then tl ys else ys);
          ds = takeWhile is_digit zs
      in (if ds = [] then None else Some (neg, digits_val ds), dropWhile is_digit zs))"

text \<open>The conversion of \<open>strtoul\<close>: too large a value gives \<open>ULONG_MAX\<close>, a minus sign negates.\<close>

definition scan_ulong :: "string \<Rightarrow> 64 word option \<times> string" where
  "scan_ulong xs =
     (case scan_number xs of (None, r) \<Rightarrow> (None, r)
      | (Some (neg, n), r) \<Rightarrow> (Some (if n \<ge> 2 ^ 64 then -1 else if neg then - of_nat n else of_nat n), r))"

text \<open>\<open>%u\<close> stores the lower half of the result of \<open>strtoul\<close>.\<close>

definition scan_uint :: "string \<Rightarrow> uint32 option \<times> string" where
  "scan_uint xs = (case scan_ulong xs of (v, r) \<Rightarrow> (map_option ucast v, r))"

text \<open>\<open>%d\<close> stores the lower half of the result of \<open>strtol\<close>, which is clamped to 64 bits.\<close>

definition scan_int :: "string \<Rightarrow> int option \<times> string" where
  "scan_int xs =
     (case scan_number xs of (None, r) \<Rightarrow> (None, r)
      | (Some (neg, n), r) \<Rightarrow>
          (Some (int32 (if neg then max (- (2 ^ 63)) (- int n) else min (2 ^ 63 - 1) (int n))), r))"

definition scan_word :: "nat \<Rightarrow> string \<Rightarrow> string option \<times> string" where
  "scan_word width xs =
     (let ys = skip_ws xs; w = take width (takeWhile (\<lambda>c. \<not> is_space c) ys)
      in (if w = [] then None else Some w, drop (length w) ys))"

text \<open>\<open>fgets\<close> with a buffer of \<open>n\<close> characters: up to a newline, which is kept.\<close>

definition fgets :: "nat \<Rightarrow> string \<Rightarrow> string option \<times> string" where
  "fgets n xs =
     (let line = (let l = takeWhile (\<lambda>c. c \<noteq> CHR 10) xs in if length l < length xs then l @ [CHR 10] else l);
          got = take (n - 1) line
      in (if xs = [] then None else Some got, drop (length got) xs))"

text \<open>
  A call with several conversions of one kind: the values assigned, up to the first that fails.
\<close>

primrec scan_list :: "(string \<Rightarrow> 'a option \<times> string) \<Rightarrow> nat \<Rightarrow> string \<Rightarrow> 'a list \<times> string" where
  "scan_list scan 0 xs = ([], xs)"
| "scan_list scan (Suc n) xs =
     (case scan xs of (None, r) \<Rightarrow> ([], r)
      | (Some v, r) \<Rightarrow> (case scan_list scan n r of (vs, r') \<Rightarrow> (v # vs, r')))"

section \<open>Printing numbers\<close>

fun show_nat :: "nat \<Rightarrow> string" where
  "show_nat n = (if n < 10 then [char_of (48 + n)] else show_nat (n div 10) @ [char_of (48 + n mod 10)])"

declare show_nat.simps [simp del]

lemma char_digit [simp]:
  assumes "n < 10"
  shows "is_digit (char_of (48 + n))" "digit_val (char_of (48 + n)) = n"
  using assms by (simp_all add: is_digit_def digit_val_def of_char_of)

lemma digits_val_snoc: "digits_val (ds @ [d]) = 10 * digits_val ds + digit_val d"
  by (simp add: digits_val_def)

lemma show_nat_digits: "\<forall>c \<in> set (show_nat n). is_digit c"
  by (induction n rule: show_nat.induct) (subst show_nat.simps, auto)

lemma show_nat_not_Nil [simp]: "show_nat n \<noteq> []"
  by (subst show_nat.simps) simp

lemma digits_val_show: "digits_val (show_nat n) = n"
proof (induction n rule: show_nat.induct)
  case (1 n)
  then show ?case by (subst show_nat.simps) (simp add: digits_val_snoc, simp add: digits_val_def)
qed

lemma show_nat_length: "n < 10 ^ Suc k \<Longrightarrow> length (show_nat n) \<le> Suc k"
proof (induction k arbitrary: n)
  case 0
  then show ?case by (subst show_nat.simps) simp
next
  case (Suc k)
  then have "n div 10 < 10 ^ Suc k" by simp
  with Suc.IH [of "n div 10"] show ?case by (subst show_nat.simps) simp
qed

lemma unat_less64: "unat (v :: 64 word) < 2 ^ 64"
  by (rule order.strict_trans2 [OF unsigned_less]) simp

lemma unat_less32: "unat (v :: 32 word) < 2 ^ 32"
  by (rule order.strict_trans2 [OF unsigned_less]) simp

lemma digit_not_space: "is_digit c \<Longrightarrow> \<not> is_space c"
  by (auto simp: is_digit_def is_space_def Let_def)

lemma digit_not_sign: "is_digit c \<Longrightarrow> c \<noteq> CHR ''-'' \<and> c \<noteq> CHR ''+''"
  by (auto simp: is_digit_def)

section \<open>Reading what was printed\<close>

lemma skip_ws_spaces: "\<forall>c \<in> set ws. is_space c \<Longrightarrow> skip_ws (ws @ xs) = skip_ws xs"
  by (simp add: skip_ws_def dropWhile_append2)

lemma skip_ws_here: "xs = [] \<or> \<not> is_space (hd xs) \<Longrightarrow> skip_ws xs = xs"
  by (cases xs) (auto simp: skip_ws_def)

text \<open>A stream at which a number cannot go on.\<close>

definition stops :: "string \<Rightarrow> bool" where
  "stops xs \<longleftrightarrow> xs = [] \<or> is_space (hd xs)"

lemma scan_number_show:
  assumes "\<forall>c \<in> set ws. is_space c" "stops xs"
  shows "scan_number (ws @ show_nat n @ xs) = (Some (False, n), xs)"
proof -
  obtain d ds where d: "show_nat n = d # ds" by (cases "show_nat n") simp_all
  have dg: "is_digit d" using show_nat_digits [of n] by (simp add: d)
  have s: "skip_ws (ws @ show_nat n @ xs) = show_nat n @ xs"
    using digit_not_space [OF dg] by (simp add: skip_ws_spaces [OF assms(1)] skip_ws_here d)
  have x: "takeWhile is_digit xs = []" "dropWhile is_digit xs = xs"
    using assms(2) digit_not_space by (cases xs; auto simp: stops_def)+
  have "takeWhile is_digit (show_nat n @ xs) = show_nat n" "dropWhile is_digit (show_nat n @ xs) = xs"
    using show_nat_digits [of n] x by (simp_all add: takeWhile_append2 dropWhile_append2)
  then show ?thesis
    using digit_not_sign [OF dg] by (simp add: scan_number_def s Let_def digits_val_show) (simp add: d)
qed

lemma scan_ulong_show:
  "\<forall>c \<in> set ws. is_space c \<Longrightarrow> stops xs \<Longrightarrow> scan_ulong (ws @ show_nat (unat v) @ xs) = (Some v, xs)"
  using unat_less64 [of v] by (simp add: scan_ulong_def scan_number_show)

lemma scan_uint_show:
  fixes v :: uint32
  assumes "\<forall>c \<in> set ws. is_space c" "stops xs"
  shows "scan_uint (ws @ show_nat (unat v) @ xs) = (Some v, xs)"
proof -
  have "unat (ucast v :: 64 word) = unat v" using unat_less32 [of v] by (simp add: unsigned_ucast_eq take_bit_nat_eq_self)
  moreover have "ucast (ucast v :: 64 word) = v" by (rule bit_word_eqI) (simp add: bit_simps)
  ultimately show ?thesis using scan_ulong_show [OF assms, of "ucast v"] by (simp add: scan_uint_def)
qed

lemma scan_word_show:
  assumes "\<forall>c \<in> set ws. is_space c" "\<forall>c \<in> set w. \<not> is_space c" "w \<noteq> []" "length w \<le> n" "stops xs"
  shows "scan_word n (ws @ w @ xs) = (Some w, xs)"
proof -
  have s: "skip_ws (ws @ w @ xs) = w @ xs"
    using assms(2,3) by (cases w) (simp_all add: skip_ws_spaces [OF assms(1)] skip_ws_here)
  have "takeWhile (\<lambda>c. \<not> is_space c) (w @ xs) = w"
    using assms(2,5) by (cases xs) (simp_all add: takeWhile_append2 stops_def)
  moreover have "n \<noteq> 0" using assms(3,4) by (cases w) simp_all
  ultimately show ?thesis using assms(3,4) by (simp add: scan_word_def s Let_def)
qed

lemma fgets_line:
  assumes "\<forall>c \<in> set l. c \<noteq> CHR 10" "length l + 1 < n"
  shows "fgets n (l @ CHR 10 # xs) = (Some (l @ [CHR 10]), xs)"
proof -
  have "takeWhile (\<lambda>c. c \<noteq> CHR 10) (l @ CHR 10 # xs) = l" using assms(1) by (simp add: takeWhile_append2)
  then show ?thesis using assms(2) by (simp add: fgets_def Let_def)
qed

section \<open>The contract of a number format\<close>

text \<open>
  A printer and a conversion that reads back what it prints, after white space and up to white
  space. Every format of this kind reads back lists.
\<close>

definition print_fields :: "('a \<Rightarrow> string) \<Rightarrow> 'a list \<Rightarrow> string" where
  "print_fields pr vs = concat (map (\<lambda>v. '' '' @ pr v) vs)"

lemma print_fields_simps [simp]: "print_fields pr [] = []" "print_fields pr (v # vs) = CHR '' '' # pr v @ print_fields pr vs"
  by (simp_all add: print_fields_def)

lemma stops_fields: "stops xs \<Longrightarrow> stops (print_fields pr vs @ xs)"
  by (cases vs) (simp_all add: stops_def is_space_def)

locale number_format =
  fixes pr :: "'a \<Rightarrow> string" and scan :: "string \<Rightarrow> 'a option \<times> string" and fits :: "'a \<Rightarrow> bool"
  assumes scan_pr: "fits v \<Longrightarrow> \<forall>c \<in> set ws. is_space c \<Longrightarrow> stops xs \<Longrightarrow> scan (ws @ pr v @ xs) = (Some v, xs)"
begin

lemma scan_first: "fits v \<Longrightarrow> stops xs \<Longrightarrow> scan (pr v @ xs) = (Some v, xs)"
  using scan_pr [of v "[]" xs] by simp

lemma scan_next: "fits v \<Longrightarrow> stops xs \<Longrightarrow> scan (CHR '' '' # pr v @ xs) = (Some v, xs)"
  using scan_pr [of v "'' ''" xs] by (simp add: is_space_def)

lemma scan_fields: "list_all fits vs \<Longrightarrow> stops xs \<Longrightarrow> scan_list scan (length vs) (print_fields pr vs @ xs) = (vs, xs)"
  by (induction vs) (simp_all add: scan_next stops_fields)

lemma scan_row:
  "list_all fits (v # vs) \<Longrightarrow> stops xs \<Longrightarrow> scan_list scan (Suc (length vs)) (pr v @ print_fields pr vs @ xs) = (v # vs, xs)"
  by (simp add: scan_first stops_fields scan_fields)

end

lemma scan_int_show:
  assumes "\<forall>c \<in> set ws. is_space c" "stops xs" "n < 2 ^ 31"
  shows "scan_int (ws @ show_nat n @ xs) = (Some (int n), xs)"
  using assms by (simp add: scan_int_def scan_number_show int32_id min_def)

interpretation ulong: number_format "\<lambda>v. show_nat (unat v)" scan_ulong "\<lambda>_. True"
  by unfold_locales (rule scan_ulong_show)

interpretation uint: number_format "\<lambda>v. show_nat (unat v)" scan_uint "\<lambda>_. True"
  by unfold_locales (rule scan_uint_show)

interpretation cint: number_format "\<lambda>i. show_nat (nat i)" scan_int "\<lambda>i. 0 \<le> i \<and> i < 2 ^ 31"
proof unfold_locales
  fix v :: int and ws xs :: string
  assume "0 \<le> v \<and> v < 2 ^ 31" "\<forall>c \<in> set ws. is_space c" "stops xs"
  then show "scan_int (ws @ show_nat (nat v) @ xs) = (Some v, xs)"
    using scan_int_show [of ws xs "nat v"] by (simp add: nat_less_iff)
qed

text \<open>A line of addresses.\<close>

definition print_args :: "addr list \<Rightarrow> string" where
  "print_args = print_fields (\<lambda>v. show_nat (unat v))"

lemma print_args_simps [simp]: "print_args [] = []" "print_args (v # vs) = CHR '' '' # show_nat (unat v) @ print_args vs"
  by (simp_all add: print_args_def)

lemma stops_args: "stops xs \<Longrightarrow> stops (print_args vs @ xs)"
  unfolding print_args_def by (rule stops_fields)

lemma scan_print_args: "stops xs \<Longrightarrow> scan_list scan_ulong (length vs) (print_args vs @ xs) = (vs, xs)"
  unfolding print_args_def by (rule ulong.scan_fields) (simp_all add: list_all_iff)

lemma print_args_line: "\<forall>c \<in> set (print_args vs). c \<noteq> CHR 10"
  using show_nat_digits by (induction vs) (fastforce simp: is_digit_def)+

lemma print_args_length: "length (print_args vs) \<le> 21 * length vs"
proof (induction vs)
  case (Cons v vs)
  have "unat v < 10 ^ Suc 19" using unat_less64 [of v] by simp
  from show_nat_length [OF this] Cons show ?case by simp
qed simp

lemma skip_ws_idem [simp]: "skip_ws (skip_ws xs) = skip_ws xs"
  unfolding skip_ws_def by (rule dropWhile_idem)

lemma scan_word_skip: "scan_word n (skip_ws xs) = scan_word n xs"
  by (simp add: scan_word_def)

lemma scan_ulong_skip: "scan_ulong (skip_ws xs) = scan_ulong xs"
  by (simp add: scan_ulong_def scan_number_def)

lemma fgets_end: "fgets n [] = (None, [])"
  by (simp add: fgets_def)

end
