(* ===== verification/Config.thy ===== *)
theory Config
  imports Scan Os
begin

text \<open>
  The configuration of the simulator, \<open>read_config\<close> of src/os.c, on the content of the file. A
  configuration has a line with the time slot, the number of CPUs and the number of processes, an
  optional line with the sizes of the RAM and of the four swap devices, and one line per process:
  start time, name and priority. Allocations of the host succeed.
\<close>

section \<open>Data and errors\<close>

record ld_args =
  ld_path :: string
  start_time :: addr
  ld_prio :: addr

record config =
  cf_time_slot :: int
  cf_num_cpus :: int
  cf_num_processes :: int
  memramsz :: addr
  memswpsz :: "addr list"
  ld_processes :: "ld_args list"

text \<open>
  The ways in which \<open>read_config\<close> does not return: the file is missing, the line of a process or its
  priority is not valid (\<open>exit\<close>), or the path of a process does not fit in its buffer of 100
  characters, which \<open>strcat\<close> then overruns. The code has no test for the last case: \<open>Path_overrun\<close>
  marks the write behind the buffer, after which the behaviour is undefined.
\<close>

datatype config_error = Missing_file | Bad_line nat | Bad_priority nat | Path_overrun nat

section \<open>Reading\<close>

text \<open>The conversions \<open>%d %d %d\<close>: the variables are static, so they are 0 before.\<close>

definition read_header :: "string \<Rightarrow> int list \<times> string" where
  "read_header xs =
     (case scan_list scan_int 3 xs of (vs, r) \<Rightarrow>
        (vs @ replicate (3 - length vs) 0, if length vs = 3 then skip_ws r else r))"

text \<open>
  The sizes of the memories: a line of (at least) five numbers. Any other line is kept as the line of
  the first process, and the sizes have their defaults.
\<close>

definition read_memcfg :: "string \<Rightarrow> addr \<times> addr list \<times> string option \<times> string" where
  "read_memcfg xs =
     (let dram = 0x100000000; dswp = 0x1000000 # replicate (PAGING_MAX_MMSWP - 1) 0
      in case fgets 256 xs of (None, r) \<Rightarrow> (dram, dswp, None, r)
         | (Some line, r) \<Rightarrow>
             let memcfg = fst (scan_list scan_ulong (PAGING_MAX_MMSWP + 1) line)
             in if length memcfg = PAGING_MAX_MMSWP + 1 then (hd memcfg, tl memcfg, None, r)
                else (dram, dswp, Some line, r))"

definition scan_entry :: "string \<Rightarrow> (addr \<times> string \<times> addr) option \<times> string" where
  "scan_entry xs =
     (case scan_ulong xs of (None, r) \<Rightarrow> (None, r)
      | (Some t, r) \<Rightarrow>
         (case scan_word 99 r of (None, r') \<Rightarrow> (None, r')
          | (Some w, r') \<Rightarrow>
             (case scan_ulong r' of (None, r'') \<Rightarrow> (None, r'')
              | (Some p, r'') \<Rightarrow> (Some (t, w, p), r''))))"

definition proc_dir :: string where
  "proc_dir = ''input/proc/''"

text \<open>
  The loop over the processes, from process \<open>i\<close>; \<open>first\<close> is the kept line. The format for the file
  ends in white space, which is skipped when all three values were read.
\<close>

primrec read_entries :: "nat \<Rightarrow> nat \<Rightarrow> string option \<Rightarrow> string \<Rightarrow> config_error + ld_args list" where
  "read_entries 0 i first file = Inr []"
| "read_entries (Suc n) i first file =
     (let (e, rest) = (if first \<noteq> None \<and> i = 0 then (fst (scan_entry (the first)), file)
                       else case scan_entry file of (e, r) \<Rightarrow> (e, if e = None then r else skip_ws r))
      in case e of None \<Rightarrow> Inl (Bad_line (i + 1))
         | Some (t, w, p) \<Rightarrow>
             if validate_mlq_priority p = None then Inl (Bad_priority (i + 1))
             else if 100 \<le> length proc_dir + length w then Inl (Path_overrun (i + 1))
             else (case read_entries n (i + 1) first rest of Inl err \<Rightarrow> Inl err
                   | Inr es \<Rightarrow> Inr (\<lparr>ld_path = proc_dir @ w, start_time = t, ld_prio = p\<rparr> # es)))"

definition read_config :: "string option \<Rightarrow> config_error + config" where
  "read_config file =
     (case file of None \<Rightarrow> Inl Missing_file
      | Some xs \<Rightarrow>
          let (hs, r) = read_header xs;
              (ram, swp, first, r') = read_memcfg r
          in case read_entries (nat (hs ! 2)) 0 first r' of Inl err \<Rightarrow> Inl err
             | Inr es \<Rightarrow> Inr \<lparr>cf_time_slot = hs ! 0, cf_num_cpus = hs ! 1, cf_num_processes = hs ! 2,
                             memramsz = ram, memswpsz = swp, ld_processes = es\<rparr>)"

section \<open>What an accepted configuration guarantees\<close>

definition entry_ok :: "ld_args \<Rightarrow> bool" where
  "entry_ok e \<longleftrightarrow> unat (ld_prio e) < MAX_PRIO \<and>
     (\<exists>w. ld_path e = proc_dir @ w \<and> w \<noteq> [] \<and> (\<forall>c \<in> set w. \<not> is_space c) \<and> length (ld_path e) < 100)"

lemma priority_accepted: "validate_mlq_priority p \<noteq> None \<longleftrightarrow> unat p < MAX_PRIO"
  by (simp add: validate_mlq_priority_def c_defs uint_nat del: of_nat_unat)

lemma scan_word_Some: "scan_word n xs = (Some w, r) \<Longrightarrow> w \<noteq> [] \<and> (\<forall>c \<in> set w. \<not> is_space c)"
  by (auto simp: scan_word_def Let_def split: if_splits dest!: in_set_takeD set_takeWhileD)

lemma scan_entry_word: "fst (scan_entry xs) = Some (t, w, p) \<Longrightarrow> w \<noteq> [] \<and> (\<forall>c \<in> set w. \<not> is_space c)"
  using scan_word_Some by (auto simp: scan_entry_def split: prod.splits option.splits)

lemma read_entries_sound:
  "read_entries n i first xs = Inr es \<Longrightarrow> length es = n \<and> (\<forall>e \<in> set es. entry_ok e)"
proof (induction n arbitrary: i xs es)
  case (Suc n)
  let ?e = "if first \<noteq> None \<and> i = 0 then fst (scan_entry (the first)) else fst (scan_entry xs)"
  obtain t w p where e: "?e = Some (t, w, p)"
    using Suc.prems by (auto simp: Let_def split: if_splits prod.splits option.splits)
  obtain rest es' where r: "read_entries n (i + 1) first rest = Inr es'" "es = \<lparr>ld_path = proc_dir @ w, start_time = t, ld_prio = p\<rparr> # es'"
    "validate_mlq_priority p \<noteq> None" "length proc_dir + length w < 100"
    using Suc.prems e by (auto simp: Let_def split: if_splits prod.splits sum.splits)
  moreover have "w \<noteq> [] \<and> (\<forall>c \<in> set w. \<not> is_space c)" using e scan_entry_word by (metis (full_types))
  ultimately show ?case using Suc.IH [OF r(1)] priority_accepted by (simp add: entry_ok_def)
qed simp

section \<open>Printing a configuration\<close>

definition print_entry :: "ld_args \<Rightarrow> string" where
  "print_entry e = show_nat (unat (start_time e)) @ '' '' @ drop (length proc_dir) (ld_path e) @ '' '' @
     show_nat (unat (ld_prio e)) @ [CHR 10]"

definition print_numbers :: "addr list \<Rightarrow> string" where
  "print_numbers vs = tl (print_args vs) @ [CHR 10]"

definition print_config :: "bool \<Rightarrow> config \<Rightarrow> string" where
  "print_config mem c = show_nat (nat (cf_time_slot c)) @ '' '' @ show_nat (nat (cf_num_cpus c)) @ '' '' @
     show_nat (length (ld_processes c)) @ [CHR 10] @
     (if mem then print_numbers (memramsz c # memswpsz c) else []) @ concat (map print_entry (ld_processes c))"

text \<open>
  A configuration that can be written down: the numbers fit, the entries are acceptable, and
  where the line of the memory sizes is left out, the sizes are the defaults and the name of the
  first process cannot be taken for a number.
\<close>

definition config_ok :: "bool \<Rightarrow> config \<Rightarrow> bool" where
  "config_ok mem c \<longleftrightarrow> 0 \<le> cf_time_slot c \<and> cf_time_slot c < 2 ^ 31 \<and> 0 \<le> cf_num_cpus c \<and> cf_num_cpus c < 2 ^ 31 \<and>
     cf_num_processes c = int (length (ld_processes c)) \<and> length (ld_processes c) < 2 ^ 31 \<and>
     length (memswpsz c) = PAGING_MAX_MMSWP \<and> list_all entry_ok (ld_processes c) \<and>
     (mem \<or> memramsz c = 0x100000000 \<and> memswpsz c = [0x1000000, 0, 0, 0] \<and>
       (ld_processes c = [] \<or> (let x = ld_path (hd (ld_processes c)) ! length proc_dir
          in \<not> is_digit x \<and> x \<noteq> CHR ''+'' \<and> x \<noteq> CHR ''-'')))"

section \<open>Reading what was printed\<close>

lemma scan_entry_print:
  assumes "entry_ok e"
  shows "scan_entry (print_entry e @ xs) =
    (Some (start_time e, drop (length proc_dir) (ld_path e), ld_prio e), CHR 10 # xs)"
proof -
  obtain w where w: "ld_path e = proc_dir @ w" "w \<noteq> []" "\<forall>c \<in> set w. \<not> is_space c" "length w \<le> 99"
    using assms by (auto simp: entry_ok_def)
  have sp: "stops (CHR '' '' # ys)" "stops (CHR 10 # ys)" "\<forall>c \<in> set '' ''. is_space c" for ys
    by (simp_all add: stops_def is_space_def)
  have "scan_ulong ([] @ show_nat (unat (start_time e)) @ CHR '' '' # ys) = (Some (start_time e), CHR '' '' # ys)" for ys
    using sp(1) by (intro scan_ulong_show) simp_all
  moreover have "scan_word 99 ('' '' @ w @ CHR '' '' # ys) = (Some w, CHR '' '' # ys)" for ys
    using w sp by (intro scan_word_show) simp_all
  moreover have "scan_ulong ('' '' @ show_nat (unat (ld_prio e)) @ CHR 10 # xs) = (Some (ld_prio e), CHR 10 # xs)"
    using sp by (intro scan_ulong_show) simp_all
  ultimately show ?thesis by (simp add: scan_entry_def print_entry_def w(1))
qed

lemma scan_entry_skip: "scan_entry (skip_ws xs) = scan_entry xs"
  by (simp add: scan_entry_def scan_ulong_skip)

text \<open>One step of the loop, from the file or from the kept line.\<close>

lemma read_entries_step:
  assumes "entry_ok e" "fst (if first \<noteq> None \<and> i = 0 then scan_entry (the first) else scan_entry xs) =
      Some (start_time e, drop (length proc_dir) (ld_path e), ld_prio e)"
    and "read_entries n (i + 1) first
      (if first \<noteq> None \<and> i = 0 then xs else skip_ws (snd (scan_entry xs))) = Inr es"
  shows "read_entries (Suc n) i first xs = Inr (e # es)"
proof -
  obtain w where "ld_path e = proc_dir @ w" "length proc_dir + length w < 100" "validate_mlq_priority (ld_prio e) \<noteq> None"
    using assms(1) priority_accepted by (auto simp: entry_ok_def)
  moreover from this(1) have "\<lparr>ld_path = proc_dir @ w, start_time = start_time e, ld_prio = ld_prio e\<rparr> = e" by (cases e) simp
  ultimately show ?thesis using assms(2,3) by (cases "scan_entry xs") (auto split: if_splits)
qed

lemma read_entries_print:
  assumes "\<forall>e \<in> set es. entry_ok e" "skip_ws xs = skip_ws (concat (map print_entry es))" "first = None \<or> i \<noteq> 0"
  shows "read_entries (length es) i first xs = Inr es"
  using assms
proof (induction es arbitrary: i xs)
  case (Cons e es)
  have "scan_entry xs = scan_entry (print_entry e @ concat (map print_entry es))"
    using Cons.prems(2) scan_entry_skip by (metis concat.simps(2) list.simps(9))
  then have s: "scan_entry xs = (Some (start_time e, drop (length proc_dir) (ld_path e), ld_prio e),
      CHR 10 # concat (map print_entry es))"
    using scan_entry_print Cons.prems(1) by simp
  have "read_entries (length es) (i + 1) first (skip_ws (CHR 10 # concat (map print_entry es))) = Inr es"
    using Cons.prems by (intro Cons.IH) (simp_all add: skip_ws_def is_space_def)
  moreover have nf: "\<not> (first \<noteq> None \<and> i = 0)" using Cons.prems(3) by auto
  ultimately have "read_entries (Suc (length es)) i first xs = Inr (e # es)"
    using Cons.prems(1) by (intro read_entries_step) (simp_all only: nf if_False s fst_conv snd_conv, simp)
  then show ?case by (simp only: list.size add_0_right add_Suc_right)
qed simp

text \<open>The first line.\<close>

lemma read_header_print:
  assumes "a < 2 ^ 31" "b < 2 ^ 31" "n < 2 ^ 31"
  shows "read_header (show_nat a @ '' '' @ show_nat b @ '' '' @ show_nat n @ CHR 10 # xs) =
    ([int a, int b, int n], skip_ws xs)"
proof -
  have "stops (CHR 10 # xs)" "skip_ws (CHR 10 # xs) = skip_ws xs" by (simp_all add: stops_def is_space_def skip_ws_def)
  with cint.scan_row [of "int a" "[int b, int n]" "CHR 10 # xs"] assms show ?thesis
    by (simp add: read_header_def numeral_3_eq_3 del: scan_list.simps)
qed

lemma show_nat_skip: "skip_ws (show_nat n @ xs) = show_nat n @ xs"
  using show_nat_digits [of n] digit_not_space by (intro skip_ws_here) (cases "show_nat n"; auto)

lemma show_nat_len64: "length (show_nat (unat (v :: addr))) \<le> 20"
proof -
  have "unat v < 10 ^ Suc 19" using unat_less64 [of v] by simp
  from show_nat_length [OF this] show ?thesis by simp
qed

lemma show_nat_no_newline: "\<forall>c \<in> set (show_nat n). c \<noteq> CHR 10"
  using show_nat_digits [of n] by (fastforce simp: is_digit_def)

text \<open>The line of the memory sizes is recognised,\<close>

lemma read_memcfg_sizes:
  assumes "length sw = PAGING_MAX_MMSWP"
  shows "read_memcfg (skip_ws (print_numbers (ram # sw) @ xs)) = (ram, sw, None, xs)"
proof -
  let ?l = "show_nat (unat ram) @ print_args sw"
  have "fgets 256 (?l @ CHR 10 # xs) = (Some (?l @ [CHR 10]), xs)"
    using print_args_line [of sw] print_args_length [of sw] show_nat_no_newline [of "unat ram"] show_nat_len64 [of ram] assms
    by (intro fgets_line) (auto simp: c_defs)
  moreover have "scan_ulong (?l @ [CHR 10]) = (Some ram, print_args sw @ [CHR 10])"
    using scan_ulong_show [of "[]" "print_args sw @ [CHR 10]" ram] stops_args [of "[CHR 10]" sw] by (simp add: stops_def is_space_def)
  moreover have "scan_list scan_ulong (length sw) (print_args sw @ [CHR 10]) = (sw, [CHR 10])"
    by (rule scan_print_args) (simp add: stops_def is_space_def)
  moreover have "skip_ws (print_numbers (ram # sw) @ xs) = ?l @ CHR 10 # xs"
    by (simp add: print_numbers_def show_nat_skip)
  ultimately show ?thesis using assms by (simp add: read_memcfg_def Let_def)
qed

text \<open>and the line of the first process is not taken for it.\<close>

lemma scan_no_number:
  assumes "\<not> is_space x" "\<not> is_digit x" "x \<noteq> CHR ''+''" "x \<noteq> CHR ''-''"
  shows "fst (scan_ulong (CHR '' '' # x # xs)) = None"
  using assms by (simp add: scan_ulong_def scan_number_def skip_ws_def is_space_def)

lemma read_memcfg_entry:
  assumes "entry_ok e" "\<not> is_digit x" "x \<noteq> CHR ''+''" "x \<noteq> CHR ''-''" "x = ld_path e ! length proc_dir"
  shows "read_memcfg (skip_ws (print_entry e @ xs)) = (0x100000000, [0x1000000, 0, 0, 0], Some (print_entry e), xs)"
proof -
  obtain w where w: "ld_path e = proc_dir @ x # w" "\<not> is_space x" "\<forall>c \<in> set w. \<not> is_space c" "length w \<le> 99"
    using assms(1,5) by (auto simp: entry_ok_def neq_Nil_conv)
  let ?r = "CHR '' '' # x # w @ '' '' @ show_nat (unat (ld_prio e))"
  let ?l = "show_nat (unat (start_time e)) @ ?r"
  have pe: "print_entry e = ?l @ [CHR 10]" by (simp add: print_entry_def w(1))
  have "\<forall>c \<in> set ?l. c \<noteq> CHR 10"
    using w(2,3) show_nat_no_newline by (auto simp: is_space_def Let_def)
  then have "fgets 256 (?l @ CHR 10 # xs) = (Some (?l @ [CHR 10]), xs)"
    using w(4) show_nat_len64 [of "start_time e"] show_nat_len64 [of "ld_prio e"] by (intro fgets_line) simp_all
  moreover have "scan_ulong ([] @ show_nat (unat (start_time e)) @ ?r @ [CHR 10]) = (Some (start_time e), ?r @ [CHR 10])"
    by (rule scan_ulong_show) (simp_all add: stops_def is_space_def)
  moreover have "\<exists>r. scan_ulong (?r @ [CHR 10]) = (None, r)"
    using scan_no_number [OF w(2) assms(2-4), of "(w @ '' '' @ show_nat (unat (ld_prio e))) @ [CHR 10]"]
    by (metis append_Cons append_assoc fst_conv surj_pair)
  moreover have "skip_ws (print_entry e @ xs) = ?l @ CHR 10 # xs"
    by (simp add: pe show_nat_skip)
  ultimately show ?thesis
    by (auto simp: read_memcfg_def Let_def pe c_defs numeral_2_eq_2 numeral_3_eq_3 eval_nat_numeral)
qed

lemma read_config_body:
  assumes "config_ok mem c"
    and "read_memcfg (skip_ws xs) = (memramsz c, memswpsz c, first, r)"
    and "read_entries (length (ld_processes c)) 0 first r = Inr (ld_processes c)"
  shows "read_config (Some (show_nat (nat (cf_time_slot c)) @ '' '' @ show_nat (nat (cf_num_cpus c)) @ '' '' @
     show_nat (length (ld_processes c)) @ CHR 10 # xs)) = Inr c"
proof -
  have "nat (cf_time_slot c) < 2 ^ 31" "nat (cf_num_cpus c) < 2 ^ 31" "length (ld_processes c) < 2 ^ 31"
    and h: "0 \<le> cf_time_slot c" "0 \<le> cf_num_cpus c" "cf_num_processes c = int (length (ld_processes c))"
    using assms(1) by (auto simp: config_ok_def)
  from read_header_print [OF this(1-3)] show ?thesis
    unfolding read_config_def using assms(2,3) h by (simp only: option.case Let_def prod.case) simp
qed

lemma read_printed_config:
  assumes "config_ok mem c"
  shows "read_config (Some (print_config mem c)) = Inr c"
proof -
  let ?ps = "ld_processes c" and ?body = "concat (map print_entry (ld_processes c))"
  have ok: "\<forall>e \<in> set ?ps. entry_ok e" using assms by (simp add: config_ok_def list_all_iff)
  consider "mem" | "\<not> mem" "?ps = []" | e es where "\<not> mem" "?ps = e # es" by (cases ?ps) auto
  then show ?thesis
  proof cases
    case 1
    have "read_memcfg (skip_ws (print_numbers (memramsz c # memswpsz c) @ ?body)) = (memramsz c, memswpsz c, None, ?body)"
      using assms by (intro read_memcfg_sizes) (simp add: config_ok_def)
    from read_config_body [OF assms this] read_entries_print [OF ok] show ?thesis by (simp add: print_config_def 1)
  next
    case 2
    have "read_memcfg (skip_ws []) = (memramsz c, memswpsz c, None, [])"
      using assms 2 by (simp add: config_ok_def read_memcfg_def skip_ws_def fgets_end c_defs numeral_3_eq_3)
    from read_config_body [OF assms this] show ?thesis using 2 by (simp add: print_config_def)
  next
    case 3
    have e: "entry_ok e" using ok 3 by simp
    have "read_memcfg (skip_ws (print_entry e @ concat (map print_entry es))) =
        (memramsz c, memswpsz c, Some (print_entry e), concat (map print_entry es))"
      using read_memcfg_entry [OF e] assms 3 by (simp add: config_ok_def Let_def)
    note body = read_config_body [OF assms this]
    have "read_entries (length es) (0 + 1) (Some (print_entry e)) (concat (map print_entry es)) = Inr es"
      using ok 3 by (intro read_entries_print) simp_all
    then have "read_entries (Suc (length es)) 0 (Some (print_entry e)) (concat (map print_entry es)) = Inr (e # es)"
      using scan_entry_print [OF e, of "[]"] e by (intro read_entries_step) simp_all
    with body show ?thesis by (simp add: print_config_def 3)
  qed
qed

lemma small_config_ok:
  "config_ok False \<lparr>cf_time_slot = 2, cf_num_cpus = 1, cf_num_processes = 1, memramsz = 0x100000000,
     memswpsz = [0x1000000, 0, 0, 0], ld_processes = [\<lparr>ld_path = ''input/proc/p0s'', start_time = 0, ld_prio = 3\<rparr>]\<rparr>"
proof -
  have "entry_ok \<lparr>ld_path = ''input/proc/p0s'', start_time = 0, ld_prio = 3\<rparr>"
    by (simp add: entry_ok_def c_defs proc_dir_def is_space_def)
  then show ?thesis by (simp add: config_ok_def c_defs proc_dir_def is_digit_def)
qed

lemma small_config_text:
  "print_config False \<lparr>cf_time_slot = 2, cf_num_cpus = 1, cf_num_processes = 1, memramsz = 0x100000000,
     memswpsz = [0x1000000, 0, 0, 0], ld_processes = [\<lparr>ld_path = ''input/proc/p0s'', start_time = 0, ld_prio = 3\<rparr>]\<rparr> =
   ''2 1 1'' @ [CHR 10] @ ''0 p0s 3'' @ [CHR 10]"
  by code_simp

lemma small_config:
  "read_config (Some (''2 1 1'' @ [CHR 10] @ ''0 p0s 3'' @ [CHR 10])) =
    Inr \<lparr>cf_time_slot = 2, cf_num_cpus = 1, cf_num_processes = 1, memramsz = 0x100000000, memswpsz = [0x1000000, 0, 0, 0],
         ld_processes = [\<lparr>ld_path = ''input/proc/p0s'', start_time = 0, ld_prio = 3\<rparr>]\<rparr>"
  using read_printed_config [OF small_config_ok] by (simp add: small_config_text)

section \<open>Properties of the configuration\<close>

text \<open>
  C22: Reading a configuration is the inverse of writing it, in both forms the code accepts. With
  the line of the memory sizes, every value written is read back. Without it the defaults are used,
  and the line of the first process, which was already consumed while looking for the sizes, is not
  lost: all processes are read, in order, with their paths, start times and priorities.
\<close>
theorem read_config_print:
  assumes "config_ok mem c"
  shows "read_config (Some (print_config mem c)) = Inr c"
  using assms by (rule read_printed_config)

theorem read_config_print_witness:
  "read_config (Some (''2 1 1'' @ [CHR 10] @ ''0 p0s 3'' @ [CHR 10])) =
    Inr \<lparr>cf_time_slot = 2, cf_num_cpus = 1, cf_num_processes = 1, memramsz = 0x100000000, memswpsz = [0x1000000, 0, 0, 0],
         ld_processes = [\<lparr>ld_path = ''input/proc/p0s'', start_time = 0, ld_prio = 3\<rparr>]\<rparr>"
  using read_config_print [OF small_config_ok] by (simp add: small_config_text)

text \<open>
  C33: What \<open>read_config\<close> promises to the loader thread. If it returns, there is one entry per
  announced process (none for a negative number), every priority has a queue in the scheduler, so
  that the test in \<open>ld_routine\<close> never ends the program, and every path is \<open>input/proc/\<close>
  followed by a non-empty word without white space. That the word may be too long for the buffer
  of the path is a fault of the code, stated below.
\<close>
theorem read_config_accepts:
  assumes "read_config f = Inr c"
  shows "int (length (ld_processes c)) = max 0 (cf_num_processes c) \<and>
    (\<forall>e \<in> set (ld_processes c). validate_mlq_priority (ld_prio e) = Some () \<and> unat (ld_prio e) < MAX_PRIO \<and>
       (\<exists>w. ld_path e = proc_dir @ w \<and> w \<noteq> [] \<and> (\<forall>x \<in> set w. \<not> is_space x)))"
proof -
  obtain xs where f: "f = Some xs" using assms by (cases f) (simp_all add: read_config_def)
  obtain hs r ram swp first r' where h: "read_header xs = (hs, r)" "read_memcfg r = (ram, swp, first, r')"
    by (metis prod_cases4 surj_pair)
  then obtain es where es: "read_entries (nat (hs ! 2)) 0 first r' = Inr es" "cf_num_processes c = hs ! 2" "ld_processes c = es"
    using assms by (auto simp: read_config_def f split: sum.splits)
  from read_entries_sound [OF es(1)] have "length es = nat (hs ! 2)" "\<And>e. e \<in> set es \<Longrightarrow> entry_ok e" by auto
  moreover have "validate_mlq_priority (ld_prio e) = Some () \<and> unat (ld_prio e) < MAX_PRIO \<and>
      (\<exists>w. ld_path e = proc_dir @ w \<and> w \<noteq> [] \<and> (\<forall>x \<in> set w. \<not> is_space x))" if "entry_ok e" for e
    using that priority_accepted [of "ld_prio e"] unfolding entry_ok_def by auto
  ultimately show ?thesis using es(2,3) by simp
qed

theorem read_config_accepts_witness:
  "\<exists>c. read_config (Some (''2 1 1'' @ [CHR 10] @ ''0 p0s 3'' @ [CHR 10])) = Inr c \<and> length (ld_processes c) = 1 \<and>
     (\<forall>e \<in> set (ld_processes c). unat (ld_prio e) < MAX_PRIO)"
  using small_config read_config_accepts [OF small_config] by auto

text \<open>
  C39: The buffer of a path is too small for the names the format admits: a name of 89 to 99
  characters passes \<open>%99s\<close>, but with \<open>input/proc/\<close> in front and the final null character it
  does not fit in the 100 characters that were allocated, and \<open>strcat\<close> writes behind them.
\<close>
theorem read_config_path_overrun:
  fixes p :: addr
  assumes "89 \<le> length w" "length w \<le> 99" "\<forall>c \<in> set w. \<not> is_space c" "unat p < MAX_PRIO" "n < 2 ^ 31" "0 < n"
    and "length sw = PAGING_MAX_MMSWP"
  shows "read_config (Some (''2 1 '' @ show_nat n @ [CHR 10] @ print_numbers (ram # sw) @
    ''0 '' @ w @ '' '' @ show_nat (unat p) @ [CHR 10] @ rest)) = Inl (Path_overrun 1)"
proof -
  let ?e = "\<lparr>ld_path = proc_dir @ w, start_time = 0, ld_prio = p\<rparr>" and ?sp = "\<lambda>ys. CHR '' '' # ys"
  let ?body = "''0 '' @ w @ '' '' @ show_nat (unat p) @ [CHR 10] @ rest"
  have d: "show_nat 2 = ''2''" "show_nat (Suc 0) = ''1''" "show_nat 0 = ''0''" by code_simp+
  have s: "stops (?sp ys)" "stops (CHR 10 # ys)" "\<forall>c \<in> set '' ''. is_space c" for ys
    by (simp_all add: stops_def is_space_def)
  have 1: "read_header (''2 1 '' @ show_nat n @ [CHR 10] @ xs) = ([2, 1, int n], skip_ws xs)" for xs
    using read_header_print [of 2 1 n xs] assms(5) by (simp add: d)
  have 2: "read_memcfg (skip_ws (print_numbers (ram # sw) @ xs)) = (ram, sw, None, xs)" for xs
    by (rule read_memcfg_sizes [OF assms(7)])
  have "scan_ulong ([] @ show_nat (unat (0 :: addr)) @ ?sp ys) = (Some 0, ?sp ys)" for ys
    by (rule scan_ulong_show) (simp_all add: s)
  moreover have "scan_word 99 ('' '' @ w @ ?sp ys) = (Some w, ?sp ys)" for ys
    using assms(1-3) s by (intro scan_word_show) auto
  moreover have "scan_ulong ('' '' @ show_nat (unat p) @ CHR 10 # rest) = (Some p, CHR 10 # rest)"
    using s by (intro scan_ulong_show) simp_all
  ultimately have 3: "scan_entry ?body = (Some (0, w, p), CHR 10 # rest)"
    by (simp add: scan_entry_def d)
  obtain k where "n = Suc k" using assms(6) by (cases n) simp_all
  moreover have "validate_mlq_priority p \<noteq> None" using assms(4) priority_accepted by blast
  ultimately have "read_entries n 0 None ?body = Inl (Path_overrun 1)"
    using assms(1) by (simp add: 3 proc_dir_def del: append.simps append_Cons)
  then show ?thesis using 1 [of "print_numbers (ram # sw) @ ?body"] 2 [of ?body]
    by (simp only: read_config_def option.case Let_def prod.case) simp
qed

theorem read_config_path_overrun_witness:
  "read_config (Some (''2 1 1'' @ [CHR 10] @ print_numbers [1048576, 65536, 0, 0, 0] @
    ''0 '' @ replicate 90 (CHR ''p'') @ '' 5'' @ [CHR 10])) = Inl (Path_overrun 1)"
proof -
  have "show_nat 1 = ''1''" "show_nat (unat (5 :: addr)) = ''5''" by code_simp+
  then show ?thesis
    using read_config_path_overrun [of "replicate 90 (CHR ''p'')" 5 1 "[65536, 0, 0, 0]" 1048576 "[]"]
    by (simp add: is_space_def c_defs)
qed

end
