(* ===== verification/Loader.thy ===== *)
theory Loader
  imports Scan Cpu
begin

text \<open>
  The loader of process descriptions, src/loader.c. A description has a priority, a number of
  instructions and one instruction per line. \<open>load\<close> works on the content of the file; the path is
  kept only for display. A conversion that fails leaves its argument as it was: the fields of a
  fresh PCB and code segment are what \<open>malloc\<close> returned, and the two buffers keep their last
  content. These are parameters of the model.
\<close>

section \<open>Opcodes\<close>

definition get_opcode :: "string \<Rightarrow> ins_opcode_t option" where
  "get_opcode opt =
     (if opt = ''calc'' then Some CALC
      else if opt = ''alloc'' then Some ALLOC
      else if opt = ''free'' then Some FREE
      else if opt = ''read'' then Some READ
      else if opt = ''write'' then Some WRITE
      else if opt = ''kmalloc'' then Some KMALLOC
      else if opt = ''kmem_cache_create'' then Some KMEM_CACHE_CREATE
      else if opt = ''kmem_cache_alloc'' then Some KMEM_CACHE_ALLOC
      else if opt = ''copy_from_user'' then Some COPY_FROM_USER
      else if opt = ''copy_to_user'' then Some COPY_TO_USER
      else if opt = ''syscall'' then Some SYSCALL
      else None)"

section \<open>Instructions\<close>

text \<open>How many arguments an instruction has, and the assignment of those that were read.\<close>

definition arity :: "ins_opcode_t \<Rightarrow> nat" where
  "arity op = (case op of CALC \<Rightarrow> 0 | FREE \<Rightarrow> 1 | ALLOC \<Rightarrow> 2 | KMALLOC \<Rightarrow> 2 | KMEM_CACHE_ALLOC \<Rightarrow> 2
     | KMEM_CACHE_CREATE \<Rightarrow> 3 | READ \<Rightarrow> 3 | WRITE \<Rightarrow> 3 | COPY_FROM_USER \<Rightarrow> 4 | COPY_TO_USER \<Rightarrow> 4 | SYSCALL \<Rightarrow> 4)"

definition assign_args :: "addr list \<Rightarrow> inst_t \<Rightarrow> inst_t" where
  "assign_args vs i =
     (let i0 = (if 0 < length vs then i\<lparr>arg_0 := vs ! 0\<rparr> else i);
          i1 = (if 1 < length vs then i0\<lparr>arg_1 := vs ! 1\<rparr> else i0);
          i2 = (if 2 < length vs then i1\<lparr>arg_2 := vs ! 2\<rparr> else i1)
      in if 3 < length vs then i2\<lparr>arg_3 := vs ! 3\<rparr> else i2)"

text \<open>
  The state of the loop: the stream and the buffers \<open>opcode\<close> and \<open>buf\<close>. The formats of up to three
  arguments end in white space; it is skipped only when every argument was read. The instructions
  with four arguments are read by line.
\<close>

record ld_state =
  ld_file :: string
  ld_opcode :: string
  ld_buf :: string

definition read_args :: "ins_opcode_t \<Rightarrow> ld_state \<Rightarrow> addr list \<times> ld_state" where
  "read_args op l =
     (if arity op = 0 then ([], l)
      else if arity op < 4 then
        (case scan_list scan_ulong (arity op) (ld_file l) of (vs, r) \<Rightarrow>
           (vs, l\<lparr>ld_file := if length vs = arity op then skip_ws r else r\<rparr>))
      else
        (case fgets 200 (ld_file l) of (line, r) \<Rightarrow>
           let b = (case line of None \<Rightarrow> ld_buf l | Some x \<Rightarrow> x)
           in (fst (scan_list scan_ulong 4 b), l\<lparr>ld_file := r, ld_buf := b\<rparr>)))"

definition load_inst :: "inst_t \<Rightarrow> ld_state \<Rightarrow> (inst_t \<times> ld_state) option" where
  "load_inst junk l = do {
     let (w, r) = scan_word 31 (ld_file l);
     let opt = (case w of None \<Rightarrow> ld_opcode l | Some x \<Rightarrow> x);
     op \<leftarrow> get_opcode opt;
     let (vs, l') = read_args op (l\<lparr>ld_file := r, ld_opcode := opt\<rparr>);
     Some (assign_args vs (junk\<lparr>opcode := op\<rparr>), l') }"

primrec load_insts :: "nat \<Rightarrow> inst_t \<Rightarrow> ld_state \<Rightarrow> inst_t list option" where
  "load_insts 0 junk l = Some []"
| "load_insts (Suc n) junk l = do {
     (i, l') \<leftarrow> load_inst junk l;
     is \<leftarrow> load_insts n junk l';
     Some (i # is) }"

text \<open>
  \<open>load\<close>: the counter \<open>avail_pid\<close> is a static variable; \<open>junk\<close> is the fresh PCB with its code
  segment, \<open>jinst\<close> a fresh instruction. \<open>None\<close> stands for \<open>exit(1)\<close>: the file is missing or has
  an unknown opcode.
\<close>

definition load :: "uint32 \<Rightarrow> pcb_t \<Rightarrow> uint32 \<Rightarrow> inst_t \<Rightarrow> string \<times> string \<Rightarrow> string option \<Rightarrow> (pcb_t \<times> uint32) option" where
  "load avail_pid junk jsize jinst bufs file = do {
     xs \<leftarrow> file;
     let (p, r1) = scan_uint xs;
     let (n, r2) = (case p of None \<Rightarrow> (None, r1) | Some _ \<Rightarrow> scan_uint r1);
     let pr = (case p of None \<Rightarrow> priority junk | Some v \<Rightarrow> v);
     let sz = (case n of None \<Rightarrow> jsize | Some v \<Rightarrow> v);
     is \<leftarrow> load_insts (unat sz) jinst \<lparr>ld_file = r2, ld_opcode = fst bufs, ld_buf = snd bufs\<rparr>;
     Some (junk\<lparr>pid := avail_pid, bp := 1024, pc := 0, priority := pr,
                code := Some \<lparr>code_text = is, code_size = sz\<rparr>\<rparr>, avail_pid + 1) }"

section \<open>Printing a description\<close>

definition opcode_name :: "ins_opcode_t \<Rightarrow> string" where
  "opcode_name op = (case op of CALC \<Rightarrow> ''calc'' | ALLOC \<Rightarrow> ''alloc'' | FREE \<Rightarrow> ''free'' | READ \<Rightarrow> ''read''
     | WRITE \<Rightarrow> ''write'' | KMALLOC \<Rightarrow> ''kmalloc'' | KMEM_CACHE_CREATE \<Rightarrow> ''kmem_cache_create''
     | KMEM_CACHE_ALLOC \<Rightarrow> ''kmem_cache_alloc'' | COPY_FROM_USER \<Rightarrow> ''copy_from_user''
     | COPY_TO_USER \<Rightarrow> ''copy_to_user'' | SYSCALL \<Rightarrow> ''syscall'')"

definition args_of :: "inst_t \<Rightarrow> addr list" where
  "args_of i = (case opcode i of CALC \<Rightarrow> []
     | FREE \<Rightarrow> [arg_0 i]
     | ALLOC \<Rightarrow> [arg_0 i, arg_1 i] | KMALLOC \<Rightarrow> [arg_0 i, arg_1 i] | KMEM_CACHE_ALLOC \<Rightarrow> [arg_0 i, arg_1 i]
     | KMEM_CACHE_CREATE \<Rightarrow> [arg_0 i, arg_1 i, arg_2 i] | READ \<Rightarrow> [arg_0 i, arg_1 i, arg_2 i] | WRITE \<Rightarrow> [arg_0 i, arg_1 i, arg_2 i]
     | COPY_FROM_USER \<Rightarrow> [arg_0 i, arg_1 i, arg_2 i, arg_3 i] | COPY_TO_USER \<Rightarrow> [arg_0 i, arg_1 i, arg_2 i, arg_3 i]
     | SYSCALL \<Rightarrow> [arg_0 i, arg_1 i, arg_2 i, arg_3 i])"

definition print_inst :: "inst_t \<Rightarrow> string" where
  "print_inst i = opcode_name (opcode i) @ print_args (args_of i) @ [CHR 10]"

definition print_program :: "uint32 \<Rightarrow> inst_t list \<Rightarrow> string" where
  "print_program pr is = show_nat (unat pr) @ '' '' @ show_nat (length is) @ [CHR 10] @ concat (map print_inst is)"

text \<open>The instruction with the arguments that are not in the description left as they were.\<close>

definition with_junk :: "inst_t \<Rightarrow> inst_t \<Rightarrow> inst_t" where
  "with_junk junk i = (let n = length (args_of i) in
     \<lparr>opcode = opcode i, arg_0 = if 0 < n then arg_0 i else arg_0 junk, arg_1 = if 1 < n then arg_1 i else arg_1 junk,
      arg_2 = if 2 < n then arg_2 i else arg_2 junk, arg_3 = if 3 < n then arg_3 i else arg_3 junk\<rparr>)"

section \<open>Reading what was printed\<close>

lemma opcode_name_props:
  "get_opcode (opcode_name op) = Some op" "opcode_name op \<noteq> []" "length (opcode_name op) \<le> 31"
  "\<forall>c \<in> set (opcode_name op). \<not> is_space c"
  by (cases op; simp add: opcode_name_def get_opcode_def is_space_def)+

lemma args_length: "length (args_of i) = arity (opcode i)"
  by (cases "opcode i") (simp_all add: args_of_def arity_def)

lemma assign_args_print: "assign_args (args_of i) (junk\<lparr>opcode := opcode i\<rparr>) = with_junk junk i"
  by (cases i; cases junk) (simp add: assign_args_def with_junk_def args_of_def split: ins_opcode_t.splits)

lemma read_args_print:
  assumes "length vs = arity op"
  shows "\<exists>l'. read_args op (l\<lparr>ld_file := print_args vs @ CHR 10 # xs\<rparr>) = (vs, l') \<and>
    (ld_file l' = skip_ws xs \<or> ld_file l' = CHR 10 # xs \<or> ld_file l' = xs)"
proof -
  have nl: "stops (CHR 10 # xs)" "skip_ws (CHR 10 # xs) = skip_ws xs" by (simp_all add: stops_def is_space_def skip_ws_def)
  have s: "scan_list scan_ulong (arity op) (print_args vs @ CHR 10 # ys) = (vs, CHR 10 # ys)" for ys
    using scan_print_args [of "CHR 10 # ys" vs] assms by (simp add: stops_def is_space_def)
  consider "arity op = 0" | "0 < arity op" "arity op < 4" | "arity op = 4" by (cases op) (simp_all add: arity_def)
  then show ?thesis
  proof cases
    case 1 then show ?thesis using assms by (simp add: read_args_def)
  next
    case 2 then show ?thesis using s nl assms by (simp add: read_args_def)
  next
    case 3
    have "length (print_args vs) + 1 < 200" using print_args_length [of vs] assms 3 by simp
    from fgets_line [OF print_args_line this] have "fgets 200 (print_args vs @ CHR 10 # xs) = (Some (print_args vs @ [CHR 10]), xs)" .
    then show ?thesis using s [of "[]"] 3 by (simp add: read_args_def)
  qed
qed

lemma load_inst_print:
  assumes "skip_ws (ld_file l) = skip_ws (print_inst i @ xs)"
  shows "\<exists>l'. load_inst junk l = Some (with_junk junk i, l') \<and> skip_ws (ld_file l') = skip_ws xs"
proof -
  let ?op = "opcode i" and ?r = "print_args (args_of i) @ CHR 10 # xs"
  let ?l = "l\<lparr>ld_file := ?r, ld_opcode := opcode_name ?op\<rparr>"
  have nl: "stops (CHR 10 # xs)" "skip_ws (CHR 10 # xs) = skip_ws xs" by (simp_all add: stops_def is_space_def skip_ws_def)
  have "scan_word 31 (ld_file l) = scan_word 31 ([] @ opcode_name ?op @ ?r)"
    using assms scan_word_skip by (metis print_inst_def append_assoc append_Nil append_Cons)
  also have "\<dots> = (Some (opcode_name ?op), ?r)"
    using opcode_name_props [of ?op] stops_args [OF nl(1)] by (intro scan_word_show) simp_all
  finally have w: "scan_word 31 (ld_file l) = (Some (opcode_name ?op), ?r)" .
  obtain l' where l': "read_args ?op (l\<lparr>ld_opcode := opcode_name ?op, ld_file := ?r\<rparr>) = (args_of i, l')"
    and f: "ld_file l' = skip_ws xs \<or> ld_file l' = CHR 10 # xs \<or> ld_file l' = xs"
    using read_args_print [OF args_length] by blast
  moreover have "l\<lparr>ld_opcode := opcode_name ?op, ld_file := ?r\<rparr> = ?l" by simp
  ultimately have "read_args ?op ?l = (args_of i, l')" by (simp only:)
  then have "load_inst junk l = Some (with_junk junk i, l')"
    by (simp add: load_inst_def w opcode_name_props assign_args_print)
  with f nl show ?thesis by auto
qed

lemma load_insts_print:
  assumes "skip_ws (ld_file l) = skip_ws (concat (map print_inst is) @ xs)"
  shows "load_insts (length is) junk l = Some (map (with_junk junk) is)"
  using assms
proof (induction "is" arbitrary: l)
  case (Cons i "is")
  then obtain l' where "load_inst junk l = Some (with_junk junk i, l')"
      "skip_ws (ld_file l') = skip_ws (concat (map print_inst is) @ xs)"
    using load_inst_print [of l i "concat (map print_inst is) @ xs"] by auto
  with Cons.IH show ?case by simp
qed simp

lemma load_inst_unknown:
  assumes "skip_ws (ld_file l) = skip_ws (w @ rest)"
    and "w \<noteq> []" "length w \<le> 31" "\<forall>c \<in> set w. \<not> is_space c" "get_opcode w = None" "stops rest"
  shows "load_inst junk l = None"
proof -
  have "scan_word 31 (ld_file l) = scan_word 31 ([] @ w @ rest)"
    using assms(1) scan_word_skip by (metis append_Nil)
  also have "\<dots> = (Some w, rest)" using assms by (intro scan_word_show) simp_all
  finally show ?thesis using assms(5) by (simp add: load_inst_def)
qed

lemma load_insts_unknown:
  assumes "skip_ws (ld_file l) = skip_ws (concat (map print_inst is) @ w @ rest)" "length is < n"
    and "w \<noteq> []" "length w \<le> 31" "\<forall>c \<in> set w. \<not> is_space c" "get_opcode w = None" "stops rest"
  shows "load_insts n junk l = None"
  using assms(1,2)
proof (induction "is" arbitrary: l n)
  case Nil
  then have "load_inst junk l = None" using assms(3-) load_inst_unknown by simp
  then show ?case using Nil by (cases n) simp_all
next
  case (Cons i "is")
  then obtain l' where "load_inst junk l = Some (with_junk junk i, l')"
      "skip_ws (ld_file l') = skip_ws (concat (map print_inst is) @ w @ rest)"
    using load_inst_print [of l i "concat (map print_inst is) @ w @ rest" junk] by auto
  then show ?case using Cons.IH [of l'] Cons.prems(2) by (cases n) simp_all
qed

section \<open>Properties of the loader\<close>

text \<open>
  C21: Loading is the inverse of printing. For every priority and every program of fewer than
  \<open>2 ^ 32\<close> instructions, of all eleven kinds, the loader reads back from the printed description
  exactly that priority, that number of instructions and, instruction by instruction, the opcode
  and the arguments the opcode has; the new process starts at instruction 0 with the next process
  number, and the counter moves on. It does not depend on what the buffers held before.
\<close>
theorem load_print_program:
  assumes "length is < 2 ^ 32"
  shows "load avail_pid junk jsize jinst bufs (Some (print_program pr is)) =
    Some (junk\<lparr>pid := avail_pid, bp := 1024, pc := 0, priority := pr,
               code := Some \<lparr>code_text = map (with_junk jinst) is, code_size = of_nat (length is)\<rparr>\<rparr>,
          avail_pid + 1)"
proof -
  let ?sz = "of_nat (length is) :: uint32" and ?body = "CHR 10 # concat (map print_inst is)"
  have u: "unat ?sz = length is" using assms by (simp add: unat_of_nat take_bit_nat_eq_self)
  have st: "stops (CHR '' '' # ys)" "stops ?body" for ys by (simp_all add: stops_def is_space_def)
  have 1: "scan_uint (print_program pr is) = (Some pr, '' '' @ show_nat (length is) @ ?body)"
    using scan_uint_show [of "[]" "'' '' @ show_nat (length is) @ ?body" pr] st(1) by (simp add: print_program_def)
  have 2: "scan_uint ('' '' @ show_nat (length is) @ ?body) = (Some ?sz, ?body)"
    using scan_uint_show [of "'' ''" ?body ?sz] st(2) u by (simp add: is_space_def)
  have 3: "load_insts (length is) jinst \<lparr>ld_file = ?body, ld_opcode = fst bufs, ld_buf = snd bufs\<rparr>
      = Some (map (with_junk jinst) is)"
    by (rule load_insts_print [where xs = "[]"]) (simp add: skip_ws_def is_space_def)
  show ?thesis using 1 2 3 u by (simp add: load_def)
qed

theorem load_print_program_witness:
  "\<forall>junk jinst bufs. load 1 junk 0 jinst bufs
      (Some (''5 3'' @ [CHR 10] @ ''calc'' @ [CHR 10] @ ''alloc 300 4'' @ [CHR 10] @ ''syscall 17 1 20 3'' @ [CHR 10])) =
    Some (junk\<lparr>pid := 1, bp := 1024, pc := 0, priority := 5,
               code := Some \<lparr>code_text = [jinst\<lparr>opcode := CALC\<rparr>, jinst\<lparr>opcode := ALLOC, arg_0 := 300, arg_1 := 4\<rparr>,
                   jinst\<lparr>opcode := SYSCALL, arg_0 := 17, arg_1 := 1, arg_2 := 20, arg_3 := 3\<rparr>],
                 code_size = 3\<rparr>\<rparr>, 2)"
proof (intro allI)
  fix junk :: pcb_t and jinst :: inst_t and bufs
  let ?is = "[\<lparr>opcode = CALC, arg_0 = 0, arg_1 = 0, arg_2 = 0, arg_3 = 0\<rparr>,
    \<lparr>opcode = ALLOC, arg_0 = 300, arg_1 = 4, arg_2 = 0, arg_3 = 0\<rparr>,
    \<lparr>opcode = SYSCALL, arg_0 = 17, arg_1 = 1, arg_2 = 20, arg_3 = 3\<rparr>]"
  have "print_program 5 ?is =
      ''5 3'' @ [CHR 10] @ ''calc'' @ [CHR 10] @ ''alloc 300 4'' @ [CHR 10] @ ''syscall 17 1 20 3'' @ [CHR 10]"
    by code_simp
  moreover have "length ?is < 2 ^ 32" by simp
  note load_print_program [OF this, of 1 junk 0 jinst bufs 5]
  ultimately show "load 1 junk 0 jinst bufs
      (Some (''5 3'' @ [CHR 10] @ ''calc'' @ [CHR 10] @ ''alloc 300 4'' @ [CHR 10] @ ''syscall 17 1 20 3'' @ [CHR 10])) =
    Some (junk\<lparr>pid := 1, bp := 1024, pc := 0, priority := 5,
               code := Some \<lparr>code_text = [jinst\<lparr>opcode := CALC\<rparr>, jinst\<lparr>opcode := ALLOC, arg_0 := 300, arg_1 := 4\<rparr>,
                   jinst\<lparr>opcode := SYSCALL, arg_0 := 17, arg_1 := 1, arg_2 := 20, arg_3 := 3\<rparr>],
                 code_size = 3\<rparr>\<rparr>, 2)"
    by (simp add: with_junk_def args_of_def)
qed

text \<open>
  An unknown opcode stops the loader, wherever it stands: when the instructions before it are
  well formed, the word after them is not an opcode and the size announces it, \<open>load\<close> ends the
  program with \<open>exit(1)\<close> instead of returning a process.
\<close>
theorem load_unknown_opcode:
  fixes pr :: uint32
  assumes "length is < n" "n < 2 ^ 32"
    and w: "w \<noteq> []" "length w \<le> 31" "\<forall>c \<in> set w. \<not> is_space c" "get_opcode w = None" and st: "stops rest"
  shows "load avail_pid junk jsize jinst bufs
    (Some (show_nat (unat pr) @ '' '' @ show_nat n @ [CHR 10] @ concat (map print_inst is) @ w @ rest)) = None"
proof -
  let ?sz = "of_nat n :: uint32" and ?body = "CHR 10 # concat (map print_inst is) @ w @ rest"
  have u: "unat ?sz = n" using assms(2) by (simp add: unat_of_nat take_bit_nat_eq_self)
  have s: "stops (CHR '' '' # ys)" "stops ?body" for ys by (simp_all add: stops_def is_space_def)
  have 1: "scan_uint (show_nat (unat pr) @ CHR '' '' # show_nat n @ ?body) = (Some pr, '' '' @ show_nat n @ ?body)"
    using scan_uint_show [of "[]" "'' '' @ show_nat n @ ?body" pr] s(1) by simp
  have 2: "scan_uint ('' '' @ show_nat n @ ?body) = (Some ?sz, ?body)"
    using scan_uint_show [of "'' ''" ?body ?sz] s(2) u by (simp add: is_space_def)
  have 3: "load_insts n jinst \<lparr>ld_file = ?body, ld_opcode = fst bufs, ld_buf = snd bufs\<rparr> = None"
    by (rule load_insts_unknown [OF _ assms(1) w st]) (simp add: skip_ws_def is_space_def)
  show ?thesis using 1 2 3 u by (simp add: load_def)
qed

theorem load_unknown_opcode_witness:
  "\<forall>junk jinst bufs. load 1 junk 0 jinst bufs (Some (''5 2'' @ [CHR 10] @ ''calc'' @ [CHR 10] @ ''halt'' @ [CHR 10])) = None"
proof (intro allI)
  fix junk :: pcb_t and jinst bufs
  have "print_inst \<lparr>opcode = CALC, arg_0 = 0, arg_1 = 0, arg_2 = 0, arg_3 = 0\<rparr> = ''calc'' @ [CHR 10]"
    "show_nat (unat (5 :: uint32)) = ''5''" "show_nat 2 = ''2''" by code_simp+
  then show "load 1 junk 0 jinst bufs (Some (''5 2'' @ [CHR 10] @ ''calc'' @ [CHR 10] @ ''halt'' @ [CHR 10])) = None"
    using load_unknown_opcode [of "[\<lparr>opcode = CALC, arg_0 = 0, arg_1 = 0, arg_2 = 0, arg_3 = 0\<rparr>]" 2 "''halt''" "[CHR 10]" 1 junk 0 jinst bufs 5]
    by (simp add: is_space_def get_opcode_def stops_def)
qed

end
