(* ===== verification/Log.thy ===== *)
theory Log
  imports OS_Prelude
begin

text \<open>
  The log of the simulator, src/log.c: a message is written to the standard error stream when its level
  is at least the level that the environment variable \<open>OSSIM_LOG\<close> asks for. The stream is the list
  of the lines written; a message is the text after the formatting of the C library.
\<close>

section \<open>Levels\<close>

datatype log_level_t = LOG_DEBUG | LOG_INFO | LOG_WARN | LOG_ERROR

text \<open>The comparison of two levels is that of the values of the enumeration.\<close>

primrec level_value :: "log_level_t \<Rightarrow> nat" where
  "level_value LOG_DEBUG = 0"
| "level_value LOG_INFO = 1"
| "level_value LOG_WARN = 2"
| "level_value LOG_ERROR = 3"

instantiation log_level_t :: linorder
begin

definition less_eq_log_level_t :: "log_level_t \<Rightarrow> log_level_t \<Rightarrow> bool" where
  "less_eq_log_level_t a b \<longleftrightarrow> level_value a \<le> level_value b"

definition less_log_level_t :: "log_level_t \<Rightarrow> log_level_t \<Rightarrow> bool" where
  "less_log_level_t a b \<longleftrightarrow> level_value a < level_value b"

instance
proof
  show "a = b" if "a \<le> b" "b \<le> a" for a b :: log_level_t
    using that by (cases a; cases b) (simp_all add: less_eq_log_level_t_def)
qed (auto simp: less_eq_log_level_t_def less_log_level_t_def)

end

definition configured_level :: "string option \<Rightarrow> log_level_t" where
  "configured_level level =
     (case level of None \<Rightarrow> LOG_WARN
      | Some l \<Rightarrow> if l = ''debug'' then LOG_DEBUG
                  else if l = ''info'' then LOG_INFO
                  else if l = ''warn'' then LOG_WARN
                  else if l = ''error'' then LOG_ERROR
                  else LOG_WARN)"

primrec level_name :: "log_level_t \<Rightarrow> string" where
  "level_name LOG_DEBUG = ''DEBUG''"
| "level_name LOG_INFO = ''INFO''"
| "level_name LOG_WARN = ''WARN''"
| "level_name LOG_ERROR = ''ERROR''"

section \<open>Writing\<close>

definition os_vlog :: "string option \<Rightarrow> log_level_t \<Rightarrow> string \<Rightarrow> string \<Rightarrow> string list \<Rightarrow> string list" where
  "os_vlog env level component msg out =
     (if level < configured_level env then out
      else out @ [''['' @ level_name level @ ''] '' @ component @ '': '' @ msg])"

definition os_log :: "string option \<Rightarrow> log_level_t \<Rightarrow> string \<Rightarrow> string \<Rightarrow> string list \<Rightarrow> string list" where
  "os_log env level component msg out = os_vlog env level component msg out"

section \<open>Properties of the log\<close>

lemma level_value_less [simp]: "a < b \<longleftrightarrow> level_value a < level_value b"
  by (rule less_log_level_t_def)

text \<open>
  Errors are never filtered, whatever the environment asks for: an error message adds exactly
  one line, with its level and component, to the end of the stream.
\<close>
theorem errors_always_logged:
  "os_log env LOG_ERROR component msg out = out @ [''[ERROR] '' @ component @ '': '' @ msg]"
  by (simp add: os_log_def os_vlog_def configured_level_def split: option.splits)

text \<open>
  A variable that asks for less hides less: the messages written under a level are also written
  under every lower level, and a value that is not a level means the same as none.
\<close>
theorem log_filter_monotone:
  assumes "configured_level env \<le> configured_level env'" "os_log env' level component msg out \<noteq> out"
  shows "os_log env level component msg out = os_log env' level component msg out"
  using assms by (auto simp: os_log_def os_vlog_def less_eq_log_level_t_def split: if_splits)

theorem log_filter_monotone_witness:
  "os_log (Some ''debug'') LOG_WARN ''mm'' ''full'' [] = os_log (Some ''loud'') LOG_WARN ''mm'' ''full'' []"
  by (rule log_filter_monotone) (simp_all add: configured_level_def os_log_def os_vlog_def less_eq_log_level_t_def)

end
