(* ===== verification/Trace.thy ===== *)
theory Trace
  imports Scan Kmem "HOL-Library.Signed_Division"
begin

text \<open>
  The trace output: the functions \<open>trace_*\<close> of src/libmem.c, which print the state of the memory system
  after each instruction, \<open>print_*\<close> of src/mm64.c and \<open>MEMPHY_dump\<close> of src/mm-memphy.c. They change
  nothing, so each is the text it prints, as a function of the state; \<open>None\<close> is an access outside the
  storage of a device.
\<close>

section \<open>Conversions of \<open>printf\<close>\<close>

definition show_int :: "int \<Rightarrow> string" where
  "show_int i = (if i < 0 then ''-'' @ show_nat (nat (- i)) else show_nat (nat i))"

definition show_addr :: "addr \<Rightarrow> string" where
  "show_addr a = show_nat (unat a)"

definition hex_digit :: "bool \<Rightarrow> nat \<Rightarrow> char" where
  "hex_digit upper d = char_of (if d < 10 then 48 + d else if upper then 55 + d else 87 + d)"

fun show_hex :: "bool \<Rightarrow> nat \<Rightarrow> string" where
  "show_hex upper n = (if n < 16 then [hex_digit upper n] else show_hex upper (n div 16) @ [hex_digit upper (n mod 16)])"

declare show_hex.simps [simp del]

definition pad_zero :: "nat \<Rightarrow> string \<Rightarrow> string" where
  "pad_zero w xs = replicate (w - length xs) (CHR ''0'') @ xs"

definition newline :: string where
  "newline = [CHR 10]"

definition lines_of :: "string list \<Rightarrow> string" where
  "lines_of ls = concat (map (\<lambda>l. l @ newline) ls)"

section \<open>When the kernel part is shown\<close>

definition kernel_op :: "ins_opcode_t \<Rightarrow> bool" where
  "kernel_op op \<longleftrightarrow> op = KMALLOC \<or> op = KMEM_CACHE_CREATE \<or> op = KMEM_CACHE_ALLOC \<or> op = COPY_FROM_USER \<or> op = COPY_TO_USER"

definition trace_proc_has_kernel_ops :: "pcb_t \<Rightarrow> bool" where
  "trace_proc_has_kernel_ops b =
     (case code b of None \<Rightarrow> False
      | Some cs \<Rightarrow> list_ex (\<lambda>i. kernel_op (opcode i)) (take (unat (code_size cs)) (code_text cs)))"

definition trace_has_kernel_state :: "sys \<Rightarrow> pptr \<Rightarrow> bool" where
  "trace_has_kernel_state s c =
     (if (case pcbs s c of None \<Rightarrow> False | Some b \<Rightarrow> trace_proc_has_kernel_ops b) then True
      else case caller_mm s c of None \<Rightarrow> False
      | Some m \<Rightarrow>
          if list_ex (\<lambda>r. rg_start r < rg_end r \<and> KMEM_VADDR_BASE \<le> rg_start r) (symrgtbl m) then True
          else (case kcpooltbl m of None \<Rightarrow> False | Some pools \<Rightarrow> 0 < length pools))"

section \<open>Devices\<close>

definition trace_frame_is_free :: "memphy_struct \<Rightarrow> addr \<Rightarrow> bool" where
  "trace_frame_is_free mp fpn = list_ex (\<lambda>f. f = fpn) (free_fp_list mp)"

definition trace_print_frame_list :: "addr list \<Rightarrow> string" where
  "trace_print_frame_list fs = (if fs = [] then ''(empty)'' else concat (map (\<lambda>f. ''['' @ show_addr f @ ''] '') fs))"

text \<open>\<open>mp->maxsz / KMEM_PAGE_SIZE\<close>, the signed division of C.\<close>

definition total_frames :: "memphy_struct \<Rightarrow> int" where
  "total_frames mp = maxsz mp sdiv uint PAGING64_PAGESZ"

definition used_frames :: "memphy_struct \<Rightarrow> int list" where
  "used_frames mp = filter (\<lambda>f. \<not> trace_frame_is_free mp (addr_of_int f)) (rev [0..total_frames mp - 1])"

definition trace_print_used_frames :: "memphy_struct \<Rightarrow> string" where
  "trace_print_used_frames mp =
     (if maxsz mp \<le> 0 \<or> used_frames mp = [] then ''(empty)''
      else concat (map (\<lambda>f. ''['' @ show_int f @ ''] '') (used_frames mp)))"

definition dump_page :: "memphy_struct \<Rightarrow> int \<Rightarrow> string option" where
  "dump_page mp fpn = do {
     let base = addr_of_int fpn * PAGING64_PAGESZ;
     bs \<leftarrow> those (map (\<lambda>w. storage_get mp (base + of_nat w * 4))
             (takeWhile (\<lambda>w. base + of_nat w * 4 < addr_of_int (maxsz mp)) [0..<16]));
     Some (''[PAGE '' @ show_int fpn @ ''] : '' @ concat (map (\<lambda>v. pad_zero 8 (show_hex False (unat v)) @ '' '') bs)) }"

definition trace_dump_memphy :: "string \<Rightarrow> memphy_struct option \<Rightarrow> string option" where
  "trace_dump_memphy label dev =
     (case dev of None \<Rightarrow> Some []
      | Some mp \<Rightarrow>
          if storage_len mp = 0 then Some []
          else do {
            pages \<leftarrow> those (map (dump_page mp) [0..total_frames mp - 1]);
            Some (lines_of ([label @ '' | size:'' @ show_int (maxsz mp), ''STORAGE''] @ pages @
              [''FREE frames: '' @ trace_print_frame_list (free_fp_list mp),
               ''USED frames: '' @ trace_print_used_frames mp, ''======================''])) })"

section \<open>Page tables\<close>

definition trace_dump_kernel_pgtbl :: "sys \<Rightarrow> pptr \<Rightarrow> string" where
  "trace_dump_kernel_pgtbl s c =
     (if caller_krnl s c = None then []
      else ''PAGE TABLE KENEL: '' @ concat (map (\<lambda>i.
          let a = KMEM_VADDR_BASE + i * PAGING64_PAGESZ in
          ''[page='' @ show_hex False (unat (drop_bit 12 a)) @ '' -> '' @
          (if fst (kernel_walk_pte s c a False) \<and> PAGING64_PAGE_PRESENT (the (kernel_load s c a))
           then ''frame='' @ show_addr (PAGING64_PTE_FPN (the (kernel_load s c a))) else ''none'') @ ''] '') [0, 1, 2, 3]) @
        newline @ ''======================'' @ newline)"

definition trace_dump_user_pgtbl :: "sys \<Rightarrow> pptr \<Rightarrow> string" where
  "trace_dump_user_pgtbl s c =
     ''PAGE TABLE: '' @ concat (map (\<lambda>pgn.
        let pte = pte_get_entry s c pgn in
        ''[page='' @ show_addr pgn @ '' -> '' @
        (if PAGING64_PAGE_PRESENT pte then ''frame='' @ show_addr (PAGING64_PTE_FPN pte)
         else if PAGING64_PAGE_SWAPPED pte then ''swap='' @ show_addr (PAGING64_PTE_SWP pte)
         else ''none'') @ ''] '') [0, 1, 2, 3, 4, 5]) @ newline"

text \<open>\<open>print_pgtbl\<close>: the entries that are not 0, from the page of \<open>start\<close> to the page of \<open>end\<close>.\<close>

definition print_pte :: "sys \<Rightarrow> pptr \<Rightarrow> addr \<Rightarrow> string" where
  "print_pte s c pgn =
     (let a = push_bit 12 pgn;
          pte = (if fst (get_pd_from_pagenum pgn) \<noteq> 0 then None
                 else do { t \<leftarrow> root_of s c a; tab_get t (dir_path a) (pt_index a) })
      in case pte of None \<Rightarrow> []
         | Some e \<Rightarrow>
             if e = 0 then []
             else ''vmap: VPN='' @ pad_zero 16 (show_hex False (unat pgn)) @
               (if PAGING64_PAGE_PRESENT e then '' -> PFN='' @ pad_zero 16 (show_hex False (unat (PAGING64_PTE_FPN e))) @ '' (Present)''
                else if PAGING64_PAGE_SWAPPED e then '' -> SWAP='' @ pad_zero 16 (show_hex False (unat (PAGING64_PTE_SWP e))) @ '' (Swapped)''
                else '' -> Invalid PTE'') @ newline)"

definition print_pgtbl :: "sys \<Rightarrow> pptr \<Rightarrow> addr \<Rightarrow> addr \<Rightarrow> int \<times> string" where
  "print_pgtbl s c start end' =
     (if caller_mm s c = None then (-1, [])
      else
        let pgn_start = drop_bit 12 start; pgn_end = (if end' = -1 then 511 else drop_bit 12 end')
        in (0, ''print_pgtbl:'' @ newline @
               concat (map (\<lambda>n. print_pte s c (of_nat n)) [unat pgn_start..<unat pgn_end + 1])))"

section \<open>Areas, regions and pages\<close>

text \<open>The end of the highest user region stands for \<open>sbrk\<close>.\<close>

definition traced_sbrk :: "vm_rg_struct list \<Rightarrow> addr" where
  "traced_sbrk rgs =
     foldl (\<lambda>top r. if rg_start r < rg_end r \<and> rg_start r < KMEM_VADDR_BASE \<and> top < rg_end r then rg_end r else top) 0 rgs"

definition join_arrow :: "string list \<Rightarrow> string" where
  "join_arrow xs = (case xs of [] \<Rightarrow> [] | y # ys \<Rightarrow> y @ concat (map (\<lambda>z. '' -> '' @ z) ys))"

definition show_range :: "addr \<Rightarrow> addr \<Rightarrow> string" where
  "show_range a b = ''['' @ show_addr a @ ''-'' @ show_addr b @ '']''"

definition trace_dump_vma :: "mm_struct \<Rightarrow> string" where
  "trace_dump_vma m =
     (case mm_mmap m of [] \<Rightarrow> ''VMA | id=0 | start=0 | end=0 | sbrk=0 | free regions: [0-0]'' @ newline
      | v # _ \<Rightarrow>
          let top = traced_sbrk (symrgtbl m);
              free = filter (\<lambda>r. rg_start r < rg_end r) (vm_freerg_list v)
          in ''VMA | id='' @ show_addr (vm_id v) @ '' | start='' @ show_addr (vm_start v) @ '' | end='' @ show_addr (vm_end v) @
             '' | sbrk='' @ show_addr top @ '' | free regions: '' @
             (if free = [] then show_range top (vm_end v) else join_arrow (map (\<lambda>r. show_range (rg_start r) (rg_end r)) free)) @
             newline)"

definition trace_print_addr :: "addr \<Rightarrow> string" where
  "trace_print_addr a = ''0x'' @ show_hex False (unat a)"

definition trace_dump_symbol_table :: "mm_struct \<Rightarrow> bool \<Rightarrow> string" where
  "trace_dump_symbol_table m show_mode =
     (let shown = filter (\<lambda>(_, r). rg_start r < rg_end r) (enumerate 0 (symrgtbl m));
          line = (\<lambda>(i, r). ''[rg'' @ show_nat i @ '':'' @
            (if show_mode
             then trace_print_addr (rg_start r) @ ''-'' @ trace_print_addr (rg_end r) @ '' mode='' @
               (if KMEM_VADDR_BASE \<le> rg_start r then ''KERNEL'' else ''USER'') @ ''] ''
             else show_addr (rg_start r) @ ''-'' @ show_addr (rg_end r) @ ''] ''))
      in ''SYMBOL TABLE: '' @ (if shown = [] then ''(empty)'' else concat (map line shown)) @ newline)"

definition trace_dump_fifo :: "mm_struct \<Rightarrow> string" where
  "trace_dump_fifo m = ''FIFO PAGE LIST: '' @
     (if fifo_pgn m = [] then ''(empty)'' else join_arrow (map (\<lambda>p. ''['' @ show_addr p @ '']'') (fifo_pgn m))) @ newline"

definition trace_dump_cache_pools :: "mm_struct \<Rightarrow> string" where
  "trace_dump_cache_pools m = ''KMEM CACHE POOLS:'' @ newline @
     (case kcpooltbl m of None \<Rightarrow> []
      | Some pools \<Rightarrow> concat (map (\<lambda>(i, p). ''  pool['' @ show_nat i @ ''] size='' @ show_int (pool_size p) @
          '' align='' @ show_int (pool_align p) @ '' storage='' @ trace_print_addr (pool_storage p) @ newline)
          (filter (\<lambda>(_, p). pool_size p \<noteq> 0) (enumerate 0 pools)))) @ newline"

definition trace_dump_state :: "sys \<Rightarrow> pptr \<Rightarrow> string \<Rightarrow> addr list \<Rightarrow> string option" where
  "trace_dump_state s c op args =
     (case caller_mm s c of None \<Rightarrow> Some []
      | Some m \<Rightarrow> do {
          let kernel = trace_has_kernel_state s c;
          ram \<leftarrow> trace_dump_memphy ''RAM'' (map_option (devs s) (caller_mram s c));
          swp \<leftarrow> trace_dump_memphy ''ACTIVE SWAP'' (map_option (devs s) (caller_mswp s c));
          Some (newline @ ''======================================== KERNEL INFO ========================================'' @ newline @
            ''[EXEC] '' @ op @ '' | args=('' @ concat (map show_addr (take 1 args)) @
            concat (map (\<lambda>a. '','' @ show_addr a) (drop 1 args)) @ '')'' @ newline @ ram @ swp @
            (if kernel then trace_dump_kernel_pgtbl s c else []) @ ''MM STRUCT'' @ newline @
            trace_dump_user_pgtbl s c @ trace_dump_vma m @ trace_dump_symbol_table m kernel @ trace_dump_fifo m @
            (if kernel then trace_dump_cache_pools m else []) @
            ''================================ END ================================'' @ newline @ newline) })"

section \<open>Lists and devices\<close>

definition print_list :: "string \<Rightarrow> ('a \<Rightarrow> string) \<Rightarrow> 'a list \<Rightarrow> int \<times> string" where
  "print_list name item xs =
     (if xs = [] then (-1, name @ '': NULL list'' @ newline)
      else (0, name @ '': '' @ newline @ concat (map (\<lambda>x. item x @ newline) xs) @ newline))"

definition print_list_fp :: "addr list \<Rightarrow> int \<times> string" where
  "print_list_fp = print_list ''print_list_fp'' (\<lambda>f. ''fp['' @ show_addr f @ '']'')"

definition print_list_rg :: "rg_node list \<Rightarrow> int \<times> string" where
  "print_list_rg = print_list ''print_list_rg'' (\<lambda>r. ''rg['' @ show_addr (rg_start r) @ ''->'' @ show_addr (rg_end r) @ '']'')"

definition print_list_vma :: "vm_area_struct list \<Rightarrow> int \<times> string" where
  "print_list_vma = print_list ''print_list_vma'' (\<lambda>v. ''va['' @ show_addr (vm_start v) @ ''->'' @ show_addr (vm_end v) @ '']'')"

definition print_list_pgn :: "addr list \<Rightarrow> int \<times> string" where
  "print_list_pgn = print_list ''print_list_pgn'' (\<lambda>p. ''va['' @ show_addr p @ '']-'')"

text \<open>
  A row of \<open>MEMPHY_dump\<close>. A byte is a signed \<open>char\<close>, so \<open>%02X\<close> prints a negative one as the eight
  digits of the \<open>int\<close> it is promoted to.
\<close>

definition dump_row :: "memphy_struct \<Rightarrow> addr \<Rightarrow> string option" where
  "dump_row mp a = do {
     bs \<leftarrow> those (map (\<lambda>i. if a + i < addr_of_int (maxsz mp) then map_option Some (storage_get mp (a + i)) else Some None)
            (map of_nat [0..<16]));
     Some (pad_zero 8 (show_hex True (unat a)) @ '' | '' @
       concat (map (\<lambda>b. case b of None \<Rightarrow> ''   ''
         | Some v \<Rightarrow> pad_zero 2 (show_hex True (unat (scast v :: uint32))) @ '' '') bs) @ ''| '' @
       map (\<lambda>b. case b of None \<Rightarrow> CHR '' ''
         | Some v \<Rightarrow> if 32 \<le> sint v \<and> sint v \<le> 126 then char_of (unat v) else CHR ''.'') bs) }"

definition MEMPHY_dump :: "memphy_struct \<Rightarrow> (int \<times> string) option" where
  "MEMPHY_dump mp =
     (if storage_len mp = 0 then Some (-1, [])
      else do {
        rows \<leftarrow> those (map (\<lambda>i. dump_row mp (of_nat (16 * i))) [0..<(unat (addr_of_int (maxsz mp)) + 15) div 16]);
        Some (0, lines_of ([''MEMPHY Dump (size: '' @ show_int (maxsz mp) @ '' bytes):'',
            ''Address  | 00 01 02 03 04 05 06 07 08 09 0A 0B 0C 0D 0E 0F | ASCII'',
            ''---------|---------------------------------------------------|------''] @ rows) @ newline) })"

section \<open>The frames in the trace\<close>

lemma total_frames_nat: "memphy_wf mp \<Longrightarrow> total_frames mp = int (nat (maxsz mp) div 4096)"
  by (auto simp: total_frames_def memphy_wf_def signed_divide_int_def c_defs zdiv_int sgn_if)

lemma those_Some: "\<forall>x \<in> set xs. \<exists>y. f x = Some y \<Longrightarrow> \<exists>ys. those (map f xs) = Some ys"
  by (induction xs) auto

lemma upto_map_int: "[0..int n - 1] = map int [0..<n]"
proof (induction n)
  case (Suc n)
  have "[0..int (Suc n) - 1] = [0..int n - 1] @ [int n]" using upto_rec2 [of 0 "int n"] by simp
  with Suc show ?case by simp
qed simp

lemma used_frames_nat:
  assumes "memphy_wf mp"
  shows "used_frames mp = map int (filter (\<lambda>f. of_nat f \<notin> set (free_fp_list mp)) (rev [0..<nat (maxsz mp) div 4096]))"
proof -
  have "trace_frame_is_free mp (addr_of_int (int f)) \<longleftrightarrow> of_nat f \<in> set (free_fp_list mp)" for f
    by (auto simp: trace_frame_is_free_def list_ex_iff addr_of_int_def)
  then show ?thesis
    by (simp add: used_frames_def total_frames_nat [OF assms] upto_map_int rev_map filter_map comp_def)
qed

lemma frames_partition:
  fixes free :: "addr list"
  assumes "distinct free" "\<forall>f \<in> set free. unat f < n" "n \<le> 2 ^ 64"
  shows "mset (map of_nat (filter (\<lambda>f. of_nat f \<notin> set free) (rev [0..<n]))) + mset free = mset (map of_nat [0..<n])"
proof -
  let ?A = "map of_nat [0..<n] :: addr list"
  have d: "distinct ?A" using assms(3) by (intro distinct_map [THEN iffD2] conjI inj_onI) (auto simp: word_of_nat_eq_iff take_bit_nat_eq_self)
  have "set free \<subseteq> set ?A" using assms(2) by (auto intro!: image_eqI [where x = "unat _"])
  then have "mset free = mset (filter (\<lambda>f. f \<in> set free) ?A)"
    using assms(1) d by (subst set_eq_iff_mset_eq_distinct [symmetric]) auto
  moreover have "mset (map of_nat (filter (\<lambda>f. of_nat f \<notin> set free) (rev [0..<n]))) = mset (filter (\<lambda>f. f \<notin> set free) ?A)"
    by (simp add: filter_map comp_def rev_filter [symmetric] rev_map [symmetric])
  ultimately show ?thesis using multiset_partition [of "mset ?A" "\<lambda>f. f \<in> set free"] by (metis add.commute mset_filter)
qed

lemma dump_page_ok:
  assumes "memphy_wf mp"
  shows "\<exists>t. dump_page mp f = Some t"
proof -
  let ?base = "addr_of_int f * PAGING64_PAGESZ"
  let ?ws = "takeWhile (\<lambda>w. ?base + of_nat w * 4 < addr_of_int (maxsz mp)) [0..<16]"
  have "\<exists>v. storage_get mp (?base + of_nat w * 4) = Some v" if "w \<in> set ?ws" for w
  proof -
    have "?base + of_nat w * 4 < addr_of_int (maxsz mp)" using set_takeWhileD [OF that] by blast
    then have "unat (?base + of_nat w * 4) < storage_len mp"
      using memphy_bound [OF assms] by (simp add: word_less_nat_alt word_le_nat_alt not_le [symmetric])
    then show ?thesis by (simp add: storage_get_def)
  qed
  then obtain bs where "those (map (\<lambda>w. storage_get mp (?base + of_nat w * 4)) ?ws) = Some bs"
    using those_Some [of ?ws "\<lambda>w. storage_get mp (?base + of_nat w * 4)"] by auto
  then show ?thesis by (simp add: dump_page_def Let_def)
qed

text \<open>
  C34: The trace accounts for every frame. In a state with the memory invariant, for the RAM and the swap
  device, the frames listed as used and the frames listed as free are together every frame of the device
  exactly once; every frame in which a page of a process lies is listed as used; and the dump reads only inside
  the storage of the device.
\<close>
theorem trace_accounts_frames:
  assumes "vm_inv w F s" "d \<in> {0, w}"
  shows "mset (map addr_of_int (used_frames (devs s d))) + mset (free_fp_list (devs s d)) =
      mset (map of_nat [0..<nat (maxsz (devs s d)) div 4096]) \<and>
    (\<forall>c p sl. user_slot s c p = Some sl \<and> dev_of w (fst sl) = d \<longrightarrow> int (unat (snd sl)) \<in> set (used_frames (devs s d))) \<and>
    (\<exists>text. trace_dump_memphy label (Some (devs s d)) = Some text)"
proof -
  let ?mp = "devs s d" let ?n = "nat (maxsz ?mp) div 4096"
  have "devices_ok w s" using assms(1) by (simp add: vm_inv_def)
  then have mp: "memphy_wf ?mp" "distinct (free_fp_list ?mp)" "\<forall>f \<in> set (free_fp_list ?mp). frame_ok ?mp f"
    using assms(2) unfolding devices_ok_def ram_like_def by blast+
  have fr: "unat f < ?n" if "frame_ok ?mp f" for f
    using that mp(1) by (simp add: frame_ok_def memphy_wf_def less_eq_Suc_le [symmetric] div_le_mono less_mult_imp_div_less)
  have u: "map addr_of_int (used_frames ?mp) = map of_nat (filter (\<lambda>f. of_nat f \<notin> set (free_fp_list ?mp)) (rev [0..<?n]))"
    unfolding used_frames_nat [OF mp(1)] by (simp add: addr_of_int_def comp_def)
  have "nat (maxsz ?mp) \<le> 2 ^ 64" using mp(1) by (simp add: memphy_wf_def nat_le_iff)
  then have "?n \<le> 2 ^ 64" by (rule order_trans [OF div_le_dividend])
  then have part: "mset (map addr_of_int (used_frames ?mp)) + mset (free_fp_list ?mp) = mset (map of_nat [0..<?n])"
    unfolding u using mp fr by (intro frames_partition) auto
  have "int (unat (snd sl)) \<in> set (used_frames ?mp)" if "user_slot s c p = Some sl" "dev_of w (fst sl) = d" for c p sl
  proof -
    have "slot_ok w s sl" using assms(1) that(1) unfolding vm_inv_def by blast
    then have "frame_ok ?mp (snd sl)" "snd sl \<notin> set (free_fp_list ?mp)" using that(2) by (auto simp: slot_ok_def)
    then have "unat (snd sl) \<in> {x. x < ?n \<and> word_of_nat x \<notin> set (free_fp_list ?mp)}" using fr by simp
    from imageI [OF this, of int] show ?thesis by (simp add: used_frames_nat [OF mp(1)])
  qed
  moreover have "\<exists>text. trace_dump_memphy label (Some ?mp) = Some text"
    using those_Some [of "[0..total_frames ?mp - 1]" "dump_page ?mp"] dump_page_ok [OF mp(1)] by (auto simp: trace_dump_memphy_def)
  ultimately show ?thesis using part by blast
qed

theorem trace_accounts_frames_witness:
  "mset (map addr_of_int (used_frames (devs demo_sys 0))) + mset (free_fp_list (devs demo_sys 0)) = mset [0, 1]"
proof -
  have "[0..<nat (maxsz (devs demo_sys 0)) div 4096] = [0, 1]" by (simp add: demo_sys_def demo_ram_def upt_rec)
  then show ?thesis using trace_accounts_frames [OF demo_sys_inv, of 0] by simp
qed

end
