(* ===== verification/Segment_Mem.thy ===== *)
theory Segment_Mem
  imports Os_Types
begin

text \<open>
  The segmented memory of src/mem.c, which the source marks as obsolete, and the instructions of src/cpu.c
  that work on it: the build without \<open>MM_PAGING\<close>. The search for a second-level table has an empty body, so no
  address is ever translated. \<open>junk\<close> is the content of an uninitialised local variable.
\<close>

section \<open>State\<close>

record mem_stat =
  ms_proc :: uint32
  ms_index :: int
  ms_next :: int

record segment_mem =
  ram :: "addr \<Rightarrow> byte"
  stats :: "mem_stat list"

text \<open>The translation tables of \<open>struct page_table_t\<close>: of the second level only the virtual indices matter.\<close>

type_synonym trans_table = "addr list"

definition NUM_PAGES :: nat where "NUM_PAGES = 1024"

definition init_mem :: "segment_mem \<Rightarrow> segment_mem" where
  "init_mem m = m\<lparr>stats := replicate NUM_PAGES \<lparr>ms_proc = 0, ms_index = 0, ms_next = 0\<rparr>, ram := \<lambda>_. 0\<rparr>"

section \<open>Translation\<close>

definition get_first_lv :: "addr \<Rightarrow> addr" where
  "get_first_lv a = drop_bit (10 + 5) a"

definition get_second_lv :: "addr \<Rightarrow> addr" where
  "get_second_lv a = drop_bit 10 a - push_bit 5 (get_first_lv a)"

definition get_trans_table :: "addr \<Rightarrow> (addr \<times> trans_table) list \<Rightarrow> trans_table option" where
  "get_trans_table index page_table = foldl (\<lambda>r _. r) None page_table"

text \<open>The result, and the physical address, which no path assigns.\<close>

definition translate :: "addr \<Rightarrow> (addr \<times> trans_table) list \<Rightarrow> int" where
  "translate a page_table =
     (case get_trans_table (get_first_lv a) page_table of None \<Rightarrow> 0
      | Some t \<Rightarrow> if get_second_lv a \<in> set t then 1 else 0)"

section \<open>Operations\<close>

definition alloc_mem :: "uint32 \<Rightarrow> pcb_t \<Rightarrow> addr \<times> pcb_t" where
  "alloc_mem sz proc =
     (let num_pages = (if sz mod 1024 \<noteq> 0 then sz div 1024 else sz div 1024 + 1);
          mem_avail = False
      in if mem_avail then (ucast (bp proc), proc\<lparr>bp := bp proc + num_pages * 1024\<rparr>) else (0, proc))"

definition free_mem :: "addr \<Rightarrow> pcb_t \<Rightarrow> int" where
  "free_mem a proc = 0"

definition read_mem :: "addr \<Rightarrow> addr \<Rightarrow> (addr \<times> trans_table) list \<Rightarrow> segment_mem \<Rightarrow> int \<times> byte option" where
  "read_mem junk a pt m = (if translate a pt \<noteq> 0 then (0, Some (ram m junk)) else (1, None))"

definition write_mem :: "addr \<Rightarrow> addr \<Rightarrow> (addr \<times> trans_table) list \<Rightarrow> byte \<Rightarrow> segment_mem \<Rightarrow> int \<times> segment_mem" where
  "write_mem junk a pt v m = (if translate a pt \<noteq> 0 then (0, m\<lparr>ram := (ram m)(junk := v)\<rparr>) else (1, m))"

section \<open>The instructions of cpu.c\<close>

definition set_register :: "nat \<Rightarrow> addr \<Rightarrow> pcb_t \<Rightarrow> pcb_t option" where
  "set_register i v proc = (if i < length (regs proc) then Some (proc\<lparr>regs := (regs proc)[i := v]\<rparr>) else None)"

definition alloc :: "pcb_t \<Rightarrow> uint32 \<Rightarrow> uint32 \<Rightarrow> (int \<times> pcb_t) option" where
  "alloc proc sz reg_index =
     (let (a, proc') = alloc_mem sz proc
      in if a = 0 then Some (1, proc') else do { p \<leftarrow> set_register (unat reg_index) a proc'; Some (0, p) })"

definition free_data :: "pcb_t \<Rightarrow> uint32 \<Rightarrow> int option" where
  "free_data proc reg_index =
     (if unat reg_index < length (regs proc) then Some (free_mem (regs proc ! unat reg_index) proc) else None)"

text \<open>\<open>read\<close> takes a result of \<open>read_mem\<close> other than 0 as success.\<close>

definition cpu_read :: "addr \<Rightarrow> byte \<Rightarrow> (addr \<times> trans_table) list \<Rightarrow> segment_mem \<Rightarrow> pcb_t \<Rightarrow> uint32 \<Rightarrow> uint32 \<Rightarrow> uint32 \<Rightarrow> (int \<times> pcb_t) option" where
  "cpu_read junk data pt m proc source offset destination =
     (if unat source < length (regs proc) then
        let (r, v) = read_mem junk (regs proc ! unat source + ucast offset) pt m;
            d = (case v of None \<Rightarrow> data | Some x \<Rightarrow> x)
        in if r \<noteq> 0 then do { p \<leftarrow> set_register (unat destination) (addr_of_byte d) proc; Some (0, p) }
           else Some (1, proc)
      else None)"

definition cpu_write :: "addr \<Rightarrow> (addr \<times> trans_table) list \<Rightarrow> segment_mem \<Rightarrow> pcb_t \<Rightarrow> byte \<Rightarrow> uint32 \<Rightarrow> uint32 \<Rightarrow> (int \<times> segment_mem) option" where
  "cpu_write junk pt m proc v destination offset =
     (if unat destination < length (regs proc)
      then Some (write_mem junk (regs proc ! unat destination + ucast offset) pt v m) else None)"

section \<open>Properties\<close>

lemma no_trans_table: "get_trans_table i pt = None"
  unfolding get_trans_table_def by (induction pt) simp_all

lemma translate_fails [simp]: "translate a pt = 0"
  by (simp add: translate_def no_trans_table)

text \<open>The two levels and the offset are the fields of the address.\<close>

theorem address_levels:
  "a = push_bit 15 (get_first_lv a) + push_bit 10 (get_second_lv a) + take_bit 10 a \<and> get_second_lv a < 32"
proof -
  let ?b = "drop_bit 10 a"
  have f: "get_first_lv a = drop_bit 5 ?b" by (simp add: get_first_lv_def drop_bit_drop_bit ac_simps)
  have b: "?b = push_bit 5 (drop_bit 5 ?b) + take_bit 5 ?b" by (rule bits_ident [symmetric])
  then have s: "get_second_lv a = take_bit 5 ?b" unfolding get_second_lv_def f by (metis add_diff_cancel_left')
  have "a = push_bit 10 ?b + take_bit 10 a" by (rule bits_ident [symmetric])
  also have "push_bit 10 ?b = push_bit 15 (get_first_lv a) + push_bit 10 (get_second_lv a)"
    by (subst b) (simp add: s f push_bit_add)
  finally have "a = push_bit 15 (get_first_lv a) + push_bit 10 (get_second_lv a) + take_bit 10 a" .
  moreover have "take_bit 5 ?b < 32"
    using take_bit_nat_less_exp [of 5 "unat ?b"] by (simp add: word_less_nat_alt unsigned_take_bit_eq)
  ultimately show ?thesis using s by simp
qed

text \<open>
  Without translation nothing works, and \<open>read\<close> does not notice: allocation and writing report
  failure, but \<open>read\<close> reports success and stores an uninitialised byte in the destination register.
\<close>

theorem segment_memory_unusable:
  assumes "unat source < length (regs proc)" "unat destination < length (regs proc)"
  shows "alloc proc sz reg = Some (1, proc) \<and> cpu_write junk pt m proc v source offset = Some (1, m) \<and>
    cpu_read junk data pt m proc source offset destination =
      Some (0, proc\<lparr>regs := (regs proc)[unat destination := addr_of_byte data]\<rparr>)"
  using assms by (simp add: alloc_def alloc_mem_def cpu_write_def write_mem_def cpu_read_def read_mem_def set_register_def)

end
