(* ===== verification/Fifo_Sched.thy ===== *)
theory Fifo_Sched
  imports Mlq_Sched
begin

text \<open>
  The other scheduler of src/sched.c, compiled when \<open>MLQ_SCHED\<close> is not defined: one ready queue, served first
  come first served. It keeps the static queues of the scheduler record and leaves the fields of the multi-level
  queues alone.
\<close>

section \<open>Operations\<close>

definition fifo_queue_empty :: "sched \<Rightarrow> bool" where
  "fifo_queue_empty s \<longleftrightarrow> empty (ready_queue s) \<and> empty (run_queue s)"

definition fifo_init_scheduler :: "sched \<Rightarrow> sched" where
  "fifo_init_scheduler s = s\<lparr>ready_queue := reset_queue (ready_queue s),
     run_queue := reset_queue (run_queue s), running_list := reset_queue (running_list s)\<rparr>"

definition fifo_get_proc :: "sched \<Rightarrow> pptr \<times> sched" where
  "fifo_get_proc s = (let (p, q) = dequeue (ready_queue s) in (p, s\<lparr>ready_queue := q\<rparr>))"

text \<open>The process is pointed at the two queues this build has.\<close>

definition fifo_attach_queues :: "krnl_t \<Rightarrow> krnl_t" where
  "fifo_attach_queues k = k\<lparr>k_ready_queue := True, k_running_list := True\<rparr>"

definition fifo_put_proc :: "sched \<Rightarrow> pcbs_t \<Rightarrow> pptr \<Rightarrow> sched_fault + (sched \<times> pcbs_t)" where
  "fifo_put_proc s P p =
     (if p = NULL then Inr (s, P)
      else case Option.bind (P p) krnl of None \<Rightarrow> Inl Null_pointer
      | Some k \<Rightarrow>
          let (r, q) = enqueue (ready_queue s) p
          in if r \<noteq> 0 then Inl (Enqueue_failed ''ready queue'')
             else Inr (s\<lparr>ready_queue := q\<rparr>, P(p \<mapsto> the (P p)\<lparr>krnl := Some (fifo_attach_queues k)\<rparr>)))"

definition fifo_add_proc :: "sched \<Rightarrow> pcbs_t \<Rightarrow> pptr \<Rightarrow> sched_fault + (sched \<times> pcbs_t)" where
  "fifo_add_proc s P p =
     (if p = NULL then Inr (s, P)
      else case Option.bind (P p) krnl of None \<Rightarrow> Inl Null_pointer
      | Some k \<Rightarrow>
          let (r, q) = enqueue (ready_queue s) p
          in if r \<noteq> 0 then Inl (Enqueue_failed ''ready queue'')
             else Inr (s\<lparr>ready_queue := q\<rparr>, P(p \<mapsto> the (P p)\<lparr>krnl := Some (fifo_attach_queues k)\<rparr>)))"

text \<open>The list of live processes is searched first, then the ready queue.\<close>

definition fifo_find_proc :: "sched \<Rightarrow> pcbs_t \<Rightarrow> uint32 \<Rightarrow> pptr" where
  "fifo_find_proc s P n =
     (let p = find_pid P (qproc (running_list s)) n 0 (qsize (running_list s))
      in if p \<noteq> NULL then p else find_pid P (qproc (ready_queue s)) n 0 (qsize (ready_queue s)))"

definition fifo_finish_proc :: "sched \<Rightarrow> pptr \<Rightarrow> sched" where
  "fifo_finish_proc s p =
     (let l = running_list s in
      case find_index (qproc l) p 0 (qsize l) of None \<Rightarrow> s
      | Some i \<Rightarrow> s\<lparr>running_list := l\<lparr>
          qproc := (shift_left (qproc l) i (qsize l - 1))[qsize l - 1 := NULL],
          qsize := qsize l - 1\<rparr>\<rparr>)"

section \<open>The single queue meets the interface\<close>

text \<open>The second queue and the list of live processes are never filled in this build.\<close>

definition fifo_wf :: "sched \<Rightarrow> bool" where
  "fifo_wf s \<longleftrightarrow> queue_wf (ready_queue s) \<and> NULL \<notin> set (queue_items (ready_queue s)) \<and>
     qsize (run_queue s) = 0 \<and> qsize (running_list s) = 0"

definition fifo_waiting :: "sched \<Rightarrow> pptr list" where
  "fifo_waiting s = queue_items (ready_queue s)"

lemma fifo_wf_append:
  assumes "fifo_wf s" "p \<noteq> NULL" "enqueue (ready_queue s) p = (0, q)"
  shows "fifo_wf (s\<lparr>ready_queue := q\<rparr>)" "fifo_waiting (s\<lparr>ready_queue := q\<rparr>) = fifo_waiting s @ [p]"
  using assms enqueue_result [OF _ assms(3)] by (auto simp: fifo_wf_def fifo_waiting_def)

lemma fifo_put_procD:
  assumes "fifo_put_proc s P p = Inr (s', P')" "fifo_wf s"
  shows "fifo_wf s' \<and> fifo_waiting s' = fifo_waiting s @ entered [Put p]"
  using assms fifo_wf_append [OF assms(2), of p "snd (enqueue (ready_queue s) p)"]
  by (auto simp: fifo_put_proc_def split_beta Let_def prod_eq_iff split: if_splits option.splits)

lemma fifo_add_proc_put: "fifo_add_proc = fifo_put_proc"
  by (simp add: fun_eq_iff fifo_add_proc_def fifo_put_proc_def)

lemma fifo_add_procD:
  assumes "fifo_add_proc s P p = Inr (s', P')" "fifo_wf s"
  shows "fifo_wf s' \<and> fifo_waiting s' = fifo_waiting s @ entered [Add p]"
  using fifo_put_procD [of s P p s' P'] assms by (simp add: fifo_add_proc_put)

lemma fifo_get_proc_front:
  assumes "fifo_wf s"
  shows "fifo_wf (snd (fifo_get_proc s))" "fifo_waiting (snd (fifo_get_proc s)) = tl (fifo_waiting s)"
    "fst (fifo_get_proc s) = (if fifo_waiting s = [] then NULL else hd (fifo_waiting s))"
  using assms pq.deq_wf [of "ready_queue s"] pq.deq_items [of "ready_queue s"] pq.deq_result [of "ready_queue s"]
  by (auto simp: fifo_wf_def fifo_waiting_def fifo_get_proc_def split_beta dest: in_set_tlD)

lemma fifo_finish_idle [simp]: "fifo_wf s \<Longrightarrow> fifo_finish_proc s p = s"
  by (simp add: fifo_finish_proc_def fifo_wf_def find_index.simps)

lemma fifo_hd_not_NULL: "fifo_wf s \<Longrightarrow> fifo_waiting s \<noteq> [] \<Longrightarrow> hd (fifo_waiting s) \<noteq> NULL"
  unfolding fifo_wf_def fifo_waiting_def by (metis hd_in_set)

interpretation fs: fifo_scheduler fifo_get_proc fifo_put_proc fifo_add_proc fifo_finish_proc fifo_queue_empty fifo_wf fifo_waiting
proof (unfold_locales, goal_cases)
  case (1 s)
  then show ?case by (rule fifo_get_proc_front)
next
  case (2 s)
  then show ?case by (simp add: fifo_get_proc_front fifo_hd_not_NULL)
next
  case (3 s)
  then show ?case by (cases "fifo_waiting s") (use fifo_hd_not_NULL [of s] in \<open>auto simp: fifo_get_proc_front\<close>)
next
  case (4 s)
  then show ?case by (simp add: fifo_queue_empty_def fifo_wf_def fifo_waiting_def pq.empty_iff empty_def [of "run_queue s"])
next
  case (11 s p ps)
  then show ?case by (simp add: fifo_get_proc_front)
qed (use fifo_put_procD fifo_add_procD in \<open>fastforce simp del: entered.simps\<close>)+

section \<open>Properties\<close>

text \<open>
  C35: First come first served. In the build without \<open>MLQ_SCHED\<close>, for any sequence of operations of the CPUs and the
  loader, the processes dispatched followed by those still waiting are the processes that waited at the start
  followed by those that were put back or added, in that order; and whoever waits behind \<open>k\<close> others is the result
  of the dispatch number \<open>k + 1\<close>.
\<close>

theorem fifo_dispatch_order:
  assumes "fifo_wf s" "sched_run fifo_get_proc fifo_put_proc fifo_add_proc fifo_finish_proc s P ops = Some (out, s', P')"
  shows "fifo_wf s' \<and> dispatched out @ fifo_waiting s' = fifo_waiting s @ entered ops \<and>
    (\<forall>k. k < length (fifo_waiting s) \<and> k < count_list ops Get \<longrightarrow> out ! k = fifo_waiting s ! k)"
  using fs.run_conserves [OF assms(2,1)] fs.run_order [OF assms(2,1)] fs.run_service [OF assms(2,1)] by blast

text \<open>The queues at the start of the simulator, and one process entering them.\<close>

lemma fifo_start: "fifo_wf (fifo_init_scheduler boot_sched) \<and> fifo_waiting (fifo_init_scheduler boot_sched) = []"
  by (simp add: fifo_init_scheduler_def fifo_wf_def fifo_waiting_def reset_queue_def boot_sched_def init_scheduler_def
      queue_wf_def queue_items_def new_queue_def)

lemma fifo_start_add:
  "\<exists>s P. fifo_add_proc (fifo_init_scheduler boot_sched) [7 \<mapsto> demo_pcb] 7 = Inr (s, P) \<and> fifo_wf s \<and>
     fifo_waiting s = [7] \<and> (\<exists>b. P 7 = Some b \<and> pid b = 3)"
proof -
  let ?s = "fifo_init_scheduler boot_sched"
  from fifo_start have q: "queue_wf (ready_queue ?s)" "queue_items (ready_queue ?s) = []"
    by (simp_all add: fifo_wf_def fifo_waiting_def)
  from pq.enq_result [OF q(1), of 7] q(2) have "fst (enqueue (ready_queue ?s) 7) = 0" by (simp add: MAX_QUEUE_SIZE_def)
  then obtain s P where "fifo_add_proc ?s [7 \<mapsto> demo_pcb] 7 = Inr (s, P)" "\<exists>b. P 7 = Some b \<and> pid b = 3"
    by (auto simp: fifo_add_proc_def NULL_def demo_pcb_def split_beta)
  moreover from fifo_add_procD [OF this(1)] fifo_start have "fifo_wf s \<and> fifo_waiting s = [7]" by (simp add: NULL_def)
  ultimately show ?thesis by blast
qed

theorem fifo_dispatch_order_witness:
  "\<exists>s P out s' P'. fifo_add_proc (fifo_init_scheduler boot_sched) [7 \<mapsto> demo_pcb] 7 = Inr (s, P) \<and>
     sched_run fifo_get_proc fifo_put_proc fifo_add_proc fifo_finish_proc s P [Get] = Some (out, s', P') \<and>
     out ! 0 = 7 \<and> dispatched out @ fifo_waiting s' = [7]"
proof -
  obtain s P where s: "fifo_add_proc (fifo_init_scheduler boot_sched) [7 \<mapsto> demo_pcb] 7 = Inr (s, P)" "fifo_wf s"
    "fifo_waiting s = [7]" using fifo_start_add by blast
  obtain out s' where r: "sched_run fifo_get_proc fifo_put_proc fifo_add_proc fifo_finish_proc s P [Get] = Some (out, s', P)"
    by (simp add: split_beta)
  from fifo_dispatch_order [OF s(2) r] s(1,3) r show ?thesis by auto
qed

lemma fifo_find_proc_find:
  "fifo_wf s \<Longrightarrow>
   fifo_find_proc s P n = (case find (has_pid P n) (fifo_waiting s) of None \<Rightarrow> NULL | Some x \<Rightarrow> x)"
  by (simp add: fifo_find_proc_def fifo_wf_def find_pid_step [of _ "qproc (running_list s)"] find_pid_find
      fifo_waiting_def queue_items_def queue_wf_def)

text \<open>
  Nobody fills the list of live processes in this build. A process is found by its pid while it waits, but from the
  moment it is dispatched \<open>find_proc\<close> answers null for it, and \<open>finish_proc\<close> has nothing to remove.
\<close>

theorem fifo_running_not_found:
  assumes "fifo_wf s" "fifo_waiting s = p # ps" "P p = Some b" "\<forall>x \<in> set ps. \<not> has_pid P (pid b) x"
  shows "fifo_find_proc s P (pid b) = p \<and> fst (fifo_get_proc s) = p \<and>
    fifo_find_proc (snd (fifo_get_proc s)) P (pid b) = NULL \<and>
    fifo_finish_proc (snd (fifo_get_proc s)) p = snd (fifo_get_proc s)"
proof -
  have "p \<noteq> NULL" using fifo_hd_not_NULL [OF assms(1)] assms(2) by simp
  then have "has_pid P (pid b) p" using assms(3) by (simp add: has_pid_def)
  moreover have "find (has_pid P (pid b)) ps = None" using assms(4) by (simp add: find_None_iff)
  ultimately show ?thesis
    using assms(1,2) fifo_get_proc_front [OF assms(1)] by (simp add: fifo_find_proc_find)
qed

theorem fifo_running_not_found_witness:
  "\<exists>s P. fifo_add_proc (fifo_init_scheduler boot_sched) [7 \<mapsto> demo_pcb] 7 = Inr (s, P) \<and>
     fifo_find_proc s P 3 = 7 \<and> fifo_find_proc (snd (fifo_get_proc s)) P 3 = NULL"
proof -
  obtain s P b where s: "fifo_add_proc (fifo_init_scheduler boot_sched) [7 \<mapsto> demo_pcb] 7 = Inr (s, P)" "fifo_wf s"
    "fifo_waiting s = [7]" "P 7 = Some b" "pid b = 3" using fifo_start_add by blast
  with fifo_running_not_found [OF s(2,3), of P b] show ?thesis by auto
qed

end
