(* ===== verification/Paging32.thy ===== *)
theory Paging32
  imports Os_Types "HOL-Library.Log_Nat"
begin

text \<open>
  The 32-bit mode: src/mm.c and the macros of include/mm.h over include/bitops.h, compiled when \<open>MM64\<close> is not
  defined. Addresses and entries are 32-bit words; the page directory \<open>mm->pgd\<close> is one array of entries, and
  an access behind its end is \<open>None\<close>. Of the functions of mm.c only those that write entries have a body; the
  others print that the mode is deprecated and return 0.
\<close>

unbundle bit_operations_syntax

type_synonym addr32 = "32 word"

section \<open>Masks and fields\<close>

definition BIT :: "nat \<Rightarrow> addr32" where
  "BIT nr = push_bit nr 1"

definition GENMASK :: "nat \<Rightarrow> nat \<Rightarrow> addr32" where
  "GENMASK h l = push_bit l (NOT 0) AND drop_bit (32 - h - 1) (NOT 0)"

definition DIV_ROUND_UP :: "addr32 \<Rightarrow> addr32 \<Rightarrow> addr32" where
  "DIV_ROUND_UP n d = (n + d - 1) div d"

text \<open>The position of the highest bit, by halving.\<close>

definition NBITS2 :: "addr32 \<Rightarrow> nat" where
  "NBITS2 n = (if n AND 2 \<noteq> 0 then 1 else 0)"

definition NBITS4 :: "addr32 \<Rightarrow> nat" where
  "NBITS4 n = (if n AND 0xC \<noteq> 0 then 2 + NBITS2 (drop_bit 2 n) else NBITS2 n)"

definition NBITS8 :: "addr32 \<Rightarrow> nat" where
  "NBITS8 n = (if n AND 0xF0 \<noteq> 0 then 4 + NBITS4 (drop_bit 4 n) else NBITS4 n)"

definition NBITS16 :: "addr32 \<Rightarrow> nat" where
  "NBITS16 n = (if n AND 0xFF00 \<noteq> 0 then 8 + NBITS8 (drop_bit 8 n) else NBITS8 n)"

definition NBITS32 :: "addr32 \<Rightarrow> nat" where
  "NBITS32 n = (if n AND 0xFFFF0000 \<noteq> 0 then 16 + NBITS16 (drop_bit 16 n) else NBITS16 n)"

definition NBITS :: "addr32 \<Rightarrow> nat" where
  "NBITS n = (if n = 0 then 0 else NBITS32 n)"

definition SETBIT32 :: "addr32 \<Rightarrow> addr32 \<Rightarrow> addr32" where
  "SETBIT32 v m = v OR m"

definition CLRBIT32 :: "addr32 \<Rightarrow> addr32 \<Rightarrow> addr32" where
  "CLRBIT32 v m = v AND NOT m"

definition SETVAL :: "addr32 \<Rightarrow> addr32 \<Rightarrow> addr32 \<Rightarrow> nat \<Rightarrow> addr32" where
  "SETVAL v value m offst = (v AND NOT m) OR (push_bit offst value AND m)"

definition GETVAL :: "addr32 \<Rightarrow> addr32 \<Rightarrow> nat \<Rightarrow> addr32" where
  "GETVAL v m offst = drop_bit offst (v AND m)"

section \<open>Layout of entries and addresses\<close>

definition PAGING_CPU_BUS_WIDTH :: nat where "PAGING_CPU_BUS_WIDTH = 22"
definition PAGING_PAGESZ :: addr32 where "PAGING_PAGESZ = 256"

definition PAGING_PAGE_ALIGNSZ :: "addr32 \<Rightarrow> addr32" where
  "PAGING_PAGE_ALIGNSZ sz = DIV_ROUND_UP sz PAGING_PAGESZ * PAGING_PAGESZ"

definition PAGING_MAX_PGN :: addr32 where
  "PAGING_MAX_PGN = DIV_ROUND_UP (BIT PAGING_CPU_BUS_WIDTH) PAGING_PAGESZ"

definition PAGING_PTE_PRESENT_MASK :: addr32 where "PAGING_PTE_PRESENT_MASK = BIT 31"
definition PAGING_PTE_SWAPPED_MASK :: addr32 where "PAGING_PTE_SWAPPED_MASK = BIT 30"
definition PAGING_PTE_DIRTY_MASK :: addr32 where "PAGING_PTE_DIRTY_MASK = BIT 28"
definition PAGING_PTE_FPN_MASK :: addr32 where "PAGING_PTE_FPN_MASK = GENMASK 12 0"
definition PAGING_PTE_SWPTYP_MASK :: addr32 where "PAGING_PTE_SWPTYP_MASK = GENMASK 4 0"
definition PAGING_PTE_SWPOFF_MASK :: addr32 where "PAGING_PTE_SWPOFF_MASK = GENMASK 25 5"
definition PAGING_OFFST_MASK :: addr32 where "PAGING_OFFST_MASK = GENMASK (NBITS PAGING_PAGESZ - 1) 0"
definition PAGING_PGN_MASK :: addr32 where
  "PAGING_PGN_MASK = GENMASK (PAGING_CPU_BUS_WIDTH - 1) (NBITS PAGING_PAGESZ)"

lemmas masks32 = PAGING_PTE_PRESENT_MASK_def PAGING_PTE_SWAPPED_MASK_def PAGING_PTE_DIRTY_MASK_def
  PAGING_PTE_FPN_MASK_def PAGING_PTE_SWPTYP_MASK_def PAGING_PTE_SWPOFF_MASK_def

definition PAGING_PAGE_PRESENT :: "addr32 \<Rightarrow> bool" where
  "PAGING_PAGE_PRESENT pte \<longleftrightarrow> pte AND PAGING_PTE_PRESENT_MASK \<noteq> 0"

definition PAGING_PTE_FPN :: "addr32 \<Rightarrow> addr32" where
  "PAGING_PTE_FPN pte = GETVAL pte PAGING_PTE_FPN_MASK 0"

definition PAGING_PTE_SWP :: "addr32 \<Rightarrow> addr32" where
  "PAGING_PTE_SWP pte = GETVAL pte PAGING_PTE_SWPOFF_MASK 5"

definition PAGING_OFFST :: "addr32 \<Rightarrow> addr32" where
  "PAGING_OFFST x = GETVAL x PAGING_OFFST_MASK 0"

definition PAGING_PGN :: "addr32 \<Rightarrow> addr32" where
  "PAGING_PGN x = GETVAL x PAGING_PGN_MASK (NBITS PAGING_PAGESZ)"

section \<open>Writing entries\<close>

definition init_pte32 :: "addr32 \<Rightarrow> int \<Rightarrow> addr32 \<Rightarrow> int \<Rightarrow> int \<Rightarrow> int \<Rightarrow> addr32 \<Rightarrow> int \<times> addr32" where
  "init_pte32 pte pre fpn drt swp swptyp swpoff =
     (if pre \<noteq> 0 then
        if swp = 0 then
          if fpn = 0 then (-1, pte)
          else (0, SETVAL (CLRBIT32 (CLRBIT32 (SETBIT32 pte PAGING_PTE_PRESENT_MASK) PAGING_PTE_SWAPPED_MASK)
              PAGING_PTE_DIRTY_MASK) fpn PAGING_PTE_FPN_MASK 0)
        else (0, SETVAL (SETVAL (CLRBIT32 (SETBIT32 (CLRBIT32 pte PAGING_PTE_PRESENT_MASK) PAGING_PTE_SWAPPED_MASK)
              PAGING_PTE_DIRTY_MASK) (word_of_int swptyp) PAGING_PTE_SWPTYP_MASK 0) swpoff PAGING_PTE_SWPOFF_MASK 5)
      else (0, pte))"

text \<open>Changing the entry of a page through a pointer into the directory.\<close>

definition change_pte32 :: "addr32 list \<Rightarrow> addr32 \<Rightarrow> (addr32 \<Rightarrow> addr32) \<Rightarrow> (int \<times> addr32 list) option" where
  "change_pte32 pgd pgn f =
     (if unat pgn < length pgd then Some (0, pgd[unat pgn := f (pgd ! unat pgn)]) else None)"

definition pte_set_swap32 :: "addr32 list \<Rightarrow> addr32 \<Rightarrow> int \<Rightarrow> addr32 \<Rightarrow> (int \<times> addr32 list) option" where
  "pte_set_swap32 pgd pgn swptyp swpoff = change_pte32 pgd pgn (\<lambda>pte.
     SETVAL (SETVAL (SETBIT32 (CLRBIT32 pte PAGING_PTE_PRESENT_MASK) PAGING_PTE_SWAPPED_MASK)
       (word_of_int swptyp) PAGING_PTE_SWPTYP_MASK 0) swpoff PAGING_PTE_SWPOFF_MASK 5)"

definition pte_set_fpn32 :: "addr32 list \<Rightarrow> addr32 \<Rightarrow> addr32 \<Rightarrow> (int \<times> addr32 list) option" where
  "pte_set_fpn32 pgd pgn fpn = change_pte32 pgd pgn (\<lambda>pte.
     SETVAL (CLRBIT32 (SETBIT32 pte PAGING_PTE_PRESENT_MASK) PAGING_PTE_SWAPPED_MASK) fpn PAGING_PTE_FPN_MASK 0)"

definition pte_set_entry32 :: "addr32 list \<Rightarrow> addr32 \<Rightarrow> addr32 \<Rightarrow> (int \<times> addr32 list) option" where
  "pte_set_entry32 pgd pgn pte_val = change_pte32 pgd pgn (\<lambda>_. pte_val)"

section \<open>The deprecated functions\<close>

text \<open>What the other functions print, and the value they return; none of them reads or writes anything.\<close>

definition deprecated :: "string \<Rightarrow> string \<times> int" where
  "deprecated func = (''[ERROR] '' @ func @ '': This feature 32 bit mode is deprecated'' @ [CHR 0x0A], 0)"

definition get_pd_from_address32 :: "addr32 \<Rightarrow> string \<times> int" where
  "get_pd_from_address32 a = deprecated ''get_pd_from_address''"

definition get_pd_from_pagenum32 :: "addr32 \<Rightarrow> string \<times> int" where
  "get_pd_from_pagenum32 pgn = deprecated ''get_pd_from_pagenum''"

definition pte_get_entry32 :: "addr32 list \<Rightarrow> addr32 \<Rightarrow> string \<times> int" where
  "pte_get_entry32 pgd pgn = deprecated ''pte_get_entry''"

definition vmap_pgd_memset32 :: "addr32 \<Rightarrow> int \<Rightarrow> string \<times> int" where
  "vmap_pgd_memset32 a pgnum = deprecated ''vmap_pgd_memset''"

definition vmap_page_range32 :: "addr32 \<Rightarrow> int \<Rightarrow> addr32 list \<Rightarrow> string \<times> int" where
  "vmap_page_range32 a pgnum frames = deprecated ''vmap_page_range''"

definition alloc_pages_range32 :: "int \<Rightarrow> string \<times> int" where
  "alloc_pages_range32 req_pgnum = deprecated ''alloc_pages_range''"

definition vm_map_ram32 :: "addr32 \<Rightarrow> addr32 \<Rightarrow> addr32 \<Rightarrow> int \<Rightarrow> string \<times> int" where
  "vm_map_ram32 astart aend mapstart incpgnum = deprecated ''vm_map_ram''"

definition swap_cp_page32 :: "addr32 \<Rightarrow> addr32 \<Rightarrow> string \<times> int" where
  "swap_cp_page32 srcfpn dstfpn = deprecated ''__swap_cp_page''"

definition init_mm32 :: "addr32 list \<Rightarrow> string \<times> int" where
  "init_mm32 mm = deprecated ''init_mm''"

definition init_vm_rg32 :: "addr32 \<Rightarrow> addr32 \<Rightarrow> string \<times> int" where
  "init_vm_rg32 rgstart rgend = deprecated ''init_vm_rg''"

definition enlist_vm_rg_node32 :: "(addr32 \<times> addr32) list \<Rightarrow> addr32 \<times> addr32 \<Rightarrow> string \<times> int" where
  "enlist_vm_rg_node32 rglist rgnode = deprecated ''enlist_vm_rg_node''"

definition enlist_pgn_node32 :: "addr32 list \<Rightarrow> addr32 \<Rightarrow> string \<times> int" where
  "enlist_pgn_node32 plist pgn = deprecated ''enlist_pgn_node''"

definition print_list_fp32 :: "addr32 list \<Rightarrow> string \<times> int" where
  "print_list_fp32 ifp = deprecated ''print_list_fp''"

definition print_list_rg32 :: "(addr32 \<times> addr32) list \<Rightarrow> string \<times> int" where
  "print_list_rg32 irg = deprecated ''print_list_rg''"

definition print_list_vma32 :: "(addr32 \<times> addr32) list \<Rightarrow> string \<times> int" where
  "print_list_vma32 ivma = deprecated ''print_list_vma''"

definition print_list_pgn32 :: "addr32 list \<Rightarrow> string \<times> int" where
  "print_list_pgn32 ip = deprecated ''print_list_pgn''"

definition print_pgtbl32 :: "addr32 list \<Rightarrow> addr32 \<Rightarrow> addr32 \<Rightarrow> string \<times> int" where
  "print_pgtbl32 pgd pgstart pgend = deprecated ''print_pgtbl''"

section \<open>Bits of fields\<close>

lemma bit_GENMASK: "h < 32 \<Longrightarrow> bit (GENMASK h l) n \<longleftrightarrow> l \<le> n \<and> n \<le> h"
  by (auto simp: GENMASK_def bit_simps)

lemma bit_BIT: "bit (BIT nr) n \<longleftrightarrow> n = nr \<and> nr < 32"
  by (auto simp: BIT_def bit_simps)

lemmas bits32 = bit_or_iff bit_and_iff bit_not_iff bit_push_bit_iff bit_drop_bit_eq bit_take_bit_iff
  bit_GENMASK bit_BIT

lemma bit_SETVAL:
  "h < 32 \<Longrightarrow> bit (SETVAL v x (GENMASK h l) l) n \<longleftrightarrow> (if l \<le> n \<and> n \<le> h then bit x (n - l) else bit v n)"
  using bit_imp_le_length [of v n] by (auto simp: SETVAL_def bits32)

lemma GETVAL_field: "h < 32 \<Longrightarrow> l \<le> h \<Longrightarrow> GETVAL v (GENMASK h l) l = take_bit (Suc h - l) (drop_bit l v)"
  unfolding GETVAL_def by (rule bit_word_eqI) (auto simp: bits32)

lemma GETVAL_SETVAL:
  "h < 32 \<Longrightarrow> l \<le> h \<Longrightarrow> GETVAL (SETVAL v x (GENMASK h l) l) (GENMASK h l) l = take_bit (Suc h - l) x"
  by (rule bit_word_eqI) (auto simp: GETVAL_field bit_SETVAL bits32)

lemma GETVAL_cong:
  "h < 32 \<Longrightarrow> (\<And>n. l \<le> n \<Longrightarrow> n \<le> h \<Longrightarrow> bit v n = bit w n) \<Longrightarrow> GETVAL v (GENMASK h l) l = GETVAL w (GENMASK h l) l"
  unfolding GETVAL_def by (rule bit_word_eqI) (auto simp: bits32)

lemma bit_SETBIT32: "bit (SETBIT32 v (BIT k)) n \<longleftrightarrow> bit v n \<or> n = k \<and> k < 32"
  and bit_CLRBIT32: "bit (CLRBIT32 v (BIT k)) n \<longleftrightarrow> bit v n \<and> n \<noteq> k"
  using bit_imp_le_length [of v n] by (auto simp: SETBIT32_def CLRBIT32_def bits32)

lemma flag_bit: "v AND BIT k = 0 \<longleftrightarrow> \<not> bit v k"
  by (simp add: BIT_def and_exp_eq_0_iff_not_bit push_bit_of_1)

lemma take_bit_id32: "a < 2 ^ n \<Longrightarrow> n < 32 \<Longrightarrow> take_bit n a = a" for a :: addr32
  by (simp add: take_bit_eq_mod mod_word_less)

lemmas entry_bits = masks32 bit_SETVAL bit_SETBIT32 bit_CLRBIT32

section \<open>Properties\<close>

text \<open>The entry of a page through the two functions that change it, whatever the entry was before.\<close>

definition PAGING_PTE_SWPTYP :: "addr32 \<Rightarrow> addr32" where
  "PAGING_PTE_SWPTYP pte = GETVAL pte PAGING_PTE_SWPTYP_MASK 0"

lemma change_pte32_nth:
  "change_pte32 pgd pgn f = Some (r, pgd') \<Longrightarrow>
   r = 0 \<and> length pgd' = length pgd \<and> pgd' ! unat pgn = f (pgd ! unat pgn) \<and>
   (\<forall>i. i \<noteq> unat pgn \<longrightarrow> pgd' ! i = pgd ! i)"
  by (auto simp: change_pte32_def split: if_splits)

lemma pte_set_fpn32_entry:
  assumes "unat pgn < length pgd" "fpn < 2 ^ 13"
  shows "\<exists>d. pte_set_fpn32 pgd pgn fpn = Some (0, d) \<and> PAGING_PAGE_PRESENT (d ! unat pgn) \<and>
    d ! unat pgn AND PAGING_PTE_SWAPPED_MASK = 0 \<and> PAGING_PTE_FPN (d ! unat pgn) = fpn \<and>
    (\<forall>i. i \<noteq> unat pgn \<longrightarrow> d ! i = pgd ! i)"
proof -
  define e where "e = SETVAL (CLRBIT32 (SETBIT32 (pgd ! unat pgn) PAGING_PTE_PRESENT_MASK) PAGING_PTE_SWAPPED_MASK)
    fpn PAGING_PTE_FPN_MASK 0"
  have "bit e 31" "\<not> bit e 30" by (simp_all add: e_def entry_bits)
  moreover have "PAGING_PTE_FPN e = fpn"
    using GETVAL_SETVAL [of 12 0] assms(2)
    by (simp add: e_def PAGING_PTE_FPN_def PAGING_PTE_FPN_MASK_def take_bit_id32)
  ultimately show ?thesis
    using assms(1) by (simp add: pte_set_fpn32_def change_pte32_def PAGING_PAGE_PRESENT_def flag_bit masks32(1,2) e_def)
qed

lemma pte_set_swap32_entry:
  assumes "unat pgn < length pgd" "swpoff < 2 ^ 21" "swptyp < 32"
  shows "\<exists>d. pte_set_swap32 pgd pgn (uint swptyp) swpoff = Some (0, d) \<and> \<not> PAGING_PAGE_PRESENT (d ! unat pgn) \<and>
    d ! unat pgn AND PAGING_PTE_SWAPPED_MASK \<noteq> 0 \<and> PAGING_PTE_SWP (d ! unat pgn) = swpoff \<and>
    PAGING_PTE_SWPTYP (d ! unat pgn) = swptyp \<and> (\<forall>i. i \<noteq> unat pgn \<longrightarrow> d ! i = pgd ! i)"
proof -
  define e where "e = SETVAL (SETBIT32 (CLRBIT32 (pgd ! unat pgn) PAGING_PTE_PRESENT_MASK) PAGING_PTE_SWAPPED_MASK)
    swptyp PAGING_PTE_SWPTYP_MASK 0"
  define e' where "e' = SETVAL e swpoff PAGING_PTE_SWPOFF_MASK 5"
  have "\<not> bit e' 31" "bit e' 30" by (simp_all add: e_def e'_def entry_bits)
  moreover have "PAGING_PTE_SWP e' = swpoff"
    using GETVAL_SETVAL [of 25 5] assms(2)
    by (simp add: e'_def PAGING_PTE_SWP_def PAGING_PTE_SWPOFF_MASK_def take_bit_id32)
  moreover have "PAGING_PTE_SWPTYP e' = PAGING_PTE_SWPTYP e"
    unfolding PAGING_PTE_SWPTYP_def PAGING_PTE_SWPTYP_MASK_def
    by (rule GETVAL_cong) (simp_all add: e'_def PAGING_PTE_SWPOFF_MASK_def bit_SETVAL)
  moreover have "PAGING_PTE_SWPTYP e = swptyp"
    using GETVAL_SETVAL [of 4 0] assms(3) take_bit_id32 [of swptyp 5]
    by (simp add: e_def PAGING_PTE_SWPTYP_def PAGING_PTE_SWPTYP_MASK_def)
  ultimately show ?thesis
    using assms(1)
    by (simp add: pte_set_swap32_def change_pte32_def PAGING_PAGE_PRESENT_def flag_bit masks32(1,2) e_def e'_def)
qed

text \<open>
  Encoding of entries in 32-bit mode. After \<open>pte_set_fpn\<close> the entry of the page is present, not swapped, and
  yields the frame number back; after \<open>pte_set_swap\<close> it is swapped, not present, and yields the swap type and
  offset back; in both cases whatever the entry held before, and no other entry of the directory changes.
\<close>

theorem pte32_round_trip:
  assumes "unat pgn < length pgd" "fpn < 2 ^ 13" "swpoff < 2 ^ 21" "swptyp < 32"
  shows "(\<exists>d. pte_set_fpn32 pgd pgn fpn = Some (0, d) \<and> PAGING_PAGE_PRESENT (d ! unat pgn) \<and>
      d ! unat pgn AND PAGING_PTE_SWAPPED_MASK = 0 \<and> PAGING_PTE_FPN (d ! unat pgn) = fpn \<and>
      (\<forall>i. i \<noteq> unat pgn \<longrightarrow> d ! i = pgd ! i)) \<and>
    (\<exists>d. pte_set_swap32 pgd pgn (uint swptyp) swpoff = Some (0, d) \<and> \<not> PAGING_PAGE_PRESENT (d ! unat pgn) \<and>
      d ! unat pgn AND PAGING_PTE_SWAPPED_MASK \<noteq> 0 \<and> PAGING_PTE_SWP (d ! unat pgn) = swpoff \<and>
      PAGING_PTE_SWPTYP (d ! unat pgn) = swptyp \<and> (\<forall>i. i \<noteq> unat pgn \<longrightarrow> d ! i = pgd ! i))"
  using pte_set_fpn32_entry [OF assms(1,2)] pte_set_swap32_entry [OF assms(1,3,4)] by blast

theorem pte32_round_trip_witness:
  "\<exists>d. pte_set_fpn32 [0, 0xFFFFFFFF, 0] 1 5 = Some (0, d) \<and> PAGING_PTE_FPN (d ! 1) = 5 \<and> d ! 0 = 0"
  using pte32_round_trip [of 1 "[0, 0xFFFFFFFF, 0]" 5 0 0] by auto

subsection \<open>The position of the highest bit\<close>

text \<open>Halving: the upper half of \<open>2 * k\<close> bits is inspected when it is not zero, the lower half otherwise.\<close>

definition highest_bit :: "addr32 \<Rightarrow> nat \<Rightarrow> bool" where
  "highest_bit n k \<longleftrightarrow> 2 ^ k \<le> unat n \<and> unat n < 2 ^ (k + 1)"

lemma upper_half_zero:
  fixes n :: addr32
  assumes "unat n < 2 ^ (k + k)" "k + k \<le> 32"
  shows "n AND push_bit k (mask k) = 0 \<longleftrightarrow> unat n < 2 ^ k"
proof -
  have top: "i < k + k" if "bit n i" for i
  proof -
    have "bit (take_bit (k + k) (unat n)) i"
      using that assms(1) by (simp add: take_bit_nat_eq_self bit_unsigned_iff bit_imp_le_length)
    then show ?thesis by (simp add: bit_take_bit_iff)
  qed
  have mask: "bit (n AND push_bit k (mask k)) i \<longleftrightarrow> k \<le> i \<and> bit n i" for i
    using top [of i] bit_imp_le_length [of n i] by (auto simp: bit_simps)
  have "n AND push_bit k (mask k) = 0 \<longleftrightarrow> (\<forall>i. k \<le> i \<longrightarrow> \<not> bit n i)"
    unfolding bit_eq_iff mask using bit_imp_le_length [of n] by fastforce
  also have "\<dots> \<longleftrightarrow> drop_bit k n = 0"
    unfolding bit_eq_iff bit_drop_bit_eq using bit_imp_le_length [of n] by (fastforce simp: le_iff_add)
  also have "\<dots> \<longleftrightarrow> unat (drop_bit k n) = 0" by (simp only: unat_eq_zero)
  also have "\<dots> \<longleftrightarrow> unat n div 2 ^ k = 0"
    by (simp only: unat_drop_bit_eq) (simp only: drop_bit_eq_div)
  finally show ?thesis by (simp add: div_eq_0_iff)
qed

lemma highest_bit_halve:
  fixes n :: addr32
  assumes "\<And>m. 0 < unat m \<Longrightarrow> unat m < 2 ^ k \<Longrightarrow> highest_bit m (f m)"
    and "0 < unat n" "unat n < 2 ^ (k + k)" "k + k \<le> 32"
  shows "highest_bit n (if n AND push_bit k (mask k) \<noteq> 0 then k + f (drop_bit k n) else f n)"
proof (cases "unat n < 2 ^ k")
  case True
  with assms show ?thesis using upper_half_zero [of n k] by simp
next
  case False
  have d: "unat (drop_bit k n) = unat n div 2 ^ k" unfolding unat_drop_bit_eq by (rule drop_bit_eq_div)
  have "0 < unat n div 2 ^ k" "unat n div 2 ^ k < 2 ^ k"
    using False assms(3) by (simp_all add: div_greater_zero_iff less_mult_imp_div_less power_add)
  then have "highest_bit (drop_bit k n) (f (drop_bit k n))" using assms(1) d by simp
  then have "2 ^ f (drop_bit k n) \<le> unat n div 2 ^ k" "unat n div 2 ^ k < 2 ^ (f (drop_bit k n) + 1)"
    by (simp_all add: highest_bit_def d)
  then have "highest_bit n (k + f (drop_bit k n))"
    by (auto simp: highest_bit_def power_add less_eq_div_iff_mult_less_eq div_less_iff_less_mult ac_simps)
  then show ?thesis using False assms upper_half_zero [of n k] by simp
qed

lemma half_masks:
  "(0xC :: addr32) = push_bit 2 (mask 2)" "(0xF0 :: addr32) = push_bit 4 (mask 4)"
  "(0xFF00 :: addr32) = push_bit 8 (mask 8)" "(0xFFFF0000 :: addr32) = push_bit 16 (mask 16)"
  by (simp_all add: mask_eq_exp_minus_1 push_bit_eq_mult)

lemma NBITS2_highest: "0 < unat n \<Longrightarrow> unat n < 2 ^ 2 \<Longrightarrow> highest_bit n (NBITS2 n)"
proof -
  assume n: "0 < unat n" "unat n < 2 ^ 2"
  then have "unat n = 1 \<or> unat n = 2 \<or> unat n = 3" by auto
  then have "n = 1 \<or> n = 2 \<or> n = 3" by (auto simp: word_eq_iff_unsigned [where 'a = nat])
  then show ?thesis by (auto simp: NBITS2_def highest_bit_def)
qed

lemma NBITS4_highest: "0 < unat n \<Longrightarrow> unat n < 2 ^ 4 \<Longrightarrow> highest_bit n (NBITS4 n)"
  unfolding NBITS4_def half_masks by (rule highest_bit_halve) (simp_all add: NBITS2_highest)

lemma NBITS8_highest: "0 < unat n \<Longrightarrow> unat n < 2 ^ 8 \<Longrightarrow> highest_bit n (NBITS8 n)"
  unfolding NBITS8_def half_masks by (rule highest_bit_halve) (simp_all add: NBITS4_highest)

lemma NBITS16_highest: "0 < unat n \<Longrightarrow> unat n < 2 ^ 16 \<Longrightarrow> highest_bit n (NBITS16 n)"
  unfolding NBITS16_def half_masks by (rule highest_bit_halve) (simp_all add: NBITS8_highest)

lemma NBITS32_highest: "0 < unat n \<Longrightarrow> highest_bit n (NBITS32 n)"
  unfolding NBITS32_def half_masks using unsigned_less [of n, where 'a = nat]
  by (intro highest_bit_halve) (simp_all add: NBITS16_highest)

text \<open>
  The macro \<open>NBITS\<close>, five nested halvings, computes the floor of the binary logarithm of every 32-bit number,
  and 0 for 0.
\<close>

theorem nbits_floor_log: "NBITS n = floorlog 2 (unat n) - 1"
proof (cases "n = 0")
  case True
  then show ?thesis by (simp add: NBITS_def floorlog_def)
next
  case False
  then have "0 < unat n" by (simp add: unat_gt_0)
  with NBITS32_highest [of n] False have "2 ^ NBITS n \<le> unat n" "unat n < 2 ^ (NBITS n + 1)"
    by (simp_all add: NBITS_def highest_bit_def)
  then have "\<lfloor>log 2 (unat n)\<rfloor> = NBITS n" using floor_log_nat_eq_if [of 2 "NBITS n" "unat n"] by simp
  with \<open>0 < unat n\<close> show ?thesis by (simp add: floorlog_def)
qed

text \<open>The page size has eight bits, so an address of the 22-bit bus is its page number and its offset.\<close>

lemma NBITS_PAGESZ: "NBITS PAGING_PAGESZ = 8"
  by (simp add: NBITS_def PAGING_PAGESZ_def NBITS32_def NBITS16_def NBITS8_def NBITS4_def NBITS2_def)

theorem address32_split:
  assumes "a < 2 ^ 22"
  shows "a = PAGING_PGN a * PAGING_PAGESZ + PAGING_OFFST a \<and> PAGING_PGN a < PAGING_MAX_PGN \<and>
    PAGING_OFFST a < PAGING_PAGESZ"
proof -
  have "PAGING_OFFST a = take_bit 8 a" "PAGING_PGN a = take_bit 14 (drop_bit 8 a)"
    using GETVAL_field [of 7 0 a] GETVAL_field [of 21 8 a]
    by (simp_all add: PAGING_OFFST_def PAGING_OFFST_MASK_def PAGING_PGN_def PAGING_PGN_MASK_def NBITS_PAGESZ
        PAGING_CPU_BUS_WIDTH_def)
  moreover have "unat (drop_bit 8 a) = unat a div 256" unfolding unat_drop_bit_eq by (simp add: drop_bit_eq_div)
  with assms have d: "drop_bit 8 a < 2 ^ 14" by (simp add: word_less_nat_alt del: drop_bit_eq_div)
  then have "take_bit 14 (drop_bit 8 a) = drop_bit 8 a" by (rule take_bit_id32) simp
  moreover have "take_bit 8 a < 256" by (simp add: take_bit_eq_mod word_mod_less_divisor)
  moreover have "PAGING_MAX_PGN = 2 ^ 14" by (simp add: PAGING_MAX_PGN_def DIV_ROUND_UP_def BIT_def PAGING_CPU_BUS_WIDTH_def PAGING_PAGESZ_def)
  moreover have "a = drop_bit 8 a * 256 + take_bit 8 a" using bits_ident [of 8 a] by (simp add: push_bit_eq_mult)
  ultimately show ?thesis using d by (simp add: PAGING_PAGESZ_def)
qed

theorem address32_split_witness: "0x1234 = PAGING_PGN 0x1234 * PAGING_PAGESZ + PAGING_OFFST 0x1234"
  using address32_split [of "0x1234"] by simp

end
