(* ===== verification/Exit.thy ===== *)
theory Exit
  imports Simulation
begin

text \<open>
  The end of a process: what \<open>free_pcb_all\<close> of src/os.c and \<open>free_pcb_memph\<close> of src/libmem.c give back.
  The recursive walk of \<open>pcb_memph_collect_recursive\<close> over the five levels is shown to be one pass over the
  entries of the table, each with its address, so that the slots it puts on the free lists are those the process owns.
\<close>

section \<open>The entries of a page table\<close>

text \<open>Every entry below a table of height \<open>n\<close> with the indices that lead to it, in the order of the walk.\<close>

definition under :: "addr \<Rightarrow> (addr list \<times> addr) \<times> addr \<Rightarrow> (addr list \<times> addr) \<times> addr" where
  "under i x = ((i # fst (fst x), snd (fst x)), snd x)"

primrec entries :: "nat \<Rightarrow> ptab \<Rightarrow> ((addr list \<times> addr) \<times> addr) list" where
  "entries 0 t = (case t of PT g \<Rightarrow> map (\<lambda>i. (([], of_nat i), g (of_nat i))) [0..<512] | Dir f \<Rightarrow> [])"
| "entries (Suc n) t = (case t of PT g \<Rightarrow> []
   | Dir f \<Rightarrow> concat (map (\<lambda>i. case f (of_nat i) of None \<Rightarrow> [] | Some u \<Rightarrow> map (under (of_nat i)) (entries n u)) [0..<512]))"

lemma under_iff: "((is, j), e) \<in> under i ` S \<longleftrightarrow> (\<exists>is'. is = i # is' \<and> ((is', j), e) \<in> S)"
  by (force simp: under_def)

lemma inj_under: "inj (under i)"
  by (auto simp: under_def inj_def prod_eq_iff)

lemma distinct_concat_map:
  "distinct xs \<Longrightarrow> (\<And>x. x \<in> set xs \<Longrightarrow> distinct (g x)) \<Longrightarrow>
   (\<And>x y z. x \<in> set xs \<Longrightarrow> y \<in> set xs \<Longrightarrow> z \<in> set (g x) \<Longrightarrow> z \<in> set (g y) \<Longrightarrow> x = y) \<Longrightarrow> distinct (concat (map g xs))"
  by (induction xs) auto

lemma fold_concat_map: "fold f (concat (map g xs)) = fold (\<lambda>x. fold f (g x)) xs"
  by (induction xs) simp_all

text \<open>The walk of the code is one pass over the entries.\<close>

lemma collect_entries:
  "pcb_memph_collect_recursive n c t = fold (\<lambda>x. collect_entry c (snd x)) (entries n t)"
proof (induction n arbitrary: t)
  case 0
  then show ?case by (simp add: fold_map comp_def id_def split: ptab.split)
next
  case (Suc n)
  have "fold (\<lambda>x. collect_entry c (snd x)) (map (under i) (entries n u)) =
    fold (\<lambda>x. collect_entry c (snd x)) (entries n u)" for i u
    by (simp add: fold_map comp_def under_def)
  with Suc.IH show ?case
    by (auto simp: fold_concat_map split: ptab.split option.split intro!: fold_cong)
qed

lemma index_range: "(\<exists>k \<in> {0..<512}. (i :: addr) = of_nat k) \<longleftrightarrow> i < 512"
proof
  assume "i < 512"
  then show "\<exists>k \<in> {0..<512}. i = of_nat k"
    by (intro bexI [of _ "unat i"]) (simp_all add: word_less_nat_alt)
qed (auto simp: word_less_nat_alt unat_of_nat)

lemma entries_iff:
  "((is, j), e) \<in> set (entries n t) \<longleftrightarrow>
   length is = n \<and> (\<forall>i \<in> set is. i < 512) \<and> j < 512 \<and> tab_get t is j = Some e"
proof (induction n arbitrary: t "is")
  case 0
  show ?case using index_range [of j] by (cases t) auto
next
  case (Suc n)
  show ?case
  proof (cases t)
    case (Dir f)
    have sub: "((is, j), e) \<in> set (case x of None \<Rightarrow> [] | Some u \<Rightarrow> map (under i) (entries n u)) \<longleftrightarrow>
      (\<exists>u is'. x = Some u \<and> is = i # is' \<and> ((is', j), e) \<in> set (entries n u))" for x i
      by (cases x) (simp_all add: under_iff)
    have "((is, j), e) \<in> set (entries (Suc n) t) \<longleftrightarrow>
      (\<exists>i \<in> {0..<512}. \<exists>u is'. f (of_nat i) = Some u \<and> is = of_nat i # is' \<and> ((is', j), e) \<in> set (entries n u))"
      unfolding sub [symmetric] by (simp only: Dir entries.simps ptab.case set_concat set_map set_upt UN_iff bex_simps image_iff)
    also have "\<dots> \<longleftrightarrow> (\<exists>i is' u. is = i # is' \<and> i < 512 \<and> f i = Some u \<and> ((is', j), e) \<in> set (entries n u))"
      unfolding index_range [symmetric] by blast
    also have "\<dots> \<longleftrightarrow> length is = Suc n \<and> (\<forall>i \<in> set is. i < 512) \<and> j < 512 \<and> tab_get t is j = Some e"
      by (cases "is") (auto simp: Suc.IH Dir split: option.splits)
    finally show ?thesis .
  qed (cases "is", simp_all)
qed

lemma inj_on_index: "inj_on (of_nat :: nat \<Rightarrow> addr) {0..<512}"
  by (rule inj_onI) (simp add: word_of_nat_eq_iff take_bit_nat_eq_self)

lemma distinct_entries: "distinct (map fst (entries n t))"
proof (induction n arbitrary: t)
  case 0
  show ?case using inj_on_index by (cases t) (auto simp: distinct_map inj_on_def)
next
  case (Suc n)
  show ?case
  proof (cases t)
    case (Dir f)
    let ?sub = "\<lambda>i. map fst (case f (of_nat i) of None \<Rightarrow> [] | Some u \<Rightarrow> map (under (of_nat i)) (entries n u))"
    have head: "hd (fst k) = of_nat i" if "k \<in> set (?sub i)" for k i
      using that by (auto simp: under_def split: option.splits)
    have sub: "distinct (?sub i)" for i
    proof (cases "f (of_nat i)")
      case (Some u)
      define g where "g = (\<lambda>k :: addr list \<times> addr. (of_nat i # fst k, snd k) :: addr list \<times> addr)"
      have "inj g" by (auto simp: inj_def g_def prod_eq_iff)
      then have "distinct (map g (map fst (entries n u)))"
        using Suc.IH [of u] by (simp only: distinct_map [of g] inj_on_subset [OF _ subset_UNIV] simp_thms)
      moreover have "?sub i = map g (map fst (entries n u))" by (simp add: Some under_def g_def)
      ultimately show ?thesis by simp
    qed simp
    have "distinct (concat (map ?sub [0..<512]))"
    proof (rule distinct_concat_map)
      fix i j k
      assume "i \<in> set [0..<512]" "j \<in> set [0..<512]" "k \<in> set (?sub i)" "k \<in> set (?sub j)"
      then show "i = j" using head [of k i] head [of k j] inj_on_index by (auto dest: inj_onD)
    qed (use sub in simp_all)
    then show ?thesis by (simp add: Dir map_concat comp_def)
  qed simp
qed

section \<open>Entries and pages\<close>

text \<open>The address of a page of the lower half from its indices.\<close>

definition path_addr :: "addr list \<Rightarrow> addr \<Rightarrow> addr" where
  "path_addr is j = push_bit 48 (is ! 0) OR push_bit 39 (is ! 1) OR push_bit 30 (is ! 2) OR push_bit 21 (is ! 3) OR push_bit 12 j"

lemma index_bits: "i < 512 \<Longrightarrow> bit i n \<Longrightarrow> n < 9" for i :: addr
proof -
  assume "i < 512" "bit i n"
  then have "take_bit 9 i = i" using take_bit_id [of i 9] by simp
  with \<open>bit i n\<close> show "n < 9" by (metis bit_take_bit_iff)
qed

lemma half_bits: "i < 256 \<Longrightarrow> bit i n \<Longrightarrow> n < 8" for i :: addr
proof -
  assume "i < 256" "bit i n"
  then have "take_bit 8 i = i" using take_bit_id [of i 8] by simp
  with \<open>bit i n\<close> show "n < 8" by (metis bit_take_bit_iff)
qed

lemma path_addr_bit:
  "bit (path_addr is j) n \<longleftrightarrow> n < 64 \<and>
     (48 \<le> n \<and> bit (is ! 0) (n - 48) \<or> 39 \<le> n \<and> bit (is ! 1) (n - 39) \<or> 30 \<le> n \<and> bit (is ! 2) (n - 30) \<or>
      21 \<le> n \<and> bit (is ! 3) (n - 21) \<or> 12 \<le> n \<and> bit j (n - 12))"
  by (auto simp: path_addr_def bit_or_iff bit_push_bit_iff)

lemma field_eqI: "i < 512 \<Longrightarrow> (\<And>n. n < 9 \<Longrightarrow> bit a (l + n) = bit i n) \<Longrightarrow> take_bit 9 (drop_bit l a) = i" for i a :: addr
  by (rule bit_word_eqI) (auto simp: bit_take_bit_iff bit_drop_bit_eq dest: index_bits)

lemma path_addr_fields:
  assumes "length is = 4" "\<forall>i \<in> set is. i < 512" "j < 512"
  shows "dir_path (path_addr is j) = is" "pt_index (path_addr is j) = j"
proof -
  obtain i0 i1 i2 i3 where i: "is = [i0, i1, i2, i3]"
    using assms(1) by (auto simp: length_Suc_conv eval_nat_numeral)
  have b: "i0 < 512" "i1 < 512" "i2 < 512" "i3 < 512" using assms(2) by (simp_all add: i)
  have f: "\<not> bit x n" if "9 \<le> n" "x \<in> {i0, i1, i2, i3, j}" for x n
    using that index_bits [of x n] b assms(3) by auto
  have "take_bit 9 (drop_bit 48 (path_addr is j)) = i0" "take_bit 9 (drop_bit 39 (path_addr is j)) = i1"
    "take_bit 9 (drop_bit 30 (path_addr is j)) = i2" "take_bit 9 (drop_bit 21 (path_addr is j)) = i3"
    "take_bit 9 (drop_bit 12 (path_addr is j)) = j"
    by (rule field_eqI; use b assms(3) f in \<open>force simp: path_addr_bit i\<close>)+
  then show "dir_path (path_addr is j) = is" "pt_index (path_addr is j) = j"
    by (simp_all add: dir_path_fields i)
qed

lemma path_addr_user:
  assumes "is \<noteq> []" "hd is < 256" "\<forall>i \<in> set is. i < 512" "length is = 4" "j < 512"
  shows "canonical (path_addr is j)" "\<not> is_kernel_address (path_addr is j)" "push_bit 12 (drop_bit 12 (path_addr is j)) = path_addr is j"
proof -
  obtain i0 i1 i2 i3 where i: "is = [i0, i1, i2, i3]"
    using assms(4) by (auto simp: length_Suc_conv eval_nat_numeral)
  have b: "i0 < 256" "i1 < 512" "i2 < 512" "i3 < 512" using assms(2,3) by (simp_all add: i)
  have f: "\<not> bit x n" if "9 \<le> n" "x \<in> {i1, i2, i3, j}" for x n
    using that index_bits [of x n] b assms(5) by auto
  have top: "\<not> bit (path_addr is j) n" if "56 \<le> n" for n
    using that half_bits [OF b(1), of "n - 48"] f [of "n - 39" i1] f [of "n - 30" i2] f [of "n - 21" i3] f [of "n - 12" j]
    by (auto simp: path_addr_bit i)
  then show "canonical (path_addr is j)" "\<not> is_kernel_address (path_addr is j)"
    by (simp_all add: canonical_bits is_kernel_address_bit)
  show "push_bit 12 (drop_bit 12 (path_addr is j)) = path_addr is j"
    by (rule bit_word_eqI) (auto simp: bit_push_bit_iff bit_drop_bit_eq path_addr_bit)
qed

section \<open>What a process owns\<close>

text \<open>The frames and swap slots that the entries of a table name, in the order of the walk, and the slots of a process.\<close>

definition held_slots :: "ptab \<Rightarrow> slot list" where
  "held_slots t = map (\<lambda>x. the (slot_of (snd x))) (filter (\<lambda>x. slot_of (snd x) \<noteq> None) (entries 4 t))"

definition owned :: "sys \<Rightarrow> pptr \<Rightarrow> slot set" where
  "owned s c = {sl. \<exists>p. user_slot s c p = Some sl}"

text \<open>An entry of the table is the entry of the page with its address.\<close>

lemma entry_page:
  assumes "pt_wf s" "caller_mm s c = Some m" "mm_pgd m = Some t" "tidy_tab t" "((is, j), e) \<in> set (entries 4 t)"
  shows "user_slot s c (drop_bit 12 (path_addr is j)) = slot_of e"
    "push_bit 12 (drop_bit 12 (path_addr is j)) = path_addr is j"
    "dir_path (path_addr is j) = is" "pt_index (path_addr is j) = j"
proof -
  from assms(5) have e: "length is = 4" "\<forall>i \<in> set is. i < 512" "j < 512" "tab_get t is j = Some e"
    by (simp_all add: entries_iff)
  then obtain i0 is' where "is = i0 # is'" by (cases "is") auto
  with e(4) assms(4) have h: "is \<noteq> []" "hd is < 256" by (auto simp: tidy_tab_def)
  note u = path_addr_user [OF h e(2,1,3)]
  show "dir_path (path_addr is j) = is" "pt_index (path_addr is j) = j" using path_addr_fields [OF e(1-3)] .
  then have "pte_view s c (path_addr is j) = e" using assms(2,3) e(4) u(1,2) by (simp add: pte_view_def root_of_def tab_val_def)
  then show "user_slot s c (drop_bit 12 (path_addr is j)) = slot_of e"
    using u(2,3) pte_get_entry_view [OF assms(1)] by (simp add: user_slot_def user_page_def)
  show "push_bit 12 (drop_bit 12 (path_addr is j)) = path_addr is j" by (rule u(3))
qed

lemma page_entry:
  assumes "pt_wf s" "caller_mm s c = Some m" "mm_pgd m = Some t" "user_slot s c p = Some sl"
  shows "\<exists>k e. (k, e) \<in> set (entries 4 t) \<and> slot_of e = Some sl"
proof -
  let ?a = "push_bit 12 p" and ?e = "pte_get_entry s c p"
  from user_slot_entry [OF assms(4)] have e: "?e \<noteq> 0" "\<not> is_kernel_address ?a" by (simp_all add: user_page_def)
  with pte_get_entry_view [OF assms(1), of c p] assms(2,3) have "tab_get t (dir_path ?a) (pt_index ?a) = Some ?e"
    by (auto simp: pte_view_def root_of_def tab_val_def split: if_splits option.splits)
  moreover have "\<forall>i \<in> set (dir_path ?a). i < 512" "pt_index ?a < 512"
    using page_indices_bounded [of ?a] by (auto simp: dir_path_def pt_index_def split: prod.splits)
  ultimately have "((dir_path ?a, pt_index ?a), ?e) \<in> set (entries 4 t)" by (simp add: entries_iff)
  moreover have "slot_of ?e = Some sl" using assms(4) by (simp add: user_slot_def split: if_splits)
  ultimately show ?thesis by blast
qed

lemma set_held_slots:
  assumes "pt_wf s" "caller_mm s c = Some m" "mm_pgd m = Some t" "tidy_tab t"
  shows "set (held_slots t) = owned s c"
proof
  show "set (held_slots t) \<subseteq> owned s c"
    using entry_page(1) [OF assms] by (force simp: held_slots_def owned_def)
  show "owned s c \<subseteq> set (held_slots t)"
    using page_entry [OF assms(1-3)] by (force simp: held_slots_def owned_def)
qed

lemma distinct_held_slots:
  assumes "vm_inv w F s" "caller_mm s c = Some m" "mm_pgd m = Some t" "tidy_tab t"
  shows "distinct (held_slots t)"
proof -
  note inv = vm_invD [OF assms(1)]
  have "x = y" if x: "x \<in> set (entries 4 t)" "slot_of (snd x) = Some sl" and y: "y \<in> set (entries 4 t)" "slot_of (snd y) = Some sl" for x y sl
  proof -
    obtain "is" j e is' j' e' where [simp]: "x = ((is, j), e)" "y = ((is', j'), e')" by (metis surj_pair)
    note ex = entry_page [OF inv(1) assms(2-4) x(1)[simplified]] and ey = entry_page [OF inv(1) assms(2-4) y(1)[simplified]]
    have "user_slot s c (drop_bit 12 (path_addr is j)) = Some sl" "user_slot s c (drop_bit 12 (path_addr is' j')) = Some sl"
      using ex(1) ey(1) x(2) y(2) by simp_all
    from inv(9) [OF this] have "path_addr is j = path_addr is' j'" unfolding ex(2) ey(2) by simp
    then have "fst x = fst y" using ex(3,4) ey(3,4) by simp
    then show "x = y" using inj_onD [of fst, OF _ _ x(1) y(1)] distinct_entries [of 4 t] by (simp add: distinct_map)
  qed
  moreover have "distinct (entries 4 t)" using distinct_entries [of 4 t] by (simp add: distinct_map)
  ultimately show ?thesis by (auto simp: held_slots_def distinct_map inj_on_def)
qed

section \<open>Giving slots back\<close>

definition put_slots :: "nat \<Rightarrow> slot list \<Rightarrow> sys \<Rightarrow> sys" where
  "put_slots w = fold (\<lambda>(d, f). dev_put_freefp (Some (dev_of w d)) f)"

lemma put_slots_simps [simp]:
  "put_slots w [] s = s" "put_slots w ((d, f) # sls) s = put_slots w sls (dev_put_freefp (Some (dev_of w d)) f s)"
  by (simp_all add: put_slots_def)

lemma dev_put_freefp_frame [simp]:
  "pcbs (dev_put_freefp d f s) = pcbs s" "caller_mm (dev_put_freefp d f s) c = caller_mm s c"
  "caller_mram (dev_put_freefp d f s) c = caller_mram s c" "caller_mswp (dev_put_freefp d f s) c = caller_mswp s c"
  "dev_put_freefp d f (s\<lparr>pcbs := P\<rparr>) = (dev_put_freefp d f s)\<lparr>pcbs := P\<rparr>"
  by (auto simp: dev_put_freefp_def Let_def case_prod_beta upd_dev_def caller_mm_def caller_mram_def caller_mswp_def
      caller_krnl_def split: option.split)

lemma put_slots_frame [simp]:
  "pcbs (put_slots w sls s) = pcbs s" "put_slots w sls (s\<lparr>pcbs := P\<rparr>) = (put_slots w sls s)\<lparr>pcbs := P\<rparr>"
  by (induction sls arbitrary: s) auto

text \<open>One entry of the walk gives back the slot it names, and nothing when it names none.\<close>

lemma collect_entry_slot:
  assumes "caller_mram s c = Some 0" "caller_mswp s c = Some w" "clean e"
  shows "collect_entry c e s = (case slot_of e of None \<Rightarrow> s | Some sl \<Rightarrow> put_slots w [sl] s)"
proof -
  have "\<not> PAGING64_PAGE_PRESENT 0" "\<not> PAGING64_PAGE_SWAPPED 0" by (simp_all add: page_present_bit page_swapped_bit)
  with assms show ?thesis by (cases "e = 0") (auto simp: collect_entry_def slot_of_def dev_of_def clean_def)
qed

lemma collect_put_slots:
  assumes "caller_mram s c = Some 0" "caller_mswp s c = Some w"
    and "\<forall>x \<in> set xs. clean (snd x)"
  shows "fold (\<lambda>x. collect_entry c (snd x)) xs s =
    put_slots w (map (\<lambda>x. the (slot_of (snd x))) (filter (\<lambda>x. slot_of (snd x) \<noteq> None) xs)) s"
  using assms
proof (induction xs arbitrary: s)
  case (Cons x xs)
  then show ?case by (cases "slot_of (snd x)") (auto simp: collect_entry_slot)
qed simp

lemma collect_held_slots:
  assumes "caller_mram s c = Some 0" "caller_mswp s c = Some w" "tidy_tab t"
  shows "pcb_memph_collect_recursive 4 c t s = put_slots w (held_slots t) s"
proof -
  have "clean e" if "((is, j), e) \<in> set (entries 4 t)" for "is" j e
    using that assms(3) by (cases "is") (auto simp: entries_iff tidy_tab_def)
  then have "\<forall>x \<in> set (entries 4 t). clean (snd x)" by auto
  from collect_put_slots [OF assms(1,2) this] show ?thesis by (simp add: collect_entries held_slots_def)
qed

text \<open>Slots that the running code holds go to the free lists, in reverse order at the front.\<close>

definition of_device :: "bool \<Rightarrow> slot list \<Rightarrow> addr list" where
  "of_device d sls = map snd (filter (\<lambda>sl. fst sl = d) sls)"

lemma put_slots_inv:
  assumes "vm_inv w (F \<union> set sls) s" "distinct sls" "F \<inter> set sls = {}"
  shows "vm_inv w F (put_slots w sls s) \<and> vbyte w (put_slots w sls s) = vbyte w s \<and>
    user_slot (put_slots w sls s) = user_slot s"
  using assms
proof (induction sls arbitrary: s)
  case (Cons sl sls)
  obtain d f where [simp]: "sl = (d, f)" by (cases sl)
  have "F \<union> set (sl # sls) - {(d, f)} = F \<union> set sls" using Cons.prems(2,3) by auto
  with dev_put_freefp_inv [OF Cons.prems(1), of d f] Cons.IH [of "dev_put_freefp (Some (dev_of w d)) f s"] Cons.prems(2,3)
  show ?case by simp
qed simp

lemma put_slots_free:
  assumes "host_ok (sy_host s)" "w \<noteq> 0"
  shows "free_fp_list (devs (put_slots w sls s) (dev_of w d)) = rev (of_device d sls) @ free_fp_list (devs s (dev_of w d)) \<and>
    host_ok (sy_host (put_slots w sls s))"
  using assms(1)
proof (induction sls arbitrary: s)
  case (Cons sl sls)
  obtain e f where [simp]: "sl = (e, f)" by (cases sl)
  obtain h where p: "dev_put_freefp (Some (dev_of w e)) f s = (with_free (dev_of w e) (f # free_fp_list (devs s (dev_of w e))) s)\<lparr>sy_host := h\<rparr>"
    "host_ok h"
    using dev_put_freefp_cases [of "dev_of w e" f s] Cons.prems by (metis host_ok_def)
  have "dev_of w d = dev_of w e \<longleftrightarrow> d = e" using assms(2) by (auto simp: dev_of_def)
  then show ?case using Cons.IH [of "dev_put_freefp (Some (dev_of w e)) f s"] p
    by (auto simp: of_device_def with_free_def)
qed (simp add: of_device_def)

section \<open>The process is gone\<close>

definition dead :: "pptr \<Rightarrow> sys \<Rightarrow> sys" where
  "dead c s = s\<lparr>pcbs := (pcbs s)(c := None)\<rparr>"

lemma dead_frame [simp]:
  "caller_krnl (dead c s) x = (if x = c then None else caller_krnl s x)"
  "caller_mm (dead c s) x = (if x = c then None else caller_mm s x)"
  "caller_mram (dead c s) x = (if x = c then None else caller_mram s x)"
  "caller_mswp (dead c s) x = (if x = c then None else caller_mswp s x)"
  "kroot_of (dead c s) x = (if x = c then None else kroot_of s x)"
  "devs (dead c s) = devs s" "kroots (dead c s) = kroots s" "next_root (dead c s) = next_root s" "sy_host (dead c s) = sy_host s"
  by (auto simp: dead_def caller_krnl_def caller_mm_def caller_mram_def caller_mswp_def kroot_of_def)

lemma pt_wf_dead [simp]: "pt_wf s \<Longrightarrow> pt_wf (dead c s)"
  by (auto simp: pt_wf_def split: if_splits)

lemma pte_dead: "pt_wf s \<Longrightarrow> pte_get_entry (dead c s) x p = (if x = c then 0 else pte_get_entry s x p)"
  by (simp add: pte_get_entry_view pte_view_def root_of_def)

lemma user_slot_dead: "pt_wf s \<Longrightarrow> user_slot (dead c s) x p = (if x = c then None else user_slot s x p)"
  by (simp add: user_slot_def pte_dead slot_of_def page_present_bit page_swapped_bit)

lemma vbyte_dead: "pt_wf s \<Longrightarrow> vbyte w (dead c s) x a = (if x = c then None else vbyte w s x a)"
  by (simp add: vbyte_def user_slot_dead slot_byte_def)

text \<open>The slots of a process that is gone belong to nobody.\<close>

lemma dead_inv:
  assumes "vm_inv w F s"
  shows "vm_inv w (F \<union> owned s c) (dead c s)" "F \<inter> owned s c = {}"
proof -
  note inv = vm_invD [OF assms]
  show "F \<inter> owned s c = {}" using inv(8) by (auto simp: owned_def)
  show "vm_inv w (F \<union> owned s c) (dead c s)"
  proof (rule vm_invI)
    show "callers_ok w (dead c s)" using inv(3) by (simp add: callers_ok_def)
    show "slot_ok w (dead c s) sl" if "sl \<in> F \<union> owned s c" for sl
      using that inv(6,7) by (auto simp: slot_ok_def owned_def)
    show "slot_ok w (dead c s) sl \<and> sl \<notin> F \<union> owned s c" if "user_slot (dead c s) x p = Some sl" for x p sl
      using that inv(7,8) [of x p sl] inv(9) [of x p sl c] inv(1)
      by (auto simp: user_slot_dead owned_def slot_ok_def split: if_splits)
    show "x' = x \<and> push_bit 12 p' = push_bit 12 p"
      if "user_slot (dead c s) x p = Some sl" "user_slot (dead c s) x' p' = Some sl" for x p x' p' sl
    proof (rule inv(9))
      show "user_slot s x p = Some sl" "user_slot s x' p' = Some sl"
        using that by (simp_all add: user_slot_dead [OF inv(1)] split: if_splits)
    qed
    show "devices_ok w (dead c s)" using inv(2) by (simp add: devices_ok_def)
  qed (use inv(1) in simp)
qed

section \<open>The end of a user process\<close>

text \<open>A process without kernel allocations: no cache pools, and no kernel region in its symbol table.\<close>

definition user_only :: "mm_struct \<Rightarrow> bool" where
  "user_only m \<longleftrightarrow> kcpooltbl m = None \<and> length (symrgtbl m) = PAGING_MAX_SYMTBL_SZ \<and>
     (\<forall>r \<in> set (symrgtbl m). \<not> is_kernel_vaddr_range (rg_start r) (rg_end r))"

lemma no_table_slot: "pt_wf s \<Longrightarrow> caller_mm s c = Some m \<Longrightarrow> mm_pgd m = None \<Longrightarrow> user_slot s c p = None"
  by (simp add: user_slot_def user_page_def pte_get_entry_view pte_view_def root_of_def slot_of_def page_present_bit page_swapped_bit)

lemma release_symrgs_user:
  assumes "caller_mm s c = Some m" "\<forall>i \<in> set is. \<not> is_kernel_vaddr_range (rg_start (symrgtbl m ! i)) (rg_end (symrgtbl m ! i))"
  shows "release_symrgs s c is = s"
  using assms by (induction s c "is" rule: release_symrgs.induct) (simp_all add: Let_def)

lemma free_pcb_all_user:
  assumes "vm_inv w F s" "caller_mm s c = Some m" "user_only m" "tidy s"
  obtains sls where "free_pcb_all c s = Some (put_slots w sls (dead c s))" "set sls = owned s c" "distinct sls"
proof -
  define sls where "sls = (case mm_pgd m of None \<Rightarrow> [] | Some t \<Rightarrow> held_slots t)"
  note inv = vm_invD [OF assms(1)]
  have tt: "tidy_tab t" if "mm_pgd m = Some t" for t using that assms(2,4) by (simp add: tidy_def)
  obtain k where k: "caller_krnl s c = Some k" "k_mm k = Some m" using caller_mm_krnl [OF assms(2)] by blast
  then obtain b where b: "c \<noteq> NULL" "pcbs s c = Some b" "krnl b = Some k"
    by (auto simp: caller_krnl_def bind_eq_Some_conv split: if_splits)
  have rel: "release_kernel_symrg_allocations (release_kernel_cache_pools s c) c = s"
    using assms(2,3) release_symrgs_user [OF assms(2), of "[0..<PAGING_MAX_SYMTBL_SZ]"]
    by (simp add: release_kernel_cache_pools_def release_kernel_symrg_allocations_def user_only_def)
  have col: "(case mm_pgd m of None \<Rightarrow> s | Some t \<Rightarrow> pcb_memph_collect_recursive 4 c t s) = put_slots w sls s"
    using collect_held_slots inv(10) [OF assms(2)] tt by (simp add: sls_def split: option.split)
  have "free_pcb_memph s c = Some (0, upd_mm c (\<lambda>m. m\<lparr>fifo_pgn := []\<rparr>) (put_slots w sls s))"
    using assms(2) by (simp add: free_pcb_memph_def rel col)
  then have "free_pcb_all c s = Some (put_slots w sls (dead c s))"
    using b k by (auto simp: free_pcb_all_def free_mm_def upd_mm_def upd_krnl_def dead_def)
  moreover have "set sls = owned s c"
  proof (cases "mm_pgd m")
    case None
    with no_table_slot [OF inv(1) assms(2)] show ?thesis by (simp add: sls_def owned_def)
  next
    case (Some t)
    then show ?thesis using set_held_slots [OF inv(1) assms(2)] tt by (simp add: sls_def)
  qed
  moreover have "distinct sls"
    using distinct_held_slots [OF assms(1,2)] tt by (simp add: sls_def split: option.split)
  ultimately show thesis by (rule that)
qed

section \<open>Every page table of the simulation is tidy\<close>

lemma tidy_sub:
  assumes "tidy s" "\<And>x m t. caller_mm s' x = Some m \<Longrightarrow> mm_pgd m = Some t \<Longrightarrow>
    tidy_tab t \<or> (\<exists>m'. caller_mm s x = Some m' \<and> mm_pgd m' = Some t)"
  shows "tidy s'"
  using assms unfolding tidy_def by metis

lemma tidy_sched [simp]: "tidy (s\<lparr>sy_sched := x\<rparr>) = tidy s"
  by (rule tidy_cong) simp

lemma tidy_free_pcb_all: "free_pcb_all c s = Some s' \<Longrightarrow> tidy s \<Longrightarrow> tidy s'"
proof -
  assume f: "free_pcb_all c s = Some s'" and t: "tidy s"
  show "tidy s'"
  proof (cases "c = NULL")
    case False
    then obtain b s1 where b: "pcbs s c = Some b" "s' = dead c s1" "s1 = s \<or> (\<exists>r u. free_pcb_memph s c = Some (r, u) \<and> (s1 = u \<or> s1 = free_mm c u))"
      using f by (auto simp: free_pcb_all_def dead_def bind_eq_Some_conv split: option.splits if_splits)
    have "tidy u" if "free_pcb_memph s c = Some (r, u)" for r u using tidy.keep_free_pcb_memph [OF that] t by blast
    moreover have "tidy (dead c u)" if "tidy u" for u by (rule tidy_sub [OF that]) (auto split: if_splits)
    moreover have "dead c (free_mm c u) = dead c u" for u by (simp add: dead_def free_mm_def upd_krnl_def)
    ultimately show ?thesis using b t by metis
  qed (use f t in \<open>simp add: free_pcb_all_def\<close>)
qed

lemma caller_mm_put_proc:
  "put_proc sc P p = Inr (sc', P') \<Longrightarrow> caller_mm (s\<lparr>sy_sched := x, pcbs := P'\<rparr>) c = caller_mm (s\<lparr>pcbs := P\<rparr>) c"
  unfolding put_proc_def by (erule put_mlq_procD) (auto simp: caller_mm_def caller_krnl_def attach_queues_def)

lemma caller_mm_add_proc:
  "add_proc sc P p = Inr (sc', P') \<Longrightarrow> caller_mm (s\<lparr>sy_sched := x, pcbs := P'\<rparr>) c = caller_mm (s\<lparr>pcbs := P\<rparr>) c"
  unfolding add_proc_def by (erule add_mlq_procD) (auto simp: caller_mm_def caller_krnl_def attach_queues_def)

lemma init_mm_tidy:
  assumes "init_mm s k = Some (r, mm, k', s')" "tidy s"
  shows "tidy s'" "mm = Some m \<Longrightarrow> mm_pgd m = Some t \<Longrightarrow> tidy_tab t"
proof -
  show "tidy s'"
    using assms by (auto simp: init_mm_def init_vm_rg_def Let_def bind_eq_Some_conv split: option.splits prod.splits if_splits
        dest: tidy.keep_sys_alloc tidy.keep_init_kernel_page_table)
  show "mm = Some m \<Longrightarrow> mm_pgd m = Some t \<Longrightarrow> tidy_tab t"
    using assms(1) tidy.G_empty
    by (auto simp: init_mm_def Let_def bind_eq_Some_conv split: option.splits prod.splits if_splits)
qed

lemma tidy_ld_process: "ld_process os p b pr s = Some s' \<Longrightarrow> tidy s \<Longrightarrow> tidy s'"
proof -
  assume l: "ld_process os p b pr s = Some s'" and t: "tidy s"
  obtain u0 u1 r m k s1 where u: "untested_alloc s = Some u0" "untested_alloc u0 = Some u1"
    and i1: "init_mm u1 (Some os) = Some (r, Some m, Some k, s1)"
    using l by (auto simp: ld_process_def bind_eq_Some_conv)
  from u obtain h where "u1 = s\<lparr>sy_host := h\<rparr>" by (auto dest!: untested_alloc_frame)
  then have "tidy u1 = tidy s" by (intro tidy_cong) simp
  with t have t1: "tidy u1" by simp
  define b' where "b' = b\<lparr>prio := ucast pr, krnl := Some (k\<lparr>k_mm := Some m, k_mram := Some 0, k_active_mswp := Some 1\<rparr>)\<rparr>"
  have "(case add_proc (sy_sched s1) ((pcbs s1)(p \<mapsto> b')) p of Inl _ \<Rightarrow> None
     | Inr (sc, P) \<Rightarrow> Some (s1\<lparr>sy_sched := sc, pcbs := P\<rparr>)) = Some s'"
    using l u i1 by (auto simp: ld_process_def b'_def bind_eq_Some_conv Let_def split: sum.splits)
  then obtain sc P where i: "init_mm u1 (Some os) = Some (r, Some m, Some k, s1)" "Option.bind (krnl b') k_mm = Some m"
    "add_proc (sy_sched s1) ((pcbs s1)(p \<mapsto> b')) p = Inr (sc, P)" "s' = s1\<lparr>sy_sched := sc, pcbs := P\<rparr>"
    using i1 by (auto simp: b'_def split: sum.splits)
  note tm = init_mm_tidy [OF i(1) t1]
  show "tidy s'"
  proof (rule tidy_sub [OF tm(1)])
    fix x m' t
    assume "caller_mm s' x = Some m'" "mm_pgd m' = Some t"
    then show "tidy_tab t \<or> (\<exists>m'. caller_mm s1 x = Some m' \<and> mm_pgd m' = Some t)"
      using tm(2) [of m t] unfolding i(4) caller_mm_add_proc [OF i(3)]
      by (cases "x = p") (auto simp: caller_mm_def caller_krnl_def i(2) split: if_splits)
  qed
qed

lemma tidy_cpu_check: "cpu_check s u = Some (a, u', s') \<Longrightarrow> tidy s \<Longrightarrow> tidy s'"
proof -
  have put: "tidy (s\<lparr>sy_sched := sc, pcbs := P\<rparr>) = tidy s" if "put_proc x (pcbs s) p = Inr (sc, P)" for x p sc P
    using caller_mm_put_proc [OF that] by (intro tidy_cong) simp
  show "cpu_check s u = Some (a, u', s') \<Longrightarrow> tidy s \<Longrightarrow> tidy s'"
    by (auto simp: cpu_check_def bind_eq_Some_conv put split: if_splits sum.splits dest: tidy_free_pcb_all)
qed

lemma tidy_sim_step: "sim_step junk ts os n m m' \<Longrightarrow> tidy (sm_sys m) \<Longrightarrow> tidy (sm_sys m')"
proof (induction rule: sim_step.induct)
  case (fetch i m idle u a u' s')
  then show ?case by (auto simp: cpu_fetch_def next_proc_def Let_def split: prod.splits)
next
  case (execute i m u u' s')
  then show ?case by (auto simp: cpu_execute_def bind_eq_Some_conv dest: tidy_run)
qed (auto dest: tidy_cpu_check tidy_ld_process)

text \<open>
  C28: Page tables of the whole simulation. From the start of the simulator, for any number of CPUs, any
  programs and any interleaving of the threads, the page table of every process has entries of user pages only, and
  no entry is at once marked resident and swapped out.
\<close>

theorem page_tables_tidy:
  assumes "os_init ram szs (static_sys h dv) = Some (os, s)" "(sim_step junk ts os n)\<^sup>*\<^sup>* (boot_sim s ls) m"
  shows "tidy (sm_sys m)"
  using assms(2)
proof (induction rule: rtranclp_induct)
  case base
  then show ?case using os_init_frame(2) [OF assms(1)] by (simp add: boot_sim_def tidy_def caller_mm_def caller_krnl_def)
next
  case (step m m')
  then show ?case using tidy_sim_step by blast
qed

theorem page_tables_tidy_witness:
  "\<exists>os s m. os_init 8192 [12288, 0, 0, 0] (static_sys (\<lambda>_. True) (\<lambda>_. blank_memphy)) = Some (os, s) \<and>
     (sim_step \<lparr>rg_start = 0, rg_end = 0\<rparr> 2 os 2)\<^sup>*\<^sup>* (boot_sim s [(demo_calc, 100)]) m \<and> waiting (sy_sched (sm_sys m)) \<noteq> [] \<and>
     tidy (sm_sys m)"
proof -
  obtain os s m where d: "os_init 8192 [12288, 0, 0, 0] (static_sys (\<lambda>_. True) (\<lambda>_. blank_memphy)) = Some (os, s)"
    "sim_step \<lparr>rg_start = 0, rg_end = 0\<rparr> 2 os 2 (boot_sim s [(demo_calc, 100)]) m"
    "waiting (sy_sched (sm_sys m)) \<noteq> []" by (rule demo_loaded)
  have r: "(sim_step \<lparr>rg_start = 0, rg_end = 0\<rparr> 2 os 2)\<^sup>*\<^sup>* (boot_sim s [(demo_calc, 100)]) m"
    using d(2) by (rule r_into_rtranclp)
  from page_tables_tidy [OF d(1) r] d(1,3) r show ?thesis by blast
qed

section \<open>Properties\<close>

text \<open>
  C8: End of a process. When a process without kernel allocations ends, \<open>free_pcb_all\<close> returns exactly the RAM
  frames and the swap slots of its pages to the free lists of the two devices, each once; the PCB is gone, the memory
  invariant holds again, no byte of any other process changes, and the heaps of the others stay well-formed.
\<close>

theorem exit_returns_memory:
  assumes "vm_inv w F s" "host_ok (sy_host s)" "caller_mm s c = Some m" "user_only m"
    and "tidy s"
  shows "\<exists>s'. free_pcb_all c s = Some s' \<and> vm_inv w F s' \<and> pcbs s' = (pcbs s)(c := None) \<and>
    (\<forall>d. distinct (free_fp_list (devs s' (dev_of w d))) \<and>
      set (free_fp_list (devs s' (dev_of w d))) = set (free_fp_list (devs s (dev_of w d))) \<union> {f. (d, f) \<in> owned s c}) \<and>
    (\<forall>x a. vbyte w s' x a = (if x = c then None else vbyte w s x a)) \<and>
    (\<forall>x. x \<noteq> c \<longrightarrow> heap_inv w F s x \<longrightarrow> heap_inv w F s' x)"
proof -
  obtain sls where sls: "free_pcb_all c s = Some (put_slots w sls (dead c s))" "set sls = owned s c" "distinct sls"
    by (rule free_pcb_all_user [OF assms(1,3-5)])
  let ?s = "put_slots w sls (dead c s)"
  have inv: "vm_inv w F ?s" "vbyte w ?s = vbyte w (dead c s)"
    using put_slots_inv [of w F sls "dead c s"] dead_inv [OF assms(1)] sls(2,3) by simp_all
  have vb: "vbyte w ?s x a = (if x = c then None else vbyte w s x a)" for x a
    using inv(2) vbyte_dead [OF vm_invD(1) [OF assms(1)]] by simp
  have free: "set (free_fp_list (devs ?s (dev_of w d))) = set (free_fp_list (devs s (dev_of w d))) \<union> {f. (d, f) \<in> owned s c}" for d
    using put_slots_free [of "dead c s" w sls d] assms(2) vm_invD(4) [OF assms(1)] sls(2)
    by (force simp: of_device_def)
  have dist: "distinct (free_fp_list (devs ?s (dev_of w d)))" for d
    using vm_invD(2) [OF inv(1)] by (auto simp: devices_ok_def dev_of_def)
  have "heap_inv w F ?s x" if "x \<noteq> c" "heap_inv w F s x" for x
    by (rule heap_inv_keep [OF that(2) inv(1)])
      (use that(1) vb in \<open>simp_all add: caller_mm_def caller_krnl_def dead_def\<close>)
  moreover have "pcbs ?s = (pcbs s)(c := None)" by (simp add: dead_def)
  ultimately show ?thesis using sls(1) inv(1) vb free dist by blast
qed

text \<open>Process 1 with page 2 in frame 0, in the address space that \<open>init_mm\<close> sets up.\<close>

lemma demo_exit:
  obtains s m where "vm_inv 1 {} s" "host_ok (sy_host s)" "caller_mm s 1 = Some m" "user_only m" "tidy s"
    "user_slot s 1 2 = Some (False, 0)" "free_fp_list (devs s 0) = [1]"
proof -
  have t0: "tidy demo_heap"
    by (auto simp: tidy_def demo_heap_def demo_sys_caller demo_mm_def split: if_splits)
  have h: "vm_inv 1 {} demo_heap" using demo_heap_inv(1) by (auto simp: heap_inv_def)
  have fl: "free_fp_list (devs demo_heap 0) = [0, 1]" by (simp add: demo_heap_def demo_sys_def demo_ram_def)
  then have "dev_get_freefp (Some (dev_of 1 False)) demo_heap = (Some 0, with_free 0 [1] demo_heap)"
    by (simp add: dev_get_freefp_def MEMPHY_get_freefp_def dev_of_def with_free_def)
  note i = dev_get_freefp_inv [OF h this]
  let ?s = "with_free 0 [1] demo_heap"
  have t1: "tidy ?s" using t0 by (simp add: with_free_def)
  obtain r s where e: "pte_set_entry ?s 1 2 (pte_of_fpn 0) = (r, s)" by (cases "pte_set_entry ?s 1 2 (pte_of_fpn 0)")
  note pe = pte_set_entry_props [OF vm_invD(1) [OF i(1)] e]
  obtain m0 where m0: "caller_mm ?s 1 = Some m0" "user_only m0"
    by (simp add: demo_heap_def demo_sys_caller demo_mm_def user_only_def no_rg_def is_kernel_vaddr_range_def)
  have hk: "host_ok (sy_host ?s)" using demo_heap_inv(3) by simp
  have r: "r = 0" "host_ok (sy_host s)" using pe(8) [OF hk] small_page_user [of 2] m0(1) by auto
  have up: "user_page 2" using small_page_user [of 2] by (simp add: user_page_def)
  have "user_slot demo_heap 1 2 = None"
    using no_table_slot [OF vm_invD(1) [OF h]] by (simp add: demo_heap_def demo_sys_caller demo_mm_def)
  then have "user_slot ?s 1 2 = None" using i(3) by simp
  with set_slot_inv(1) [OF i(1) insertI1 e [unfolded r] up slot_of_entries(2) refl]
  have "vm_inv 1 {} s" by simp
  moreover have "user_slot s 1 2 = Some (False, 0)"
    using user_slot_set_entry [OF vm_invD(1) [OF i(1)] e [unfolded r] up, of 1 2] slot_of_entries(2) [of 0] by simp
  moreover obtain m where "caller_mm s 1 = Some m" "user_only m"
  proof -
    have "user_only m'" if "m'\<lparr>mm_pgd := None\<rparr> = m0\<lparr>mm_pgd := None\<rparr>" for m'
    proof -
      have "user_only (x\<lparr>mm_pgd := None\<rparr>) = user_only x" for x by (simp add: user_only_def)
      with that m0(2) show ?thesis by metis
    qed
    then show ?thesis using that forget_ptD(5) [OF pe(2), of 1] m0(1) by (cases "caller_mm s 1") auto
  qed
  moreover have "tidy s" using tidy.keep_pte_set(1) [OF e] t1 by simp
  moreover have "free_fp_list (devs s 0) = [1]" by (simp add: forget_ptD(2) [OF pe(2)])
  ultimately show thesis using r(2) that by blast
qed

theorem exit_returns_memory_witness:
  "\<exists>s s'. user_slot s 1 2 = Some (False, 0) \<and> free_fp_list (devs s 0) = [1] \<and> free_pcb_all 1 s = Some s' \<and>
     vm_inv 1 {} s' \<and> {0, 1} \<subseteq> set (free_fp_list (devs s' 0)) \<and> pcbs s' 1 = None"
proof -
  obtain s m where s: "vm_inv 1 {} s" "host_ok (sy_host s)" "caller_mm s 1 = Some m" "user_only m" "tidy s"
    "user_slot s 1 2 = Some (False, 0)" "free_fp_list (devs s 0) = [1]" by (rule demo_exit)
  obtain s' where s': "free_pcb_all 1 s = Some s'" "vm_inv 1 {} s'" "pcbs s' = (pcbs s)(1 := None)"
    "\<And>d. set (free_fp_list (devs s' (dev_of 1 d))) = set (free_fp_list (devs s (dev_of 1 d))) \<union> {f. (d, f) \<in> owned s 1}"
    using exit_returns_memory [OF s(1-5)] by blast
  have "0 \<in> {f. (False, f) \<in> owned s 1}" using s(6) by (auto simp: owned_def)
  then have "{0, 1} \<subseteq> set (free_fp_list (devs s' 0))" using s'(4) [of False] s(7) by (auto simp: dev_of_def)
  with s(6,7) s' show ?thesis by auto
qed

end
