(* ===== verification/Spec2Isabelle.thy ===== *)
theory Spec2Isabelle
  imports Kernel_Cache Kernel_Copy Timer Sys_Io Simulation Config Loader Log Trace Segment_Mem Fifo_Sched
    Paging32 Exit
begin

text \<open>
  A verification development of ossim, a simulator of an operating system in C: several CPU threads run
  processes whose instructions allocate, read and write memory; a multi-level queue scheduler hands out the
  processes; virtual memory has five-level page tables of 64-bit entries, a RAM and swap devices; a timer thread
  keeps the threads in lockstep. The configuration modelled is the one of include/os-cfg.h: \<open>MLQ_SCHED\<close>,
  \<open>MM_PAGING\<close> and \<open>MM64\<close> are defined, \<open>MM_FIXED_MEMSZ\<close> is not. The code that the other choices select is
  in theories of its own: \<open>Fifo_Sched\<close> (no \<open>MLQ_SCHED\<close>), \<open>Segment_Mem\<close> (no \<open>MM_PAGING\<close>) and
  \<open>Paging32\<close> (no \<open>MM64\<close>).

  \<^bold>\<open>Parts of the program and theories\<close>

  \<^item> \<open>OS_Prelude\<close>: C integers (\<open>addr\<close> is a 64-bit word, \<open>int\<close> is kept in 32-bit range with the conversions
    written out), the host allocator as a stream of answers, generic lemmas.
  \<^item> \<open>Proc_Queue\<close>: the bounded array queue of src/queue.c, a refinement of a FIFO list (locale
    \<open>bounded_fifo\<close>).
  \<^item> \<open>Os_Types\<close>: the structures of include/common.h and include/os-mm.h as records and datatypes.
  \<^item> \<open>Sched_Spec\<close>: the interface of a scheduler (locale \<open>ready_scheduler\<close>, extended by \<open>fifo_scheduler\<close>), in
    which conservation of processes and the order of a single queue are proved once for any run of operations.
  \<^item> \<open>Mlq_Sched\<close>: src/sched.c, an instance of \<open>ready_scheduler\<close>. Every operation with its failures; well-formedness, choice of the best priority
    with budget in both passes of the dispatcher and the slot it is charged, no starvation (with an explicit bound on the number of dispatches).
  \<^item> \<open>Fifo_Sched\<close>: the other branch of src/sched.c, one ready queue, an instance of \<open>fifo_scheduler\<close>.
  \<^item> \<open>Paging64\<close>: the layout of addresses and page-table entries (include/mm64.h, the first part of
    src/mm64.c) on 64-bit words; round trips and bounds.
  \<^item> \<open>Memphy\<close>: src/mm-memphy.c, devices as byte arrays with a free list of frames (locale \<open>byte_device\<close>).
  \<^item> \<open>Sys_State\<close>, \<open>Page_Table\<close>: the global state (scheduler, PCBs by address, devices, kernel root tables, host
    allocator), the page-table walk and the entry operations of src/mm64.c (locales \<open>page_map\<close>,
    \<open>total_page_map\<close>).
  \<^item> \<open>Frame_Swap\<close>: eviction, swap-in and byte access (src/mm64.c, \<open>pg_*\<close> of src/libmem.c). The invariant
    \<open>vm_inv\<close> says that every page of every process owns a frame or swap slot of its own; \<open>vbyte\<close> is the
    abstract memory, one partial byte array per process, which eviction does not change. \<open>victims\<close> are the pages that
    the search for a victim can find; eviction succeeds if there is one and a swap slot for it.
  \<^item> \<open>Vm_Area\<close>: src/mm-vm.c and the mapping of ranges of src/mm64.c; first fit over the free list (locale
    \<open>region_pool\<close>). \<open>frames_avail\<close> counts the frames a process can get, free or by eviction.
  \<^item> \<open>Sys_Call\<close>, \<open>Sys_Io\<close>: src/syscall.c, src/sys_mem.c and the other handlers, src/libstd.c.
  \<^item> \<open>Libmem\<close>, \<open>Heap\<close>: \<open>__alloc\<close>, \<open>__free\<close>, \<open>__read\<close>, \<open>__write\<close> of src/libmem.c. The invariant
    \<open>heap_inv\<close> of a process: regions of the symbol table and free regions are disjoint and cover mapped bytes.
    \<open>free_bytes\<close> are the bytes on its free lists, \<open>books_kept\<close> says that areas, symbol tables and scheduler stay.
  \<^item> \<open>Kmem\<close>, \<open>Kernel_Memory\<close>, \<open>Kernel_Cache\<close>, \<open>Kernel_Copy\<close>: the kernel part of src/libmem.c: contiguous frames,
    direct mapping, \<open>kmalloc\<close>, cache pools, copies between the two halves (locale \<open>copy_ports\<close>), release at the
    end of a process.
  \<^item> \<open>Mem_Keeps\<close>, \<open>Proc_Shape\<close>, \<open>Tidy\<close>: what no memory operation can break. The locale \<open>memory_invariant\<close> carries
    a property of the state through every operation of the libraries; it is interpreted on the shape of the PCBs
    and on tidy page tables.
  \<^item> \<open>Cpu\<close>: src/cpu.c. Every instruction keeps the shape of every PCB; user instructions are isolated.
  \<^item> \<open>Os\<close>, \<open>Os_Start\<close>: src/os.c, the turn of a CPU thread, the loader thread, the start of the program, which
    establishes the invariants, and the end of a process.
  \<^item> \<open>Timer\<close>: src/timer.c as an interleaving of atomic steps of the timer thread and the devices; lockstep,
    progress and termination of the timer thread.
  \<^item> \<open>Simulation\<close>: all CPU threads and the loader thread over the shared state, interleaved at the critical sections
    of the scheduler (\<open>sim_step\<close>). Next to the state of the program it records, for each loaded program, the states
    before and after each of its instructions; the record has no influence on the execution.
  \<^item> \<open>Exit\<close>: the end of a process. The recursive walk of \<open>pcb_memph_collect_recursive\<close> is one pass over the entries
    of the page table, each of which is the entry of one page; so what it gives back is what the process owned.
  \<^item> \<open>Scan\<close>, \<open>Loader\<close>, \<open>Config\<close>: the conversions of stdio that the program uses (locale \<open>number_format\<close>),
    src/loader.c and \<open>read_config\<close> of src/os.c, each as the inverse of a printer.
  \<^item> \<open>Log\<close>, \<open>Trace\<close>: src/log.c, and the trace output of src/libmem.c, src/mm64.c and src/mm-memphy.c as text.
  \<^item> \<open>Segment_Mem\<close>: the obsolete memory of src/mem.c and the instructions of src/cpu.c over it.
  \<^item> \<open>Paging32\<close>: src/mm.c with the macros of include/mm.h and include/bitops.h; encoding of entries, split of
    addresses, the macro \<open>NBITS\<close> as a logarithm.

  \<^bold>\<open>Conventions\<close>

  A pointer to a PCB is a number, \<open>NULL\<close> is 0. Lists of nodes that nothing else points to are HOL lists. A
  function that can fault (null pointer, access outside an array, use of uninitialised memory as a pointer) has an
  option type with \<open>None\<close> for the fault; error codes are values. A failing \<open>malloc\<close> is an answer of the host
  allocator; theorems that need memory assume \<open>host_ok\<close>, that it always answers. Memory that the program reads
  before it writes it is a parameter (\<open>junk\<close>). An operation under a lock is one step; where a step
  is coarser than the locks is said below. Messages are left
  out of the operations; what they print is in \<open>Log\<close> and \<open>Trace\<close>.

  No definition uses fuel: loops are recursion on lists or have a termination proof. Device sizes are below 2 GiB
  in the theorems about devices because \<open>maxsz\<close> is an \<open>int\<close>; \<open>Memphy\<close> shows what happens above.

  \<^bold>\<open>What is shown\<close>

  From the start of the program (\<open>start_establishes_invariant\<close>) through the loader (\<open>load_process_ready\<close>)
  and the user instructions (\<open>run_isolated\<close>) the memory of the processes is a family of separate byte arrays; the
  scheduler starves and loses nobody; under every interleaving a process is in one place (\<open>process_exclusive\<close>),
  page tables stay tidy (\<open>page_tables_tidy\<close>) and
  the instructions of every program are executed in order, each once (\<open>instructions_executed_once\<close>); at the end of a process its frames and swap
  slots are free again and nothing else has changed (\<open>exit_returns_memory\<close>). Several theorems show behaviour that the
  code does not mean to have: \<open>inc_vma_limit_hides_failure\<close>, \<open>cache_regions_overlap\<close>, \<open>idle_cpu_never_stops\<close>,
  \<open>device_size_limit\<close>, \<open>read_config_path_overrun\<close>.

  \<^bold>\<open>Not modelled\<close>

  src/paging.c is a test driver. \<open>pthread\<close> calls are the interleaving of steps; the joins of \<open>main\<close> have no
  counterpart but \<open>idle_cpu_never_stops\<close>.

  The steps of \<open>Simulation\<close> are coarser than the locks of the code: one step executes a whole instruction, loads a
  whole process, or ends a process with the release of its memory. The code does not make these atomic: \<open>mmvm_lock\<close> is
  held in sections of src/libmem.c only, \<open>__alloc\<close> drops it around the system call that grows the area, and
  src/sys_mem.c takes no lock. Executions in which two threads change memory at the same time are therefore not covered. The
  statements about queues and CPUs (\<open>process_exclusive\<close>) do not depend on this, since no memory operation touches the
  queues (\<open>Proc_Shape\<close>), nor does the form of single page-table entries (\<open>page_tables_tidy\<close>), each of which is stored
  in one assignment. \<open>instructions_executed_once\<close> describes the effect of an instruction on the shared state as that of the
  instruction executed alone.

  For a process that holds kernel memory at its
  end, the release of one kernel region is shown (\<open>kernel_region_round_trip\<close>), but not of all of them together.
\<close>

end
